(* ===== verification/Prelude.thy ===== *)
theory Prelude
  imports Main "HOL-Library.Word"
begin

text \<open>
  Shared vocabulary of the development: the C integer types, the result type of a kernel
  operation with its sequencing and loop combinators, the calculus the component proofs use,
  and the named collections of rewrite rules.
\<close>

unbundle bit_operations_syntax

section \<open>Integer types\<close>

text \<open>
  The unsigned types of \<^verbatim>\<open>kernel/types.h\<close> are words of their width, so arithmetic
  wraps. A C \<^verbatim>\<open>int\<close> is an \<^typ>\<open>int\<close>; where a counter can reach the edge of its range
  the result is passed through \<open>c_int\<close>, the two's complement wrap to 32 bits.
\<close>

type_synonym uint8 = "8 word"
type_synonym uint16 = "16 word"
type_synonym uint32 = "32 word"
type_synonym uint64 = "64 word"

definition c_int :: "int \<Rightarrow> int" where
  "c_int x = signed_take_bit 31 x"

lemma c_int_id: "- (2 ^ 31) \<le> x \<Longrightarrow> x < 2 ^ 31 \<Longrightarrow> c_int x = x"
  by (simp add: c_int_def signed_take_bit_int_eq_self)

lemma c_int_range: "- (2 ^ 31) \<le> c_int x" "c_int x < 2 ^ 31"
  by (simp_all only: c_int_def signed_take_bit_int_greater_eq_minus_exp signed_take_bit_int_less_exp)

section \<open>Outcomes of kernel operations\<close>

text \<open>
  A kernel operation takes the machine state and ends in one of five ways: it returns a value
  and a state; it calls \<^verbatim>\<open>panic\<close> with a message; it spins for ever on a spinlock
  that is already taken; it gives up the processor through \<^verbatim>\<open>sched\<close>, in which case
  the state at the context switch is what the scheduler and the other kernel threads go on from;
  or it does something C leaves undefined, such as writing past the end of an array, after which
  nothing is known.
\<close>

datatype ('a, 's) outcome = Ret 'a 's | Panic string | Spin | Swtch 's | Undef

definition kbind :: "('a, 's) outcome \<Rightarrow> ('a \<Rightarrow> 's \<Rightarrow> ('b, 's) outcome) \<Rightarrow> ('b, 's) outcome" where
  "kbind m f = (case m of Ret x s \<Rightarrow> f x s | Panic e \<Rightarrow> Panic e | Spin \<Rightarrow> Spin | Swtch s \<Rightarrow> Swtch s | Undef \<Rightarrow> Undef)"

lemma kbind_simps [simp]:
  "kbind (Ret x s) f = f x s"
  "kbind (Panic e) f = Panic e"
  "kbind Spin f = Spin"
  "kbind (Swtch s) f = Swtch s"
  "kbind Undef f = Undef"
  by (simp_all add: kbind_def)

lemma kbind_cong [fundef_cong]:
  "m = m' \<Longrightarrow> (\<And>x s. m' = Ret x s \<Longrightarrow> f x s = g x s) \<Longrightarrow> kbind m f = kbind m' g"
  by (cases m') auto

lemma kbind_assoc: "kbind (kbind m f) g = kbind m (\<lambda>x s. kbind (f x s) g)"
  by (cases m) auto

lemma kbind_eq_Ret:
  "kbind m f = Ret y t \<longleftrightarrow> (\<exists>x s. m = Ret x s \<and> f x s = Ret y t)"
  by (cases m) auto

text \<open>Total correctness: the operation returns, and its result satisfies the postcondition.\<close>

definition returns :: "('a, 's) outcome \<Rightarrow> ('a \<Rightarrow> 's \<Rightarrow> bool) \<Rightarrow> bool" where
  "returns m P = (case m of Ret x s \<Rightarrow> P x s | _ \<Rightarrow> False)"

lemma returns_simps [simp]:
  "returns (Ret x s) P = P x s"
  "returns (Panic e) P = False"
  "returns Spin P = False"
  "returns (Swtch s) P = False"
  "returns Undef P = False"
  "returns (kbind m f) P = returns m (\<lambda>x s. returns (f x s) P)"
  by (simp_all add: returns_def kbind_def split: outcome.splits)

lemma returns_iff: "returns m P \<longleftrightarrow> (\<exists>x s. m = Ret x s \<and> P x s)"
  by (cases m) auto

lemma returns_mono: "returns m P \<Longrightarrow> (\<And>x s. P x s \<Longrightarrow> Q x s) \<Longrightarrow> returns m Q"
  by (cases m) auto

section \<open>Loops\<close>

text \<open>
  A counted loop runs its body on each index in order. \<open>kfor\<close> is a loop without an
  early exit; \<open>kfirst\<close> is a loop whose body may leave it by \<^verbatim>\<open>break\<close> or
  \<^verbatim>\<open>return\<close>, with the value that leaves it.
\<close>

fun kfor :: "('i \<Rightarrow> 's \<Rightarrow> (unit, 's) outcome) \<Rightarrow> 'i list \<Rightarrow> 's \<Rightarrow> (unit, 's) outcome" where
  "kfor body [] s = Ret () s"
| "kfor body (i # is) s = kbind (body i s) (\<lambda>_ s. kfor body is s)"

fun kfirst :: "('i \<Rightarrow> 's \<Rightarrow> ('a option, 's) outcome) \<Rightarrow> 'i list \<Rightarrow> 's \<Rightarrow> ('a option, 's) outcome" where
  "kfirst body [] s = Ret None s"
| "kfirst body (i # is) s =
     kbind (body i s) (\<lambda>r s. case r of None \<Rightarrow> kfirst body is s | Some x \<Rightarrow> Ret (Some x) s)"

text \<open>A loop whose body never fails computes the fold of its effect.\<close>

lemma kfor_fold:
  assumes "\<And>i s. i \<in> set is \<Longrightarrow> P s \<Longrightarrow> body i s = Ret () (f i s) \<and> P (f i s)"
    and "P s"
  shows "kfor body is s = Ret () (fold f is s) \<and> P (fold f is s)"
  using assms
  by (induction "is" arbitrary: s) auto

lemma kfor_append: "kfor body (is @ js) s = kbind (kfor body is s) (\<lambda>_ s. kfor body js s)"
  by (induction "is" arbitrary: s) (auto simp: kbind_assoc intro!: kbind_cong)

text \<open>A loop with an early exit that passes over a prefix without an effect and then leaves.\<close>

lemma kfirst_skip:
  assumes "\<And>i. i \<in> set is \<Longrightarrow> body i s = Ret None s"
  shows "kfirst body is s = Ret None s"
  using assms by (induction "is") auto

lemma kfirst_append:
  "kfirst body (is @ js) s =
     kbind (kfirst body is s) (\<lambda>r s. case r of None \<Rightarrow> kfirst body js s | Some x \<Rightarrow> Ret (Some x) s)"
  by (induction "is" arbitrary: s) (auto simp: kbind_assoc intro!: kbind_cong split: option.splits)

lemma upt_split3: "i < n \<Longrightarrow> [0..<n] = [0..<i] @ i # [Suc i..<n]"
  by (metis less_imp_le_nat upt_add_eq_append upt_conv_Cons zero_le le_add_diff_inverse)

lemma kfirst_upt_found:
  assumes "i < n" and "\<And>j. j < i \<Longrightarrow> body j s = Ret None s" and "body i s = Ret (Some x) t"
  shows "kfirst body [0..<n] s = Ret (Some x) t"
proof -
  have "kfirst body [0..<i] s = Ret None s"
    by (rule kfirst_skip) (simp add: assms(2))
  then show ?thesis
    by (simp add: upt_split3 [OF assms(1)] kfirst_append assms(3))
qed

text \<open>The least index below a bound that satisfies a predicate.\<close>

fun first_idx :: "(nat \<Rightarrow> bool) \<Rightarrow> nat list \<Rightarrow> nat option" where
  "first_idx P [] = None"
| "first_idx P (i # is) = (if P i then Some i else first_idx P is)"

lemma first_idx_None: "first_idx P is = None \<longleftrightarrow> (\<forall>i \<in> set is. \<not> P i)"
  by (induction "is") auto

lemma first_idx_append:
  "first_idx P (xs @ ys) = (case first_idx P xs of None \<Rightarrow> first_idx P ys | Some x \<Rightarrow> Some x)"
  by (induction xs) auto

lemma first_idx_upt_Some:
  "first_idx P [0..<n] = Some i \<longleftrightarrow> i < n \<and> P i \<and> (\<forall>j < i. \<not> P j)"
proof (induction n arbitrary: i)
  case 0
  then show ?case by simp
next
  case (Suc n)
  show ?case
  proof (cases "first_idx P [0..<n]")
    case None
    then have "\<forall>j < n. \<not> P j" by (simp add: first_idx_None)
    with None show ?thesis by (auto simp: first_idx_append less_Suc_eq)
  next
    case (Some k)
    then have k: "k < n \<and> P k \<and> (\<forall>j < k. \<not> P j)" using Suc.IH [of k] by simp
    from Some have "first_idx P [0..<Suc n] = Some k" by (simp add: first_idx_append)
    moreover have "k = i" if "P i" "\<forall>j < i. \<not> P j"
      using that k linorder_neqE_nat by blast
    ultimately show ?thesis using k by auto
  qed
qed

text \<open>A search loop whose body decides each index alone stops at the least hit.\<close>

lemma kfirst_first_idx:
  assumes "\<And>i. i \<in> set is \<Longrightarrow> body i s = (if P i then Ret (Some (v i)) (t i) else Ret None s)"
  shows "kfirst body is s =
     (case first_idx P is of None \<Rightarrow> Ret None s | Some i \<Rightarrow> Ret (Some (v i)) (t i))"
  using assms by (induction "is") auto

section \<open>Words and naturals\<close>

lemma unat_of_nat_lt: "n < 2 ^ LENGTH('a::len) \<Longrightarrow> unat (of_nat n :: 'a word) = n"
  by (simp add: unat_of_nat)

lemma unat_eq_iff_of_nat:
  "n < 2 ^ LENGTH('a::len) \<Longrightarrow> unat (w :: 'a word) = n \<longleftrightarrow> w = of_nat n"
  by (metis of_nat_unat ucast_id unat_of_nat_lt)

lemma unat_sub_eq_iff:
  "n < 2 ^ LENGTH('a::len) \<Longrightarrow> unat (x - (d :: 'a word)) = n \<longleftrightarrow> x = d + of_nat n"
  by (simp add: unat_eq_iff_of_nat algebra_simps)

lemma word_of_nat_unat [simp]: "of_nat (unat (w :: 'a::len word)) = w"
  by (metis of_nat_unat ucast_id)

lemma unat_lt_2p: "unat (w :: 'a::len word) < 2 ^ LENGTH('a)"
  by (rule unsigned_less)

lemma unat_ucast_up:
  "LENGTH('a::len) \<le> LENGTH('b::len) \<Longrightarrow> unat (ucast (w :: 'a word) :: 'b word) = unat w"
  by (simp add: unsigned_ucast_eq take_bit_nat_eq_self unsigned_less order.strict_trans2 [OF unsigned_less])

section \<open>Byte arrays\<close>

text \<open>
  A C byte array inside a structure is a function from offsets to bytes. Only the offsets the
  code touches matter; nothing is assumed about the others.
\<close>

type_synonym bytes = "nat \<Rightarrow> uint8"

named_theorems kstate_defs \<open>definitions that unfold to plain updates of the machine state\<close>
named_theorems lock_defs \<open>definitions of the lock predicates and of the lock state changes\<close>

end
