(* ===== verification/Spinlock.thy ===== *)
theory Spinlock
  imports Prelude
begin

text \<open>
  The processor state and the spinlocks of \<^verbatim>\<open>kernel/spinlock.c\<close>: per-hart interrupt
  enable bit, nesting depth and saved enable bit, and every spinlock of the kernel by name;
  and what entering and leaving a critical section does to that state.
\<close>

section \<open>Processors and locks\<close>

text \<open>
  The spinlocks of the kernel. A lock inside an array of structures carries the index of its
  structure; a pipe is identified by the page that holds it.
\<close>

datatype lockid =
    KmemLk | PidLk | WaitLk | ProcLk nat | SemTabLk | SemEventLk | SemLk nat | TicksLk
  | BcacheLk | BufLk nat | ItableLk | InodeLk nat | LogLk | FtableLk | PipeLk uint64
  | ConsLk | TxLk | PrLk | VdiskLk

text \<open>\<^verbatim>\<open>struct spinlock\<close>: the lock word is only ever 0 or 1; the owner is a hart or null.\<close>

record spinlock =
  locked :: bool
  lname :: string
  lcpu :: "nat option"

text \<open>\<^verbatim>\<open>struct cpu\<close>, less the register context that \<^verbatim>\<open>swtch.S\<close> saves.\<close>

record cpu =
  cproc :: "nat option"
  noff :: int
  intena :: bool

record mach =
  hart :: nat
  sie :: "nat \<Rightarrow> bool"
  cpus :: "nat \<Rightarrow> cpu"
  locks :: "lockid \<Rightarrow> spinlock"

definition cpuid :: "'z mach_scheme \<Rightarrow> nat" where
  "cpuid s = hart s"

definition mycpu :: "'z mach_scheme \<Rightarrow> cpu" where
  "mycpu s = cpus s (cpuid s)"

definition set_mycpu :: "(cpu \<Rightarrow> cpu) \<Rightarrow> 'z mach_scheme \<Rightarrow> 'z mach_scheme" where
  "set_mycpu f s = s\<lparr>cpus := (cpus s)(hart s := f (cpus s (hart s)))\<rparr>"

definition set_lock :: "lockid \<Rightarrow> (spinlock \<Rightarrow> spinlock) \<Rightarrow> 'z mach_scheme \<Rightarrow> 'z mach_scheme" where
  "set_lock lk f s = s\<lparr>locks := (locks s)(lk := f (locks s lk))\<rparr>"

definition intr_get :: "'z mach_scheme \<Rightarrow> bool" where
  "intr_get s = sie s (hart s)"

definition intr_on :: "'z mach_scheme \<Rightarrow> 'z mach_scheme" where
  "intr_on s = s\<lparr>sie := (sie s)(hart s := True)\<rparr>"

definition intr_off :: "'z mach_scheme \<Rightarrow> 'z mach_scheme" where
  "intr_off s = s\<lparr>sie := (sie s)(hart s := False)\<rparr>"

definition push_off :: "'z mach_scheme \<Rightarrow> 'z mach_scheme" where
  "push_off s =
     (let old = intr_get s;
          s = intr_off s;
          s = (if noff (mycpu s) = 0 then set_mycpu (\<lambda>c. c\<lparr>intena := old\<rparr>) s else s)
      in set_mycpu (\<lambda>c. c\<lparr>noff := noff c + 1\<rparr>) s)"

definition pop_off :: "'z mach_scheme \<Rightarrow> (unit, 'z mach_scheme) outcome" where
  "pop_off s =
     (if intr_get s then Panic ''pop_off - interruptible''
      else if noff (mycpu s) < 1 then Panic ''pop_off''
      else
        let s = set_mycpu (\<lambda>c. c\<lparr>noff := noff c - 1\<rparr>) s
        in Ret () (if noff (mycpu s) = 0 \<and> intena (mycpu s) then intr_on s else s))"

definition initlock :: "lockid \<Rightarrow> string \<Rightarrow> 'z mach_scheme \<Rightarrow> 'z mach_scheme" where
  "initlock lk nm s = set_lock lk (\<lambda>_. \<lparr>locked = False, lname = nm, lcpu = None\<rparr>) s"

definition holding :: "lockid \<Rightarrow> 'z mach_scheme \<Rightarrow> bool" where
  "holding lk s = (locked (locks s lk) \<and> lcpu (locks s lk) = Some (cpuid s))"

text \<open>
  The steps of \<^verbatim>\<open>acquire\<close>: entry, one atomic exchange of the lock word (which tells
  whether the word was clear), and the owner note. An exchange that finds the word set is
  repeated; with no other hart running in between it is repeated for ever.
\<close>

definition acquire_enter :: "lockid \<Rightarrow> 'z mach_scheme \<Rightarrow> (unit, 'z mach_scheme) outcome" where
  "acquire_enter lk s =
     (let s = push_off s in if holding lk s then Panic ''acquire'' else Ret () s)"

definition lock_exchange :: "lockid \<Rightarrow> 'z mach_scheme \<Rightarrow> bool \<times> 'z mach_scheme" where
  "lock_exchange lk s = (locked (locks s lk), set_lock lk (\<lambda>l. l\<lparr>locked := True\<rparr>) s)"

definition acquire_note :: "lockid \<Rightarrow> 'z mach_scheme \<Rightarrow> 'z mach_scheme" where
  "acquire_note lk s = set_lock lk (\<lambda>l. l\<lparr>lcpu := Some (cpuid s)\<rparr>) s"

definition acquire :: "lockid \<Rightarrow> 'z mach_scheme \<Rightarrow> (unit, 'z mach_scheme) outcome" where
  "acquire lk s =
     kbind (acquire_enter lk s) (\<lambda>_ s.
       case lock_exchange lk s of (busy, s) \<Rightarrow>
         if busy then Spin else Ret () (acquire_note lk s))"

text \<open>The steps of \<^verbatim>\<open>release\<close>: clear the owner, clear the lock word, undo the nesting.\<close>

definition release_note :: "lockid \<Rightarrow> 'z mach_scheme \<Rightarrow> (unit, 'z mach_scheme) outcome" where
  "release_note lk s =
     (if \<not> holding lk s then Panic ''release''
      else Ret () (set_lock lk (\<lambda>l. l\<lparr>lcpu := None\<rparr>) s))"

definition release_store :: "lockid \<Rightarrow> 'z mach_scheme \<Rightarrow> 'z mach_scheme" where
  "release_store lk s = set_lock lk (\<lambda>l. l\<lparr>locked := False\<rparr>) s"

definition release :: "lockid \<Rightarrow> 'z mach_scheme \<Rightarrow> (unit, 'z mach_scheme) outcome" where
  "release lk s = kbind (release_note lk s) (\<lambda>_ s. pop_off (release_store lk s))"

lemmas mach_defs [kstate_defs] =
  cpuid_def mycpu_def set_mycpu_def set_lock_def intr_get_def intr_on_def intr_off_def

section \<open>Critical sections\<close>

text \<open>
  \<open>lock_free\<close> is the state of a lock nobody holds. \<open>intr_ok\<close> says that outside
  every critical section the saved enable bit agrees with the current one, so that entering and
  leaving a section restores the machine exactly.
\<close>

definition lock_free :: "'z mach_scheme \<Rightarrow> lockid \<Rightarrow> bool" where
  "lock_free s lk = (\<not> locked (locks s lk) \<and> lcpu (locks s lk) = None)"

definition intr_ok :: "'z mach_scheme \<Rightarrow> bool" where
  "intr_ok s = (if noff (mycpu s) = 0 then intena (mycpu s) = intr_get s
                else 0 < noff (mycpu s) \<and> \<not> intr_get s)"

text \<open>The state inside a section, as one update of the state outside it.\<close>

definition acq :: "lockid \<Rightarrow> 'z mach_scheme \<Rightarrow> 'z mach_scheme" where
  "acq lk s = set_lock lk (\<lambda>l. l\<lparr>locked := True, lcpu := Some (hart s)\<rparr>) (push_off s)"

lemma push_off_explicit:
  "push_off s = s\<lparr>sie := (sie s)(hart s := False),
     cpus := (cpus s)(hart s := (cpus s (hart s))\<lparr>
       intena := (if noff (cpus s (hart s)) = 0 then sie s (hart s) else intena (cpus s (hart s))),
       noff := noff (cpus s (hart s)) + 1\<rparr>)\<rparr>"
  by (cases "noff (cpus s (hart s)) = 0")
    (auto simp: push_off_def Let_def mach_defs intro!: mach.equality cpu.equality)

lemma acq_explicit:
  "acq lk s = s\<lparr>sie := (sie s)(hart s := False),
     cpus := (cpus s)(hart s := (cpus s (hart s))\<lparr>
       intena := (if noff (cpus s (hart s)) = 0 then sie s (hart s) else intena (cpus s (hart s))),
       noff := noff (cpus s (hart s)) + 1\<rparr>),
     locks := (locks s)(lk := (locks s lk)\<lparr>locked := True, lcpu := Some (hart s)\<rparr>)\<rparr>"
  by (simp add: acq_def push_off_explicit set_lock_def)

lemma acquire_free:
  "lock_free s lk \<Longrightarrow> acquire lk s = Ret () (acq lk s)"
  by (simp add: acquire_def acquire_enter_def acquire_note_def lock_exchange_def holding_def Let_def
      lock_free_def acq_explicit push_off_explicit mach_defs)

lemma acquire_held_panics:
  "holding lk s \<Longrightarrow> acquire lk s = Panic ''acquire''"
  by (simp add: acquire_def acquire_enter_def holding_def Let_def push_off_explicit mach_defs)

lemma acquire_busy_spins:
  "locked (locks s lk) \<Longrightarrow> lcpu (locks s lk) \<noteq> Some (hart s) \<Longrightarrow> acquire lk s = Spin"
  by (simp add: acquire_def acquire_enter_def lock_exchange_def holding_def Let_def push_off_explicit mach_defs)

lemma release_not_held_panics:
  "\<not> holding lk s \<Longrightarrow> release lk s = Panic ''release''"
  by (simp add: release_def release_note_def)

text \<open>Leaving a section: the exact state after \<^verbatim>\<open>release\<close>.\<close>

definition rel :: "lockid \<Rightarrow> 'z mach_scheme \<Rightarrow> 'z mach_scheme" where
  "rel lk s = s\<lparr>locks := (locks s)(lk := (locks s lk)\<lparr>lcpu := None, locked := False\<rparr>),
     cpus := (cpus s)(hart s := (cpus s (hart s))\<lparr>noff := noff (cpus s (hart s)) - 1\<rparr>),
     sie := (if noff (cpus s (hart s)) = 1 \<and> intena (cpus s (hart s)) then (sie s)(hart s := True) else sie s)\<rparr>"

lemma release_held:
  "holding lk s \<Longrightarrow> \<not> sie s (hart s) \<Longrightarrow> 0 < noff (cpus s (hart s)) \<Longrightarrow> release lk s = Ret () (rel lk s)"
  by (auto simp: release_def release_note_def release_store_def pop_off_def holding_def Let_def rel_def mach_defs)

lemma rel_acq:
  assumes "lock_free s lk" and "intr_ok s"
  shows "rel lk (acq lk s) = s"
proof -
  have l: "(locks s)(lk := (locks s lk)\<lparr>lcpu := None, locked := False\<rparr>) = locks s"
    using assms(1) by (intro fun_upd_idem) (simp add: lock_free_def)
  have c: "(cpus s)(hart s := (cpus s (hart s))\<lparr>intena :=
      if noff (cpus s (hart s)) = 0 then sie s (hart s) else intena (cpus s (hart s))\<rparr>) = cpus s"
    using assms(2) by (intro fun_upd_idem) (auto simp: intr_ok_def mach_defs)
  show ?thesis
    using assms(2) l c
    by (auto simp: rel_def acq_explicit intr_ok_def mach_defs fun_upd_idem_iff split: if_splits)
qed

text \<open>
  Leaving a section whose body did not touch the processor state or the locks restores them,
  whatever the body did to the rest of the state.
\<close>

lemma release_after:
  assumes "lock_free s lk" "intr_ok s"
    "hart t = hart s" "sie t = sie (acq lk s)" "cpus t = cpus (acq lk s)" "locks t = locks (acq lk s)"
  shows "release lk t = Ret () (t\<lparr>sie := sie s, cpus := cpus s, locks := locks s\<rparr>)"
proof -
  have "release lk t = Ret () (rel lk t)"
    using assms by (intro release_held) (auto simp: holding_def acq_explicit mach_defs intr_ok_def split: if_splits)
  moreover have "rel lk t = t\<lparr>sie := sie s, cpus := cpus s, locks := locks s\<rparr>"
  proof -
    have eq: "rel lk (acq lk s) = s" by (rule rel_acq [OF assms(1,2)])
    have "sie (rel lk t) = sie (rel lk (acq lk s))" "cpus (rel lk t) = cpus (rel lk (acq lk s))"
      "locks (rel lk t) = locks (rel lk (acq lk s))"
      using assms(3-6) by (simp_all add: rel_def acq_explicit)
    with eq show ?thesis by (auto simp: rel_def intro!: mach.equality)
  qed
  ultimately show ?thesis by simp
qed

lemma intr_ok_acq: "intr_ok s \<Longrightarrow> intr_ok (acq lk s)"
  by (auto simp: intr_ok_def acq_explicit mach_defs split: if_splits)

lemma lock_free_acq: "lock_free (acq lk s) lk' \<longleftrightarrow> lk' \<noteq> lk \<and> lock_free s lk'"
  by (auto simp: lock_free_def acq_explicit)

end
