(* ===== verification/Cstring.thy ===== *)
theory Cstring
  imports Prelude
begin

text \<open>
  Byte memory, little-endian access to it, and the string routines of
  \<^verbatim>\<open>kernel/string.c\<close>. Physical memory is a function from 64-bit addresses to bytes;
  the kernel maps it one to one, so a kernel pointer is a physical address.
\<close>

section \<open>Little-endian words\<close>

primrec le_load :: "nat \<Rightarrow> bytes \<Rightarrow> 'w::len word" where
  "le_load 0 f = 0"
| "le_load (Suc k) f = ucast (f 0) OR push_bit 8 (le_load k (\<lambda>i. f (Suc i)))"

definition le_byte :: "'w::len word \<Rightarrow> nat \<Rightarrow> uint8" where
  "le_byte w i = ucast (drop_bit (8 * i) w)"

lemma bit_le_load:
  "bit (le_load k f :: 'w::len word) n \<longleftrightarrow> n < LENGTH('w) \<and> n < 8 * k \<and> bit (f (n div 8)) (n mod 8)"
proof (induction k arbitrary: f n)
  case 0
  then show ?case by simp
next
  case (Suc k)
  show ?case
  proof (cases "n < 8")
    case True
    then show ?thesis by (auto simp: bit_simps)
  next
    case False
    then have "n div 8 = Suc ((n - 8) div 8)" and "n mod 8 = (n - 8) mod 8"
      by (simp_all add: le_div_geq le_mod_geq)
    with False show ?thesis
      by (auto simp: bit_simps Suc dest: bit_imp_le_length)
  qed
qed

lemma le_byte_load:
  assumes "i < k" and "8 * k \<le> LENGTH('w::len)"
  shows "le_byte (le_load k f :: 'w word) i = f i"
proof (rule bit_word_eqI)
  fix n
  assume n: "n < LENGTH(8)"
  then have "(8 * i + n) div 8 = i" and "(8 * i + n) mod 8 = n" by simp_all
  moreover from n assms have "8 * i + n < 8 * k" by simp
  ultimately show "bit (le_byte (le_load k f :: 'w word) i) n = bit (f i) n"
    using n assms by (simp add: le_byte_def bit_simps bit_le_load add.commute)
qed

lemma le_load_byte:
  assumes "LENGTH('w::len) \<le> 8 * k"
  shows "le_load k (le_byte w) = (w :: 'w word)"
proof (rule bit_word_eqI)
  fix n
  assume n: "n < LENGTH('w)"
  have "8 * (n div 8) + n mod 8 = n" by simp
  with n assms show "bit (le_load k (le_byte w) :: 'w word) n = bit w n"
    by (simp add: bit_le_load le_byte_def bit_simps)
qed

lemma le_load_cong:
  assumes "\<And>i. i < k \<Longrightarrow> f i = g i"
  shows "le_load k f = (le_load k g :: 'w::len word)"
  using assms
proof (induction k arbitrary: f g)
  case 0
  show ?case by simp
next
  case (Suc k)
  have "le_load k (\<lambda>i. f (Suc i)) = (le_load k (\<lambda>i. g (Suc i)) :: 'w word)"
    by (rule Suc.IH) (simp add: Suc.prems)
  then show ?case by (simp only: le_load.simps Suc.prems [OF zero_less_Suc])
qed

section \<open>Physical memory\<close>

type_synonym physmem = "uint64 \<Rightarrow> uint8"

definition load64 :: "physmem \<Rightarrow> uint64 \<Rightarrow> uint64" where
  "load64 m a = le_load 8 (\<lambda>i. m (a + of_nat i))"

definition store64 :: "physmem \<Rightarrow> uint64 \<Rightarrow> uint64 \<Rightarrow> physmem" where
  "store64 m a v = (\<lambda>x. if x - a < 8 then le_byte v (unat (x - a)) else m x)"

lemma load64_cong:
  "(\<And>x. x - a < 8 \<Longrightarrow> m x = m' x) \<Longrightarrow> load64 m a = load64 m' a"
  unfolding load64_def
  by (rule le_load_cong) (simp add: word_less_nat_alt unat_of_nat take_bit_nat_eq_self)

lemma load64_store64_same [simp]: "load64 (store64 m a v) a = v"
proof -
  have "load64 (store64 m a v) a = le_load 8 (le_byte v)"
    unfolding load64_def store64_def
    by (rule le_load_cong) (simp add: word_less_nat_alt unat_of_nat take_bit_nat_eq_self)
  then show ?thesis by (simp add: le_load_byte)
qed

text \<open>Two regions are apart when neither start lies inside the other.\<close>

definition apart :: "uint64 \<Rightarrow> nat \<Rightarrow> uint64 \<Rightarrow> nat \<Rightarrow> bool" where
  "apart a n b k = (\<forall>x. \<not> (unat (x - a) < n \<and> unat (x - b) < k))"

lemma load64_store64_apart:
  "apart a 8 b 8 \<Longrightarrow> load64 (store64 m a v) b = load64 m b"
  by (rule load64_cong) (auto simp: store64_def apart_def word_less_nat_alt)

lemma apart_commute: "apart a n b k = apart b k a n"
  by (auto simp: apart_def)

section \<open>The routines of string.c\<close>

text \<open>
  \<^verbatim>\<open>memset\<close> stores the low byte of its second argument. The length is the value of the
  unsigned argument.
\<close>

definition memset :: "('p::semiring_1 \<Rightarrow> uint8) \<Rightarrow> 'p \<Rightarrow> int \<Rightarrow> nat \<Rightarrow> ('p \<Rightarrow> uint8)" where
  "memset m dst c n = fold (\<lambda>i m. m(dst + of_nat i := word_of_int c)) [0..<n] m"

text \<open>\<^verbatim>\<open>memcmp\<close> on two objects: the difference of the first bytes that differ.\<close>

fun memcmp :: "bytes \<Rightarrow> nat \<Rightarrow> bytes \<Rightarrow> nat \<Rightarrow> nat \<Rightarrow> int" where
  "memcmp v1 i v2 j 0 = 0"
| "memcmp v1 i v2 j (Suc n) =
     (if v1 i \<noteq> v2 j then uint (v1 i) - uint (v2 j) else memcmp v1 (Suc i) v2 (Suc j) n)"

text \<open>The two copying loops of \<^verbatim>\<open>memmove\<close> and the choice between them.\<close>

fun copy_backward :: "physmem \<Rightarrow> uint64 \<Rightarrow> uint64 \<Rightarrow> nat \<Rightarrow> physmem" where
  "copy_backward m d s 0 = m"
| "copy_backward m d s (Suc n) = copy_backward (m(d - 1 := m (s - 1))) (d - 1) (s - 1) n"

fun copy_forward :: "physmem \<Rightarrow> uint64 \<Rightarrow> uint64 \<Rightarrow> nat \<Rightarrow> physmem" where
  "copy_forward m d s 0 = m"
| "copy_forward m d s (Suc n) = copy_forward (m(d := m s)) (d + 1) (s + 1) n"

definition memmove :: "physmem \<Rightarrow> uint64 \<Rightarrow> uint64 \<Rightarrow> uint32 \<Rightarrow> physmem" where
  "memmove m dst src n =
     (if n = 0 then m
      else if src < dst \<and> dst < src + ucast n
      then copy_backward m (dst + ucast n) (src + ucast n) (unat n)
      else copy_forward m dst src (unat n))"

text \<open>
  \<^verbatim>\<open>memmove\<close> between memory and an array inside a kernel structure, which occupy
  different places: \<open>n\<close> bytes from offset \<open>o\<close> of the array to memory, and back.
\<close>

definition store_bytes :: "physmem \<Rightarrow> uint64 \<Rightarrow> bytes \<Rightarrow> nat \<Rightarrow> nat \<Rightarrow> physmem" where
  "store_bytes m d src off n = (\<lambda>x. if unat (x - d) < n then src (off + unat (x - d)) else m x)"

definition load_bytes :: "bytes \<Rightarrow> nat \<Rightarrow> physmem \<Rightarrow> uint64 \<Rightarrow> nat \<Rightarrow> bytes" where
  "load_bytes dst off m a n = (\<lambda>i. if off \<le> i \<and> i < off + n then m (a + of_nat (i - off)) else dst i)"

text \<open>
  \<^verbatim>\<open>memmove\<close> between two arrays of the kernel, and the 16- and 32-bit fields of a structure
  that lies over an array.
\<close>

definition copy_bytes :: "bytes \<Rightarrow> nat \<Rightarrow> bytes \<Rightarrow> nat \<Rightarrow> nat \<Rightarrow> bytes" where
  "copy_bytes dst off src soff n = (\<lambda>i. if off \<le> i \<and> i < off + n then src (soff + (i - off)) else dst i)"

definition get16 :: "bytes \<Rightarrow> nat \<Rightarrow> uint16" where
  "get16 d k = le_load 2 (\<lambda>i. d (k + i))"

definition put16 :: "bytes \<Rightarrow> nat \<Rightarrow> uint16 \<Rightarrow> bytes" where
  "put16 d k v = (\<lambda>i. if k \<le> i \<and> i < k + 2 then le_byte v (i - k) else d i)"

definition get32 :: "bytes \<Rightarrow> nat \<Rightarrow> uint32" where
  "get32 d k = le_load 4 (\<lambda>i. d (k + i))"

definition put32 :: "bytes \<Rightarrow> nat \<Rightarrow> uint32 \<Rightarrow> bytes" where
  "put32 d k v = (\<lambda>i. if k \<le> i \<and> i < k + 4 then le_byte v (i - k) else d i)"

definition get64 :: "bytes \<Rightarrow> nat \<Rightarrow> uint64" where
  "get64 d k = le_load 8 (\<lambda>i. d (k + i))"

lemma get_put_same [simp]:
  "get16 (put16 d k v) k = v" "get32 (put32 d k w) k = w"
proof -
  have "le_load 2 (\<lambda>i. put16 d k v (k + i)) = (le_load 2 (le_byte v) :: uint16)"
    by (rule le_load_cong) (simp add: put16_def)
  then show "get16 (put16 d k v) k = v" by (simp add: get16_def le_load_byte)
  have "le_load 4 (\<lambda>i. put32 d k w (k + i)) = (le_load 4 (le_byte w) :: uint32)"
    by (rule le_load_cong) (simp add: put32_def)
  then show "get32 (put32 d k w) k = w" by (simp add: get32_def le_load_byte)
qed

lemma get_put_apart:
  "k + 2 \<le> k' \<or> k' + 2 \<le> k \<Longrightarrow> get16 (put16 d k v) k' = get16 d k'"
  "k + 4 \<le> k' \<or> k' + 4 \<le> k \<Longrightarrow> get32 (put32 d k w) k' = get32 d k'"
  "k + 2 \<le> k' \<or> k' + 4 \<le> k \<Longrightarrow> get32 (put16 d k v) k' = get32 d k'"
  "k + 4 \<le> k' \<or> k' + 2 \<le> k \<Longrightarrow> get16 (put32 d k w) k' = get16 d k'"
  unfolding get16_def get32_def
  by (rule le_load_cong; auto simp: put16_def put32_def)+

definition memcpy :: "physmem \<Rightarrow> uint64 \<Rightarrow> uint64 \<Rightarrow> uint32 \<Rightarrow> physmem" where
  "memcpy m dst src n = memmove m dst src n"

fun strncmp :: "bytes \<Rightarrow> nat \<Rightarrow> bytes \<Rightarrow> nat \<Rightarrow> nat \<Rightarrow> int" where
  "strncmp p i q j 0 = 0"
| "strncmp p i q j (Suc n) =
     (if p i \<noteq> 0 \<and> p i = q j then strncmp p (Suc i) q (Suc j) n
      else uint (p i) - uint (q j))"

text \<open>
  The two copying routines are used between distinct objects: a destination array with a
  position, and a source array with a position. The count is the value of a non-negative
  \<^verbatim>\<open>int\<close>; a negative one copies nothing.
\<close>

fun zero_fill :: "bytes \<Rightarrow> nat \<Rightarrow> nat \<Rightarrow> bytes" where
  "zero_fill s i 0 = s"
| "zero_fill s i (Suc n) = zero_fill (s(i := 0)) (Suc i) n"

fun strncpy :: "bytes \<Rightarrow> nat \<Rightarrow> bytes \<Rightarrow> nat \<Rightarrow> nat \<Rightarrow> bytes" where
  "strncpy s i t j 0 = s"
| "strncpy s i t j (Suc n) =
     (if t j \<noteq> 0 then strncpy (s(i := t j)) (Suc i) t (Suc j) n
      else zero_fill (s(i := 0)) (Suc i) n)"

fun safestrcpy_loop :: "bytes \<Rightarrow> nat \<Rightarrow> bytes \<Rightarrow> nat \<Rightarrow> nat \<Rightarrow> bytes" where
  "safestrcpy_loop s i t j 0 = s(i := 0)"
| "safestrcpy_loop s i t j (Suc n) =
     (if t j \<noteq> 0 then safestrcpy_loop (s(i := t j)) (Suc i) t (Suc j) n
      else s(i := 0, Suc i := 0))"

definition safestrcpy :: "bytes \<Rightarrow> bytes \<Rightarrow> int \<Rightarrow> bytes" where
  "safestrcpy s t n = (if n \<le> 0 then s else safestrcpy_loop s 0 t 0 (nat n - 1))"

text \<open>\<^verbatim>\<open>strlen\<close> scans until a zero byte; \<^const>\<open>None\<close> is a scan that never ends.\<close>

partial_function (option) strlen_from :: "('p::semiring_1 \<Rightarrow> uint8) \<Rightarrow> 'p \<Rightarrow> nat \<Rightarrow> nat option" where
  "strlen_from m s n = (if m (s + of_nat n) = 0 then Some n else strlen_from m s (Suc n))"

definition strlen :: "('p::semiring_1 \<Rightarrow> uint8) \<Rightarrow> 'p \<Rightarrow> nat option" where
  "strlen m s = strlen_from m s 0"

section \<open>What the routines compute\<close>

subsection \<open>Filling and copying memory\<close>

lemma memset_word:
  assumes "n < 2 ^ 64"
  shows "memset m (dst :: uint64) c n = (\<lambda>x. if unat (x - dst) < n then word_of_int c else m x)"
  using assms
proof (induction n)
  case 0
  then show ?case by (simp add: memset_def)
next
  case (Suc n)
  have "memset m dst c (Suc n) = (memset m dst c n)(dst + of_nat n := word_of_int c)"
    by (simp add: memset_def)
  with Suc show ?case
    by (auto simp: fun_eq_iff less_Suc_eq unat_sub_eq_iff)
qed

lemma memset_bytes:
  "memset m (dst :: nat) c n = (\<lambda>x. if dst \<le> x \<and> x < dst + n then word_of_int c else m x)"
  by (induction n) (auto simp: memset_def fun_eq_iff)

text \<open>The region of \<open>n\<close> bytes at \<open>d\<close> holds the old bytes of the region at \<open>s\<close>.\<close>

definition moved :: "physmem \<Rightarrow> uint64 \<Rightarrow> uint64 \<Rightarrow> nat \<Rightarrow> physmem" where
  "moved m d s n = (\<lambda>x. if unat (x - d) < n then m (s + (x - d)) else m x)"

lemma unat_minus_one_less:
  "n < 2 ^ 64 \<Longrightarrow> unat (y - 1 :: uint64) < n \<longleftrightarrow> y \<noteq> 0 \<and> unat y \<le> n"
proof (cases "y = 0")
  case True
  moreover assume "n < 2 ^ 64"
  moreover have "unat (- 1 :: uint64) = 2 ^ 64 - 1" by (simp add: unsigned_minus_1_eq_mask mask_eq_exp_minus_1)
  ultimately show ?thesis by simp
next
  case False
  then have "unat (y - 1) = unat y - 1" and "0 < unat y"
    by (simp_all add: unat_minus_one unat_gt_0)
  with False show ?thesis by auto
qed

lemma copy_forward_moved:
  assumes "d = s \<or> n \<le> unat (d - s)" and "n < 2 ^ 64"
  shows "copy_forward m d s n = moved m d s n"
  using assms
proof (induction n arbitrary: m d s)
  case 0
  then show ?case by (simp add: moved_def)
next
  case (Suc n)
  then have IH: "copy_forward (m(d := m s)) (d + 1) (s + 1) n = moved (m(d := m s)) (d + 1) (s + 1) n"
    by auto
  have "moved (m(d := m s)) (d + 1) (s + 1) n x = moved m d s (Suc n) x" for x
  proof -
    have 1: "unat (x - (d + 1)) < n \<longleftrightarrow> x \<noteq> d \<and> unat (x - d) < Suc n"
      using unat_minus_one_less [of n "x - d"] Suc.prems(2) by (auto simp: algebra_simps less_Suc_eq_le)
    have 2: "s + 1 + (x - (d + 1)) = s + (x - d)" by simp
    have 3: "s + (x - d) \<noteq> d" if "x \<noteq> d" "unat (x - d) < Suc n"
    proof
      assume "s + (x - d) = d"
      then have "x - d = d - s" by (simp add: algebra_simps)
      with that Suc.prems(1) show False by auto
    qed
    show ?thesis
      using 1 2 3 by (auto simp: moved_def)
  qed
  with IH show ?case by (simp add: fun_eq_iff)
qed

lemma copy_backward_moved:
  assumes "d = s \<or> n \<le> unat (s - d)" and "n < 2 ^ 64"
  shows "copy_backward m (d + of_nat n) (s + of_nat n) n = moved m d s n"
  using assms
proof (induction n arbitrary: m)
  case 0
  then show ?case by (simp add: moved_def)
next
  case (Suc n)
  let ?m = "m(d + of_nat n := m (s + of_nat n))"
  have IH: "copy_backward ?m (d + of_nat n) (s + of_nat n) n = moved ?m d s n"
    by (rule Suc.IH) (use Suc.prems in auto)
  have "moved ?m d s n x = moved m d s (Suc n) x" for x
  proof -
    have 1: "x = d + of_nat n \<longleftrightarrow> unat (x - d) = n"
      using Suc.prems(2) by (simp add: unat_sub_eq_iff)
    have 2: "s + (x - d) \<noteq> d + of_nat n" if "unat (x - d) < n"
    proof
      assume "s + (x - d) = d + of_nat n"
      then have "s - d + (x - d) = of_nat n" by (simp add: algebra_simps)
      then have eq: "s - d = of_nat n - (x - d)" by (simp add: algebra_simps)
      have "unat (of_nat n - (x - d) :: uint64) = n - unat (x - d)"
        using that Suc.prems(2) by (simp add: unat_sub word_le_nat_alt unat_of_nat_lt)
      then have "unat (s - d) = n - unat (x - d)" by (simp only: eq)
      with that Suc.prems(1) show False by (cases "s = d") simp_all
    qed
    show ?thesis
    proof (cases "unat (x - d) = n")
      case True
      with 1 have x: "x = d + of_nat n" by simp
      show ?thesis unfolding moved_def using True by (simp add: x)
    next
      case False
      with 1 2 show ?thesis by (simp add: moved_def less_Suc_eq)
    qed
  qed
  then have eq: "moved ?m d s n = moved m d s (Suc n)" by (rule ext)
  have bk: "a + of_nat (Suc n) - 1 = a + of_nat n" for a :: uint64 by simp
  show ?case
    unfolding copy_backward.simps bk IH by (rule eq)
qed

lemma memmove_moved:
  assumes "unat src + unat n < 2 ^ 64"
  shows "memmove m dst src n = moved m dst src (unat n)"
proof -
  let ?k = "unat n"
  have k32: "?k < 2 ^ 32" using unat_lt_2p [of n] by simp
  then have k: "?k < 2 ^ 64" by simp
  have sum: "unat (src + ucast n) = unat src + ?k"
    using assms by (simp add: unat_word_ariths unat_ucast_up)
  consider "n = 0" | (bwd) "n \<noteq> 0" "src < dst \<and> dst < src + ucast n"
    | (fwd) "n \<noteq> 0" "\<not> (src < dst \<and> dst < src + ucast n)" by blast
  then show ?thesis
  proof cases
    case 1
    then show ?thesis by (simp add: memmove_def moved_def)
  next
    case bwd
    then have lt: "unat src < unat dst" "unat dst < unat src + ?k"
      using sum by (simp_all add: word_less_nat_alt)
    with k32 have "?k \<le> unat (src - dst)"
      by (simp add: unat_sub_if')
    then have "copy_backward m (dst + of_nat ?k) (src + of_nat ?k) ?k = moved m dst src ?k"
      using k by (intro copy_backward_moved) simp_all
    with bwd show ?thesis by (simp add: memmove_def)
  next
    case fwd
    then consider "unat dst \<le> unat src" | "unat src + ?k \<le> unat dst"
      using sum by (auto simp: word_less_nat_alt not_less)
    then have "dst = src \<or> ?k \<le> unat (dst - src)"
    proof cases
      case 1
      then show ?thesis
      proof (cases "src = dst")
        case False
        with 1 have "unat dst < unat src" by (metis le_neq_implies_less word_unat_eq_iff)
        with assms show ?thesis by (intro disjI2) (simp add: unat_sub_if')
      qed simp
    next
      case 2
      then show ?thesis by (intro disjI2) (simp add: unat_sub_if')
    qed
    then have "copy_forward m dst src ?k = moved m dst src ?k"
      using k by (intro copy_forward_moved)
    with fwd show ?thesis by (simp only: memmove_def if_False simp_thms)
  qed
qed

subsection \<open>Strings\<close>

text \<open>\<open>is_cstr t k\<close>: the array \<open>t\<close> holds a string of \<open>k\<close> bytes before its first zero byte.\<close>

definition is_cstr :: "bytes \<Rightarrow> nat \<Rightarrow> bool" where
  "is_cstr t k = (t k = 0 \<and> (\<forall>i < k. t i \<noteq> 0))"

lemma safestrcpy_loop_spec:
  "\<exists>k \<le> n. (\<forall>x < k. t (j + x) \<noteq> 0 \<and> safestrcpy_loop s i t j n (i + x) = t (j + x)) \<and>
     safestrcpy_loop s i t j n (i + k) = 0 \<and> (k = n \<or> t (j + k) = 0) \<and>
     (\<forall>x. x < i \<or> i + n < x \<longrightarrow> safestrcpy_loop s i t j n x = s x)"
proof (induction s i t j n rule: safestrcpy_loop.induct)
  case (1 s i t j)
  show ?case by simp
next
  case (2 s i t j n)
  show ?case
  proof (cases "t j = 0")
    case True
    then show ?thesis by (intro exI [of _ 0]) auto
  next
    case False
    let ?r = "safestrcpy_loop (s(i := t j)) (Suc i) t (Suc j) n"
    obtain k where k: "k \<le> n" "\<forall>x < k. t (Suc j + x) \<noteq> 0 \<and> ?r (Suc i + x) = t (Suc j + x)"
        "?r (Suc i + k) = 0" "k = n \<or> t (Suc j + k) = 0"
        "\<forall>x. x < Suc i \<or> Suc i + n < x \<longrightarrow> ?r x = (s(i := t j)) x"
      using "2.IH" [OF False] by blast
    have "t (j + x) \<noteq> 0 \<and> ?r (i + x) = t (j + x)" if "x < Suc k" for x
      using that k(2,5) False by (cases x) auto
    moreover have "?r x = s x" if "x < i \<or> i + Suc n < x" for x
      using that k(5) by auto
    ultimately show ?thesis
      using k(1,3,4) False by (intro exI [of _ "Suc k"]) auto
  qed
qed

lemma safestrcpy_cstr:
  assumes "0 < n"
  shows "\<exists>k < nat n. is_cstr (safestrcpy s t n) k \<and> (\<forall>i < k. safestrcpy s t n i = t i) \<and>
     (k = nat n - 1 \<or> is_cstr t k)"
proof -
  have "\<exists>k \<le> nat n - 1. (\<forall>x < k. t x \<noteq> 0 \<and> safestrcpy s t n x = t x) \<and>
      safestrcpy s t n k = 0 \<and> (k = nat n - 1 \<or> t k = 0)"
    using assms safestrcpy_loop_spec [where n = "nat n - 1" and t = t and j = 0 and s = s and i = 0]
    by (auto simp: safestrcpy_def)
  then obtain k where "k \<le> nat n - 1" "\<forall>x < k. t x \<noteq> 0 \<and> safestrcpy s t n x = t x"
      "safestrcpy s t n k = 0" "k = nat n - 1 \<or> t k = 0" by blast
  with assms show ?thesis
    by (intro exI [of _ k]) (auto simp: is_cstr_def)
qed

lemma safestrcpy_frame: "n \<le> int i \<Longrightarrow> safestrcpy s t n i = s i"
  using safestrcpy_loop_spec [where n = "nat n - 1" and t = t and j = 0 and s = s and i = 0]
  by (auto simp: safestrcpy_def)

lemma zero_fill_at: "zero_fill s i n x = (if i \<le> x \<and> x < i + n then 0 else s x)"
  by (induction n arbitrary: s i) auto

lemma strncpy_at:
  "strncpy s i t j n x = (if i \<le> x \<and> x < i + n
     then (if \<exists>y \<le> x - i. t (j + y) = 0 then 0 else t (j + (x - i))) else s x)"
proof (induction n arbitrary: s i j x)
  case 0
  show ?case by auto
next
  case (Suc n)
  show ?case
  proof (cases "t j = 0")
    case True
    then have "\<exists>y \<le> x - i. t (j + y) = 0" by (intro exI [of _ 0]) simp
    with True show ?thesis by (auto simp: zero_fill_at)
  next
    case False
    show ?thesis
    proof (cases "Suc i \<le> x")
      case True
      then obtain d where d: "x = Suc i + d" using le_Suc_ex by blast
      have ex: "(\<exists>y \<le> Suc d. t (j + y) = 0) \<longleftrightarrow> (\<exists>y \<le> d. t (Suc j + y) = 0)"
        using False by (metis add_0_right add_Suc_right add_Suc not0_implies_Suc Suc_le_mono)
      show ?thesis unfolding d using False ex by (auto simp: Suc.IH)
    next
      case x: False
      with False show ?thesis by (cases "x = i") (auto simp: Suc.IH)
    qed
  qed
qed

lemma strncmp_0_iff:
  "strncmp p i q j n = 0 \<longleftrightarrow> (\<forall>x < n. (\<forall>y < x. p (i + y) \<noteq> 0) \<longrightarrow> p (i + x) = q (j + x))"
proof (induction p i q j n rule: strncmp.induct)
  case (1 p i q j)
  show ?case by simp
next
  case (2 p i q j n)
  have all: "(\<forall>x < Suc k. P x) \<longleftrightarrow> P 0 \<and> (\<forall>x < k. P (Suc x))" for P k
    using less_Suc_eq_0_disj by auto
  show ?case
  proof (cases "p i \<noteq> 0 \<and> p i = q j")
    case True
    with 2 show ?thesis by (simp add: all)
  next
    case False
    then have "strncmp p i q j (Suc n) = 0 \<longleftrightarrow> p i = q j" by (auto simp: word_uint_eq_iff)
    moreover have "p i = q j \<longrightarrow> p i = 0" using False by blast
    ultimately show ?thesis by (auto simp: all)
  qed
qed

lemma strlen_from_cstr:
  assumes "m (s + of_nat k) = 0" and "\<And>i. i < k \<Longrightarrow> m (s + of_nat i) \<noteq> 0" and "n \<le> k"
  shows "strlen_from m s n = Some k"
  using assms(3)
proof (induction "k - n" arbitrary: n)
  case 0
  then show ?case using assms(1) by (subst strlen_from.simps) simp
next
  case (Suc d)
  then have "n < k" and "strlen_from m s (Suc n) = Some k" by simp_all
  then show ?case using assms(2) by (subst strlen_from.simps) simp
qed

lemma strlen_cstr:
  "m (s + of_nat k) = 0 \<Longrightarrow> (\<And>i. i < k \<Longrightarrow> m (s + of_nat i) \<noteq> 0) \<Longrightarrow> strlen m s = Some k"
  by (simp add: strlen_def strlen_from_cstr)

end
