(* ===== verification/Riscv.thy ===== *)
theory Riscv
  imports Prelude
begin

text \<open>
  The constants and address macros of \<^verbatim>\<open>kernel/riscv.h\<close>, \<^verbatim>\<open>kernel/memlayout.h\<close> and
  \<^verbatim>\<open>kernel/param.h\<close>, and the arithmetic of pages and page-table entries they rest on.
\<close>

section \<open>Limits\<close>

definition NPROC :: nat where "NPROC = 64"
definition NCPU :: nat where "NCPU = 8"
definition NOFILE :: nat where "NOFILE = 16"
definition NFILE :: nat where "NFILE = 100"
definition NINODE :: nat where "NINODE = 50"
definition NDEV :: int where "NDEV = 10"
definition ROOTDEV :: uint32 where "ROOTDEV = 1"
definition MAXARG :: nat where "MAXARG = 32"
definition MAXOPBLOCKS :: int where "MAXOPBLOCKS = 10"
definition LOGBLOCKS :: int where "LOGBLOCKS = MAXOPBLOCKS * 3"
definition NBUF :: nat where "NBUF = 30"
definition MAXPATH :: nat where "MAXPATH = 128"

section \<open>Pages and physical memory\<close>

definition PGSIZE :: uint64 where "PGSIZE = 4096"

definition PGROUNDUP :: "uint64 \<Rightarrow> uint64" where
  "PGROUNDUP sz = (sz + PGSIZE - 1) AND NOT (PGSIZE - 1)"

definition PGROUNDDOWN :: "uint64 \<Rightarrow> uint64" where
  "PGROUNDDOWN a = a AND NOT (PGSIZE - 1)"

definition UART0 :: uint64 where "UART0 = 0x10000000"
definition VIRTIO0 :: uint64 where "VIRTIO0 = 0x10001000"
definition PLIC :: uint64 where "PLIC = 0x0c000000"

definition KERNBASE :: uint64 where "KERNBASE = 0x80000000"
definition PHYSTOP :: uint64 where "PHYSTOP = KERNBASE + 128 * 1024 * 1024"

definition MAXVA :: uint64 where "MAXVA = push_bit (9 + 9 + 9 + 12 - 1) 1"
definition TRAMPOLINE :: uint64 where "TRAMPOLINE = MAXVA - PGSIZE"
definition TRAPFRAME :: uint64 where "TRAPFRAME = TRAMPOLINE - PGSIZE"

definition KSTACK :: "nat \<Rightarrow> uint64" where
  "KSTACK p = TRAMPOLINE - (of_nat p + 1) * 2 * PGSIZE"

section \<open>Page-table entries\<close>

definition PTE_V :: uint64 where "PTE_V = push_bit 0 1"
definition PTE_R :: uint64 where "PTE_R = push_bit 1 1"
definition PTE_W :: uint64 where "PTE_W = push_bit 2 1"
definition PTE_X :: uint64 where "PTE_X = push_bit 3 1"
definition PTE_U :: uint64 where "PTE_U = push_bit 4 1"

definition PA2PTE :: "uint64 \<Rightarrow> uint64" where
  "PA2PTE pa = push_bit 10 (drop_bit 12 pa)"

definition PTE2PA :: "uint64 \<Rightarrow> uint64" where
  "PTE2PA pte = push_bit 12 (drop_bit 10 pte)"

definition PTE_FLAGS :: "uint64 \<Rightarrow> uint64" where
  "PTE_FLAGS pte = pte AND 0x3FF"

definition PXSHIFT :: "nat \<Rightarrow> nat" where
  "PXSHIFT level = 12 + 9 * level"

definition PX :: "nat \<Rightarrow> uint64 \<Rightarrow> uint64" where
  "PX level va = drop_bit (PXSHIFT level) va AND 0x1FF"

definition SATP_SV39 :: uint64 where "SATP_SV39 = push_bit 60 8"

definition MAKE_SATP :: "uint64 \<Rightarrow> uint64" where
  "MAKE_SATP pagetable = SATP_SV39 OR drop_bit 12 pagetable"

section \<open>Page arithmetic\<close>

definition aligned :: "uint64 \<Rightarrow> bool" where
  "aligned a = (unat a mod 4096 = 0)"

lemma alignedE:
  assumes "aligned a"
  obtains k where "unat a = 4096 * k"
  using assms by (auto simp: aligned_def elim: dvdE)

definition page_of :: "uint64 \<Rightarrow> nat" where
  "page_of a = unat a div 4096"

lemma PGROUNDDOWN_shift: "PGROUNDDOWN a = push_bit 12 (drop_bit 12 a)"
proof (rule bit_word_eqI)
  fix n
  assume n: "n < LENGTH(64)"
  have "(PGSIZE - 1 :: uint64) = mask 12" by (simp add: PGSIZE_def mask_eq_exp_minus_1)
  with n show "bit (PGROUNDDOWN a) n = bit (push_bit 12 (drop_bit 12 a) :: uint64) n"
    by (auto simp: PGROUNDDOWN_def bit_simps)
qed

lemma unat_PGROUNDDOWN: "unat (PGROUNDDOWN a) = unat a div 4096 * 4096"
proof -
  have "unat a < 2 ^ 64" using unat_lt_2p [of a] by simp
  then have "unat a div 4096 * 4096 < 2 ^ 64" by (simp add: order.strict_trans1 [OF div_times_less_eq_dividend])
  then show ?thesis
    by (simp add: PGROUNDDOWN_shift push_bit_eq_mult drop_bit_eq_div unat_word_ariths unat_div)
qed

lemma aligned_PGROUNDDOWN [simp]: "aligned (PGROUNDDOWN a)"
  by (simp add: aligned_def unat_PGROUNDDOWN)

lemma aligned_unat_le: "aligned a \<Longrightarrow> unat a \<le> 2 ^ 64 - 4096"
proof -
  assume "aligned a"
  then obtain k where k: "unat a = 4096 * k" by (auto simp: aligned_def)
  moreover have "unat a < 2 ^ 64" using unat_lt_2p [of a] by simp
  ultimately have "k < 2 ^ 52" by simp
  then have "k \<le> 2 ^ 52 - 1" by simp
  with k show ?thesis by simp
qed

lemma in_page_iff: "aligned a \<Longrightarrow> unat (x - a) < 4096 \<longleftrightarrow> page_of x = page_of a"
proof -
  assume al: "aligned a"
  then obtain k where k: "unat a = 4096 * k" by (auto simp: aligned_def)
  show ?thesis
  proof (cases "unat a \<le> unat x")
    case True
    then have "unat (x - a) = unat x - 4096 * k" by (simp add: unat_sub_if' k)
    with True k show ?thesis by (auto simp: page_of_def)
  next
    case False
    then have "unat (x - a) = unat x + 2 ^ 64 - unat a" by (simp add: unat_sub_if')
    moreover have "unat x div 4096 < k" using False k by simp
    ultimately show ?thesis using aligned_unat_le [OF al] k by (simp add: page_of_def)
  qed
qed

lemma aligned_page_inj: "aligned a \<Longrightarrow> aligned b \<Longrightarrow> page_of a = page_of b \<longleftrightarrow> a = b"
proof
  assume "aligned a" "aligned b" "page_of a = page_of b"
  then have "unat a = unat b" unfolding aligned_def page_of_def by (metis mult_div_mod_eq)
  then show "a = b" by (simp add: word_unat_eq_iff)
qed simp

lemma not_bit_above:
  assumes "unat (w :: 'a::len word) < 2 ^ k" and "k \<le> i"
  shows "\<not> bit w i"
proof -
  have "unat w < 2 ^ i" using assms by (meson order.strict_trans2 power_increasing one_le_numeral)
  then have "unat (drop_bit i w) = 0"
    by (simp only: unat_drop_bit_eq) (simp add: drop_bit_eq_div)
  then have "drop_bit i w = 0" by (simp add: unat_eq_0)
  then have "\<not> bit (drop_bit i w) 0" by simp
  then show ?thesis by (simp add: bit_drop_bit_eq del: bit_0)
qed

lemma PTE2PA_PA2PTE:
  assumes "aligned pa" and "pa < 2 ^ 56" and "f < 2 ^ 10"
  shows "PTE2PA (PA2PTE pa OR f) = pa"
proof (rule bit_word_eqI)
  fix n
  assume n: "n < LENGTH(64)"
  have f: "\<not> bit f i" if "10 \<le> i" for i
    using that assms(3) by (intro not_bit_above [of _ 10]) (simp_all add: word_less_nat_alt)
  have p: "\<not> bit pa i" if "56 \<le> i" for i
    using that assms(2) by (intro not_bit_above [of _ 56]) (simp_all add: word_less_nat_alt)
  have "take_bit 12 pa = 0"
    using assms(1) by (simp add: aligned_def take_bit_eq_mod word_unat_eq_iff unat_mod_distrib)
  then have l: "\<not> bit pa i" if "i < 12" for i
    using that by (metis bit_0_eq bit_take_bit_iff bot_apply bot_bool_def)
  show "bit (PTE2PA (PA2PTE pa OR f)) n = bit pa n"
    using n f l p
    by (cases "12 \<le> n"; cases "n < 56") (auto simp: PTE2PA_def PA2PTE_def bit_simps)
qed

text \<open>How much of a page is left from an address on.\<close>

lemma unat_page_offset: "unat (a - PGROUNDDOWN a) = unat a mod 4096"
proof -
  have "unat (PGROUNDDOWN a) \<le> unat a" by (simp add: unat_PGROUNDDOWN div_times_less_eq_dividend)
  then have "unat (a - PGROUNDDOWN a) = unat a - unat (PGROUNDDOWN a)" by (simp add: unat_sub_if')
  then show ?thesis by (simp add: unat_PGROUNDDOWN minus_div_mult_eq_mod)
qed

lemma unat_page_rest: "unat (PGSIZE - (a - PGROUNDDOWN a)) = 4096 - unat a mod 4096"
proof -
  have "unat a mod 4096 \<le> 4096" by simp
  then show ?thesis using unat_page_offset [of a] by (simp add: unat_sub_if' PGSIZE_def)
qed

definition page_chunk :: "uint64 \<Rightarrow> uint64 \<Rightarrow> uint64" where
  "page_chunk a len = (let n = PGSIZE - (a - PGROUNDDOWN a) in if len < n then len else n)"

lemma unat_page_chunk: "unat (page_chunk a len) = min (4096 - unat a mod 4096) (unat len)"
  by (simp add: page_chunk_def Let_def unat_page_rest word_less_nat_alt min_def)

lemma page_chunk_less: "0 < len \<Longrightarrow> unat (len - page_chunk a len) < unat len"
proof -
  assume "0 < len"
  then have "0 < unat len" by (simp add: word_less_nat_alt)
  moreover have "unat a mod 4096 < 4096" by simp
  ultimately have "0 < unat (page_chunk a len)" "unat (page_chunk a len) \<le> unat len"
    unfolding unat_page_chunk by linarith+
  then show ?thesis by (simp add: unat_sub_if')
qed

end
