(* ===== verification/Kalloc.thy ===== *)
theory Kalloc
  imports Spinlock Cstring Riscv
begin

text \<open>
  The physical page allocator of \<^verbatim>\<open>kernel/kalloc.c\<close>. The free list is threaded through
  the free pages themselves: the first eight bytes of a free page hold the address of the next.
  The theory states the allocator's contract as a locale over sets of free pages and discharges
  it for the code.
\<close>

section \<open>State and operations\<close>

text \<open>
  \<open>kend\<close> is the linker's symbol \<^verbatim>\<open>end\<close>, the first address after the kernel image;
  \<open>ksyms\<close> holds the other addresses the linker fixes.
\<close>

record ksyms =
  etext :: uint64
  trampoline :: uint64
  uservec :: uint64
  userret :: uint64
  kernelvec :: uint64
  forkret_addr :: uint64
  usertrap_addr :: uint64

record kmem = mach +
  phys :: physmem
  freelist :: uint64
  kend :: uint64
  syms :: ksyms

text \<open>The lock predicates do not look at the allocator's fields.\<close>

lemma kmem_frame [simp]:
  "lock_free (phys_update f s) lk = lock_free s lk"
  "lock_free (freelist_update g s) lk = lock_free s lk"
  "intr_ok (phys_update f s) = intr_ok s"
  "intr_ok (freelist_update g s) = intr_ok s"
  by (simp_all add: lock_free_def intr_ok_def mach_defs)

definition kfree :: "uint64 \<Rightarrow> 'z kmem_scheme \<Rightarrow> (unit, 'z kmem_scheme) outcome" where
  "kfree pa s =
     (if unat pa mod unat PGSIZE \<noteq> 0 \<or> pa < kend s \<or> PHYSTOP \<le> pa then Panic ''kfree''
      else
        let s = s\<lparr>phys := memset (phys s) pa 1 (unat PGSIZE)\<rparr>
        in kbind (acquire KmemLk s) (\<lambda>_ s.
             let s = s\<lparr>phys := store64 (phys s) pa (freelist s)\<rparr>;
                 s = s\<lparr>freelist := pa\<rparr>
             in release KmemLk s))"

definition kalloc :: "'z kmem_scheme \<Rightarrow> (uint64, 'z kmem_scheme) outcome" where
  "kalloc s =
     kbind (acquire KmemLk s) (\<lambda>_ s.
       let r = freelist s;
           s = (if r \<noteq> 0 then s\<lparr>freelist := load64 (phys s) r\<rparr> else s)
       in kbind (release KmemLk s) (\<lambda>_ s.
            Ret r (if r \<noteq> 0 then s\<lparr>phys := memset (phys s) r 5 (unat PGSIZE)\<rparr> else s)))"

text \<open>
  The loop of \<^verbatim>\<open>freerange\<close> steps a pointer by a page. A step past the end of the
  address space would make the loop run for ever; it is an outcome that does not return.
\<close>

function freerange_loop :: "uint64 \<Rightarrow> uint64 \<Rightarrow> 'z kmem_scheme \<Rightarrow> (unit, 'z kmem_scheme) outcome" where
  "freerange_loop p pa_end s =
     (if p + PGSIZE \<le> pa_end then
        if p < p + PGSIZE then kbind (kfree p s) (\<lambda>_ s. freerange_loop (p + PGSIZE) pa_end s)
        else Spin
      else Ret () s)"
  by pat_completeness auto
termination
  by (relation "measure (\<lambda>(p, e, s). unat e - unat p)") (auto simp: word_less_nat_alt word_le_nat_alt)

definition freerange :: "uint64 \<Rightarrow> uint64 \<Rightarrow> 'z kmem_scheme \<Rightarrow> (unit, 'z kmem_scheme) outcome" where
  "freerange pa_start pa_end s = freerange_loop (PGROUNDUP pa_start) pa_end s"

definition kinit :: "'z kmem_scheme \<Rightarrow> (unit, 'z kmem_scheme) outcome" where
  "kinit s = freerange (kend s) PHYSTOP (initlock KmemLk ''kmem'' s)"

declare freerange_loop.simps [simp del]

section \<open>The free list in memory\<close>

text \<open>
  \<open>flist m p xs\<close>: starting at \<open>p\<close> the links in memory \<open>m\<close> visit exactly the pages
  \<open>xs\<close> and end at the null pointer.
\<close>

fun flist :: "physmem \<Rightarrow> uint64 \<Rightarrow> uint64 list \<Rightarrow> bool" where
  "flist m p [] = (p = 0)"
| "flist m p (x # xs) = (p = x \<and> x \<noteq> 0 \<and> flist m (load64 m x) xs)"

definition kpage :: "'z kmem_scheme \<Rightarrow> uint64 \<Rightarrow> bool" where
  "kpage s a = (aligned a \<and> kend s \<le> a \<and> a < PHYSTOP \<and> a \<noteq> 0)"

definition kmem_list :: "'z kmem_scheme \<Rightarrow> uint64 list \<Rightarrow> bool" where
  "kmem_list s xs = (flist (phys s) (freelist s) xs \<and> distinct xs \<and> (\<forall>x \<in> set xs. kpage s x))"

definition kmem_ready :: "'z mach_scheme \<Rightarrow> bool" where
  "kmem_ready s = (lock_free s KmemLk \<and> intr_ok s)"

lemma flist_frame:
  assumes "flist m p xs" and "\<And>x a. x \<in> set xs \<Longrightarrow> unat (a - x) < 8 \<Longrightarrow> m' a = m a"
  shows "flist m' p xs"
  using assms
proof (induction xs arbitrary: p)
  case Nil
  then show ?case by simp
next
  case (Cons x xs)
  have "load64 m' x = load64 m x"
    by (rule load64_cong, rule Cons.prems(2) [of x]) (simp_all add: word_less_nat_alt)
  moreover have "flist m' (load64 m x) xs"
    using Cons.prems by (intro Cons.IH) auto
  ultimately show ?case using Cons.prems(1) by simp
qed

lemma flist_unique: "flist m p xs \<Longrightarrow> flist m p ys \<Longrightarrow> xs = ys"
proof (induction xs arbitrary: p ys)
  case Nil
  then show ?case by (cases ys) auto
next
  case (Cons x xs)
  then show ?case by (cases ys) auto
qed

text \<open>A write inside one page leaves the links in every other page alone.\<close>

lemma flist_other_page:
  assumes "flist m p xs" and "aligned r" and "\<forall>x \<in> set xs. aligned x \<and> x \<noteq> r"
    and "\<And>a. 4096 \<le> unat (a - r) \<Longrightarrow> m' a = m a"
  shows "flist m' p xs"
proof (rule flist_frame [OF assms(1)])
  fix x a
  assume x: "x \<in> set xs" and a: "unat (a - x) < 8"
  then have "page_of a = page_of x" using assms(3) in_page_iff [of x a] by auto
  moreover have "page_of x \<noteq> page_of r" using x assms(2,3) by (simp add: aligned_page_inj)
  ultimately have "4096 \<le> unat (a - r)" using in_page_iff [OF assms(2), of a] by (simp add: not_less)
  then show "m' a = m a" by (rule assms(4))
qed

section \<open>What each operation does\<close>

lemma PGSIZE_unat [simp]: "unat PGSIZE = 4096"
  by (simp add: PGSIZE_def)

lemma kalloc_empty:
  assumes "kmem_ready s" and "freelist s = 0"
  shows "kalloc s = Ret 0 s"
proof -
  have "release KmemLk (acq KmemLk s) = Ret () s"
    using assms(1) by (subst release_after [of s]) (auto simp: kmem_ready_def acq_explicit)
  with assms show ?thesis
    by (simp add: kalloc_def kmem_ready_def acquire_free Let_def) (simp add: acq_explicit)
qed

lemma kalloc_page:
  assumes "kmem_ready s" and "freelist s = r" and "r \<noteq> 0"
  shows "kalloc s = Ret r (s\<lparr>freelist := load64 (phys s) r, phys := memset (phys s) r 5 4096\<rparr>)"
proof -
  have "release KmemLk ((acq KmemLk s)\<lparr>freelist := x\<rparr>) = Ret () (s\<lparr>freelist := x\<rparr>)" for x
    using assms(1) by (subst release_after [of s]) (auto simp: kmem_ready_def acq_explicit)
  with assms show ?thesis
    by (simp add: kalloc_def kmem_ready_def acquire_free Let_def) (simp add: acq_explicit)
qed

lemma kfree_page:
  assumes "kmem_ready s" and "aligned pa" "kend s \<le> pa" "pa < PHYSTOP"
  shows "kfree pa s = Ret () (s\<lparr>phys := store64 (memset (phys s) pa 1 4096) pa (freelist s), freelist := pa\<rparr>)"
proof -
  let ?s = "s\<lparr>phys := memset (phys s) pa 1 4096\<rparr>"
  have "lock_free ?s KmemLk" "intr_ok ?s"
    using assms(1) by (simp_all add: kmem_ready_def)
  then have "acquire KmemLk ?s = Ret () (acq KmemLk ?s)"
    and "release KmemLk ((acq KmemLk ?s)\<lparr>phys := m, freelist := x\<rparr>) = Ret () (?s\<lparr>phys := m, freelist := x\<rparr>)" for m x
    by (simp add: acquire_free, subst release_after [of ?s]) (auto simp: acq_explicit)
  with assms show ?thesis
    by (simp add: kfree_def Let_def aligned_def not_less [symmetric]) (simp add: acq_explicit)
qed

lemma kfree_bad:
  "\<not> aligned pa \<or> pa < kend s \<or> PHYSTOP \<le> pa \<Longrightarrow> kfree pa s = Panic ''kfree''"
  by (auto simp: kfree_def aligned_def)

section \<open>The allocator's contract\<close>

lemma memset_page_far: "4096 \<le> unat (a - r) \<Longrightarrow> memset m (r :: uint64) c 4096 a = m a"
  by (simp add: memset_word)

lemma store64_far: "8 \<le> unat (a - r) \<Longrightarrow> store64 m r v a = m a"
  by (simp add: store64_def word_less_nat_alt)

lemma kpage_updates [simp]:
  "kpage (phys_update f s) = kpage s" "kpage (freelist_update g s) = kpage s"
  by (simp_all add: kpage_def fun_eq_iff)

lemma kmem_ready_updates [simp]:
  "kmem_ready (phys_update f s) = kmem_ready s" "kmem_ready (freelist_update g s) = kmem_ready s"
  by (simp_all add: kmem_ready_def)

lemma kmem_list_alloc:
  assumes "kmem_list s (x # xs)"
  shows "kmem_list (s\<lparr>freelist := load64 (phys s) x, phys := memset (phys s) x 5 4096\<rparr>) xs"
proof -
  have "flist (phys s) (load64 (phys s) x) xs" and al: "aligned x" "\<forall>y \<in> set xs. aligned y \<and> y \<noteq> x"
    using assms by (auto simp: kmem_list_def kpage_def)
  then have "flist (memset (phys s) x 5 4096) (load64 (phys s) x) xs"
    by (rule flist_other_page) (simp add: memset_page_far)
  then show ?thesis using assms by (simp add: kmem_list_def)
qed

lemma kmem_list_free:
  assumes "kmem_list s xs" and "kpage s x" and "x \<notin> set xs"
  shows "kmem_list (s\<lparr>phys := store64 (memset (phys s) x 1 4096) x (freelist s), freelist := x\<rparr>) (x # xs)"
proof -
  let ?m = "store64 (memset (phys s) x 1 4096) x (freelist s)"
  have "flist (phys s) (freelist s) xs" and "aligned x" "\<forall>y \<in> set xs. aligned y \<and> y \<noteq> x"
    using assms by (auto simp: kmem_list_def kpage_def)
  then have "flist ?m (freelist s) xs"
    by (rule flist_other_page) (simp add: memset_page_far store64_far)
  then show ?thesis using assms by (simp add: kmem_list_def kpage_def)
qed

locale page_allocator =
  fixes alloc :: "'s \<Rightarrow> (uint64, 's) outcome"
    and free :: "uint64 \<Rightarrow> 's \<Rightarrow> (unit, 's) outcome"
    and ready :: "'s \<Rightarrow> bool"
    and usable :: "'s \<Rightarrow> uint64 \<Rightarrow> bool"
    and pages :: "'s \<Rightarrow> uint64 list \<Rightarrow> bool"
  assumes alloc_none: "ready s \<Longrightarrow> pages s [] \<Longrightarrow> alloc s = Ret 0 s"
    and alloc_some: "ready s \<Longrightarrow> pages s (x # xs) \<Longrightarrow>
      \<exists>t. alloc s = Ret x t \<and> ready t \<and> pages t xs \<and> usable t = usable s"
    and free_page: "ready s \<Longrightarrow> pages s xs \<Longrightarrow> usable s x \<Longrightarrow> x \<notin> set xs \<Longrightarrow>
      \<exists>t. free x s = Ret () t \<and> ready t \<and> pages t (x # xs) \<and> usable t = usable s"
    and pages_ok: "pages s xs \<Longrightarrow> distinct xs \<and> (\<forall>x \<in> set xs. usable s x)"
    and usable_nonzero: "usable s x \<Longrightarrow> x \<noteq> 0"
begin

fun alloc_many :: "nat \<Rightarrow> 's \<Rightarrow> (uint64 list, 's) outcome" where
  "alloc_many 0 s = Ret [] s"
| "alloc_many (Suc n) s = kbind (alloc s) (\<lambda>x s. kbind (alloc_many n s) (\<lambda>ys s. Ret (x # ys) s))"

text \<open>Any number of allocations that the free pages allow returns the first pages of the list.\<close>

lemma alloc_many_takes:
  "ready s \<Longrightarrow> pages s xs \<Longrightarrow> n \<le> length xs \<Longrightarrow>
   \<exists>t. alloc_many n s = Ret (take n xs) t \<and> ready t \<and> pages t (drop n xs)"
proof (induction n arbitrary: s xs)
  case 0
  then show ?case by simp
next
  case (Suc n)
  then obtain x ys where xs: "xs = x # ys" by (cases xs) auto
  with Suc.prems alloc_some [of s x ys] obtain u where
    u: "alloc s = Ret x u" "ready u" "pages u ys" by blast
  with Suc.IH [of u ys] Suc.prems xs show ?case by auto
qed

lemma alloc_many_distinct:
  assumes "ready s" and "pages s xs" and "n \<le> length xs"
  shows "returns (alloc_many n s) (\<lambda>ys t. length ys = n \<and> distinct ys \<and> 0 \<notin> set ys \<and>
     pages t (drop n xs) \<and> set ys \<inter> set (drop n xs) = {})"
proof -
  obtain t where "alloc_many n s = Ret (take n xs) t" "pages t (drop n xs)"
    using alloc_many_takes [OF assms] by blast
  moreover have "distinct xs" "\<forall>x \<in> set xs. x \<noteq> 0"
    using pages_ok [OF assms(2)] usable_nonzero by auto
  ultimately show ?thesis
    using assms(3) by (auto simp: set_take_disj_set_drop_if_distinct dest: in_set_takeD)
qed

text \<open>A page given back is the next one handed out.\<close>

lemma free_alloc:
  assumes "ready s" and "pages s xs" and "usable s x" and "x \<notin> set xs"
  shows "returns (kbind (free x s) (\<lambda>_ s. alloc s)) (\<lambda>y t. y = x \<and> pages t xs)"
proof -
  obtain t where "free x s = Ret () t" "ready t" "pages t (x # xs)"
    using free_page [OF assms] by blast
  then show ?thesis using alloc_some by fastforce
qed

end

interpretation kpages: page_allocator kalloc kfree kmem_ready kpage kmem_list
proof
  fix s :: "'a kmem_scheme" and x xs
  assume r: "kmem_ready s"
  show "kalloc s = Ret 0 s" if "kmem_list s []"
    using that r by (intro kalloc_empty) (auto simp: kmem_list_def)
  show "\<exists>t. kalloc s = Ret x t \<and> kmem_ready t \<and> kmem_list t xs \<and> kpage t = kpage s" if l: "kmem_list s (x # xs)"
  proof -
    from l have "freelist s = x" "x \<noteq> 0" by (auto simp: kmem_list_def)
    from kalloc_page [OF r this] kmem_list_alloc [OF l] r show ?thesis by simp
  qed
  show "\<exists>t. kfree x s = Ret () t \<and> kmem_ready t \<and> kmem_list t (x # xs) \<and> kpage t = kpage s"
    if l: "kmem_list s xs" "kpage s x" "x \<notin> set xs"
  proof -
    from l(2) have "aligned x" "kend s \<le> x" "x < PHYSTOP" by (auto simp: kpage_def)
    from kfree_page [OF r this] kmem_list_free [OF l] r show ?thesis by simp
  qed
next
  fix s :: "'a kmem_scheme" and xs x
  show "distinct xs \<and> (\<forall>x \<in> set xs. kpage s x)" if "kmem_list s xs"
    using that by (simp add: kmem_list_def)
  show "x \<noteq> 0" if "kpage s x" using that by (simp add: kpage_def)
qed

section \<open>Start-up\<close>

lemma PHYSTOP_unat [simp]: "unat PHYSTOP = 0x88000000"
  by (simp add: PHYSTOP_def KERNBASE_def)

lemma aligned_step:
  assumes "aligned p" and "p < PHYSTOP"
  shows "unat (p + PGSIZE) = unat p + 4096" and "aligned (p + PGSIZE)" and "p + PGSIZE \<le> PHYSTOP"
proof -
  have p: "unat p < 0x88000000" using assms(2) by (simp add: word_less_nat_alt)
  then show s: "unat (p + PGSIZE) = unat p + 4096" by (simp add: unat_word_ariths)
  then show "aligned (p + PGSIZE)" using assms(1) by (simp add: aligned_def)
  from assms(1) obtain k where k: "unat p = 4096 * k" by (auto simp: aligned_def)
  with p have "k \<le> 0x87fff" by simp
  with k s show "p + PGSIZE \<le> PHYSTOP" by (simp add: word_le_nat_alt)
qed

text \<open>
  The loop of \<^verbatim>\<open>freerange\<close> returns and adds exactly the pages between its start and the
  end of memory.
\<close>

lemma freerange_loop_pages:
  assumes "kmem_ready s" and "kmem_list s xs" and "aligned p" and "kend s \<le> p" and "p \<noteq> 0"
    and "p \<le> PHYSTOP" and "\<forall>x \<in> set xs. x < p"
  shows "returns (freerange_loop p PHYSTOP s) (\<lambda>_ t. kend t = kend s \<and> kmem_ready t \<and>
    (\<exists>ys. kmem_list t ys \<and> set ys = set xs \<union> {a. aligned a \<and> p \<le> a \<and> a < PHYSTOP}))"
  using assms
proof (induction "unat PHYSTOP - unat p" arbitrary: p s xs rule: less_induct)
  case less
  show ?case
  proof (cases "p < PHYSTOP")
    case False
    then have "p = PHYSTOP" using less.prems(6) by simp
    moreover have "\<not> PHYSTOP + PGSIZE \<le> PHYSTOP"
      by (simp add: PHYSTOP_def KERNBASE_def PGSIZE_def)
    ultimately show ?thesis
      using less.prems by (subst freerange_loop.simps) auto
  next
    case True
    note st = aligned_step [OF less.prems(3) True]
    then have lt: "p < p + PGSIZE" by (simp add: word_less_nat_alt)
    have "kpage s p" and "p \<notin> set xs" using less.prems True by (auto simp: kpage_def)
    then obtain t where t: "kfree p s = Ret () t" "kmem_ready t" "kmem_list t (p # xs)"
      and "kend t = kend s"
      using kfree_page [OF less.prems(1,3,4) True] kmem_list_free [OF less.prems(2)] less.prems(1)
      by simp
    have "returns (freerange_loop (p + PGSIZE) PHYSTOP t) (\<lambda>_ u. kend u = kend t \<and> kmem_ready u \<and>
        (\<exists>ys. kmem_list u ys \<and> set ys = set (p # xs) \<union> {a. aligned a \<and> p + PGSIZE \<le> a \<and> a < PHYSTOP}))"
    proof (rule less.hyps)
      show "unat PHYSTOP - unat (p + PGSIZE) < unat PHYSTOP - unat p"
        using st(1) True by (simp add: word_less_nat_alt)
      show "p + PGSIZE \<noteq> 0" using lt by auto
      show "\<forall>x \<in> set (p # xs). x < p + PGSIZE" using lt less.prems(7) by auto
      show "kend t \<le> p + PGSIZE" using lt less.prems(4) \<open>kend t = kend s\<close> by simp
    qed (use t st in auto)
    moreover have "set (p # xs) \<union> {a. aligned a \<and> p + PGSIZE \<le> a \<and> a < PHYSTOP} =
        set xs \<union> {a. aligned a \<and> p \<le> a \<and> a < PHYSTOP}"
    proof -
      have "p + PGSIZE \<le> a" if a: "aligned a" "p \<le> a" "a \<noteq> p" for a
      proof -
        obtain j where "unat a = 4096 * j" using a(1) by (rule alignedE)
        moreover obtain k where "unat p = 4096 * k" using less.prems(3) by (rule alignedE)
        moreover have "unat p < unat a" using a(2,3) by (simp add: word_less_nat_alt [symmetric])
        ultimately show ?thesis using st(1) by (simp add: word_le_nat_alt)
      qed
      then show ?thesis using less.prems(3) True lt by auto
    qed
    ultimately show ?thesis
      using st lt t(1) \<open>kend t = kend s\<close> by (subst freerange_loop.simps) simp
  qed
qed

lemma PGROUNDUP_down: "PGROUNDUP a = PGROUNDDOWN (a + 4095)"
  by (simp add: PGROUNDUP_def PGROUNDDOWN_def PGSIZE_def add.commute)

lemma unat_PGROUNDUP:
  assumes "unat a + 4095 < 2 ^ 64"
  shows "unat (PGROUNDUP a) = (unat a + 4095) div 4096 * 4096"
  using assms by (simp add: PGROUNDUP_down unat_PGROUNDDOWN unat_word_ariths)

lemma PGROUNDUP_least:
  assumes "unat a + 4095 < 2 ^ 64" and "aligned b"
  shows "PGROUNDUP a \<le> b \<longleftrightarrow> a \<le> b"
proof -
  from assms(2) obtain k where "unat b = 4096 * k" by (auto simp: aligned_def)
  moreover have "(unat a + 4095) div 4096 \<le> k \<longleftrightarrow> unat a \<le> 4096 * k" by auto
  ultimately show ?thesis using unat_PGROUNDUP [OF assms(1)] by (simp add: word_le_nat_alt)
qed

lemma kinit_pages:
  assumes "intr_ok s" and "freelist s = 0" and "0 < kend s" and "kend s \<le> PHYSTOP"
  shows "returns (kinit s) (\<lambda>_ t. kmem_ready t \<and>
    (\<exists>ys. kmem_list t ys \<and> set ys = {a. aligned a \<and> kend s \<le> a \<and> a < PHYSTOP}))"
proof -
  let ?s = "initlock KmemLk ''kmem'' s"
  have e: "unat (kend s) + 4095 < 2 ^ 64" using assms(4) by (simp add: word_le_nat_alt)
  have al: "aligned PHYSTOP" by (simp add: aligned_def)
  have ge: "kend s \<le> PGROUNDUP (kend s)"
    using PGROUNDUP_least [OF e, of "PGROUNDUP (kend s)"] by (simp add: PGROUNDUP_down)
  have r: "returns (freerange_loop (PGROUNDUP (kend s)) PHYSTOP ?s) (\<lambda>_ t. kend t = kend ?s \<and> kmem_ready t \<and>
    (\<exists>ys. kmem_list t ys \<and> set ys = set [] \<union> {a. aligned a \<and> PGROUNDUP (kend s) \<le> a \<and> a < PHYSTOP}))"
  proof (rule freerange_loop_pages)
    show "kmem_ready ?s" using assms(1)
      by (simp add: kmem_ready_def lock_free_def initlock_def set_lock_def intr_ok_def mach_defs split: if_splits)
    show "kmem_list ?s []" using assms(2) by (simp add: kmem_list_def initlock_def set_lock_def)
    show "PGROUNDUP (kend s) \<le> PHYSTOP" using assms(4) by (simp add: PGROUNDUP_least [OF e al])
    show "PGROUNDUP (kend s) \<noteq> 0" using ge assms(3) by auto
    show "kend ?s \<le> PGROUNDUP (kend s)" using ge by (simp add: initlock_def set_lock_def)
  qed (simp_all add: PGROUNDUP_down)
  have eq: "{a. aligned a \<and> PGROUNDUP (kend s) \<le> a \<and> a < PHYSTOP} = {a. aligned a \<and> kend s \<le> a \<and> a < PHYSTOP}"
    using PGROUNDUP_least [OF e] by blast
  show ?thesis
    unfolding kinit_def freerange_def using r by (rule returns_mono) (simp add: eq)
qed

end
