(* ===== verification/Proc.thy ===== *)
theory Proc
  imports Kalloc
begin

text \<open>
  The process table and the scheduling half of \<^verbatim>\<open>kernel/proc.c\<close>: pid allocation, the
  switch to the scheduler and back, \<^verbatim>\<open>sleep\<close>, \<^verbatim>\<open>wakeup\<close>, \<^verbatim>\<open>wakeup_one\<close>,
  \<^verbatim>\<open>kkill\<close> and \<^verbatim>\<open>killed\<close>. An operation that gives up the processor ends in the
  outcome \<open>Swtch\<close>; what it does when it runs again is a definition of its own, with the
  suffix \<open>_resume\<close>.
\<close>

section \<open>State\<close>

datatype procstate = UNUSED | USED | SLEEPING | RUNNABLE | RUNNING | ZOMBIE

text \<open>
  A wait channel is the address of the object slept on, or null. The objects are distinct, so
  their names stand for their addresses.
\<close>

datatype chan =
    NoChan | ChSem nat | ChTicks | ChProc nat | ChPipeR uint64 | ChPipeW uint64 | ChLog
  | ChSleepLk lockid | ChBuf nat | ChDiskFree | ChCons | ChTx

record swtch_context =
  ctx_ra :: uint64
  ctx_sp :: uint64
  ctx_s :: "nat \<Rightarrow> uint64"

text \<open>
  \<^verbatim>\<open>struct proc\<close>. \<open>sched_intena\<close> is the local variable of \<^verbatim>\<open>sched\<close> that stays on
  the process's kernel stack across the switch. A file or inode pointer is the index of the
  entry in its table.
\<close>

record proc =
  pstate :: procstate
  pchan :: chan
  killed_flag :: int
  xstate :: int
  pid :: int
  parent :: "nat option"
  kstack :: uint64
  sz :: uint64
  pagetable :: uint64
  trapframe :: uint64
  pcontext :: swtch_context
  ofile :: "nat \<Rightarrow> nat option"
  cwd :: "nat option"
  pname :: bytes
  sched_intena :: bool

record procs = kmem +
  proc :: "nat \<Rightarrow> proc"
  nextpid :: int
  initproc :: "nat option"
  ticks :: uint32
  kernel_pagetable :: uint64
  satp :: "nat \<Rightarrow> uint64"

definition set_proc :: "nat \<Rightarrow> (proc \<Rightarrow> proc) \<Rightarrow> 'z procs_scheme \<Rightarrow> 'z procs_scheme" where
  "set_proc i f s = s\<lparr>proc := (proc s)(i := f (proc s i))\<rparr>"

lemma procs_frame [simp]:
  "lock_free (proc_update f s) lk = lock_free s lk"
  "lock_free (nextpid_update g s) lk = lock_free s lk"
  "lock_free (initproc_update h s) lk = lock_free s lk"
  "lock_free (ticks_update k s) lk = lock_free s lk"
  "lock_free (kernel_pagetable_update l s) lk = lock_free s lk"
  "lock_free (satp_update m s) lk = lock_free s lk"
  "intr_ok (proc_update f s) = intr_ok s"
  "intr_ok (nextpid_update g s) = intr_ok s"
  "intr_ok (initproc_update h s) = intr_ok s"
  "intr_ok (ticks_update k s) = intr_ok s"
  "intr_ok (kernel_pagetable_update l s) = intr_ok s"
  "intr_ok (satp_update m s) = intr_ok s"
  "kmem_ready (proc_update f s) = kmem_ready s"
  "kmem_ready (nextpid_update g s) = kmem_ready s"
  "kmem_ready (initproc_update h s) = kmem_ready s"
  "kmem_ready (ticks_update k s) = kmem_ready s"
  by (simp_all add: lock_free_def intr_ok_def kmem_ready_def mach_defs)

section \<open>Operations\<close>

definition procinit :: "'z procs_scheme \<Rightarrow> 'z procs_scheme" where
  "procinit s =
     (let s = initlock PidLk ''nextpid'' s;
          s = initlock WaitLk ''wait_lock'' s
      in fold (\<lambda>i s. set_proc i (\<lambda>p. p\<lparr>pstate := UNUSED, kstack := KSTACK i\<rparr>)
                (initlock (ProcLk i) ''proc'' s)) [0..<NPROC] s)"

definition myproc :: "'z mach_scheme \<Rightarrow> (nat option, 'z mach_scheme) outcome" where
  "myproc s =
     (let s = push_off s; p = cproc (mycpu s)
      in kbind (pop_off s) (\<lambda>_ s. Ret p s))"

text \<open>
  A use of the current process reads through the pointer \<^verbatim>\<open>myproc()\<close> returns. Address
  zero is not mapped, so with no current process the read traps and \<^verbatim>\<open>kerneltrap\<close> panics.
\<close>

definition curproc :: "'z mach_scheme \<Rightarrow> (nat, 'z mach_scheme) outcome" where
  "curproc s = kbind (myproc s) (\<lambda>p s. case p of None \<Rightarrow> Panic ''kerneltrap'' | Some i \<Rightarrow> Ret i s)"

definition allocpid :: "'z procs_scheme \<Rightarrow> (int, 'z procs_scheme) outcome" where
  "allocpid s =
     kbind (acquire PidLk s) (\<lambda>_ s.
       let n = nextpid s; s = s\<lparr>nextpid := c_int (nextpid s + 1)\<rparr>
       in kbind (release PidLk s) (\<lambda>_ s. Ret n s))"

text \<open>The switch to the scheduler and, in \<open>sched_resume\<close>, the return from it.\<close>

definition sched :: "'z procs_scheme \<Rightarrow> (unit, 'z procs_scheme) outcome" where
  "sched s =
     kbind (curproc s) (\<lambda>p s.
       if \<not> holding (ProcLk p) s then Panic ''sched p->lock''
       else if noff (mycpu s) \<noteq> 1 then Panic ''sched locks''
       else if pstate (proc s p) = RUNNING then Panic ''sched RUNNING''
       else if intr_get s then Panic ''sched interruptible''
       else Swtch (set_proc p (\<lambda>q. q\<lparr>sched_intena := intena (mycpu s)\<rparr>) s))"

definition sched_resume :: "nat \<Rightarrow> 'z procs_scheme \<Rightarrow> 'z procs_scheme" where
  "sched_resume p s = set_mycpu (\<lambda>c. c\<lparr>intena := sched_intena (proc s p)\<rparr>) s"

definition yield_resume :: "nat \<Rightarrow> 'z procs_scheme \<Rightarrow> (unit, 'z procs_scheme) outcome" where
  "yield_resume p s = release (ProcLk p) (sched_resume p s)"

definition yield :: "'z procs_scheme \<Rightarrow> (unit, 'z procs_scheme) outcome" where
  "yield s =
     kbind (curproc s) (\<lambda>p s.
     kbind (acquire (ProcLk p) s) (\<lambda>_ s.
       let s = set_proc p (\<lambda>q. q\<lparr>pstate := RUNNABLE\<rparr>) s
       in kbind (sched s) (\<lambda>_ s. yield_resume p s)))"

definition sleep_resume :: "nat \<Rightarrow> lockid \<Rightarrow> 'z procs_scheme \<Rightarrow> (unit, 'z procs_scheme) outcome" where
  "sleep_resume p lk s =
     (let s = sched_resume p s;
          s = set_proc p (\<lambda>q. q\<lparr>pchan := NoChan\<rparr>) s
      in kbind (release (ProcLk p) s) (\<lambda>_ s. acquire lk s))"

definition sleep :: "chan \<Rightarrow> lockid \<Rightarrow> 'z procs_scheme \<Rightarrow> (unit, 'z procs_scheme) outcome" where
  "sleep ch lk s =
     kbind (curproc s) (\<lambda>p s.
     kbind (acquire (ProcLk p) s) (\<lambda>_ s.
     kbind (release lk s) (\<lambda>_ s.
       let s = set_proc p (\<lambda>q. q\<lparr>pchan := ch\<rparr>) s;
           s = set_proc p (\<lambda>q. q\<lparr>pstate := SLEEPING\<rparr>) s
       in kbind (sched s) (\<lambda>_ s. sleep_resume p lk s))))"

text \<open>
  The scheduler loop of one hart. \<open>scheduler_pick\<close> is the body for one table entry: it
  leaves the loop with the entry it switches to, whose lock stays held across the switch.
  \<open>scheduler_back\<close> is what follows when that process gives the processor back, and
  \<open>scheduler_scan\<close> the walk over the table.
\<close>

definition scheduler_pick :: "nat \<Rightarrow> 'z procs_scheme \<Rightarrow> (nat option, 'z procs_scheme) outcome" where
  "scheduler_pick i s =
     kbind (acquire (ProcLk i) s) (\<lambda>_ s.
       if pstate (proc s i) = RUNNABLE then
         let s = set_proc i (\<lambda>q. q\<lparr>pstate := RUNNING\<rparr>) s;
             s = set_mycpu (\<lambda>c. c\<lparr>cproc := Some i\<rparr>) s
         in Ret (Some i) s
       else kbind (release (ProcLk i) s) (\<lambda>_ s. Ret None s))"

definition scheduler_back :: "nat \<Rightarrow> 'z procs_scheme \<Rightarrow> (unit, 'z procs_scheme) outcome" where
  "scheduler_back i s = release (ProcLk i) (set_mycpu (\<lambda>c. c\<lparr>cproc := None\<rparr>) s)"

definition scheduler_scan :: "nat \<Rightarrow> 'z procs_scheme \<Rightarrow> (nat option, 'z procs_scheme) outcome" where
  "scheduler_scan i s = kfirst scheduler_pick [i..<NPROC] s"

definition scheduler_round :: "'z procs_scheme \<Rightarrow> (nat option, 'z procs_scheme) outcome" where
  "scheduler_round s = scheduler_scan 0 (intr_off (intr_on s))"

definition wakeup_body :: "chan \<Rightarrow> nat \<Rightarrow> 'z procs_scheme \<Rightarrow> (unit, 'z procs_scheme) outcome" where
  "wakeup_body ch i s =
     kbind (myproc s) (\<lambda>me s.
       if me \<noteq> Some i then
         kbind (acquire (ProcLk i) s) (\<lambda>_ s.
           let s = (if pstate (proc s i) = SLEEPING \<and> pchan (proc s i) = ch
                    then set_proc i (\<lambda>q. q\<lparr>pstate := RUNNABLE\<rparr>) s else s)
           in release (ProcLk i) s)
       else Ret () s)"

definition wakeup :: "chan \<Rightarrow> 'z procs_scheme \<Rightarrow> (unit, 'z procs_scheme) outcome" where
  "wakeup ch s = kfor (wakeup_body ch) [0..<NPROC] s"

definition wakeup_one_body :: "chan \<Rightarrow> nat \<Rightarrow> 'z procs_scheme \<Rightarrow> (unit option, 'z procs_scheme) outcome" where
  "wakeup_one_body ch i s =
     kbind (myproc s) (\<lambda>me s.
       if me \<noteq> Some i then
         kbind (acquire (ProcLk i) s) (\<lambda>_ s.
           if pstate (proc s i) = SLEEPING \<and> pchan (proc s i) = ch then
             let s = set_proc i (\<lambda>q. q\<lparr>pstate := RUNNABLE\<rparr>) s
             in kbind (release (ProcLk i) s) (\<lambda>_ s. Ret (Some ()) s)
           else kbind (release (ProcLk i) s) (\<lambda>_ s. Ret None s))
       else Ret None s)"

definition wakeup_one :: "chan \<Rightarrow> 'z procs_scheme \<Rightarrow> (unit, 'z procs_scheme) outcome" where
  "wakeup_one ch s = kbind (kfirst (wakeup_one_body ch) [0..<NPROC] s) (\<lambda>_ s. Ret () s)"

definition kkill_body :: "int \<Rightarrow> nat \<Rightarrow> 'z procs_scheme \<Rightarrow> (unit option, 'z procs_scheme) outcome" where
  "kkill_body n i s =
     kbind (acquire (ProcLk i) s) (\<lambda>_ s.
       if pid (proc s i) = n then
         let s = set_proc i (\<lambda>q. q\<lparr>killed_flag := 1\<rparr>) s;
             s = (if pstate (proc s i) = SLEEPING
                  then set_proc i (\<lambda>q. q\<lparr>pstate := RUNNABLE\<rparr>) s else s)
         in kbind (release (ProcLk i) s) (\<lambda>_ s. Ret (Some ()) s)
       else kbind (release (ProcLk i) s) (\<lambda>_ s. Ret None s))"

definition kkill :: "int \<Rightarrow> 'z procs_scheme \<Rightarrow> (int, 'z procs_scheme) outcome" where
  "kkill n s = kbind (kfirst (kkill_body n) [0..<NPROC] s)
     (\<lambda>r s. Ret (case r of Some _ \<Rightarrow> 0 | None \<Rightarrow> - 1) s)"

definition setkilled :: "nat \<Rightarrow> 'z procs_scheme \<Rightarrow> (unit, 'z procs_scheme) outcome" where
  "setkilled p s =
     kbind (acquire (ProcLk p) s) (\<lambda>_ s.
       release (ProcLk p) (set_proc p (\<lambda>q. q\<lparr>killed_flag := 1\<rparr>) s))"

definition killed :: "nat \<Rightarrow> 'z procs_scheme \<Rightarrow> (int, 'z procs_scheme) outcome" where
  "killed p s =
     kbind (acquire (ProcLk p) s) (\<lambda>_ s.
       let k = killed_flag (proc s p)
       in kbind (release (ProcLk p) s) (\<lambda>_ s. Ret k s))"

section \<open>The current process\<close>

lemma push_pop:
  assumes "intr_ok s"
  shows "pop_off (push_off s) = Ret () s"
proof -
  have c: "(cpus s)(hart s := (cpus s (hart s))\<lparr>intena :=
      if noff (cpus s (hart s)) = 0 then sie s (hart s) else intena (cpus s (hart s))\<rparr>) = cpus s"
    using assms by (intro fun_upd_idem) (auto simp: intr_ok_def mach_defs)
  show ?thesis
    using assms c
    by (auto simp: pop_off_def push_off_explicit intr_ok_def Let_def mach_defs fun_upd_idem_iff split: if_splits)
qed

lemma myproc_ok: "intr_ok s \<Longrightarrow> myproc s = Ret (cproc (mycpu s)) s"
  by (simp add: myproc_def push_pop Let_def) (simp add: push_off_explicit mach_defs)

lemma curproc_ok: "intr_ok s \<Longrightarrow> cproc (mycpu s) = Some p \<Longrightarrow> curproc s = Ret p s"
  by (simp add: curproc_def myproc_ok)

lemma curproc_null: "intr_ok s \<Longrightarrow> cproc (mycpu s) = None \<Longrightarrow> curproc s = Panic ''kerneltrap''"
  by (simp add: curproc_def myproc_ok)

section \<open>Waking and killing\<close>

text \<open>A critical section on the lock of one table entry that only touches the table.\<close>

lemma proc_section:
  assumes "lock_free s (ProcLk i)" "intr_ok s"
  shows "acquire (ProcLk i) s = Ret () (acq (ProcLk i) s)"
    and "release (ProcLk i) ((acq (ProcLk i) s)\<lparr>proc := f\<rparr>) = Ret () (s\<lparr>proc := f\<rparr>)"
    and "release (ProcLk i) (acq (ProcLk i) s) = Ret () s"
    and "proc (acq (ProcLk i) s) = proc s"
proof -
  show "acquire (ProcLk i) s = Ret () (acq (ProcLk i) s)" by (simp add: acquire_free assms)
  show "release (ProcLk i) ((acq (ProcLk i) s)\<lparr>proc := f\<rparr>) = Ret () (s\<lparr>proc := f\<rparr>)"
    by (subst release_after [OF assms]) (auto simp: acq_explicit)
  show "release (ProcLk i) (acq (ProcLk i) s) = Ret () s"
    by (subst release_after [OF assms]) (auto simp: acq_explicit)
  show "proc (acq (ProcLk i) s) = proc s" by (simp add: acq_explicit)
qed

text \<open>
  \<open>quiet\<close>: no other entry's lock is held, so a walk over the table does not spin.
\<close>

definition quiet :: "'z procs_scheme \<Rightarrow> bool" where
  "quiet s = (intr_ok s \<and> (\<forall>i < NPROC. cproc (mycpu s) \<noteq> Some i \<longrightarrow> lock_free s (ProcLk i)))"

lemma mycpu_frame [simp]:
  "mycpu (proc_update f s) = mycpu s"
  "mycpu (nextpid_update g s) = mycpu s"
  "mycpu (ticks_update k s) = mycpu s"
  by (simp_all add: mach_defs)

lemma quiet_proc_update [simp]: "quiet (proc_update f s) = quiet s"
  by (simp add: quiet_def)

definition sleeps_on :: "nat option \<Rightarrow> chan \<Rightarrow> (nat \<Rightarrow> proc) \<Rightarrow> nat \<Rightarrow> bool" where
  "sleeps_on me ch pt i = (me \<noteq> Some i \<and> pstate (pt i) = SLEEPING \<and> pchan (pt i) = ch)"

definition woken :: "nat option \<Rightarrow> chan \<Rightarrow> nat \<Rightarrow> (nat \<Rightarrow> proc) \<Rightarrow> nat \<Rightarrow> proc" where
  "woken me ch n pt i =
     (if i < n \<and> sleeps_on me ch pt i then (pt i)\<lparr>pstate := RUNNABLE\<rparr> else pt i)"

lemma wakeup_body_quiet:
  assumes "quiet s" "i < NPROC"
  shows "wakeup_body ch i s = Ret () (if sleeps_on (cproc (mycpu s)) ch (proc s) i
           then set_proc i (\<lambda>q. q\<lparr>pstate := RUNNABLE\<rparr>) s else s)"
  using assms
  by (auto simp: wakeup_body_def quiet_def myproc_ok proc_section set_proc_def sleeps_on_def Let_def)

lemma wakeup_prefix:
  "quiet s \<Longrightarrow> n \<le> NPROC \<Longrightarrow>
     kfor (wakeup_body ch) [0..<n] s = Ret () (s\<lparr>proc := woken (cproc (mycpu s)) ch n (proc s)\<rparr>)"
proof (induction n)
  case 0
  have "woken (cproc (mycpu s)) ch 0 (proc s) = proc s" by (auto simp: woken_def)
  then show ?case by simp
next
  case (Suc n)
  let ?me = "cproc (mycpu s)" and ?t = "s\<lparr>proc := woken (cproc (mycpu s)) ch n (proc s)\<rparr>"
  have "kfor (wakeup_body ch) [0..<Suc n] s = wakeup_body ch n ?t"
    using Suc by (simp add: kfor_append kbind_def split: outcome.splits)
  also have "\<dots> = Ret () (s\<lparr>proc := woken ?me ch (Suc n) (proc s)\<rparr>)"
  proof (cases "sleeps_on ?me ch (proc s) n")
    case True
    then have "(woken ?me ch n (proc s))(n := (proc s n)\<lparr>pstate := RUNNABLE\<rparr>) = woken ?me ch (Suc n) (proc s)"
      by (auto simp: woken_def)
    then show ?thesis using Suc True
      by (simp add: wakeup_body_quiet set_proc_def) (simp add: sleeps_on_def woken_def)
  next
    case False
    then have "woken ?me ch n (proc s) = woken ?me ch (Suc n) (proc s)"
      by (auto simp: woken_def less_Suc_eq)
    then show ?thesis using Suc False
      by (simp add: wakeup_body_quiet set_proc_def) (auto simp add: sleeps_on_def woken_def)
  qed
  finally show ?case .
qed

text \<open>\<^verbatim>\<open>wakeup\<close> makes exactly the processes asleep on the channel runnable.\<close>

lemma wakeup_quiet:
  "quiet s \<Longrightarrow> wakeup ch s = Ret () (s\<lparr>proc := woken (cproc (mycpu s)) ch NPROC (proc s)\<rparr>)"
  by (simp add: wakeup_def wakeup_prefix)

lemma wakeup_one_body_quiet:
  assumes "quiet s" "i < NPROC"
  shows "wakeup_one_body ch i s =
     (if sleeps_on (cproc (mycpu s)) ch (proc s) i
      then Ret (Some ()) (set_proc i (\<lambda>q. q\<lparr>pstate := RUNNABLE\<rparr>) s) else Ret None s)"
  using assms
  by (auto simp: wakeup_one_body_def quiet_def myproc_ok proc_section set_proc_def sleeps_on_def Let_def)

text \<open>\<^verbatim>\<open>wakeup_one\<close> makes the first such process of the table runnable, and no other.\<close>

lemma wakeup_one_quiet:
  assumes "quiet s"
  shows "wakeup_one ch s =
     (case first_idx (sleeps_on (cproc (mycpu s)) ch (proc s)) [0..<NPROC] of
        None \<Rightarrow> Ret () s
      | Some i \<Rightarrow> Ret () (set_proc i (\<lambda>q. q\<lparr>pstate := RUNNABLE\<rparr>) s))"
proof -
  have "kfirst (wakeup_one_body ch) [0..<NPROC] s =
     (case first_idx (sleeps_on (cproc (mycpu s)) ch (proc s)) [0..<NPROC] of
        None \<Rightarrow> Ret None s | Some i \<Rightarrow> Ret (Some ()) (set_proc i (\<lambda>q. q\<lparr>pstate := RUNNABLE\<rparr>) s))"
    by (rule kfirst_first_idx) (simp add: wakeup_one_body_quiet assms)
  then show ?thesis by (simp add: wakeup_one_def split: option.split)
qed

definition kill_mark :: "proc \<Rightarrow> proc" where
  "kill_mark q = q\<lparr>killed_flag := 1, pstate := (if pstate q = SLEEPING then RUNNABLE else pstate q)\<rparr>"

lemma kkill_body_free:
  assumes "lock_free s (ProcLk i)" "intr_ok s"
  shows "kkill_body n i s =
     (if pid (proc s i) = n then Ret (Some ()) (set_proc i kill_mark s) else Ret None s)"
  using assms
  by (auto simp: kkill_body_def proc_section set_proc_def Let_def kill_mark_def)

text \<open>
  \<^verbatim>\<open>kkill\<close> marks the first process with that pid and makes it runnable if it slept;
  it returns -1 and changes nothing when no process has the pid.
\<close>

lemma kkill_free:
  assumes "\<forall>i < NPROC. lock_free s (ProcLk i)" "intr_ok s"
  shows "kkill n s =
     (case first_idx (\<lambda>i. pid (proc s i) = n) [0..<NPROC] of
        None \<Rightarrow> Ret (- 1) s
      | Some i \<Rightarrow> Ret 0 (set_proc i kill_mark s))"
proof -
  have "kfirst (kkill_body n) [0..<NPROC] s =
     (case first_idx (\<lambda>i. pid (proc s i) = n) [0..<NPROC] of
        None \<Rightarrow> Ret None s | Some i \<Rightarrow> Ret (Some ()) (set_proc i kill_mark s))"
    by (rule kfirst_first_idx) (simp add: kkill_body_free assms)
  then show ?thesis by (simp add: kkill_def split: option.split)
qed

lemma setkilled_free:
  "lock_free s (ProcLk p) \<Longrightarrow> intr_ok s \<Longrightarrow>
     setkilled p s = Ret () (set_proc p (\<lambda>q. q\<lparr>killed_flag := 1\<rparr>) s)"
  by (simp add: setkilled_def proc_section set_proc_def)

lemma killed_free:
  "lock_free s (ProcLk p) \<Longrightarrow> intr_ok s \<Longrightarrow> killed p s = Ret (killed_flag (proc s p)) s"
  by (simp add: killed_def proc_section Let_def)

lemma allocpid_free:
  assumes "lock_free s PidLk" "intr_ok s"
  shows "allocpid s = Ret (nextpid s) (s\<lparr>nextpid := c_int (nextpid s + 1)\<rparr>)"
proof -
  have "release PidLk ((acq PidLk s)\<lparr>nextpid := c_int (nextpid s + 1)\<rparr>) =
      Ret () (s\<lparr>nextpid := c_int (nextpid s + 1)\<rparr>)"
    by (subst release_after [OF assms]) (auto simp: acq_explicit)
  moreover have "nextpid (acq PidLk s) = nextpid s" by (simp add: acq_explicit)
  ultimately show ?thesis by (simp add: allocpid_def acquire_free assms Let_def)
qed

section \<open>Giving up the processor\<close>

text \<open>
  The state a process leaves behind when it sleeps: its condition lock is free, its own lock is
  held by the hart that now runs the scheduler, and it is asleep on the channel.
\<close>

definition asleep :: "nat \<Rightarrow> chan \<Rightarrow> lockid \<Rightarrow> 'z procs_scheme \<Rightarrow> 'z procs_scheme" where
  "asleep p ch lk s = set_proc p (\<lambda>q. q\<lparr>pchan := ch, pstate := SLEEPING, sched_intena := intena (mycpu s)\<rparr>)
     (s\<lparr>locks := (locks s)(ProcLk p := (locks s (ProcLk p))\<lparr>locked := True, lcpu := Some (hart s)\<rparr>,
                          lk := (locks s lk)\<lparr>lcpu := None, locked := False\<rparr>)\<rparr>)"

lemma sleep_swtch:
  assumes "cproc (mycpu s) = Some p" "holding lk s" "noff (mycpu s) = 1" "\<not> intr_get s"
    "lock_free s (ProcLk p)" "lk \<noteq> ProcLk p"
  shows "sleep ch lk s = Swtch (asleep p ch lk s)"
proof -
  have ok: "intr_ok s" using assms(3,4) by (simp add: intr_ok_def)
  let ?t = "rel lk (acq (ProcLk p) s)"
  have rel: "release lk (acq (ProcLk p) s) = Ret () ?t"
    using assms by (intro release_held) (auto simp: holding_def acq_explicit mach_defs)
  have c: "(cpus s)(hart s := (cpus s (hart s))\<lparr>noff := 1\<rparr>) = cpus s"
    using assms(3) by (intro fun_upd_idem) (simp add: mach_defs)
  have i: "(sie s)(hart s := False) = sie s"
    using assms(4) by (intro fun_upd_idem) (simp add: mach_defs)
  have t: "?t = s\<lparr>locks := (locks s)(ProcLk p := (locks s (ProcLk p))\<lparr>locked := True, lcpu := Some (hart s)\<rparr>,
                          lk := (locks s lk)\<lparr>lcpu := None, locked := False\<rparr>)\<rparr>"
    using assms c i by (auto simp: rel_def acq_explicit mach_defs fun_upd_idem_iff intro!: mach.equality)
  show ?thesis
    using assms ok
    by (simp add: sleep_def curproc_ok acquire_free rel t Let_def set_proc_def sched_def)
      (simp add: curproc_ok holding_def asleep_def set_proc_def intr_ok_def mach_defs)
qed

text \<open>Sleeping with a second spinlock held panics in \<^verbatim>\<open>sched\<close>.\<close>

lemma sleep_two_locks:
  assumes "cproc (mycpu s) = Some p" "holding lk s" "1 < noff (mycpu s)" "\<not> intr_get s"
    "lock_free s (ProcLk p)" "lk \<noteq> ProcLk p"
  shows "sleep ch lk s = Panic ''sched locks''"
proof -
  have ok: "intr_ok s" using assms(3,4) by (simp add: intr_ok_def)
  let ?t = "rel lk (acq (ProcLk p) s)"
  have rel: "release lk (acq (ProcLk p) s) = Ret () ?t"
    using assms by (intro release_held) (auto simp: holding_def acq_explicit mach_defs)
  have t: "holding (ProcLk p) ?t" "noff (mycpu ?t) = noff (mycpu s)" "\<not> intr_get ?t" "cproc (mycpu ?t) = Some p"
    using assms by (auto simp: holding_def rel_def acq_explicit mach_defs)
  then show ?thesis
    using assms ok
    by (simp add: sleep_def curproc_ok acquire_free rel Let_def set_proc_def sched_def)
      (simp add: curproc_ok holding_def intr_ok_def mach_defs)
qed

section \<open>The scheduler\<close>

text \<open>
  The hart state between two processes: \<open>dispatched\<close> right after the scheduler picked an
  entry, \<open>resumed\<close> once the process has restored its interrupt state and released its lock,
  \<open>off_cpu\<close> once the scheduler runs again.
\<close>

definition dispatched :: "nat \<Rightarrow> 'z procs_scheme \<Rightarrow> 'z procs_scheme" where
  "dispatched i s = set_mycpu (\<lambda>c. c\<lparr>cproc := Some i\<rparr>)
     (set_proc i (\<lambda>q. q\<lparr>pstate := RUNNING\<rparr>) (acq (ProcLk i) s))"

definition on_cpu :: "nat \<Rightarrow> 'z procs_scheme \<Rightarrow> 'z procs_scheme" where
  "on_cpu i s = s\<lparr>sie := (sie s)(hart s := sched_intena (proc s i)),
     cpus := (cpus s)(hart s := (cpus s (hart s))\<lparr>cproc := Some i, intena := sched_intena (proc s i)\<rparr>)\<rparr>"

definition off_cpu :: "'z mach_scheme \<Rightarrow> 'z mach_scheme" where
  "off_cpu s = s\<lparr>cpus := (cpus s)(hart s := (cpus s (hart s))\<lparr>cproc := None\<rparr>)\<rparr>"

definition runnable :: "(nat \<Rightarrow> proc) \<Rightarrow> nat \<Rightarrow> bool" where
  "runnable pt i = (pstate (pt i) = RUNNABLE)"

lemma scheduler_pick_free:
  assumes "lock_free s (ProcLk i)" "intr_ok s"
  shows "scheduler_pick i s = (if runnable (proc s) i then Ret (Some i) (dispatched i s) else Ret None s)"
  using assms by (auto simp: scheduler_pick_def proc_section dispatched_def runnable_def Let_def)

text \<open>The scheduler takes the first runnable entry from where it stands.\<close>

lemma scheduler_scan_free:
  assumes "\<forall>i < NPROC. lock_free s (ProcLk i)" "intr_ok s"
  shows "scheduler_scan j s =
     (case first_idx (runnable (proc s)) [j..<NPROC] of
        None \<Rightarrow> Ret None s | Some i \<Rightarrow> Ret (Some i) (dispatched i s))"
  unfolding scheduler_scan_def
  by (rule kfirst_first_idx) (simp add: scheduler_pick_free assms)

lemma sched_resume_release:
  assumes "lock_free s (ProcLk i)" "noff (mycpu s) = 0"
  shows "release (ProcLk i) (set_proc i f (sched_resume i (dispatched i s))) =
     Ret () (set_proc i (\<lambda>q. f (q\<lparr>pstate := RUNNING\<rparr>)) (on_cpu i s))"
proof -
  let ?t = "set_proc i f (sched_resume i (dispatched i s))"
  have l: "(locks s)(ProcLk i := (locks s (ProcLk i))\<lparr>lcpu := None, locked := False\<rparr>) = locks s"
    using assms(1) by (intro fun_upd_idem) (simp add: lock_free_def)
  have "release (ProcLk i) ?t = Ret () (rel (ProcLk i) ?t)"
    using assms
    by (intro release_held) (auto simp: holding_def dispatched_def sched_resume_def set_proc_def acq_explicit mach_defs)
  moreover have "c\<lparr>cproc := Some i, intena := b, noff := 0\<rparr> = c\<lparr>cproc := Some i, intena := b\<rparr>"
    if "noff c = 0" for c :: cpu and b using that by (intro cpu.equality) auto
  then have "rel (ProcLk i) ?t = set_proc i (\<lambda>q. f (q\<lparr>pstate := RUNNING\<rparr>)) (on_cpu i s)"
    using assms l
    by (auto simp: rel_def dispatched_def sched_resume_def set_proc_def on_cpu_def acq_explicit mach_defs
        intro!: procs.equality)
  ultimately show ?thesis by simp
qed

lemma yield_resume_dispatched:
  assumes "lock_free s (ProcLk i)" "noff (mycpu s) = 0"
  shows "yield_resume i (dispatched i s) = Ret () (set_proc i (\<lambda>q. q\<lparr>pstate := RUNNING\<rparr>) (on_cpu i s))"
  using sched_resume_release [OF assms, of "\<lambda>q. q"]
  by (simp add: yield_resume_def set_proc_def)

lemma sleep_resume_dispatched:
  assumes "lock_free s (ProcLk i)" "noff (mycpu s) = 0"
  shows "sleep_resume i lk (dispatched i s) =
     acquire lk (set_proc i (\<lambda>q. q\<lparr>pstate := RUNNING, pchan := NoChan\<rparr>) (on_cpu i s))"
  using sched_resume_release [OF assms, of "\<lambda>q. q\<lparr>pchan := NoChan\<rparr>"]
  by (simp add: sleep_resume_def Let_def)

text \<open>
  From inside a critical section entered at \<open>s\<close> with no lock held: the process goes to
  sleep, the scheduler takes over, and every lock and the interrupt state are as at \<open>s\<close>.
\<close>

lemma sleep_off:
  assumes "cproc (mycpu s) = Some p" "noff (mycpu s) = 0" "intr_ok s"
    "lock_free s lk" "lock_free s (ProcLk p)" "lk \<noteq> ProcLk p"
    "hart t = hart s" "sie t = sie (acq lk s)" "cpus t = cpus (acq lk s)" "locks t = locks (acq lk s)"
  shows "\<exists>u. sleep ch lk t = Swtch u \<and> scheduler_back p u =
     Ret () (off_cpu (set_proc p (\<lambda>q. q\<lparr>pchan := ch, pstate := SLEEPING, sched_intena := intr_get s\<rparr>)
       (t\<lparr>sie := sie s, cpus := cpus s, locks := locks s\<rparr>)))"
proof (intro exI conjI)
  show "sleep ch lk t = Swtch (asleep p ch lk t)"
    using assms by (intro sleep_swtch) (auto simp: holding_def lock_free_def acq_explicit mach_defs)
  let ?u = "set_mycpu (\<lambda>c. c\<lparr>cproc := None\<rparr>) (asleep p ch lk t)"
  have "release (ProcLk p) ?u = Ret () (rel (ProcLk p) ?u)"
    using assms
    by (intro release_held) (auto simp: holding_def asleep_def set_proc_def acq_explicit mach_defs)
  moreover have "rel (ProcLk p) ?u =
      off_cpu (set_proc p (\<lambda>q. q\<lparr>pchan := ch, pstate := SLEEPING, sched_intena := intr_get s\<rparr>)
       (t\<lparr>sie := sie s, cpus := cpus s, locks := locks s\<rparr>))"
  proof -
    have 1: "(locks (acq lk s))(ProcLk p := (locks s (ProcLk p))\<lparr>lcpu := None, locked := False\<rparr>,
        lk := (locks s lk)\<lparr>lcpu := None, locked := False\<rparr>) = locks s"
      using assms(4,5) by (intro ext) (auto simp: acq_explicit lock_free_def)
    have 2: "(cpus s (hart s))\<lparr>intena := sie s (hart s), cproc := None, noff := 0\<rparr> =
        (cpus s (hart s))\<lparr>cproc := None\<rparr>"
      using assms(2,3) by (intro cpu.equality) (auto simp: intr_ok_def mach_defs)
    have 3: "(sie s)(hart s := False) = sie s" if "\<not> sie s (hart s)"
      using that by (intro fun_upd_idem) simp
    have 4: "(sie s)(hart s := True) = sie s" if "sie s (hart s)"
      using that by (intro fun_upd_idem) simp
    show ?thesis
      using assms 1 2 3 4
      by (auto simp: rel_def off_cpu_def asleep_def set_proc_def acq_explicit mach_defs fun_upd_twist
          intro!: procs.equality)
  qed
  ultimately show "scheduler_back p (asleep p ch lk t) = Ret ()
     (off_cpu (set_proc p (\<lambda>q. q\<lparr>pchan := ch, pstate := SLEEPING, sched_intena := intr_get s\<rparr>)
       (t\<lparr>sie := sie s, cpus := cpus s, locks := locks s\<rparr>)))"
    by (simp add: scheduler_back_def)
qed

text \<open>Likewise a process that yields.\<close>

lemma yield_off:
  assumes "cproc (mycpu s) = Some p" "noff (mycpu s) = 0" "intr_ok s" "lock_free s (ProcLk p)"
  shows "\<exists>u. yield s = Swtch u \<and> scheduler_back p u =
     Ret () (off_cpu (set_proc p (\<lambda>q. q\<lparr>pstate := RUNNABLE, sched_intena := intr_get s\<rparr>) s))"
proof (intro exI conjI)
  let ?t = "set_proc p (\<lambda>q. q\<lparr>pstate := RUNNABLE, sched_intena := intr_get s\<rparr>) (acq (ProcLk p) s)"
  show "yield s = Swtch ?t"
    using assms
    by (simp add: yield_def curproc_ok acquire_free Let_def set_proc_def sched_def)
      (simp add: curproc_ok holding_def intr_ok_acq acq_explicit mach_defs intr_ok_def set_proc_def)
  let ?u = "set_mycpu (\<lambda>c. c\<lparr>cproc := None\<rparr>) ?t"
  have "release (ProcLk p) ?u = Ret () (rel (ProcLk p) ?u)"
    using assms by (intro release_held) (auto simp: holding_def set_proc_def acq_explicit mach_defs)
  moreover have "rel (ProcLk p) ?u =
      off_cpu (set_proc p (\<lambda>q. q\<lparr>pstate := RUNNABLE, sched_intena := intr_get s\<rparr>) s)"
  proof -
    have 1: "(locks s)(ProcLk p := (locks s (ProcLk p))\<lparr>lcpu := None, locked := False\<rparr>) = locks s"
      using assms(4) by (intro fun_upd_idem) (auto simp: lock_free_def)
    have 2: "(cpus s (hart s))\<lparr>intena := sie s (hart s), cproc := None, noff := 0\<rparr> =
        (cpus s (hart s))\<lparr>cproc := None\<rparr>"
      using assms(2,3) by (intro cpu.equality) (auto simp: intr_ok_def mach_defs)
    have 3: "(sie s)(hart s := False) = sie s" if "\<not> sie s (hart s)"
      using that by (intro fun_upd_idem) simp
    have 4: "(sie s)(hart s := True) = sie s" if "sie s (hart s)"
      using that by (intro fun_upd_idem) simp
    show ?thesis
      using assms 1 2 3 4
      by (auto simp: rel_def off_cpu_def set_proc_def acq_explicit mach_defs intro!: procs.equality)
  qed
  ultimately show "scheduler_back p ?t =
      Ret () (off_cpu (set_proc p (\<lambda>q. q\<lparr>pstate := RUNNABLE, sched_intena := intr_get s\<rparr>) s))"
    by (simp add: scheduler_back_def)
qed

end
