(* ===== verification/Semaphore.thy ===== *)
theory Semaphore
  imports Proc
begin

text \<open>
  The counting semaphores of \<^verbatim>\<open>kernel/semaphore.c\<close>, the table of them in
  \<^verbatim>\<open>kernel/proc.c\<close>, the event log, and the guards of the semaphore system calls of
  \<^verbatim>\<open>kernel/sysproc.c\<close>. A semaphore is its index in \<^verbatim>\<open>sem_table\<close>.
\<close>

section \<open>State\<close>

definition NSEM :: nat where "NSEM = 128"

definition SEM_EVENT_LOG_SIZE :: int where "SEM_EVENT_LOG_SIZE = 1024"

definition SEM_EVENT_WAIT :: int where "SEM_EVENT_WAIT = 0"
definition SEM_EVENT_ACQUIRE :: int where "SEM_EVENT_ACQUIRE = 1"
definition SEM_EVENT_RELEASE :: int where "SEM_EVENT_RELEASE = 2"

record semaphore =
  sem_count :: int
  sem_active :: int
  sem_name :: bytes

record sem_event =
  ev_sem_id :: int
  ev_pid :: int
  ev_ticks :: uint32
  ev_type :: uint8
  ev_pname :: bytes

text \<open>
  The log is indexed by the value of a C \<^verbatim>\<open>int\<close>: the array itself occupies the indices
  from 0 to 1023, and any other index is memory beside the array.
\<close>

record sems = procs +
  sem_table :: "nat \<Rightarrow> semaphore"
  sem_event_log :: "int \<Rightarrow> sem_event"
  sem_event_index :: int

definition set_sem :: "nat \<Rightarrow> (semaphore \<Rightarrow> semaphore) \<Rightarrow> 'z sems_scheme \<Rightarrow> 'z sems_scheme" where
  "set_sem i f s = s\<lparr>sem_table := (sem_table s)(i := f (sem_table s i))\<rparr>"

lemma sems_frame [simp]:
  "lock_free (sem_table_update f s) lk = lock_free s lk"
  "lock_free (sem_event_log_update g s) lk = lock_free s lk"
  "lock_free (sem_event_index_update h s) lk = lock_free s lk"
  "intr_ok (sem_table_update f s) = intr_ok s"
  "intr_ok (sem_event_log_update g s) = intr_ok s"
  "intr_ok (sem_event_index_update h s) = intr_ok s"
  "mycpu (sem_table_update f s) = mycpu s"
  "mycpu (sem_event_log_update g s) = mycpu s"
  "mycpu (sem_event_index_update h s) = mycpu s"
  by (simp_all add: lock_free_def intr_ok_def mach_defs)

section \<open>Operations\<close>

text \<open>The remainder of C, which takes the sign of the dividend.\<close>

definition c_rem :: "int \<Rightarrow> int \<Rightarrow> int" where
  "c_rem a b = (if 0 \<le> a then a mod b else - ((- a) mod b))"

definition zero_event :: sem_event where
  "zero_event = \<lparr>ev_sem_id = 0, ev_pid = 0, ev_ticks = 0, ev_type = 0, ev_pname = (\<lambda>_. 0)\<rparr>"

definition sem_event_log_init :: "'z sems_scheme \<Rightarrow> 'z sems_scheme" where
  "sem_event_log_init s =
     (let s = initlock SemEventLk ''semevent'' s;
          s = s\<lparr>sem_event_index := 0\<rparr>
      in s\<lparr>sem_event_log := (\<lambda>i. if 0 \<le> i \<and> i < SEM_EVENT_LOG_SIZE then zero_event
                                   else sem_event_log s i)\<rparr>)"

definition sem_record_event :: "int \<Rightarrow> int \<Rightarrow> uint32 \<Rightarrow> int \<Rightarrow> 'z sems_scheme \<Rightarrow> (unit, 'z sems_scheme) outcome" where
  "sem_record_event sem_id n tck ty s =
     kbind (acquire SemEventLk s) (\<lambda>_ s.
       let idx = c_rem (sem_event_index s) SEM_EVENT_LOG_SIZE in
       kbind (curproc s) (\<lambda>p s.
         let e = \<lparr>ev_sem_id = sem_id, ev_pid = n, ev_ticks = tck, ev_type = word_of_int ty,
                   ev_pname = safestrcpy (ev_pname (sem_event_log s idx)) (pname (proc s p)) 16\<rparr>;
             s = s\<lparr>sem_event_log := (sem_event_log s)(idx := e)\<rparr>;
             s = s\<lparr>sem_event_index := c_int (sem_event_index s + 1)\<rparr>
         in release SemEventLk s))"

definition sem_init :: "nat \<Rightarrow> int \<Rightarrow> 'z sems_scheme \<Rightarrow> 'z sems_scheme" where
  "sem_init i v s =
     (let s = set_sem i (\<lambda>m. m\<lparr>sem_count := v\<rparr>) s;
          s = initlock (SemLk i) ''semaphore'' s;
          s = set_sem i (\<lambda>m. m\<lparr>sem_active := 0\<rparr>) s
      in set_sem i (\<lambda>m. m\<lparr>sem_name := memset (sem_name m) 0 0 16\<rparr>) s)"

text \<open>
  \<^verbatim>\<open>sem_wait\<close> in two pieces: \<open>sem_wait_tail\<close> is what follows both branches of the
  test, and \<open>sem_wait_resume\<close> is where a blocked caller goes on.
\<close>

definition sem_record_now :: "nat \<Rightarrow> int \<Rightarrow> 'z sems_scheme \<Rightarrow> (unit, 'z sems_scheme) outcome" where
  "sem_record_now i ty s =
     kbind (curproc s) (\<lambda>p s. sem_record_event (int i) (pid (proc s p)) (ticks s) ty s)"

definition sem_wait_tail :: "nat \<Rightarrow> 'z sems_scheme \<Rightarrow> (unit, 'z sems_scheme) outcome" where
  "sem_wait_tail i s =
     kbind (sem_record_now i SEM_EVENT_ACQUIRE s) (\<lambda>_ s. release (SemLk i) s)"

definition sem_wait :: "nat \<Rightarrow> 'z sems_scheme \<Rightarrow> (unit, 'z sems_scheme) outcome" where
  "sem_wait i s =
     kbind (acquire (SemLk i) s) (\<lambda>_ s.
       let s = set_sem i (\<lambda>m. m\<lparr>sem_count := c_int (sem_count m - 1)\<rparr>) s in
       if sem_count (sem_table s i) < 0 then
         kbind (sem_record_now i SEM_EVENT_WAIT s) (\<lambda>_ s.
         kbind (sleep (ChSem i) (SemLk i) s) (\<lambda>_ s.
         sem_wait_tail i s))
       else sem_wait_tail i s)"

definition sem_wait_resume :: "nat \<Rightarrow> nat \<Rightarrow> 'z sems_scheme \<Rightarrow> (unit, 'z sems_scheme) outcome" where
  "sem_wait_resume p i s =
     kbind (sleep_resume p (SemLk i) s) (\<lambda>_ s. sem_wait_tail i s)"

definition sem_signal :: "nat \<Rightarrow> 'z sems_scheme \<Rightarrow> (unit, 'z sems_scheme) outcome" where
  "sem_signal i s =
     kbind (acquire (SemLk i) s) (\<lambda>_ s.
     kbind (sem_record_now i SEM_EVENT_RELEASE s) (\<lambda>_ s.
       let s = set_sem i (\<lambda>m. m\<lparr>sem_count := c_int (sem_count m + 1)\<rparr>) s in
       kbind (if sem_count (sem_table s i) \<le> 0 then wakeup_one (ChSem i) s else Ret () s) (\<lambda>_ s.
       release (SemLk i) s)))"

definition sem_table_init :: "'z sems_scheme \<Rightarrow> 'z sems_scheme" where
  "sem_table_init s =
     (let s = fold (\<lambda>i s. sem_init i 0 s) [0..<NSEM] s;
          s = initlock SemTabLk ''semtab'' s
      in sem_event_log_init s)"

definition sem_alloc_body :: "int \<Rightarrow> bytes \<Rightarrow> nat \<Rightarrow> 'z sems_scheme \<Rightarrow> (nat option, 'z sems_scheme) outcome" where
  "sem_alloc_body v nm i s =
     (if sem_active (sem_table s i) = 0 then
        let s = set_sem i (\<lambda>m. m\<lparr>sem_active := 1\<rparr>) s;
            s = set_sem i (\<lambda>m. m\<lparr>sem_count := v\<rparr>) s;
            s = set_sem i (\<lambda>m. m\<lparr>sem_name := safestrcpy (sem_name m) nm 16\<rparr>) s
        in kbind (release SemTabLk s) (\<lambda>_ s. Ret (Some i) s)
      else Ret None s)"

definition sem_alloc :: "int \<Rightarrow> bytes \<Rightarrow> 'z sems_scheme \<Rightarrow> (int, 'z sems_scheme) outcome" where
  "sem_alloc v nm s =
     kbind (acquire SemTabLk s) (\<lambda>_ s.
     kbind (kfirst (sem_alloc_body v nm) [0..<NSEM] s) (\<lambda>r s.
       case r of Some i \<Rightarrow> Ret (int i) s
       | None \<Rightarrow> kbind (release SemTabLk s) (\<lambda>_ s. Ret (- 1) s)))"

definition sem_free :: "int \<Rightarrow> 'z sems_scheme \<Rightarrow> (unit, 'z sems_scheme) outcome" where
  "sem_free n s =
     (if n < 0 \<or> int NSEM \<le> n then Ret () s
      else let i = nat n in
        kbind (acquire SemTabLk s) (\<lambda>_ s.
        kbind (wakeup (ChSem i) s) (\<lambda>_ s.
          let s = set_sem i (\<lambda>m. m\<lparr>sem_active := 0\<rparr>) s;
              s = set_sem i (\<lambda>m. m\<lparr>sem_name := memset (sem_name m) 0 0 16\<rparr>) s
          in release SemTabLk s)))"

text \<open>The system calls, with their integer argument already fetched.\<close>

definition sem_id_bad :: "int \<Rightarrow> 'z sems_scheme \<Rightarrow> bool" where
  "sem_id_bad n s = (n < 0 \<or> int NSEM \<le> n \<or> sem_active (sem_table s (nat n)) = 0)"

definition sys_sem_wait :: "int \<Rightarrow> 'z sems_scheme \<Rightarrow> (int, 'z sems_scheme) outcome" where
  "sys_sem_wait n s =
     (if sem_id_bad n s then Ret (- 1) s
      else kbind (sem_wait (nat n) s) (\<lambda>_ s. Ret 0 s))"

definition sys_sem_signal :: "int \<Rightarrow> 'z sems_scheme \<Rightarrow> (int, 'z sems_scheme) outcome" where
  "sys_sem_signal n s =
     (if sem_id_bad n s then Ret (- 1) s
      else kbind (sem_signal (nat n) s) (\<lambda>_ s. Ret 0 s))"

definition sys_sem_close :: "int \<Rightarrow> 'z sems_scheme \<Rightarrow> (int, 'z sems_scheme) outcome" where
  "sys_sem_close n s =
     (if sem_id_bad n s then Ret (- 1) s
      else kbind (sem_free n s) (\<lambda>_ s. Ret 0 s))"

section \<open>The event log\<close>

definition logged :: "nat \<Rightarrow> int \<Rightarrow> 'z sems_scheme \<Rightarrow> 'z sems_scheme" where
  "logged i ty s =
     (let idx = c_rem (sem_event_index s) SEM_EVENT_LOG_SIZE; p = the (cproc (mycpu s))
      in s\<lparr>sem_event_log := (sem_event_log s)(idx :=
             \<lparr>ev_sem_id = int i, ev_pid = pid (proc s p), ev_ticks = ticks s, ev_type = word_of_int ty,
              ev_pname = safestrcpy (ev_pname (sem_event_log s idx)) (pname (proc s p)) 16\<rparr>),
           sem_event_index := c_int (sem_event_index s + 1)\<rparr>)"

lemma sem_record_now_free:
  assumes "lock_free s SemEventLk" "intr_ok s" "cproc (mycpu s) = Some p"
  shows "sem_record_now i ty s = Ret () (logged i ty s)"
proof -
  have acq: "intr_ok (acq SemEventLk s)" "cproc (mycpu (acq SemEventLk s)) = Some p"
    using assms by (simp_all add: intr_ok_acq) (simp add: acq_explicit mach_defs)
  have rel: "release SemEventLk ((acq SemEventLk s)\<lparr>sem_event_log := f, sem_event_index := k\<rparr>) =
      Ret () (s\<lparr>sem_event_log := f, sem_event_index := k\<rparr>)" for f k
    by (subst release_after [OF assms(1,2)]) (auto simp: acq_explicit)
  show ?thesis
    using assms acq
    by (simp add: sem_record_now_def sem_record_event_def curproc_ok acquire_free Let_def rel logged_def)
      (simp add: acq_explicit)
qed

lemma logged_frame [simp]:
  "proc (logged i ty s) = proc s" "mycpu (logged i ty s) = mycpu s"
  "sem_table (logged i ty s) = sem_table s"
  "lock_free (logged i ty s) lk = lock_free s lk" "intr_ok (logged i ty s) = intr_ok s"
  "hart (logged i ty s) = hart s" "sie (logged i ty s) = sie s" "cpus (logged i ty s) = cpus s"
  "locks (logged i ty s) = locks s" "ticks (logged i ty s) = ticks s"
  by (simp_all add: logged_def Let_def)

section \<open>What the semaphore operations do\<close>

text \<open>
  \<open>calm p s\<close>: the hart runs process \<open>p\<close> outside every critical section, and no
  spinlock of the kernel is held.
\<close>

definition calm :: "nat \<Rightarrow> 'z mach_scheme \<Rightarrow> bool" where
  "calm p s = (cproc (mycpu s) = Some p \<and> noff (mycpu s) = 0 \<and> intr_ok s \<and> (\<forall>lk. lock_free s lk))"

lemma calmD:
  "calm p s \<Longrightarrow> cproc (mycpu s) = Some p" "calm p s \<Longrightarrow> noff (mycpu s) = 0"
  "calm p s \<Longrightarrow> intr_ok s" "calm p s \<Longrightarrow> lock_free s lk"
  by (simp_all add: calm_def)

lemma calm_frame [simp]:
  "calm p (proc_update f s) = calm p s"
  "calm p (sem_table_update g t) = calm p t"
  "calm p (logged i ty t) = calm p t"
  by (simp_all add: calm_def)

lemma acq_reads [simp]:
  "proc (acq lk s) = proc s" "cproc (mycpu (acq lk s)) = cproc (mycpu s)"
  "sem_table (acq lk t) = sem_table t" "ticks (acq lk s) = ticks s" "hart (acq lk s) = hart s"
  by (simp_all add: acq_explicit mach_defs)

lemma logged_acq: "logged i ty ((acq lk s)\<lparr>sem_table := f\<rparr>) =
    (acq lk s)\<lparr>sem_table := f, sem_event_log := sem_event_log (logged i ty s),
      sem_event_index := sem_event_index (logged i ty s)\<rparr>"
  by (simp add: logged_def Let_def) (simp add: acq_explicit mach_defs)

definition dec_sem :: "nat \<Rightarrow> 'z sems_scheme \<Rightarrow> 'z sems_scheme" where
  "dec_sem i s = set_sem i (\<lambda>m. m\<lparr>sem_count := c_int (sem_count m - 1)\<rparr>) s"

definition inc_sem :: "nat \<Rightarrow> 'z sems_scheme \<Rightarrow> 'z sems_scheme" where
  "inc_sem i s = set_sem i (\<lambda>m. m\<lparr>sem_count := c_int (sem_count m + 1)\<rparr>) s"

lemma sem_wait_tail_acq:
  assumes "calm p s"
  shows "sem_wait_tail i ((acq (SemLk i) s)\<lparr>sem_table := f\<rparr>) =
     Ret () (logged i SEM_EVENT_ACQUIRE (s\<lparr>sem_table := f\<rparr>))"
proof -
  let ?t = "(acq (SemLk i) s)\<lparr>sem_table := f\<rparr>"
  have "sem_record_now i SEM_EVENT_ACQUIRE ?t = Ret () (logged i SEM_EVENT_ACQUIRE ?t)"
    using assms by (intro sem_record_now_free [of _ p]) (simp_all add: calmD intr_ok_acq lock_free_acq)
  moreover have "release (SemLk i) (logged i SEM_EVENT_ACQUIRE ?t) =
      Ret () (logged i SEM_EVENT_ACQUIRE (s\<lparr>sem_table := f\<rparr>))"
    by (subst release_after [of s]) (simp_all add: calmD [OF assms], simp add: logged_acq, simp add: logged_def Let_def acq_explicit)
  ultimately show ?thesis by (simp add: sem_wait_tail_def)
qed

text \<open>\<^verbatim>\<open>sem_wait\<close> with a permit left takes it without giving up the processor.\<close>

lemma sem_wait_grant:
  assumes "calm p s" "0 \<le> c_int (sem_count (sem_table s i) - 1)"
  shows "sem_wait i s = Ret () (logged i SEM_EVENT_ACQUIRE (dec_sem i s))"
  using assms
  by (simp add: sem_wait_def acquire_free calmD set_sem_def dec_sem_def Let_def sem_wait_tail_acq)

text \<open>With none left the caller goes to sleep on the semaphore.\<close>

lemma sem_wait_block:
  assumes "calm p s" "c_int (sem_count (sem_table s i) - 1) < 0"
  shows "\<exists>u. sem_wait i s = Swtch u \<and> scheduler_back p u =
     Ret () (off_cpu (set_proc p (\<lambda>q. q\<lparr>pchan := ChSem i, pstate := SLEEPING, sched_intena := intr_get s\<rparr>)
       (logged i SEM_EVENT_WAIT (dec_sem i s))))"
proof -
  let ?f = "(sem_table s)(i := (sem_table s i)\<lparr>sem_count := c_int (sem_count (sem_table s i) - 1)\<rparr>)"
  let ?t = "(acq (SemLk i) s)\<lparr>sem_table := ?f\<rparr>"
  have rec: "sem_record_now i SEM_EVENT_WAIT ?t = Ret () (logged i SEM_EVENT_WAIT ?t)"
    using assms by (intro sem_record_now_free [of _ p]) (simp_all add: calmD intr_ok_acq lock_free_acq)
  obtain u where u: "sleep (ChSem i) (SemLk i) (logged i SEM_EVENT_WAIT ?t) = Swtch u"
    and bk: "scheduler_back p u =
      Ret () (off_cpu (set_proc p (\<lambda>q. q\<lparr>pchan := ChSem i, pstate := SLEEPING, sched_intena := intr_get s\<rparr>)
       ((logged i SEM_EVENT_WAIT ?t)\<lparr>sie := sie s, cpus := cpus s, locks := locks s\<rparr>)))"
    using sleep_off [of s p "SemLk i" "logged i SEM_EVENT_WAIT ?t" "ChSem i"]
    by (auto simp: calmD [OF assms(1)])
  have eq: "(logged i SEM_EVENT_WAIT ?t)\<lparr>sie := sie s, cpus := cpus s, locks := locks s\<rparr> =
      logged i SEM_EVENT_WAIT (dec_sem i s)"
    by (simp add: logged_acq, simp add: logged_def Let_def acq_explicit dec_sem_def set_sem_def)
  have "sem_wait i s = Swtch u"
    using assms by (simp add: sem_wait_def acquire_free calmD set_sem_def Let_def rec u)
  with bk show ?thesis by (simp only: eq) blast
qed

text \<open>A blocked caller that is scheduled again returns from \<^verbatim>\<open>sem_wait\<close>.\<close>

lemma sem_wait_resumes:
  assumes "\<forall>lk. lock_free s lk" "noff (mycpu s) = 0"
  shows "sem_wait_resume p i (dispatched p s) =
     Ret () (logged i SEM_EVENT_ACQUIRE (set_proc p (\<lambda>q. q\<lparr>pstate := RUNNING, pchan := NoChan\<rparr>) (on_cpu p s)))"
proof -
  let ?s = "set_proc p (\<lambda>q. q\<lparr>pstate := RUNNING, pchan := NoChan\<rparr>) (on_cpu p s)"
  have calm: "calm p ?s"
    using assms by (simp add: calm_def set_proc_def on_cpu_def lock_free_def intr_ok_def mach_defs)
  have "sleep_resume p (SemLk i) (dispatched p s) = Ret () (acq (SemLk i) ?s)"
    using assms calm by (simp add: sleep_resume_dispatched acquire_free calmD)
  moreover have eq: "(acq (SemLk i) ?s)\<lparr>sem_table := sem_table ?s\<rparr> = acq (SemLk i) ?s"
    by (simp add: acq_explicit)
  have "sem_wait_tail i (acq (SemLk i) ?s) = Ret () (logged i SEM_EVENT_ACQUIRE ?s)"
    using sem_wait_tail_acq [OF calm, of i "sem_table ?s"] by (simp only: eq) simp
  ultimately show ?thesis by (simp add: sem_wait_resume_def)
qed

text \<open>\<^verbatim>\<open>sem_signal\<close> returns a permit and wakes the first sleeper when the count says there is one.\<close>

definition wake_first :: "chan \<Rightarrow> 'z procs_scheme \<Rightarrow> 'z procs_scheme" where
  "wake_first ch s =
     (case first_idx (sleeps_on (cproc (mycpu s)) ch (proc s)) [0..<NPROC] of
        None \<Rightarrow> s | Some j \<Rightarrow> set_proc j (\<lambda>q. q\<lparr>pstate := RUNNABLE\<rparr>) s)"

lemma wakeup_one_wake_first: "quiet s \<Longrightarrow> wakeup_one ch s = Ret () (wake_first ch s)"
  by (simp add: wakeup_one_quiet wake_first_def split: option.split)

lemma sem_signal_calm:
  assumes "calm p s"
  shows "sem_signal i s =
     (let t = inc_sem i (logged i SEM_EVENT_RELEASE s)
      in Ret () (if sem_count (sem_table t i) \<le> 0 then wake_first (ChSem i) t else t))"
proof -
  let ?a = "logged i SEM_EVENT_RELEASE (acq (SemLk i) s)"
  let ?t = "inc_sem i ?a" and ?t' = "inc_sem i (logged i SEM_EVENT_RELEASE s)"
  have rec: "sem_record_now i SEM_EVENT_RELEASE (acq (SemLk i) s) = Ret () ?a"
    using assms by (intro sem_record_now_free [of _ p]) (simp_all add: calmD intr_ok_acq lock_free_acq)
  have a: "?a = (acq (SemLk i) s)\<lparr>sem_event_log := sem_event_log (logged i SEM_EVENT_RELEASE s),
      sem_event_index := sem_event_index (logged i SEM_EVENT_RELEASE s)\<rparr>"
    using logged_acq [of i SEM_EVENT_RELEASE "sem_table s" "SemLk i" s] by (simp add: acq_explicit)
  have q: "quiet ?t"
    using assms by (auto simp: quiet_def inc_sem_def set_sem_def calmD intr_ok_acq lock_free_acq)
  have w: "wake_first (ChSem i) ?t = ?t\<lparr>proc := proc (wake_first (ChSem i) ?t')\<rparr>"
    by (auto simp: wake_first_def inc_sem_def set_sem_def set_proc_def split: option.split)
  have w': "wake_first (ChSem i) ?t' = ?t'\<lparr>proc := proc (wake_first (ChSem i) ?t')\<rparr>"
    by (auto simp: wake_first_def set_proc_def split: option.split)
  have r: "release (SemLk i) (?t\<lparr>proc := f\<rparr>) = Ret () (?t'\<lparr>proc := f\<rparr>)" for f
    by (subst release_after [of s]) (simp_all add: calmD [OF assms], simp_all add: a inc_sem_def set_sem_def,
      simp add: logged_def Let_def acq_explicit)
  have r0: "release (SemLk i) ?t = Ret () ?t'"
    by (subst release_after [of s]) (simp_all add: calmD [OF assms], simp_all add: a inc_sem_def set_sem_def,
      simp add: logged_def Let_def acq_explicit)
  have tt: "sem_table ?t = sem_table ?t'" by (simp add: inc_sem_def set_sem_def)
  have "sem_signal i s = kbind (if sem_count (sem_table ?t i) \<le> 0 then wakeup_one (ChSem i) ?t else Ret () ?t)
      (\<lambda>_ s. release (SemLk i) s)"
    using assms by (simp add: sem_signal_def acquire_free calmD rec Let_def inc_sem_def set_sem_def)
  also have "\<dots> = Ret () (if sem_count (sem_table ?t' i) \<le> 0 then wake_first (ChSem i) ?t' else ?t')"
  proof (cases "sem_count (sem_table ?t' i) \<le> 0")
    case True
    then have "kbind (if sem_count (sem_table ?t i) \<le> 0 then wakeup_one (ChSem i) ?t else Ret () ?t)
      (\<lambda>_ s. release (SemLk i) s) = release (SemLk i) (wake_first (ChSem i) ?t)"
      by (simp add: tt wakeup_one_wake_first [OF q])
    also have "\<dots> = Ret () (wake_first (ChSem i) ?t')" by (subst w, subst w') (rule r)
    finally show ?thesis using True by simp
  next
    case False
    then show ?thesis by (simp add: tt r0)
  qed
  finally show ?thesis by (simp add: Let_def)
qed

end
