(* ===== verification/SemProtocol.thy ===== *)
theory SemProtocol
  imports Semaphore
begin

text \<open>
  Processes that use one semaphore, on any number of harts, in any order. A step runs one
  operation of the kernel from a hart that holds no lock to the point where it holds none again:
  \<^verbatim>\<open>sem_wait\<close> up to its return or its context switch, \<^verbatim>\<open>sem_signal\<close>, a preemption
  through \<^verbatim>\<open>yield\<close>, or the scheduler up to the moment the process it picked has returned
  from \<^verbatim>\<open>sem_wait\<close> or \<^verbatim>\<open>yield\<close>. Any running process may call either operation at
  any time: nothing ties a signal to an earlier wait. The relation is shown to refine an abstract
  counting semaphore that hands a released permit straight to a waiting process. It has no step that
  kills a process or closes the semaphore; the theorems about \<^verbatim>\<open>kkill\<close> add one.
\<close>

section \<open>The abstract semaphore\<close>

text \<open>
  The permits of a process are the waits granted to it less its signals; the number is negative for
  a process that only signals.
\<close>

record csem =
  avail :: nat
  permits :: "nat \<Rightarrow> int"
  waiting :: "nat set"

definition more_permits :: "nat \<Rightarrow> int \<Rightarrow> (nat \<Rightarrow> int) \<Rightarrow> nat \<Rightarrow> int" where
  "more_permits p k f = f(p := f p + k)"

inductive csem_step :: "csem \<Rightarrow> csem \<Rightarrow> bool" where
  take: "p < NPROC \<Longrightarrow> p \<notin> waiting c \<Longrightarrow> 0 < avail c \<Longrightarrow>
     csem_step c (c\<lparr>avail := avail c - 1, permits := more_permits p 1 (permits c)\<rparr>)"
| block: "p < NPROC \<Longrightarrow> p \<notin> waiting c \<Longrightarrow> avail c = 0 \<Longrightarrow>
     csem_step c (c\<lparr>waiting := insert p (waiting c)\<rparr>)"
| handoff: "p < NPROC \<Longrightarrow> p \<notin> waiting c \<Longrightarrow> q \<in> waiting c \<Longrightarrow>
     csem_step c (c\<lparr>permits := more_permits q 1 (more_permits p (- 1) (permits c)), waiting := waiting c - {q}\<rparr>)"
| give: "p < NPROC \<Longrightarrow> waiting c = {} \<Longrightarrow>
     csem_step c (c\<lparr>avail := avail c + 1, permits := more_permits p (- 1) (permits c)\<rparr>)"
| idle: "csem_step c c"

definition csem_ok :: "nat \<Rightarrow> csem \<Rightarrow> bool" where
  "csem_ok n c = (int (avail c) + (\<Sum>p < NPROC. permits c p) = int n \<and>
     waiting c \<subseteq> {..<NPROC} \<and> (waiting c \<noteq> {} \<longrightarrow> avail c = 0))"

lemma sum_more_permits: "p < N \<Longrightarrow> (\<Sum>q < N. more_permits p k f q) = (\<Sum>q < N. f q) + k"
proof -
  assume "p < N"
  then have p: "p \<in> {..<N}" by simp
  have "(\<Sum>q \<in> {..<N} - {p}. more_permits p k f q) = (\<Sum>q \<in> {..<N} - {p}. f q)"
    by (rule sum.cong) (auto simp: more_permits_def)
  then show ?thesis
    using sum.remove [OF finite_lessThan p, of f] sum.remove [OF finite_lessThan p, of "more_permits p k f"]
    by (simp add: more_permits_def)
qed

lemma csem_step_ok: "csem_step c d \<Longrightarrow> csem_ok n c \<Longrightarrow> csem_ok n d"
proof (induction rule: csem_step.induct)
  case (handoff p c q)
  then have "q < NPROC" by (auto simp: csem_ok_def)
  with handoff show ?case by (auto simp: csem_ok_def sum_more_permits)
qed (auto simp: csem_ok_def sum_more_permits)

section \<open>The protocol\<close>

text \<open>
  What the kernel does not record: which processes are inside \<^verbatim>\<open>sem_wait\<close>, and for each
  process its returns from \<^verbatim>\<open>sem_wait\<close> less its calls of \<^verbatim>\<open>sem_signal\<close>.
\<close>

record users =
  blk :: "nat \<Rightarrow> bool"
  balance :: "nat \<Rightarrow> int"

definition fresh_users :: users where
  "fresh_users = \<lparr>blk = (\<lambda>_. False), balance = (\<lambda>_. 0)\<rparr>"

definition went_in :: "nat \<Rightarrow> users \<Rightarrow> users" where
  "went_in p v = v\<lparr>blk := (blk v)(p := True)\<rparr>"

definition got_permit :: "nat \<Rightarrow> users \<Rightarrow> users" where
  "got_permit p v = v\<lparr>blk := (blk v)(p := False), balance := more_permits p 1 (balance v)\<rparr>"

definition gave_permit :: "nat \<Rightarrow> users \<Rightarrow> users" where
  "gave_permit p v = v\<lparr>balance := more_permits p (- 1) (balance v)\<rparr>"

text \<open>The count of a semaphore is an \<^verbatim>\<open>int\<close>; a signal at its largest value is undefined in C.\<close>

inductive sem_step :: "nat \<Rightarrow> sems \<times> users \<Rightarrow> sems \<times> users \<Rightarrow> bool" for i :: nat where
  wait_now: "cproc (cpus s h) = Some p \<Longrightarrow> sem_wait i (s\<lparr>hart := h\<rparr>) = Ret () t \<Longrightarrow>
     sem_step i (s, v) (t, got_permit p v)"
| wait_block: "cproc (cpus s h) = Some p \<Longrightarrow>
     sem_wait i (s\<lparr>hart := h\<rparr>) = Swtch t \<Longrightarrow> scheduler_back p t = Ret () u \<Longrightarrow>
     sem_step i (s, v) (u, went_in p v)"
| signal: "cproc (cpus s h) = Some p \<Longrightarrow> sem_count (sem_table s i) < 2 ^ 31 - 1 \<Longrightarrow>
     sem_signal i (s\<lparr>hart := h\<rparr>) = Ret () t \<Longrightarrow>
     sem_step i (s, v) (t, gave_permit p v)"
| preempt: "cproc (cpus s h) = Some p \<Longrightarrow>
     yield (s\<lparr>hart := h\<rparr>) = Swtch t \<Longrightarrow> scheduler_back p t = Ret () u \<Longrightarrow>
     sem_step i (s, v) (u, v)"
| resume_wait: "cproc (cpus s h) = None \<Longrightarrow> scheduler_scan j (s\<lparr>hart := h\<rparr>) = Ret (Some p) t \<Longrightarrow>
     blk v p \<Longrightarrow> sem_wait_resume p i t = Ret () u \<Longrightarrow>
     sem_step i (s, v) (u, got_permit p v)"
| resume_yield: "cproc (cpus s h) = None \<Longrightarrow> scheduler_scan j (s\<lparr>hart := h\<rparr>) = Ret (Some p) t \<Longrightarrow>
     \<not> blk v p \<Longrightarrow> yield_resume p t = Ret () u \<Longrightarrow>
     sem_step i (s, v) (u, v)"
| clock: "sem_step i (s, v) (s\<lparr>ticks := ticks s + 1\<rparr>, v)"

text \<open>
  A sleeper waits for a signal; a process inside \<^verbatim>\<open>sem_wait\<close> that no longer sleeps has been
  granted a permit and is on its way out.
\<close>

definition sleeper :: "(nat \<Rightarrow> proc) \<Rightarrow> users \<Rightarrow> nat \<Rightarrow> bool" where
  "sleeper pt v p = (blk v p \<and> pstate (pt p) = SLEEPING)"

definition roused :: "(nat \<Rightarrow> proc) \<Rightarrow> users \<Rightarrow> nat \<Rightarrow> bool" where
  "roused pt v p = (blk v p \<and> pstate (pt p) \<noteq> SLEEPING)"

definition granted :: "(nat \<Rightarrow> proc) \<Rightarrow> users \<Rightarrow> nat \<Rightarrow> int" where
  "granted pt v p = balance v p + (if roused pt v p then 1 else 0)"

definition sem_abs :: "nat \<Rightarrow> sems \<times> users \<Rightarrow> csem" where
  "sem_abs i = (\<lambda>(s, v). \<lparr>avail = nat (sem_count (sem_table s i)),
     permits = granted (proc s) v, waiting = {p. sleeper (proc s) v p}\<rparr>)"

text \<open>The machine between two steps.\<close>

definition harts_ok :: "'z mach_scheme \<Rightarrow> bool" where
  "harts_ok s = ((\<forall>lk. lock_free s lk) \<and> (\<forall>h. noff (cpus s h) = 0 \<and> intena (cpus s h) = sie s h))"

definition procs_ok :: "nat \<Rightarrow> 'z procs_scheme \<Rightarrow> users \<Rightarrow> bool" where
  "procs_ok i s v =
     ((\<forall>h p. cproc (cpus s h) = Some p \<longrightarrow> p < NPROC \<and> pstate (proc s p) = RUNNING) \<and>
      (\<forall>h h' p. cproc (cpus s h) = Some p \<longrightarrow> cproc (cpus s h') = Some p \<longrightarrow> h = h') \<and>
      (\<forall>p. blk v p \<or> balance v p \<noteq> 0 \<longrightarrow> p < NPROC) \<and>
      (\<forall>p. blk v p \<longrightarrow> pstate (proc s p) = RUNNABLE \<or>
         (pstate (proc s p) = SLEEPING \<and> pchan (proc s p) = ChSem i)) \<and>
      (\<forall>p. p < NPROC \<longrightarrow> pstate (proc s p) = SLEEPING \<longrightarrow> pchan (proc s p) = ChSem i \<longrightarrow> blk v p))"

definition count_ok :: "nat \<Rightarrow> sems \<times> users \<Rightarrow> bool" where
  "count_ok i = (\<lambda>(s, v). sem_count (sem_table s i) < 2 ^ 31 \<and>
     int (card {p. sleeper (proc s) v p}) = max 0 (- sem_count (sem_table s i)))"

definition sem_inv :: "nat \<Rightarrow> nat \<Rightarrow> sems \<times> users \<Rightarrow> bool" where
  "sem_inv n i st = (harts_ok (fst st) \<and> procs_ok i (fst st) (snd st) \<and> count_ok i st \<and> csem_ok n (sem_abs i st))"

lemmas users_defs = went_in_def got_permit_def gave_permit_def more_permits_def

lemma running_not_blk: "procs_ok i s v \<Longrightarrow> cproc (cpus s h) = Some p \<Longrightarrow> \<not> blk v p"
  by (fastforce simp: procs_ok_def)

section \<open>Refinement\<close>

lemma harts_calm: "harts_ok s \<Longrightarrow> cproc (cpus s h) = Some p \<Longrightarrow> calm p (s\<lparr>hart := h\<rparr>)"
  by (simp add: harts_ok_def calm_def lock_free_def intr_ok_def mach_defs)

lemma harts_ok_frame [simp]:
  "harts_ok (hart_update f s) = harts_ok s"
  "harts_ok (proc_update g sp) = harts_ok sp"
  "harts_ok (ticks_update gt sp) = harts_ok sp"
  "harts_ok (sem_table_update k sm) = harts_ok sm"
  "harts_ok (logged i ty sm) = harts_ok sm"
  by (simp_all add: harts_ok_def lock_free_def)

lemma harts_ok_off_cpu [simp]: "harts_ok s \<Longrightarrow> harts_ok (off_cpu s)"
  by (simp add: harts_ok_def off_cpu_def lock_free_def)

lemma harts_ok_on_cpu [simp]: "harts_ok s \<Longrightarrow> harts_ok (on_cpu p s)"
  by (simp add: harts_ok_def on_cpu_def lock_free_def)

lemma cpu_reads [simp]:
  "proc (off_cpu s) = proc s" "sem_table (off_cpu sm) = sem_table sm"
  "proc (on_cpu p s) = proc s" "sem_table (on_cpu p sm) = sem_table sm"
  "hart (off_cpu s) = hart s" "hart (on_cpu p s) = hart s"
  by (simp_all add: off_cpu_def on_cpu_def)

lemma cproc_off_cpu: "cproc (cpus (off_cpu s) h) = (if h = hart s then None else cproc (cpus s h))"
  by (simp add: off_cpu_def)

lemma cproc_on_cpu: "cproc (cpus (on_cpu p s) h) = (if h = hart s then Some p else cproc (cpus s h))"
  by (simp add: on_cpu_def)

lemma finite_sleepers: "procs_ok i s v \<Longrightarrow> finite {p. sleeper (proc s) v p}"
  by (rule finite_subset [of _ "{..<NPROC}"]) (auto simp: procs_ok_def sleeper_def)

lemma sem_inv_count:
  assumes "sem_inv n i (s, v)"
  shows "- int NPROC \<le> sem_count (sem_table s i)"
proof -
  have "card {p. sleeper (proc s) v p} \<le> card {..<NPROC}"
    using assms by (intro card_mono) (auto simp: sem_inv_def procs_ok_def sleeper_def)
  then show ?thesis using assms by (auto simp: sem_inv_def count_ok_def)
qed

lemma sem_inv_c_int:
  assumes "sem_inv n i (s, v)"
  shows "c_int (sem_count (sem_table s i) - 1) = sem_count (sem_table s i) - 1"
    and "sem_count (sem_table s i) < 2 ^ 31 - 1 \<Longrightarrow> c_int (sem_count (sem_table s i) + 1) = sem_count (sem_table s i) + 1"
  using sem_inv_count [OF assms] assms
  by (auto intro!: c_int_id simp: sem_inv_def count_ok_def NPROC_def)

text \<open>Each step is matched by a step of the abstract semaphore, and keeps the machine in order.\<close>

definition sem_sim :: "nat \<Rightarrow> sems \<times> users \<Rightarrow> sems \<times> users \<Rightarrow> bool" where
  "sem_sim i st st' = (csem_step (sem_abs i st) (sem_abs i st') \<and>
     harts_ok (fst st') \<and> procs_ok i (fst st') (snd st') \<and> count_ok i st')"

lemma sim_wait_now:
  assumes inv: "sem_inv n i (s, v)" and run: "cproc (cpus s h) = Some p"
    and ret: "sem_wait i (s\<lparr>hart := h\<rparr>) = Ret () t"
  shows "sem_sim i (s, v) (t, got_permit p v)"
proof -
  note c = sem_inv_c_int(1) [OF inv]
  have calm: "calm p (s\<lparr>hart := h\<rparr>)" using inv run by (simp add: sem_inv_def harts_calm)
  have pos: "0 < sem_count (sem_table s i)"
    using ret sem_wait_block [OF calm, of i] c by (fastforce simp: not_le)
  then have t: "t = logged i SEM_EVENT_ACQUIRE (dec_sem i (s\<lparr>hart := h\<rparr>))"
    using ret sem_wait_grant [OF calm, of i] c by simp
  have pr: "pstate (proc s p) = RUNNING" "p < NPROC" using inv run by (auto simp: sem_inv_def procs_ok_def)
  have nb: "\<not> blk v p" using inv run running_not_blk [of i s v h p] by (simp add: sem_inv_def)
  then have own: "granted (proc s) (got_permit p v) = more_permits p 1 (granted (proc s) v)"
    and wt: "{q. sleeper (proc s) (got_permit p v) q} = {q. sleeper (proc s) v q}"
    by (auto simp: granted_def roused_def sleeper_def users_defs)
  have no: "card {q. sleeper (proc s) v q} = 0" using inv pos by (auto simp: sem_inv_def count_ok_def)
  have "csem_step (sem_abs i (s, v)) ((sem_abs i (s, v))\<lparr>avail := avail (sem_abs i (s, v)) - 1,
      permits := more_permits p 1 (permits (sem_abs i (s, v)))\<rparr>)"
    using pos pr nb by (intro csem_step.take) (auto simp: sem_abs_def sleeper_def)
  also have "(sem_abs i (s, v))\<lparr>avail := avail (sem_abs i (s, v)) - 1,
      permits := more_permits p 1 (permits (sem_abs i (s, v)))\<rparr> = sem_abs i (t, got_permit p v)"
    using pos c own wt by (simp add: sem_abs_def t dec_sem_def set_sem_def nat_diff_distrib)
  finally have step: "csem_step (sem_abs i (s, v)) (sem_abs i (t, got_permit p v))" .
  have "procs_ok i t (got_permit p v)"
    using inv pr nb by (auto simp: sem_inv_def t dec_sem_def set_sem_def procs_ok_def users_defs split: if_splits)
  moreover have "count_ok i (t, got_permit p v)"
    using inv pos c wt no by (auto simp: sem_inv_def t dec_sem_def set_sem_def count_ok_def)
  ultimately show ?thesis using step inv by (simp add: sem_sim_def sem_inv_def t dec_sem_def set_sem_def)
qed

lemma sim_wait_block:
  assumes inv: "sem_inv n i (s, v)" and run: "cproc (cpus s h) = Some p"
    and ret: "sem_wait i (s\<lparr>hart := h\<rparr>) = Swtch t" "scheduler_back p t = Ret () u"
  shows "sem_sim i (s, v) (u, went_in p v)"
proof -
  note c = sem_inv_c_int(1) [OF inv]
  have calm: "calm p (s\<lparr>hart := h\<rparr>)" using inv run by (simp add: sem_inv_def harts_calm)
  have neg: "sem_count (sem_table s i) \<le> 0"
    using ret sem_wait_grant [OF calm, of i] c by (fastforce simp: not_le)
  then have u: "u = off_cpu (set_proc p (\<lambda>q. q\<lparr>pchan := ChSem i, pstate := SLEEPING, sched_intena := sie s h\<rparr>)
       (logged i SEM_EVENT_WAIT (dec_sem i (s\<lparr>hart := h\<rparr>))))"
    using ret sem_wait_block [OF calm, of i] c by (auto simp: intr_get_def)
  have pr: "pstate (proc s p) = RUNNING" "p < NPROC" using inv run by (auto simp: sem_inv_def procs_ok_def)
  have nb: "\<not> blk v p" using inv run running_not_blk [of i s v h p] by (simp add: sem_inv_def)
  have own: "granted (proc u) (went_in p v) = granted (proc s) v"
    using nb by (auto simp: granted_def roused_def u set_proc_def dec_sem_def set_sem_def users_defs fun_eq_iff)
  have wt: "{q. sleeper (proc u) (went_in p v) q} = insert p {q. sleeper (proc s) v q}"
    by (auto simp: sleeper_def u set_proc_def dec_sem_def set_sem_def users_defs)
  have fin: "finite {q. sleeper (proc s) v q}" using inv finite_sleepers by (auto simp: sem_inv_def)
  have cu: "sem_count (sem_table u i) = sem_count (sem_table s i) - 1"
    using c by (simp add: u set_proc_def dec_sem_def set_sem_def)
  have "csem_step (sem_abs i (s, v)) ((sem_abs i (s, v))\<lparr>waiting := insert p (waiting (sem_abs i (s, v)))\<rparr>)"
    using neg pr nb by (intro csem_step.block) (auto simp: sem_abs_def sleeper_def)
  also have "(sem_abs i (s, v))\<lparr>waiting := insert p (waiting (sem_abs i (s, v)))\<rparr> = sem_abs i (u, went_in p v)"
    using neg own wt cu by (simp add: sem_abs_def)
  moreover have "count_ok i (u, went_in p v)"
    using inv neg fin nb by (simp add: count_ok_def sem_inv_def wt cu) (simp add: sleeper_def)
  moreover have "procs_ok i u (went_in p v)"
    using inv pr nb run
    by (auto simp: sem_inv_def u procs_ok_def set_proc_def dec_sem_def set_sem_def cproc_off_cpu users_defs split: if_splits)
  ultimately show ?thesis
    using inv by (simp add: sem_sim_def sem_inv_def u set_proc_def dec_sem_def set_sem_def)
qed

lemma sim_signal_free:
  assumes inv: "sem_inv n i (s, v)" and run: "cproc (cpus s h) = Some p"
    and t: "t = inc_sem i (logged i SEM_EVENT_RELEASE (s\<lparr>hart := h\<rparr>))"
    and c: "c_int (sem_count (sem_table s i) + 1) = sem_count (sem_table s i) + 1"
    and pos: "0 \<le> sem_count (sem_table s i)" "sem_count (sem_table s i) < 2 ^ 31 - 1"
  shows "sem_sim i (s, v) (t, gave_permit p v)"
proof -
  have fin: "finite {q. sleeper (proc s) v q}" using inv finite_sleepers by (auto simp: sem_inv_def)
  have none: "{q. sleeper (proc s) v q} = {}"
    using inv pos fin by (auto simp: sem_inv_def count_ok_def card_eq_0_iff)
  have pr: "p < NPROC" using inv run by (auto simp: sem_inv_def procs_ok_def)
  have own: "granted (proc s) (gave_permit p v) = more_permits p (- 1) (granted (proc s) v)"
    and wt: "{q. sleeper (proc s) (gave_permit p v) q} = {q. sleeper (proc s) v q}"
    by (auto simp: granted_def roused_def sleeper_def users_defs)
  have "csem_step (sem_abs i (s, v)) ((sem_abs i (s, v))\<lparr>avail := avail (sem_abs i (s, v)) + 1,
      permits := more_permits p (- 1) (permits (sem_abs i (s, v)))\<rparr>)"
    using pr none by (intro csem_step.give) (auto simp: sem_abs_def)
  also have "(sem_abs i (s, v))\<lparr>avail := avail (sem_abs i (s, v)) + 1,
      permits := more_permits p (- 1) (permits (sem_abs i (s, v)))\<rparr> = sem_abs i (t, gave_permit p v)"
    using pos c own wt by (simp add: sem_abs_def t inc_sem_def set_sem_def nat_add_distrib)
  finally have step: "csem_step (sem_abs i (s, v)) (sem_abs i (t, gave_permit p v))" .
  have "procs_ok i t (gave_permit p v)"
    using inv pr by (auto simp: sem_inv_def t inc_sem_def set_sem_def procs_ok_def users_defs split: if_splits)
  moreover have "count_ok i (t, gave_permit p v)"
    using pos c arg_cong [OF wt, of card] arg_cong [OF none, of card] by (simp add: t inc_sem_def set_sem_def count_ok_def)
  ultimately show ?thesis using step inv by (simp add: sem_sim_def sem_inv_def t inc_sem_def set_sem_def)
qed

text \<open>A signal that finds sleepers makes the first of them runnable.\<close>

lemma signal_wakes:
  assumes inv: "sem_inv n i (s, v)" and run: "cproc (cpus s h) = Some p" and neg: "sem_count (sem_table s i) < 0"
  shows "\<exists>q. sleeper (proc s) v q \<and> wake_first (ChSem i) (inc_sem i (logged i SEM_EVENT_RELEASE (s\<lparr>hart := h\<rparr>))) =
    set_proc q (\<lambda>x. x\<lparr>pstate := RUNNABLE\<rparr>) (inc_sem i (logged i SEM_EVENT_RELEASE (s\<lparr>hart := h\<rparr>)))"
proof -
  have "0 < card {q. sleeper (proc s) v q}" using inv neg by (auto simp: sem_inv_def count_ok_def)
  then obtain q0 where q0: "sleeper (proc s) v q0" by (auto simp: card_gt_0_iff)
  have sl: "sleeps_on (Some p) (ChSem i) (proc s) q \<and> q < NPROC \<longleftrightarrow> sleeper (proc s) v q" for q
    using inv run running_not_blk [of i s v h p] by (auto simp: sem_inv_def procs_ok_def sleeps_on_def sleeper_def)
  obtain q where q: "first_idx (sleeps_on (Some p) (ChSem i) (proc s)) [0..<NPROC] = Some q"
    using q0 sl [of q0] first_idx_None [of "sleeps_on (Some p) (ChSem i) (proc s)" "[0..<NPROC]"]
    by (cases "first_idx (sleeps_on (Some p) (ChSem i) (proc s)) [0..<NPROC]") auto
  then have "sleeper (proc s) v q" using sl [of q] by (simp add: first_idx_upt_Some)
  moreover have "cproc (mycpu (s\<lparr>hart := h\<rparr>)) = Some p" using run by (simp add: mach_defs)
  ultimately show ?thesis using q by (intro exI [of _ q]) (simp add: wake_first_def inc_sem_def set_sem_def)
qed

lemma sim_signal_wake:
  assumes inv: "sem_inv n i (s, v)" and run: "cproc (cpus s h) = Some p"
    and t: "t = wake_first (ChSem i) (inc_sem i (logged i SEM_EVENT_RELEASE (s\<lparr>hart := h\<rparr>)))"
    and c: "c_int (sem_count (sem_table s i) + 1) = sem_count (sem_table s i) + 1"
    and neg: "sem_count (sem_table s i) < 0"
  shows "sem_sim i (s, v) (t, gave_permit p v)"
proof -
  obtain q where qs: "sleeper (proc s) v q" and
    tt: "t = set_proc q (\<lambda>x. x\<lparr>pstate := RUNNABLE\<rparr>) (inc_sem i (logged i SEM_EVENT_RELEASE (s\<lparr>hart := h\<rparr>)))"
    using signal_wakes [OF inv run neg] t by auto
  have pr: "p < NPROC" "pstate (proc s p) = RUNNING" using inv run by (auto simp: sem_inv_def procs_ok_def)
  have nb: "\<not> blk v p" using inv run running_not_blk [of i s v h p] by (simp add: sem_inv_def)
  then have pq: "p \<noteq> q" using qs by (auto simp: sleeper_def)
  have own: "granted (proc t) (gave_permit p v) = more_permits q 1 (more_permits p (- 1) (granted (proc s) v))"
    using qs pq by (auto simp: granted_def roused_def sleeper_def tt set_proc_def inc_sem_def set_sem_def users_defs fun_eq_iff)
  have wt: "{r. sleeper (proc t) (gave_permit p v) r} = {r. sleeper (proc s) v r} - {q}"
    by (auto simp: sleeper_def tt set_proc_def inc_sem_def set_sem_def users_defs)
  have cu: "sem_count (sem_table t i) = sem_count (sem_table s i) + 1"
    using c by (simp add: tt set_proc_def inc_sem_def set_sem_def)
  have "csem_step (sem_abs i (s, v)) ((sem_abs i (s, v))\<lparr>
      permits := more_permits q 1 (more_permits p (- 1) (permits (sem_abs i (s, v)))), waiting := waiting (sem_abs i (s, v)) - {q}\<rparr>)"
    using pr nb qs by (intro csem_step.handoff) (auto simp: sem_abs_def sleeper_def)
  also have "(sem_abs i (s, v))\<lparr>
      permits := more_permits q 1 (more_permits p (- 1) (permits (sem_abs i (s, v)))), waiting := waiting (sem_abs i (s, v)) - {q}\<rparr> =
      sem_abs i (t, gave_permit p v)"
    using neg own wt cu by (simp add: sem_abs_def)
  moreover have "count_ok i (t, gave_permit p v)"
    using inv neg qs by (simp add: count_ok_def sem_inv_def wt cu card_Diff_singleton)
  moreover have "procs_ok i t (gave_permit p v)"
    using inv pr qs
    by (auto simp: sem_inv_def tt procs_ok_def set_proc_def inc_sem_def set_sem_def sleeper_def users_defs split: if_splits)
  ultimately show ?thesis
    using inv by (simp add: sem_sim_def sem_inv_def tt set_proc_def inc_sem_def set_sem_def)
qed

lemma signal_returns:
  assumes inv: "sem_inv n i (s, v)" and run: "cproc (cpus s h) = Some p" and lt: "sem_count (sem_table s i) < 2 ^ 31 - 1"
  shows "sem_signal i (s\<lparr>hart := h\<rparr>) =
    Ret () (if sem_count (sem_table s i) < 0 then wake_first (ChSem i) (inc_sem i (logged i SEM_EVENT_RELEASE (s\<lparr>hart := h\<rparr>)))
            else inc_sem i (logged i SEM_EVENT_RELEASE (s\<lparr>hart := h\<rparr>)))"
proof -
  let ?t = "inc_sem i (logged i SEM_EVENT_RELEASE (s\<lparr>hart := h\<rparr>))"
  have calm: "calm p (s\<lparr>hart := h\<rparr>)" using inv run by (simp add: sem_inv_def harts_calm)
  have "sem_count (sem_table ?t i) = sem_count (sem_table s i) + 1"
    using sem_inv_c_int(2) [OF inv lt] by (simp add: inc_sem_def set_sem_def)
  then show ?thesis
    using sem_signal_calm [OF calm, of i] by (cases "sem_count (sem_table s i) < 0") (simp_all add: Let_def)
qed

lemma sim_signal:
  assumes inv: "sem_inv n i (s, v)" and run: "cproc (cpus s h) = Some p" and lt: "sem_count (sem_table s i) < 2 ^ 31 - 1"
    and ret: "sem_signal i (s\<lparr>hart := h\<rparr>) = Ret () t"
  shows "sem_sim i (s, v) (t, gave_permit p v)"
proof (cases "sem_count (sem_table s i) < 0")
  case True
  then show ?thesis
    using ret signal_returns [OF inv run lt] by (intro sim_signal_wake [OF inv run _ sem_inv_c_int(2) [OF inv lt]]) simp_all
next
  case False
  then show ?thesis
    using ret lt signal_returns [OF inv run lt] by (intro sim_signal_free [OF inv run _ sem_inv_c_int(2) [OF inv lt]]) simp_all
qed

lemma sim_preempt:
  assumes inv: "sem_inv n i (s, v)" and run: "cproc (cpus s h) = Some p"
    and ret: "yield (s\<lparr>hart := h\<rparr>) = Swtch t" "scheduler_back p t = Ret () u"
  shows "sem_sim i (s, v) (u, v)"
proof -
  have calm: "calm p (s\<lparr>hart := h\<rparr>)" using inv run by (simp add: sem_inv_def harts_calm)
  have u: "u = off_cpu (set_proc p (\<lambda>q. q\<lparr>pstate := RUNNABLE, sched_intena := sie s h\<rparr>) (s\<lparr>hart := h\<rparr>))"
    using ret yield_off [of "s\<lparr>hart := h\<rparr>" p] by (auto simp: calmD [OF calm] intr_get_def)
  have nb: "\<not> blk v p" using inv run running_not_blk [of i s v h p] by (simp add: sem_inv_def)
  then have own: "granted (proc u) v = granted (proc s) v"
    and wt: "{q. sleeper (proc u) v q} = {q. sleeper (proc s) v q}"
    by (auto simp: granted_def roused_def sleeper_def u set_proc_def fun_eq_iff)
  have eq: "sem_table u = sem_table s" by (simp add: u set_proc_def)
  then have "sem_abs i (u, v) = sem_abs i (s, v)" using own wt by (simp add: sem_abs_def)
  moreover have "procs_ok i u v"
    using inv run by (auto simp: sem_inv_def u procs_ok_def set_proc_def cproc_off_cpu split: if_splits)
  ultimately show ?thesis
    using inv csem_step.idle [of "sem_abs i (s, v)"] eq wt
    by (simp add: sem_sim_def sem_inv_def count_ok_def) (simp add: u set_proc_def)
qed

text \<open>The two ways a process comes back.\<close>

lemma sim_resume:
  assumes inv: "sem_inv n i (s, v)" and off: "cproc (cpus s h) = None"
    and pick: "p < NPROC" "pstate (proc s p) = RUNNABLE"
    and u: "hart u = h" "harts_ok u" "cpus u = cpus (on_cpu p (s\<lparr>hart := h\<rparr>))" "sem_table u = sem_table s"
      "\<And>q. pstate (proc u q) = (if q = p then RUNNING else pstate (proc s q))"
      "\<And>q. q \<noteq> p \<Longrightarrow> pchan (proc u q) = pchan (proc s q)"
    and v': "v' = (if blk v p then got_permit p v else v)"
  shows "sem_sim i (s, v) (u, v')"
proof -
  have own: "granted (proc u) v' = granted (proc s) v"
    and wt: "{q. sleeper (proc u) v' q} = {q. sleeper (proc s) v q}"
    using pick u(5) v' by (auto simp: granted_def roused_def sleeper_def users_defs fun_eq_iff split: if_splits)
  then have "sem_abs i (u, v') = sem_abs i (s, v)" using u(4) by (simp add: sem_abs_def)
  moreover have "procs_ok i u v'"
    using inv pick off u(3,5,6) v'
    by (auto simp: sem_inv_def procs_ok_def cproc_on_cpu users_defs split: if_splits)
  ultimately show ?thesis
    using inv csem_step.idle [of "sem_abs i (s, v)"] u wt
    by (simp add: sem_sim_def sem_inv_def count_ok_def)
qed

lemma scan_picks:
  assumes "harts_ok s" "scheduler_scan j (s\<lparr>hart := h\<rparr>) = Ret (Some p) t"
  shows "p < NPROC" "pstate (proc s p) = RUNNABLE" "t = dispatched p (s\<lparr>hart := h\<rparr>)"
proof -
  have free: "\<forall>k < NPROC. lock_free (s\<lparr>hart := h\<rparr>) (ProcLk k)" "intr_ok (s\<lparr>hart := h\<rparr>)"
    using assms(1) by (simp_all add: harts_ok_def lock_free_def intr_ok_def mach_defs)
  obtain r where r: "first_idx (runnable (proc s)) [j..<NPROC] = Some r"
    and "r = p" "t = dispatched p (s\<lparr>hart := h\<rparr>)"
    using assms(2) scheduler_scan_free [OF free, of j] by (auto split: option.splits)
  moreover have "r \<in> set is \<and> P r" if "first_idx P is = Some r" for P "is"
    using that by (induction "is") (auto split: if_splits)
  ultimately show "p < NPROC" "pstate (proc s p) = RUNNABLE" "t = dispatched p (s\<lparr>hart := h\<rparr>)"
    by (fastforce simp: runnable_def)+
qed

lemma sem_step_sim:
  assumes "sem_step i st st'" "sem_inv n i st"
  shows "sem_sim i st st'"
  using assms
proof (induction rule: sem_step.induct)
  case (resume_wait s h j p t v u)
  have ok: "harts_ok s" using resume_wait.prems by (simp add: sem_inv_def)
  note pick = scan_picks [OF ok resume_wait.hyps(2)]
  have "u = logged i SEM_EVENT_ACQUIRE (set_proc p (\<lambda>q. q\<lparr>pstate := RUNNING, pchan := NoChan\<rparr>) (on_cpu p (s\<lparr>hart := h\<rparr>)))"
    using resume_wait.hyps(4) sem_wait_resumes [of "s\<lparr>hart := h\<rparr>" p i] ok
    by (simp add: pick(3) harts_ok_def lock_free_def mach_defs)
  with pick ok resume_wait.hyps(3) show ?case
    by (intro sim_resume [OF resume_wait.prems resume_wait.hyps(1), of p]) (auto simp: set_proc_def)
next
  case (resume_yield s h j p t v u)
  have ok: "harts_ok s" using resume_yield.prems by (simp add: sem_inv_def)
  note pick = scan_picks [OF ok resume_yield.hyps(2)]
  have "u = set_proc p (\<lambda>q. q\<lparr>pstate := RUNNING\<rparr>) (on_cpu p (s\<lparr>hart := h\<rparr>))"
    using resume_yield.hyps(4) yield_resume_dispatched [of "s\<lparr>hart := h\<rparr>" p] ok
    by (simp add: pick(3) harts_ok_def lock_free_def mach_defs)
  with pick ok resume_yield.hyps(3) show ?case
    by (intro sim_resume [OF resume_yield.prems resume_yield.hyps(1), of p]) (auto simp: set_proc_def)
next
  case (clock s v)
  have "sem_abs i (s\<lparr>ticks := ticks s + 1\<rparr>, v) = sem_abs i (s, v)" by (simp add: sem_abs_def)
  with clock show ?case
    using csem_step.idle [of "sem_abs i (s, v)"]
    by (simp add: sem_sim_def sem_inv_def count_ok_def procs_ok_def)
qed (simp_all add: sim_wait_now sim_wait_block sim_signal sim_preempt)

lemma sem_step_inv:
  assumes "sem_step i st st'" "sem_inv n i st"
  shows "csem_step (sem_abs i st) (sem_abs i st')" "sem_inv n i st'"
proof -
  have sim: "sem_sim i st st'" using assms by (rule sem_step_sim)
  then show "csem_step (sem_abs i st) (sem_abs i st')" by (simp add: sem_sim_def)
  with sim assms(2) show "sem_inv n i st'"
    using csem_step_ok by (auto simp: sem_sim_def sem_inv_def)
qed

lemma sem_reach_inv: "(sem_step i)\<^sup>*\<^sup>* st st' \<Longrightarrow> sem_inv n i st \<Longrightarrow> sem_inv n i st'"
  by (induction rule: rtranclp_induct) (auto intro: sem_step_inv)

section \<open>Running the protocol\<close>

text \<open>From a state in order every operation goes through: no lock is found taken, nothing panics.\<close>

lemma step_wait_now:
  assumes "harts_ok s" "cproc (cpus s h) = Some p" "0 \<le> c_int (sem_count (sem_table s i) - 1)"
  shows "sem_step i (s, v) (logged i SEM_EVENT_ACQUIRE (dec_sem i (s\<lparr>hart := h\<rparr>)), got_permit p v)"
  using assms by (intro sem_step.wait_now) (auto simp: sem_wait_grant [OF harts_calm])

definition blocked_state :: "nat \<Rightarrow> nat \<Rightarrow> nat \<Rightarrow> sems \<Rightarrow> sems" where
  "blocked_state i h p s =
     off_cpu (set_proc p (\<lambda>q. q\<lparr>pchan := ChSem i, pstate := SLEEPING, sched_intena := sie s h\<rparr>)
       (logged i SEM_EVENT_WAIT (dec_sem i (s\<lparr>hart := h\<rparr>))))"

lemma step_wait_block:
  assumes "harts_ok s" "cproc (cpus s h) = Some p" "c_int (sem_count (sem_table s i) - 1) < 0"
  shows "sem_step i (s, v) (blocked_state i h p s, went_in p v)"
proof -
  obtain u where "sem_wait i (s\<lparr>hart := h\<rparr>) = Swtch u" "scheduler_back p u = Ret () (blocked_state i h p s)"
    using sem_wait_block [OF harts_calm [OF assms(1,2)], of i] assms(3)
    by (auto simp: blocked_state_def intr_get_def)
  with assms show ?thesis by (intro sem_step.wait_block) auto
qed

lemma step_signal:
  assumes "harts_ok s" "cproc (cpus s h) = Some p" "sem_count (sem_table s i) < 2 ^ 31 - 1"
  shows "sem_step i (s, v) (let t = inc_sem i (logged i SEM_EVENT_RELEASE (s\<lparr>hart := h\<rparr>))
      in (if sem_count (sem_table t i) \<le> 0 then wake_first (ChSem i) t else t), gave_permit p v)"
  using assms by (intro sem_step.signal) (auto simp: sem_signal_calm [OF harts_calm] Let_def)

definition resumed_state :: "nat \<Rightarrow> nat \<Rightarrow> nat \<Rightarrow> sems \<Rightarrow> sems" where
  "resumed_state i h p s = logged i SEM_EVENT_ACQUIRE
     (set_proc p (\<lambda>q. q\<lparr>pstate := RUNNING, pchan := NoChan\<rparr>) (on_cpu p (s\<lparr>hart := h\<rparr>)))"

lemma resume_returns:
  assumes "harts_ok s" "first_idx (runnable (proc s)) [j..<NPROC] = Some p"
  shows "\<exists>t. scheduler_scan j (s\<lparr>hart := h\<rparr>) = Ret (Some p) t \<and> sem_wait_resume p i t = Ret () (resumed_state i h p s)"
proof -
  have free: "\<forall>lk. lock_free (s\<lparr>hart := h\<rparr>) lk" "noff (mycpu (s\<lparr>hart := h\<rparr>)) = 0" "intr_ok (s\<lparr>hart := h\<rparr>)"
    using assms(1) by (simp_all add: harts_ok_def lock_free_def intr_ok_def mach_defs)
  have "scheduler_scan j (s\<lparr>hart := h\<rparr>) = Ret (Some p) (dispatched p (s\<lparr>hart := h\<rparr>))"
    using free assms(2) by (simp add: scheduler_scan_free)
  then show ?thesis using free by (simp add: sem_wait_resumes resumed_state_def)
qed

lemma step_resume_wait:
  assumes "harts_ok s" "cproc (cpus s h) = None" "blk v p"
    "first_idx (runnable (proc s)) [j..<NPROC] = Some p"
  shows "sem_step i (s, v) (resumed_state i h p s, got_permit p v)"
  using resume_returns [OF assms(1,4), of h i] assms(2,3) by (blast intro: sem_step.resume_wait)

lemma scan_reaches:
  assumes "P p" "j \<le> p" "p < n" "\<forall>k. j \<le> k \<and> k < p \<longrightarrow> \<not> P k"
  shows "first_idx P [j..<n] = Some p"
proof -
  have "[j..<n] = [j..<p] @ p # [Suc p..<n]" using assms(2,3) upt_add_eq_append [of j p "n - p"] by (simp add: upt_conv_Cons)
  moreover have "first_idx P [j..<p] = None" using assms(4) by (auto simp: first_idx_None)
  ultimately show ?thesis using assms(1) by (simp add: first_idx_append)
qed

section \<open>Killing a waiting process\<close>

text \<open>The protocol with \<^verbatim>\<open>kkill\<close>, which a running process may call at any time.\<close>

inductive sem_kill_step :: "nat \<Rightarrow> sems \<times> users \<Rightarrow> sems \<times> users \<Rightarrow> bool" for i :: nat where
  use: "sem_step i st st' \<Longrightarrow> sem_kill_step i st st'"
| kill: "cproc (cpus s h) = Some p \<Longrightarrow> kkill n (s\<lparr>hart := h\<rparr>) = Ret 0 t \<Longrightarrow>
     sem_kill_step i (s, v) (t, v)"

lemma kill_returns:
  assumes "harts_ok s" "first_idx (\<lambda>k. pid (proc s k) = n) [0..<NPROC] = Some q"
  shows "kkill n (s\<lparr>hart := h\<rparr>) = Ret 0 (set_proc q kill_mark (s\<lparr>hart := h\<rparr>))"
proof -
  have "\<forall>k < NPROC. lock_free (s\<lparr>hart := h\<rparr>) (ProcLk k)" "intr_ok (s\<lparr>hart := h\<rparr>)"
    using assms(1) by (simp_all add: harts_ok_def lock_free_def intr_ok_def mach_defs)
  with assms show ?thesis by (simp add: kkill_free)
qed

text \<open>
  A concrete machine: processes 0, 1 and 2, with pids 1, 2 and 3, run on harts 0, 1 and 2, and
  semaphore 0 is open with one permit.
\<close>

definition demo_proc :: "nat \<Rightarrow> proc" where
  "demo_proc p = \<lparr>pstate = (if p < 3 then RUNNING else UNUSED), pchan = NoChan, killed_flag = 0,
     xstate = 0, pid = (if p < 3 then int p + 1 else 0), parent = None, kstack = 0, sz = 0,
     pagetable = 0, trapframe = 0, pcontext = \<lparr>ctx_ra = 0, ctx_sp = 0, ctx_s = (\<lambda>_. 0)\<rparr>,
     ofile = (\<lambda>_. None), cwd = None, pname = (\<lambda>_. 0), sched_intena = False\<rparr>"

definition demo :: sems where
  "demo = \<lparr>hart = 0, sie = (\<lambda>_. False),
     cpus = (\<lambda>h. \<lparr>cproc = (if h < 3 then Some h else None), noff = 0, intena = False\<rparr>),
     locks = (\<lambda>_. \<lparr>locked = False, lname = [], lcpu = None\<rparr>),
     phys = (\<lambda>_. 0), freelist = 0, kend = 0,
     syms = \<lparr>etext = 0, trampoline = 0, uservec = 0, userret = 0, kernelvec = 0, forkret_addr = 0, usertrap_addr = 0\<rparr>,
     proc = demo_proc, nextpid = 4, initproc = Some 0, ticks = 7, kernel_pagetable = 0, satp = (\<lambda>_. 0),
     sem_table = (\<lambda>_. \<lparr>sem_count = 1, sem_active = 1, sem_name = (\<lambda>_. 0)\<rparr>),
     sem_event_log = (\<lambda>_. zero_event), sem_event_index = 0\<rparr>"

abbreviation demo1 :: sems where
  "demo1 \<equiv> logged 0 SEM_EVENT_ACQUIRE (dec_sem 0 (demo\<lparr>hart := 0\<rparr>))"

abbreviation demo2 :: sems where
  "demo2 \<equiv> blocked_state 0 1 1 demo1"

abbreviation view1 :: users where "view1 \<equiv> got_permit 0 fresh_users"
abbreviation view2 :: users where "view2 \<equiv> went_in 1 view1"
abbreviation view4 :: users where "view4 \<equiv> got_permit 1 view2"
abbreviation view5 :: users where "view5 \<equiv> gave_permit 0 view4"
abbreviation view6 :: users where "view6 \<equiv> went_in 2 view5"

lemma demo_ok: "harts_ok demo" "procs_ok 0 demo fresh_users" "sem_inv 1 0 (demo, fresh_users)"
proof -
  show h: "harts_ok demo" and p: "procs_ok 0 demo fresh_users"
    by (auto simp: demo_def demo_proc_def harts_ok_def lock_free_def procs_ok_def NPROC_def fresh_users_def split: if_splits)
  have "sleeper (proc demo) fresh_users = (\<lambda>_. False)" "granted (proc demo) fresh_users = (\<lambda>_. 0)"
    "sem_count (sem_table demo 0) = 1"
    by (auto simp: sleeper_def granted_def roused_def fresh_users_def demo_def)
  with h p show "sem_inv 1 0 (demo, fresh_users)"
    by (simp add: sem_inv_def count_ok_def csem_ok_def sem_abs_def)
qed

lemma demo_cpus: "cproc (cpus demo h) = (if h < 3 then Some h else None)"
  by (simp add: demo_def)

lemma c_int_small [simp]: "c_int 0 = 0" "c_int 1 = 1" "c_int (- 1) = - 1" "c_int (- 2) = - 2"
  by (simp_all add: c_int_id)

lemma demo_step1: "sem_step 0 (demo, v) (demo1, got_permit 0 v)"
  by (rule step_wait_now) (simp_all add: demo_ok demo_cpus, simp add: demo_def)

lemma demo_step2: "sem_step 0 (demo1, v) (demo2, went_in 1 v)"
  by (rule step_wait_block) (simp_all add: demo_ok demo_cpus dec_sem_def set_sem_def, simp add: demo_def)

lemma demo_run2: "(sem_step 0)\<^sup>*\<^sup>* (demo, fresh_users) (demo2, view2)"
  using demo_step1 demo_step2 by (meson rtranclp.rtrancl_into_rtrancl rtranclp.rtrancl_refl)

text \<open>The run that goes wrong: process 1 sleeps on the semaphore and is killed.\<close>

abbreviation demo3 :: sems where
  "demo3 \<equiv> set_proc 1 kill_mark (demo2\<lparr>hart := 0\<rparr>)"

abbreviation demo4 :: sems where
  "demo4 \<equiv> resumed_state 0 1 1 demo3"

abbreviation demo5 :: sems where
  "demo5 \<equiv> inc_sem 0 (logged 0 SEM_EVENT_RELEASE (demo4\<lparr>hart := 0\<rparr>))"

abbreviation demo6 :: sems where
  "demo6 \<equiv> blocked_state 0 2 2 demo5"

lemmas demo_defs = blocked_state_def resumed_state_def set_proc_def dec_sem_def inc_sem_def set_sem_def kill_mark_def

lemma demo_harts: "harts_ok demo2" "harts_ok demo3" "harts_ok demo4" "harts_ok demo5"
  by (simp_all add: demo_ok demo_defs)

lemma demo_count:
  "sem_count (sem_table demo2 0) = - 1" "sem_count (sem_table demo4 0) = - 1" "sem_count (sem_table demo5 0) = 0"
  by (simp_all add: demo_defs) (simp_all add: demo_def)

lemma demo_procs:
  "pid (proc demo2 p) = pid (demo_proc p)"
  "pstate (proc demo3 p) = (if p = 1 then RUNNABLE else pstate (demo_proc p))"
  "pstate (proc demo5 p) = pstate (demo_proc p)"
  by (auto simp: demo_defs demo_proc_def demo_def)

lemma demo_cproc:
  "cproc (cpus demo2 h) = (if h < 3 \<and> h \<noteq> 1 then Some h else None)"
  "cproc (cpus demo3 h) = (if h < 3 \<and> h \<noteq> 1 then Some h else None)"
  "cproc (cpus demo4 h) = (if h < 3 then Some h else None)"
  "cproc (cpus demo5 h) = (if h < 3 then Some h else None)"
  by (auto simp: demo_defs cproc_off_cpu cproc_on_cpu demo_cpus)

lemma demo_kill: "kkill 2 (demo2\<lparr>hart := 0\<rparr>) = Ret 0 demo3"
proof (rule kill_returns)
  show "first_idx (\<lambda>k. pid (proc demo2 k) = 2) [0..<NPROC] = Some 1"
    by (auto simp: first_idx_upt_Some demo_procs demo_proc_def NPROC_def simp del: One_nat_def)
qed (simp add: demo_harts del: One_nat_def)

lemma demo_step3: "sem_kill_step 0 (demo2, v) (demo3, v)"
  by (rule sem_kill_step.kill [OF _ demo_kill]) (simp add: demo_cproc del: One_nat_def)

lemma demo_step4: "blk v 1 \<Longrightarrow> sem_step 0 (demo3, v) (demo4, got_permit 1 v)"
proof (rule step_resume_wait [where j = 0])
  show "first_idx (runnable (proc demo3)) [0..<NPROC] = Some 1"
    by (auto simp: first_idx_upt_Some demo_procs runnable_def demo_proc_def NPROC_def simp del: One_nat_def)
qed (simp_all add: demo_harts demo_cproc del: One_nat_def)

lemma demo_step5: "sem_step 0 (demo4, v) (demo5, gave_permit 0 v)"
proof -
  have "sem_step 0 (demo4, v) (let t = demo5 in (if sem_count (sem_table t 0) \<le> 0
      then wake_first (ChSem 0) t else t), gave_permit 0 v)"
    by (intro step_signal) (simp_all add: demo_harts demo_cproc demo_count del: One_nat_def)
  moreover have "first_idx (sleeps_on m (ChSem 0) (proc demo5)) [0..<NPROC] = None" for m
    by (auto simp: first_idx_None sleeps_on_def demo_procs demo_proc_def simp del: One_nat_def split: if_splits)
  ultimately show ?thesis by (simp add: Let_def wake_first_def demo_count del: One_nat_def)
qed

lemma demo_step6: "sem_step 0 (demo5, v) (demo6, went_in 2 v)"
  by (rule step_wait_block) (simp_all add: demo_harts demo_cproc demo_count del: One_nat_def)

lemma demo_run6: "(sem_step 0)\<^sup>*\<^sup>* (demo3, view2) (demo6, view6)"
proof -
  have "sem_step 0 (demo3, view2) (demo4, view4)" by (rule demo_step4) (simp add: users_defs)
  then show ?thesis using demo_step5 [of view4] demo_step6 [of view5]
    by (meson rtranclp.rtrancl_into_rtrancl rtranclp.rtrancl_refl)
qed

text \<open>The killed process holds the one permit, and the machine is in order again.\<close>

lemma view_fields:
  "blk view2 p = (p = 1)" "blk view4 p = False" "blk view5 p = False" "blk view6 p = (p = 2)"
  "balance view4 p = (if p < 2 then 1 else 0)" "balance view5 p = (if p = 1 then 1 else 0)" "balance view6 = balance view5"
  by (auto simp: users_defs fresh_users_def)

lemma demo5_inv: "sem_inv 1 0 (demo5, view5)"
proof -
  have st: "sleeper (proc demo5) view5 = (\<lambda>_. False)" "granted (proc demo5) view5 = (\<lambda>p. if p = 1 then 1 else 0)"
    by (auto simp: sleeper_def granted_def roused_def view_fields simp del: One_nat_def)
  have "procs_ok 0 demo5 view5"
    by (auto simp: procs_ok_def demo_cproc demo_procs demo_proc_def view_fields NPROC_def simp del: One_nat_def split: if_splits)
  then show ?thesis
    by (simp add: sem_inv_def demo_harts count_ok_def csem_ok_def sem_abs_def st demo_count sum.delta NPROC_def del: One_nat_def)
qed

lemma demo6_inv: "sem_inv 1 0 (demo6, view6)"
  by (rule sem_step_inv(2) [OF demo_step6 demo5_inv])

section \<open>Properties\<close>

text \<open>The granted permits are the balances and one for each waiter on its way out.\<close>

lemma sum_granted:
  assumes "procs_ok i s v"
  shows "(\<Sum>p < NPROC. granted (proc s) v p) = (\<Sum>p < NPROC. balance v p) + int (card {p. roused (proc s) v p})"
proof -
  have eq: "{p. roused (proc s) v p} = {..<NPROC} \<inter> {p. roused (proc s) v p}"
    using assms by (auto simp: procs_ok_def roused_def)
  have "(\<Sum>p < NPROC. if roused (proc s) v p then 1 else 0 :: int) = int (card {p. roused (proc s) v p})"
    by (subst eq) (simp add: sum.If_cases)
  then show ?thesis by (simp add: granted_def sum.distrib)
qed

lemma sem_inv_permits:
  assumes "sem_inv n i (s, v)"
  shows "int (nat (sem_count (sem_table s i))) + (\<Sum>p < NPROC. balance v p) + int (card {p. roused (proc s) v p}) = int n"
  using assms sum_granted [of i s v] by (simp add: sem_inv_def csem_ok_def sem_abs_def)

lemma sem_inv_balance:
  assumes "sem_inv n i (s, v)"
  shows "(\<Sum>p < NPROC. balance v p) \<le> int n" and "{p. 0 < balance v p} \<subseteq> {..<NPROC}"
proof -
  have "0 \<le> int (nat (sem_count (sem_table s i)))" "0 \<le> int (card {p. roused (proc s) v p})" by simp_all
  then show "(\<Sum>p < NPROC. balance v p) \<le> int n" using sem_inv_permits [OF assms] by linarith
  have "\<forall>p. balance v p \<noteq> 0 \<longrightarrow> p < NPROC" using assms by (simp add: sem_inv_def procs_ok_def)
  then show "{p. 0 < balance v p} \<subseteq> {..<NPROC}" by force
qed

lemma card_positive_le:
  fixes f :: "nat \<Rightarrow> int"
  assumes "\<forall>p. 0 \<le> f p" "{p. 0 < f p} \<subseteq> {..<N}"
  shows "int (card {p. 0 < f p}) \<le> (\<Sum>p < N. f p)"
proof -
  have "int (card {p. 0 < f p}) = (\<Sum>p \<in> {p. 0 < f p}. 1)" by simp
  also have "\<dots> \<le> (\<Sum>p \<in> {p. 0 < f p}. f p)" by (rule sum_mono) auto
  also have "\<dots> \<le> (\<Sum>p < N. f p)" using assms by (intro sum_mono2) auto
  finally show ?thesis .
qed

text \<open>
  C1. Every step of the kernel's semaphore, on any hart and by any process, is a step of the
  abstract counting semaphore, and keeps the invariant that ties the two together.
\<close>

theorem sem_refines_counting_semaphore:
  assumes "sem_inv n i st" "sem_step i st st'"
  shows "csem_step (sem_abs i st) (sem_abs i st') \<and> sem_inv n i st'"
  using sem_step_inv [OF assms(2,1)] by simp

theorem sem_refines_counting_semaphore_witness:
  "csem_step (sem_abs 0 (demo, fresh_users)) (sem_abs 0 (demo1, view1)) \<and> sem_inv 1 0 (demo1, view1)"
  by (rule sem_refines_counting_semaphore [OF demo_ok(3) demo_step1])

text \<open>
  C2. Mutual exclusion. However calls of \<^verbatim>\<open>sem_wait\<close> and \<^verbatim>\<open>sem_signal\<close> by any
  processes, preemption and scheduling interleave, the returns from \<^verbatim>\<open>sem_wait\<close> never exceed
  the calls of \<^verbatim>\<open>sem_signal\<close> by more than the \<open>n\<close> permits the semaphore was opened with.
  So while no process has signalled more often than it has returned from \<^verbatim>\<open>sem_wait\<close>, at most
  \<open>n\<close> processes are past \<^verbatim>\<open>sem_wait\<close> without having signalled. The runs are those in which no
  process is killed, the semaphore is not closed, and no signal is made at the largest count.
\<close>

theorem sem_mutual_exclusion:
  assumes "sem_inv n i st" "(sem_step i)\<^sup>*\<^sup>* st (s, v)"
  shows "(\<Sum>p < NPROC. balance v p) \<le> int n \<and>
    ((\<forall>p. 0 \<le> balance v p) \<longrightarrow> card {p. 0 < balance v p} \<le> n)"
proof -
  have inv: "sem_inv n i (s, v)" by (rule sem_reach_inv [OF assms(2,1)])
  show ?thesis using sem_inv_balance [OF inv] card_positive_le [of "balance v" NPROC] by auto
qed

theorem sem_mutual_exclusion_witness:
  "(\<Sum>p < NPROC. balance view2 p) \<le> 1 \<and> card {p. 0 < balance view2 p} \<le> 1"
proof -
  have "\<forall>p. 0 \<le> balance view2 p" by (simp add: users_defs fresh_users_def)
  then show ?thesis using sem_mutual_exclusion [OF demo_ok(3) demo_run2] by simp
qed

text \<open>
  C3. No wakeup is lost. In every run of \<^verbatim>\<open>sem_wait\<close> and \<^verbatim>\<open>sem_signal\<close> calls in
  which no process is killed, the semaphore is not closed and no signal is made at the largest count,
  while a process sleeps on the semaphore there is no permit that it could have: the returns from \<^verbatim>\<open>sem_wait\<close> less the calls of
  \<^verbatim>\<open>sem_signal\<close>, together with the waiters already woken, make up all \<open>n\<close> permits, and
  the count is minus the number of sleepers.
\<close>

theorem sem_no_lost_wakeup:
  assumes "sem_inv n i st" "(sem_step i)\<^sup>*\<^sup>* st (s, v)" "sleeper (proc s) v p"
  shows "(\<Sum>q < NPROC. balance v q) + int (card {q. roused (proc s) v q}) = int n \<and>
         sem_count (sem_table s i) = - int (card {q. sleeper (proc s) v q})"
proof -
  have inv: "sem_inv n i (s, v)" by (rule sem_reach_inv [OF assms(2,1)])
  then have "finite {q. sleeper (proc s) v q}" using finite_sleepers by (auto simp: sem_inv_def)
  then have "0 < card {q. sleeper (proc s) v q}" using assms(3) by (auto simp: card_gt_0_iff)
  with inv have "sem_count (sem_table s i) = - int (card {q. sleeper (proc s) v q})" by (auto simp: sem_inv_def count_ok_def)
  then show ?thesis using sem_inv_permits [OF inv] by simp
qed

theorem sem_no_lost_wakeup_witness:
  "sleeper (proc demo2) view2 1 \<and> (\<Sum>q < NPROC. balance view2 q) + int (card {q. roused (proc demo2) view2 q}) = 1 \<and>
   sem_count (sem_table demo2 0) = - int (card {q. sleeper (proc demo2) view2 q})"
proof -
  have s: "sleeper (proc demo2) view2 1" by (simp add: sleeper_def demo_defs users_defs)
  then show ?thesis using sem_no_lost_wakeup [OF demo_ok(3) demo_run2 s] by simp
qed

text \<open>
  C4. Nothing panics or spins, and every operation leaves the machine ready for the next. In every
  state of the runs without a kill, a close or a signal at the largest count: a running process that
  calls \<^verbatim>\<open>sem_wait\<close> gets through it or goes to sleep; one that calls
  \<^verbatim>\<open>sem_signal\<close> while the count is below its largest value gets through it, and wakes a sleeper if there is one; and a
  waiter that has been woken returns from \<^verbatim>\<open>sem_wait\<close> on any idle hart whose scheduler comes
  to it. Each time the state reached is in order again: every lock is free, interrupts are as they
  were, and the count agrees with the sleepers.
\<close>

theorem sem_progress:
  assumes "sem_inv n i st" "(sem_step i)\<^sup>*\<^sup>* st (s, v)"
  shows "(cproc (cpus s h) = Some p \<longrightarrow>
            (\<exists>t. sem_wait i (s\<lparr>hart := h\<rparr>) = Ret () t \<and> sem_inv n i (t, got_permit p v)) \<or>
            (\<exists>t u. sem_wait i (s\<lparr>hart := h\<rparr>) = Swtch t \<and> scheduler_back p t = Ret () u \<and> sem_inv n i (u, went_in p v))) \<and>
         (cproc (cpus s h) = Some p \<longrightarrow> sem_count (sem_table s i) < 2 ^ 31 - 1 \<longrightarrow>
            (\<exists>t. sem_signal i (s\<lparr>hart := h\<rparr>) = Ret () t \<and> sem_inv n i (t, gave_permit p v) \<and>
               ({q. sleeper (proc s) v q} \<noteq> {} \<longrightarrow> (\<exists>q. sleeper (proc s) v q \<and> roused (proc t) (gave_permit p v) q)))) \<and>
         (cproc (cpus s h) = None \<longrightarrow> roused (proc s) v p \<longrightarrow> j \<le> p \<longrightarrow>
            (\<forall>k. j \<le> k \<and> k < p \<longrightarrow> \<not> runnable (proc s) k) \<longrightarrow>
            (\<exists>t u. scheduler_scan j (s\<lparr>hart := h\<rparr>) = Ret (Some p) t \<and> sem_wait_resume p i t = Ret () u \<and>
               cproc (cpus u h) = Some p \<and> sem_inv n i (u, got_permit p v)))"
proof (intro conjI impI)
  have inv: "sem_inv n i (s, v)" by (rule sem_reach_inv [OF assms(2,1)])
  then have ok: "harts_ok s" "procs_ok i s v" by (simp_all add: sem_inv_def)
  note calm = harts_calm [OF ok(1), of h p] and next_ok = sem_step_inv(2) [OF _ inv]
  show "(\<exists>t. sem_wait i (s\<lparr>hart := h\<rparr>) = Ret () t \<and> sem_inv n i (t, got_permit p v)) \<or>
      (\<exists>t u. sem_wait i (s\<lparr>hart := h\<rparr>) = Swtch t \<and> scheduler_back p t = Ret () u \<and> sem_inv n i (u, went_in p v))"
    if run: "cproc (cpus s h) = Some p"
    using sem_wait_grant [OF calm [OF run], of i] sem_wait_block [OF calm [OF run], of i]
      next_ok [OF sem_step.wait_now [OF run]] next_ok [OF sem_step.wait_block [OF run]]
    by (cases "0 \<le> c_int (sem_count (sem_table s i) - 1)") auto
  show "\<exists>t. sem_signal i (s\<lparr>hart := h\<rparr>) = Ret () t \<and> sem_inv n i (t, gave_permit p v) \<and>
      ({q. sleeper (proc s) v q} \<noteq> {} \<longrightarrow> (\<exists>q. sleeper (proc s) v q \<and> roused (proc t) (gave_permit p v) q))"
    if run: "cproc (cpus s h) = Some p" and lt: "sem_count (sem_table s i) < 2 ^ 31 - 1"
  proof -
    obtain t where t: "sem_signal i (s\<lparr>hart := h\<rparr>) = Ret () t" using signal_returns [OF inv run lt] by blast
    have "\<exists>q. sleeper (proc s) v q \<and> roused (proc t) (gave_permit p v) q" if ne: "{q. sleeper (proc s) v q} \<noteq> {}"
    proof -
      have "0 < card {q. sleeper (proc s) v q}" using ne finite_sleepers [OF ok(2)] by (simp add: card_gt_0_iff)
      then have neg: "sem_count (sem_table s i) < 0" using inv by (auto simp: sem_inv_def count_ok_def)
      from signal_wakes [OF inv run neg] show ?thesis
        using t signal_returns [OF inv run lt] neg by (auto simp: roused_def sleeper_def set_proc_def users_defs)
    qed
    then show ?thesis using t next_ok [OF sem_step.signal [OF run lt t]] by blast
  qed
  show "\<exists>t u. scheduler_scan j (s\<lparr>hart := h\<rparr>) = Ret (Some p) t \<and> sem_wait_resume p i t = Ret () u \<and>
      cproc (cpus u h) = Some p \<and> sem_inv n i (u, got_permit p v)"
    if off: "cproc (cpus s h) = None" and r: "roused (proc s) v p" and j: "j \<le> p" "\<forall>k. j \<le> k \<and> k < p \<longrightarrow> \<not> runnable (proc s) k"
  proof -
    have p: "blk v p" "runnable (proc s) p" "p < NPROC" using r ok(2) by (auto simp: roused_def runnable_def procs_ok_def)
    have f: "first_idx (runnable (proc s)) [j..<NPROC] = Some p" by (rule scan_reaches [OF p(2) j(1) p(3) j(2)])
    from resume_returns [OF ok(1) f, of h i] next_ok [OF step_resume_wait [OF ok(1) off p(1) f]]
    show ?thesis by (auto simp: resumed_state_def set_proc_def cproc_on_cpu)
  qed
qed

theorem sem_progress_witness:
  "sleeper (proc demo2) view2 1 \<and>
   (\<exists>t. sem_signal 0 (demo2\<lparr>hart := 0\<rparr>) = Ret () t \<and> sem_inv 1 0 (t, gave_permit 0 view2) \<and>
      (\<exists>q. sleeper (proc demo2) view2 q \<and> roused (proc t) (gave_permit 0 view2) q))"
proof -
  have s: "sleeper (proc demo2) view2 1" by (simp add: sleeper_def demo_defs users_defs)
  then have "{q. sleeper (proc demo2) view2 q} \<noteq> {}" by blast
  then show ?thesis
    using s sem_progress [OF demo_ok(3) demo_run2, of 0 0, THEN conjunct2, THEN conjunct1] by (simp add: demo_cproc demo_count del: One_nat_def)
qed

text \<open>
  C5. A kill breaks mutual exclusion: \<^verbatim>\<open>kkill\<close> makes a sleeper runnable, and
  \<^verbatim>\<open>sem_wait\<close>, which sleeps once and does not test again, returns to it as if it had been
  granted a permit. There is a run, on a semaphore with one permit, that ends with two
  processes past \<^verbatim>\<open>sem_wait\<close>, although no process has signalled more often than it waited.
\<close>

theorem kill_breaks_mutual_exclusion:
  "\<exists>s v. (sem_kill_step 0)\<^sup>*\<^sup>* (demo, fresh_users) (s, v) \<and> (\<forall>p. 0 \<le> balance v p) \<and> card {p. 0 < balance v p} = 2"
proof (intro exI conjI)
  show "(sem_kill_step 0)\<^sup>*\<^sup>* (demo, fresh_users) (demo4, view4)"
    using sem_kill_step.use [OF demo_step1 [of fresh_users]] sem_kill_step.use [OF demo_step2 [of view1]]
      demo_step3 [of view2] sem_kill_step.use [OF demo_step4 [of view2]]
    by (metis (no_types, lifting) view_fields(1) rtranclp.rtrancl_into_rtrancl rtranclp.rtrancl_refl)
  have eq: "{p. 0 < balance view4 p} = {0, 1}" by (auto simp: view_fields simp del: One_nat_def)
  show "card {p. 0 < balance view4 p} = 2" by (subst eq) simp
qed (simp add: view_fields del: One_nat_def)

text \<open>
  C8. A kill also loses a permit: the count was lowered for the killed waiter and is never raised
  again. There is a run, on a semaphore with one permit, in which process 1 is killed while it sleeps
  in \<^verbatim>\<open>sem_wait\<close>, and is the only one killed; it returns from \<^verbatim>\<open>sem_wait\<close>, the holder
  signals, and yet process 2, which then calls \<^verbatim>\<open>sem_wait\<close>, sleeps while no process but the
  killed one has a permit. However the run goes on, as long as the killed process does not
  signal and no other signals more often than it waited, no process but the killed one ever holds a
  permit.
\<close>

theorem kill_loses_permit:
  "\<exists>s1 v1 s2 s3 v3. (sem_step 0)\<^sup>*\<^sup>* (demo, fresh_users) (s1, v1) \<and> sleeper (proc s1) v1 1 \<and>
     kkill 2 (s1\<lparr>hart := 0\<rparr>) = Ret 0 s2 \<and> (sem_step 0)\<^sup>*\<^sup>* (s2, v1) (s3, v3) \<and>
     {p. killed_flag (proc s3 p) \<noteq> 0} = {1} \<and> \<not> blk v3 1 \<and> sleeper (proc s3) v3 2 \<and>
     {p. granted (proc s3) v3 p \<noteq> 0} = {1} \<and>
     {p. \<exists>s4 v4. (sem_step 0)\<^sup>*\<^sup>* (s3, v3) (s4, v4) \<and> balance v4 1 = 1 \<and> (\<forall>q. 0 \<le> balance v4 q) \<and> 0 < balance v4 p} = {1}"
proof (intro exI conjI)
  show "(sem_step 0)\<^sup>*\<^sup>* (demo, fresh_users) (demo2, view2)" by (rule demo_run2)
  show "sleeper (proc demo2) view2 1" by (simp add: sleeper_def demo_defs users_defs)
  show "kkill 2 (demo2\<lparr>hart := 0\<rparr>) = Ret 0 demo3" by (rule demo_kill)
  show "(sem_step 0)\<^sup>*\<^sup>* (demo3, view2) (demo6, view6)" by (rule demo_run6)
  show "{p. killed_flag (proc demo6 p) \<noteq> 0} = {1}" by (auto simp: demo_defs demo_def demo_proc_def simp del: One_nat_def)
  show "\<not> blk view6 1" by (simp add: view_fields del: One_nat_def)
  show "sleeper (proc demo6) view6 2" by (simp add: sleeper_def demo_defs view_fields del: One_nat_def)
  show "{p. granted (proc demo6) view6 p \<noteq> 0} = {1}"
    by (auto simp: granted_def roused_def view_fields demo_defs simp del: One_nat_def)
  have only: "p = 1" if run: "(sem_step 0)\<^sup>*\<^sup>* (demo6, view6) (s, v)"
    and b: "balance v 1 = 1" "\<forall>q. 0 \<le> balance v q" "0 < balance v p" for s v p
  proof (rule ccontr)
    assume "p \<noteq> 1"
    have inv: "sem_inv 1 0 (s, v)" by (rule sem_reach_inv [OF run demo6_inv])
    have fin: "finite {p. 0 < balance v p}" using sem_inv_balance(2) [OF inv] by (rule finite_subset) simp
    have "card {1, p} \<le> card {p. 0 < balance v p}" using b by (intro card_mono [OF fin]) auto
    moreover have "int (card {p. 0 < balance v p}) \<le> 1"
      using card_positive_le [OF b(2) sem_inv_balance(2) [OF inv]] sem_inv_balance(1) [OF inv] by simp
    ultimately show False using \<open>p \<noteq> 1\<close> by simp
  qed
  have "balance view6 1 = 1" "\<forall>q. 0 \<le> balance view6 q" by (simp_all add: view_fields del: One_nat_def)
  then show "{p. \<exists>s4 v4. (sem_step 0)\<^sup>*\<^sup>* (demo6, view6) (s4, v4) \<and> balance v4 1 = 1 \<and> (\<forall>q. 0 \<le> balance v4 q) \<and> 0 < balance v4 p} = {1}"
    using only by (auto intro!: exI [of _ demo6] exI [of _ view6])
qed

end
