(* ===== verification/SpinSteps.thy ===== *)
theory SpinSteps
  imports Spinlock
begin

text \<open>
  One spinlock used by many harts: the memory operations of \<^verbatim>\<open>acquire\<close> and
  \<^verbatim>\<open>release\<close> in every interleaving. Each step is one access to the shared lock: a read of
  the lock word, a read of the owner, the atomic exchange, or a store. \<^verbatim>\<open>push_off\<close> and
  \<^verbatim>\<open>pop_off\<close> touch the hart's own data only and are one step each. The two routines of
  \<^verbatim>\<open>kernel/spinlock.c\<close> are shown to be these pieces in sequence.
\<close>

section \<open>Pieces\<close>

text \<open>The two reads of \<^verbatim>\<open>holding\<close>, and the store that clears the owner.\<close>

definition look_word :: "lockid \<Rightarrow> 'z mach_scheme \<Rightarrow> bool" where
  "look_word lk s = locked (locks s lk)"

definition look_owner :: "lockid \<Rightarrow> 'z mach_scheme \<Rightarrow> bool" where
  "look_owner lk s = (lcpu (locks s lk) = Some (cpuid s))"

definition clear_owner :: "lockid \<Rightarrow> 'z mach_scheme \<Rightarrow> 'z mach_scheme" where
  "clear_owner lk s = set_lock lk (\<lambda>l. l\<lparr>lcpu := None\<rparr>) s"

lemma holding_reads: "holding lk s = (if look_word lk s then look_owner lk s else False)"
  by (simp add: holding_def look_word_def look_owner_def)

lemma acquire_pieces:
  "acquire lk s =
     (let s = push_off s in
      if (if look_word lk s then look_owner lk s else False) then Panic ''acquire''
      else case lock_exchange lk s of (busy, s) \<Rightarrow> if busy then Spin else Ret () (acquire_note lk s))"
  by (simp add: acquire_def acquire_enter_def holding_reads Let_def)

lemma release_pieces:
  "release lk s =
     (if \<not> (if look_word lk s then look_owner lk s else False) then Panic ''release''
      else pop_off (release_store lk (clear_owner lk s)))"
  by (simp add: release_def release_note_def holding_reads clear_owner_def)

section \<open>Steps\<close>

text \<open>
  Where a hart stands: outside, after \<^verbatim>\<open>push_off\<close>, between the two reads of
  \<^verbatim>\<open>holding\<close> in \<^verbatim>\<open>acquire\<close>, before an exchange, after the one that won, in the
  critical section, after each read of \<^verbatim>\<open>holding\<close> in \<^verbatim>\<open>release\<close>, after each of its
  two stores, or in \<^verbatim>\<open>panic\<close>.
\<close>

datatype spc = Outside | Pushed | Checking | Spinning | Taken | Inside | Leaving | Checked | Dropped | Cleared | Panicked

text \<open>A step of hart \<open>h\<close>.\<close>

inductive spin_step :: "lockid \<Rightarrow> nat \<Rightarrow> mach \<times> (nat \<Rightarrow> spc) \<Rightarrow> mach \<times> (nat \<Rightarrow> spc) \<Rightarrow> bool"
  for lk :: lockid and h :: nat where
  enter: "pc h = Outside \<Longrightarrow> spin_step lk h (s, pc) (push_off (s\<lparr>hart := h\<rparr>), pc(h := Pushed))"
| word_clear: "pc h = Pushed \<Longrightarrow> \<not> look_word lk (s\<lparr>hart := h\<rparr>) \<Longrightarrow> spin_step lk h (s, pc) (s\<lparr>hart := h\<rparr>, pc(h := Spinning))"
| word_set: "pc h = Pushed \<Longrightarrow> look_word lk (s\<lparr>hart := h\<rparr>) \<Longrightarrow> spin_step lk h (s, pc) (s\<lparr>hart := h\<rparr>, pc(h := Checking))"
| other_owner: "pc h = Checking \<Longrightarrow> \<not> look_owner lk (s\<lparr>hart := h\<rparr>) \<Longrightarrow>
     spin_step lk h (s, pc) (s\<lparr>hart := h\<rparr>, pc(h := Spinning))"
| acquire_panic: "pc h = Checking \<Longrightarrow> look_owner lk (s\<lparr>hart := h\<rparr>) \<Longrightarrow>
     spin_step lk h (s, pc) (s\<lparr>hart := h\<rparr>, pc(h := Panicked))"
| retry: "pc h = Spinning \<Longrightarrow> lock_exchange lk (s\<lparr>hart := h\<rparr>) = (True, t) \<Longrightarrow> spin_step lk h (s, pc) (t, pc)"
| take: "pc h = Spinning \<Longrightarrow> lock_exchange lk (s\<lparr>hart := h\<rparr>) = (False, t) \<Longrightarrow>
     spin_step lk h (s, pc) (t, pc(h := Taken))"
| note_owner: "pc h = Taken \<Longrightarrow> spin_step lk h (s, pc) (acquire_note lk (s\<lparr>hart := h\<rparr>), pc(h := Inside))"
| still_set: "pc h = Inside \<Longrightarrow> look_word lk (s\<lparr>hart := h\<rparr>) \<Longrightarrow> spin_step lk h (s, pc) (s\<lparr>hart := h\<rparr>, pc(h := Leaving))"
| still_owner: "pc h = Leaving \<Longrightarrow> look_owner lk (s\<lparr>hart := h\<rparr>) \<Longrightarrow>
     spin_step lk h (s, pc) (s\<lparr>hart := h\<rparr>, pc(h := Checked))"
| release_panic: "pc h = Inside \<and> \<not> look_word lk (s\<lparr>hart := h\<rparr>) \<or> pc h = Leaving \<and> \<not> look_owner lk (s\<lparr>hart := h\<rparr>) \<Longrightarrow>
     spin_step lk h (s, pc) (s\<lparr>hart := h\<rparr>, pc(h := Panicked))"
| drop_owner: "pc h = Checked \<Longrightarrow> spin_step lk h (s, pc) (clear_owner lk (s\<lparr>hart := h\<rparr>), pc(h := Dropped))"
| clear: "pc h = Dropped \<Longrightarrow> spin_step lk h (s, pc) (release_store lk (s\<lparr>hart := h\<rparr>), pc(h := Cleared))"
| leave: "pc h = Cleared \<Longrightarrow> pop_off (s\<lparr>hart := h\<rparr>) = Ret () t \<Longrightarrow> spin_step lk h (s, pc) (t, pc(h := Outside))"
| leave_panic: "pc h = Cleared \<Longrightarrow> pop_off (s\<lparr>hart := h\<rparr>) = Panic m \<Longrightarrow>
     spin_step lk h (s, pc) (s\<lparr>hart := h\<rparr>, pc(h := Panicked))"

text \<open>A step of any hart, and a step of one of a given set of them.\<close>

definition spin_any :: "lockid \<Rightarrow> mach \<times> (nat \<Rightarrow> spc) \<Rightarrow> mach \<times> (nat \<Rightarrow> spc) \<Rightarrow> bool" where
  "spin_any lk st st' = (\<exists>h. spin_step lk h st st')"

definition spin_among :: "lockid \<Rightarrow> nat set \<Rightarrow> mach \<times> (nat \<Rightarrow> spc) \<Rightarrow> mach \<times> (nat \<Rightarrow> spc) \<Rightarrow> bool" where
  "spin_among lk H st st' = (\<exists>h \<in> H. spin_step lk h st st')"

definition owns :: "spc \<Rightarrow> bool" where
  "owns c = (c \<in> {Taken, Inside, Leaving, Checked, Dropped})"

definition noted :: "spc \<Rightarrow> bool" where
  "noted c = (c \<in> {Inside, Leaving, Checked})"

definition owner_set :: "(nat \<Rightarrow> spc) \<Rightarrow> nat set" where
  "owner_set pc = {k. owns (pc k)}"

text \<open>
  The lock word is set exactly while one hart owns the lock, the owner note names a hart only
  while it is inside, a hart between the first and the last step runs with interrupts off, and
  none has panicked.
\<close>

definition spin_inv :: "lockid \<Rightarrow> mach \<times> (nat \<Rightarrow> spc) \<Rightarrow> bool" where
  "spin_inv lk = (\<lambda>(s, pc).
     (if locked (locks s lk) then \<exists>h. owner_set pc = {h} else owner_set pc = {}) \<and>
     (\<forall>h. lcpu (locks s lk) = Some h \<longleftrightarrow> noted (pc h)) \<and>
     (\<forall>h. noff (cpus s h) = (if pc h = Outside then 0 else 1) \<and>
          (pc h \<noteq> Outside \<longrightarrow> \<not> sie s h)) \<and> (\<forall>h. pc h \<noteq> Panicked))"

lemma owns_simps [simp]:
  "\<not> owns Outside" "\<not> owns Pushed" "\<not> owns Checking" "\<not> owns Spinning" "owns Taken" "owns Inside" "owns Leaving"
  "owns Checked" "owns Dropped" "\<not> owns Cleared" "\<not> owns Panicked"
  by (simp_all add: owns_def)

lemma noted_simps [simp]:
  "\<not> noted Outside" "\<not> noted Pushed" "\<not> noted Checking" "\<not> noted Spinning" "\<not> noted Taken" "noted Inside" "noted Leaving"
  "noted Checked" "\<not> noted Dropped" "\<not> noted Cleared" "\<not> noted Panicked"
  by (simp_all add: noted_def)

lemma noted_owns: "noted c \<Longrightarrow> owns c"
  by (auto simp: noted_def owns_def)

lemma owners_upd:
  "owner_set (pc(h := c)) = (if owns c then insert h (owner_set pc) else owner_set pc - {h})"
  by (auto simp: owner_set_def)

lemma owners_same: "owns (pc h) = owns c \<Longrightarrow> owner_set (pc(h := c)) = owner_set pc"
  by (auto simp: owner_set_def)

lemma spin_invD:
  assumes "spin_inv lk (s, pc)"
  shows "locked (locks s lk) \<Longrightarrow> \<exists>h. owner_set pc = {h}" "\<not> locked (locks s lk) \<Longrightarrow> owner_set pc = {}"
    "lcpu (locks s lk) = Some h \<longleftrightarrow> noted (pc h)"
    "noff (cpus s h) = (if pc h = Outside then 0 else 1)" "pc h \<noteq> Outside \<Longrightarrow> \<not> sie s h" "pc h \<noteq> Panicked"
  using assms by (auto simp: spin_inv_def)

lemma spin_invI:
  assumes "locked (locks s lk) \<Longrightarrow> \<exists>h. owner_set pc = {h}" "\<not> locked (locks s lk) \<Longrightarrow> owner_set pc = {}"
    "\<And>h. lcpu (locks s lk) = Some h \<longleftrightarrow> noted (pc h)"
    "\<And>h. noff (cpus s h) = (if pc h = Outside then 0 else 1)" "\<And>h. pc h \<noteq> Outside \<Longrightarrow> \<not> sie s h"
    "\<And>h. pc h \<noteq> Panicked"
  shows "spin_inv lk (s, pc)"
  using assms by (auto simp: spin_inv_def)

lemma owner_unique:
  assumes "spin_inv lk (s, pc)" "owns (pc h)"
  shows "locked (locks s lk)" "owner_set pc = {h}"
proof -
  have "h \<in> owner_set pc" using assms(2) by (simp add: owner_set_def)
  then show l: "locked (locks s lk)" using spin_invD(2) [OF assms(1)] by auto
  then show "owner_set pc = {h}" using \<open>h \<in> owner_set pc\<close> spin_invD(1) [OF assms(1) l] by auto
qed

lemma not_noted:
  assumes "spin_inv lk (s, pc)" "owns (pc h)" "k \<noteq> h" shows "\<not> noted (pc k)"
proof
  assume "noted (pc k)"
  then have "k \<in> owner_set pc" by (simp add: owner_set_def noted_owns)
  with owner_unique(2) [OF assms(1,2)] assms(3) show False by simp
qed

lemmas spin_defs = lock_exchange_def acquire_note_def clear_owner_def release_store_def look_word_def look_owner_def
  pop_off_def holding_def push_off_explicit mach_defs Let_def

text \<open>A hart that moves without touching the lock keeps the invariant.\<close>

lemma spin_inv_move:
  assumes "spin_inv lk (s, pc)" "pc h \<noteq> Outside" "c \<notin> {Outside, Panicked}" "owns (pc h) = owns c" "noted (pc h) = noted c"
  shows "spin_inv lk (s\<lparr>hart := k\<rparr>, pc(h := c))"
  using spin_invD [OF assms(1)] assms(2-) by (intro spin_invI) (auto simp: owners_same split: if_splits)

lemma spin_step_inv: "spin_step lk h st st' \<Longrightarrow> spin_inv lk st \<Longrightarrow> spin_inv lk st'"
proof (induction rule: spin_step.induct)
  case (enter pc s)
  note D = spin_invD [OF enter.prems]
  show ?case using enter.hyps D by (intro spin_invI) (auto simp: spin_defs owners_same split: if_splits)
next
  case (retry pc s t)
  note D = spin_invD [OF retry.prems]
  have t: "locked (locks t lk) = locked (locks s lk)" "lcpu (locks t lk) = lcpu (locks s lk)"
    "cpus t = cpus s" "sie t = sie s"
    using retry.hyps by (auto simp: spin_defs)
  show ?case using D by (intro spin_invI) (auto simp: t split: if_splits)
next
  case (take pc s t)
  note D = spin_invD [OF take.prems]
  have t: "locked (locks t lk)" "\<not> locked (locks s lk)" "lcpu (locks t lk) = lcpu (locks s lk)"
    "cpus t = cpus s" "sie t = sie s"
    using take.hyps by (auto simp: spin_defs)
  show ?case using take.hyps(1) D t(2) by (intro spin_invI) (auto simp: t owners_upd split: if_splits)
next
  case (note_owner pc s)
  note D = spin_invD [OF note_owner.prems]
  have "\<not> noted (pc k)" if "k \<noteq> h" for k
    using not_noted [OF note_owner.prems, of h k] note_owner.hyps that by simp
  then show ?case using note_owner.hyps D by (intro spin_invI) (auto simp: spin_defs owners_same split: if_splits)
next
  case (drop_owner pc s)
  note D = spin_invD [OF drop_owner.prems]
  have "\<not> noted (pc k)" if "k \<noteq> h" for k
    using not_noted [OF drop_owner.prems, of h k] drop_owner.hyps that by simp
  then show ?case using drop_owner.hyps D by (intro spin_invI) (auto simp: spin_defs owners_same split: if_splits)
next
  case (clear pc s)
  note D = spin_invD [OF clear.prems]
  have "owner_set pc = {h}" using owner_unique(2) [OF clear.prems, of h] clear.hyps by simp
  then show ?case using clear.hyps D by (intro spin_invI) (auto simp: spin_defs owners_upd split: if_splits)
next
  case (leave pc s t)
  note D = spin_invD [OF leave.prems]
  have t: "locks t = locks s" "noff (cpus t k) = (if k = h then noff (cpus s h) - 1 else noff (cpus s k))"
    "k \<noteq> h \<Longrightarrow> sie t k = sie s k" for k
    using leave.hyps by (auto simp: spin_defs split: if_splits)
  show ?case using leave.hyps(1) D by (intro spin_invI) (auto simp: t owners_same split: if_splits)
next
  case (acquire_panic pc s)
  then show ?case using spin_invD(3) [OF acquire_panic.prems, of h] by (simp add: spin_defs)
next
  case (release_panic pc s)
  then show ?case
    using spin_invD(3) [OF release_panic.prems, of h] owner_unique(1) [OF release_panic.prems, of h] by (auto simp: spin_defs)
next
  case (leave_panic pc s m)
  then show ?case using spin_invD(4,5) [OF leave_panic.prems, of h] by (simp add: spin_defs split: if_splits)
qed (auto intro: spin_inv_move)

lemma spin_reach_inv: "(spin_any lk)\<^sup>*\<^sup>* st st' \<Longrightarrow> spin_inv lk st \<Longrightarrow> spin_inv lk st'"
  by (induction rule: rtranclp_induct) (auto simp: spin_any_def intro: spin_step_inv)

section \<open>Progress of a hart\<close>

lemma hart_steps:
  assumes inv: "spin_inv lk (s, pc)"
  shows "\<exists>t c. spin_step lk h (s, pc) (t, pc(h := c))"
proof (cases "pc h")
  case Pushed
  then show ?thesis by (cases "look_word lk (s\<lparr>hart := h\<rparr>)") (blast intro: spin_step.word_clear spin_step.word_set)+
next
  case Checking
  then show ?thesis by (cases "look_owner lk (s\<lparr>hart := h\<rparr>)") (blast intro: spin_step.other_owner spin_step.acquire_panic)+
next
  case Spinning
  obtain b t where x: "lock_exchange lk (s\<lparr>hart := h\<rparr>) = (b, t)" by (cases "lock_exchange lk (s\<lparr>hart := h\<rparr>)")
  have "pc(h := pc h) = pc" by simp
  then show ?thesis using Spinning x by (cases b) (metis spin_step.retry, metis spin_step.take)
next
  case Inside
  then show ?thesis by (cases "look_word lk (s\<lparr>hart := h\<rparr>)") (blast intro: spin_step.still_set spin_step.release_panic)+
next
  case Leaving
  then show ?thesis by (cases "look_owner lk (s\<lparr>hart := h\<rparr>)") (blast intro: spin_step.still_owner spin_step.release_panic)+
next
  case Cleared
  then have "\<exists>t. pop_off (s\<lparr>hart := h\<rparr>) = Ret () t" using spin_invD(4,5) [OF inv, of h] by (simp add: spin_defs)
  with Cleared show ?thesis by (blast intro: spin_step.leave)
next
  case Panicked
  then show ?thesis using spin_invD(6) [OF inv] by blast
qed (blast intro: spin_step.enter spin_step.note_owner spin_step.drop_owner spin_step.clear)+

text \<open>The owner gets to the store that clears the lock word by steps of its own.\<close>

definition can_leave :: "lockid \<Rightarrow> nat \<Rightarrow> (nat \<Rightarrow> spc) \<Rightarrow> mach \<times> (nat \<Rightarrow> spc) \<Rightarrow> bool" where
  "can_leave lk k pc st = (\<exists>t. (spin_step lk k)\<^sup>*\<^sup>* st (t, pc(k := Cleared)) \<and> \<not> locked (locks t lk))"

lemma leave_step: "spin_step lk k st st' \<Longrightarrow> can_leave lk k pc st' \<Longrightarrow> can_leave lk k pc st"
  unfolding can_leave_def by (blast intro: converse_rtranclp_into_rtranclp)

lemma owner_leaves:
  assumes inv: "spin_inv lk (s, pc)" and own: "owns (pc k)"
  shows "can_leave lk k pc (s, pc)"
proof -
  have cleared: "can_leave lk k pc (s, pc(k := Cleared))" if "\<not> locked (locks s lk)" for s
    using that by (auto simp: can_leave_def)
  have dropped: "can_leave lk k pc (s, pc(k := Dropped))" for s
    using leave_step [OF spin_step.clear [of "pc(k := Dropped)" k lk s]] cleared [of "release_store lk (s\<lparr>hart := k\<rparr>)"]
    by (simp add: spin_defs)
  have checked: "can_leave lk k pc (s, pc(k := Checked))" for s
    using leave_step [OF spin_step.drop_owner [of "pc(k := Checked)" k lk s]] dropped by simp
  have leaving: "can_leave lk k pc (s, pc(k := Leaving))" if "lcpu (locks s lk) = Some k" for s
    using leave_step [OF spin_step.still_owner [of "pc(k := Leaving)" k lk s]] checked that by (simp add: spin_defs)
  have inside: "can_leave lk k pc (s, pc(k := Inside))" if "lcpu (locks s lk) = Some k" "locked (locks s lk)" for s
    using leave_step [OF spin_step.still_set [of "pc(k := Inside)" k lk s]] leaving [of "s\<lparr>hart := k\<rparr>"] that
    by (simp add: spin_defs)
  have taken: "can_leave lk k pc (s, pc(k := Taken))" if "locked (locks s lk)" for s
    using leave_step [OF spin_step.note_owner [of "pc(k := Taken)" k lk s]] inside [of "acquire_note lk (s\<lparr>hart := k\<rparr>)"] that
    by (simp add: spin_defs)
  have "pc(k := pc k) = pc" by simp
  then show ?thesis
    using own owner_unique(1) [OF inv own] spin_invD(3) [OF inv, of k]
      dropped [of s] checked [of s] leaving [of s] inside [of s] taken [of s]
    by (cases "pc k") auto
qed

lemma spinner_enters:
  assumes inv: "spin_inv lk (s, pc)" and spin: "pc h = Spinning"
  shows "\<exists>t pc'. (spin_among lk (insert h (owner_set pc)))\<^sup>*\<^sup>* (s, pc) (t, pc') \<and> pc' h = Inside"
proof -
  let ?r = "spin_among lk (insert h (owner_set pc))"
  have free: "\<exists>t pc'. ?r\<^sup>*\<^sup>* (t0, pc0) (t, pc') \<and> pc' h = Inside"
    if "\<not> locked (locks t0 lk)" "pc0 h = Spinning" for t0 pc0
  proof -
    let ?t = "snd (lock_exchange lk (t0\<lparr>hart := h\<rparr>))"
    have "?r (t0, pc0) (?t, pc0(h := Taken))"
      using that by (auto simp: spin_among_def lock_exchange_def intro!: spin_step.take)
    moreover have "?r (?t, pc0(h := Taken)) (acquire_note lk (?t\<lparr>hart := h\<rparr>), pc0(h := Taken, h := Inside))"
      unfolding spin_among_def by (intro bexI [of _ h] spin_step.note_owner) simp_all
    ultimately have "?r\<^sup>*\<^sup>* (t0, pc0) (acquire_note lk (?t\<lparr>hart := h\<rparr>), pc0(h := Inside))"
      by (simp add: converse_rtranclp_into_rtranclp)
    then show ?thesis by (intro exI [of _ "acquire_note lk (?t\<lparr>hart := h\<rparr>)"] exI [of _ "pc0(h := Inside)"]) simp
  qed
  show ?thesis
  proof (cases "locked (locks s lk)")
    case False
    then show ?thesis using free spin by blast
  next
    case True
    then obtain k where k: "owner_set pc = {k}" using spin_invD(1) [OF inv] by blast
    then have own: "owns (pc k)" by (auto simp: owner_set_def)
    obtain t1 where t1: "(spin_step lk k)\<^sup>*\<^sup>* (s, pc) (t1, pc(k := Cleared))" "\<not> locked (locks t1 lk)"
      using owner_leaves [OF inv own] by (auto simp: can_leave_def)
    have "?r\<^sup>*\<^sup>* (s, pc) (t1, pc(k := Cleared))"
      using t1(1) by (rule rtranclp_mono [THEN predicate2D, rotated]) (auto simp: spin_among_def k)
    moreover have "k \<noteq> h" using own spin by auto
    then have "\<exists>t pc'. ?r\<^sup>*\<^sup>* (t1, pc(k := Cleared)) (t, pc') \<and> pc' h = Inside" using free [OF t1(2)] spin by simp
    ultimately show ?thesis by (meson rtranclp_trans)
  qed
qed

text \<open>A machine at rest, for the witnesses.\<close>

definition rest_mach :: mach where
  "rest_mach = \<lparr>hart = 0, sie = (\<lambda>_. True), cpus = (\<lambda>_. \<lparr>cproc = None, noff = 0, intena = True\<rparr>),
     locks = (\<lambda>_. \<lparr>locked = False, lname = [], lcpu = None\<rparr>)\<rparr>"

lemma rest_inv: "spin_inv lk (rest_mach, \<lambda>_. Outside)"
  by (rule spin_invI) (auto simp: rest_mach_def owner_set_def)

lemma spin_anyI: "spin_step lk h st st' \<Longrightarrow> spin_any lk st st'"
  by (auto simp: spin_any_def)

lemma rest_spins: "\<exists>s. (spin_any KmemLk)\<^sup>*\<^sup>* (rest_mach, \<lambda>_. Outside) (s, (\<lambda>_. Outside)(h := Spinning)) \<and> \<not> locked (locks s KmemLk)"
proof -
  let ?t = "push_off (rest_mach\<lparr>hart := h\<rparr>)"
  have "spin_any KmemLk (rest_mach, \<lambda>_. Outside) (?t, (\<lambda>_. Outside)(h := Pushed))"
    by (rule spin_anyI [OF spin_step.enter]) simp
  moreover have "spin_any KmemLk (?t, (\<lambda>_. Outside)(h := Pushed)) (?t\<lparr>hart := h\<rparr>, (\<lambda>_. Outside)(h := Pushed, h := Spinning))"
    by (rule spin_anyI [OF spin_step.word_clear]) (simp_all add: spin_defs rest_mach_def)
  ultimately have "(spin_any KmemLk)\<^sup>*\<^sup>* (rest_mach, \<lambda>_. Outside) (?t\<lparr>hart := h\<rparr>, (\<lambda>_. Outside)(h := Spinning))"
    by (simp add: converse_rtranclp_into_rtranclp)
  then show ?thesis by (intro exI [of _ "?t\<lparr>hart := h\<rparr>"]) (simp add: spin_defs rest_mach_def)
qed

section \<open>Properties\<close>

text \<open>
  C6. A spinlock excludes: in every interleaving of the memory operations of
  \<^verbatim>\<open>acquire\<close> and \<^verbatim>\<open>release\<close> on any number of harts, at most one hart is between
  the two, it is the recorded owner, and its interrupts are off.
\<close>

theorem spinlock_mutual_exclusion:
  assumes "spin_inv lk st" "(spin_any lk)\<^sup>*\<^sup>* st (s, pc)" "pc h = Inside" "pc k = Inside"
  shows "h = k \<and> holding lk (s\<lparr>hart := h\<rparr>) \<and> \<not> intr_get (s\<lparr>hart := h\<rparr>)"
proof -
  have inv: "spin_inv lk (s, pc)" by (rule spin_reach_inv [OF assms(2,1)])
  have "h = k" using not_noted [OF inv, of k h] assms(3,4) by auto
  with inv assms(3) show ?thesis
    using owner_unique(1) [OF inv, of h] spin_invD(3,5) [OF inv, of h] by (simp add: holding_def mach_defs)
qed

theorem spinlock_mutual_exclusion_witness:
  "\<exists>s pc. (spin_any KmemLk)\<^sup>*\<^sup>* (rest_mach, \<lambda>_. Outside) (s, pc) \<and> pc 0 = Inside \<and> holding KmemLk (s\<lparr>hart := 0\<rparr>)"
proof -
  obtain s where s: "(spin_any KmemLk)\<^sup>*\<^sup>* (rest_mach, \<lambda>_. Outside) (s, (\<lambda>_. Outside)(0 := Spinning))"
    using rest_spins by blast
  obtain t pc where t: "(spin_among KmemLk (insert 0 (owner_set ((\<lambda>_. Outside)(0 := Spinning)))))\<^sup>*\<^sup>* (s, (\<lambda>_. Outside)(0 := Spinning)) (t, pc)"
    "pc 0 = Inside" using spinner_enters [OF spin_reach_inv [OF s rest_inv], of 0] by auto
  have "(spin_any KmemLk)\<^sup>*\<^sup>* (s, (\<lambda>_. Outside)(0 := Spinning)) (t, pc)"
    using t(1) by (rule rtranclp_mono [THEN predicate2D, rotated]) (auto simp: spin_among_def spin_any_def)
  with s have run: "(spin_any KmemLk)\<^sup>*\<^sup>* (rest_mach, \<lambda>_. Outside) (t, pc)" by simp
  with spinlock_mutual_exclusion [OF rest_inv run t(2) t(2)] t(2) show ?thesis by blast
qed

text \<open>
  C7. No hart panics in the two routines and none is shut out: in every reachable state no hart has
  panicked, every hart has a next step of its own, and a hart that spins gets into the critical
  section in some continuation in which only it and the present owner of the lock move.
\<close>

theorem spinlock_no_panic:
  assumes "spin_inv lk st" "(spin_any lk)\<^sup>*\<^sup>* st (s, pc)"
  shows "pc h \<noteq> Panicked \<and> (\<exists>t c. spin_step lk h (s, pc) (t, pc(h := c))) \<and>
    (pc h = Spinning \<longrightarrow>
      (\<exists>t pc'. (spin_among lk (insert h (owner_set pc)))\<^sup>*\<^sup>* (s, pc) (t, pc') \<and> pc' h = Inside))"
proof -
  have inv: "spin_inv lk (s, pc)" by (rule spin_reach_inv [OF assms(2,1)])
  then show ?thesis using spin_invD(6) [OF inv] hart_steps [OF inv] spinner_enters [OF inv] by blast
qed

theorem spinlock_no_panic_witness:
  "\<exists>s. (spin_any KmemLk)\<^sup>*\<^sup>* (rest_mach, \<lambda>_. Outside) (s, (\<lambda>_. Outside)(5 := Spinning)) \<and>
     (\<exists>t pc. (spin_among KmemLk (insert 5 (owner_set ((\<lambda>_. Outside)(5 := Spinning)))))\<^sup>*\<^sup>* (s, (\<lambda>_. Outside)(5 := Spinning)) (t, pc) \<and>
        pc 5 = Inside)"
proof -
  obtain s where s: "(spin_any KmemLk)\<^sup>*\<^sup>* (rest_mach, \<lambda>_. Outside) (s, (\<lambda>_. Outside)(5 := Spinning))"
    using rest_spins by blast
  then show ?thesis using spinlock_no_panic [OF rest_inv s, of 5] by auto
qed

end
