(* ===== verification/Sleeplock.thy ===== *)
theory Sleeplock
  imports Semaphore
begin

text \<open>
  Sleep locks: \<^verbatim>\<open>kernel/sleeplock.c\<close>. A sleep lock is named by the spinlock inside it. The
  waiting loop of \<^verbatim>\<open>acquiresleep\<close> is a definition of its own, because a process that was
  woken runs it again.
\<close>

section \<open>State and operations\<close>

record sleeplock =
  sl_locked :: bool
  sl_name :: string
  sl_pid :: int

record slocks = sems +
  sleeplk :: "lockid \<Rightarrow> sleeplock"

definition set_slk :: "lockid \<Rightarrow> (sleeplock \<Rightarrow> sleeplock) \<Rightarrow> 'z slocks_scheme \<Rightarrow> 'z slocks_scheme" where
  "set_slk l f s = s\<lparr>sleeplk := (sleeplk s)(l := f (sleeplk s l))\<rparr>"

definition initsleeplock :: "lockid \<Rightarrow> string \<Rightarrow> 'z slocks_scheme \<Rightarrow> 'z slocks_scheme" where
  "initsleeplock l nm s =
     set_slk l (\<lambda>_. \<lparr>sl_locked = False, sl_name = nm, sl_pid = 0\<rparr>) (initlock l ''sleep lock'' s)"

definition acquiresleep_loop :: "lockid \<Rightarrow> 'z slocks_scheme \<Rightarrow> (unit, 'z slocks_scheme) outcome" where
  "acquiresleep_loop l s =
     (if sl_locked (sleeplk s l) then sleep (ChSleepLk l) l s
      else
        let s = set_slk l (\<lambda>k. k\<lparr>sl_locked := True\<rparr>) s in
        kbind (curproc s) (\<lambda>p s.
          let s = set_slk l (\<lambda>k. k\<lparr>sl_pid := pid (proc s p)\<rparr>) s
          in release l s))"

definition acquiresleep :: "lockid \<Rightarrow> 'z slocks_scheme \<Rightarrow> (unit, 'z slocks_scheme) outcome" where
  "acquiresleep l s = kbind (acquire l s) (\<lambda>_ s. acquiresleep_loop l s)"

definition acquiresleep_resume :: "nat \<Rightarrow> lockid \<Rightarrow> 'z slocks_scheme \<Rightarrow> (unit, 'z slocks_scheme) outcome" where
  "acquiresleep_resume p l s = kbind (sleep_resume p l s) (\<lambda>_ s. acquiresleep_loop l s)"

definition releasesleep :: "lockid \<Rightarrow> 'z slocks_scheme \<Rightarrow> (unit, 'z slocks_scheme) outcome" where
  "releasesleep l s =
     kbind (acquire l s) (\<lambda>_ s.
       let s = set_slk l (\<lambda>k. k\<lparr>sl_locked := False\<rparr>) s;
           s = set_slk l (\<lambda>k. k\<lparr>sl_pid := 0\<rparr>) s
       in kbind (wakeup (ChSleepLk l) s) (\<lambda>_ s. release l s))"

definition holdingsleep :: "lockid \<Rightarrow> 'z slocks_scheme \<Rightarrow> (bool, 'z slocks_scheme) outcome" where
  "holdingsleep l s =
     kbind (acquire l s) (\<lambda>_ s.
     kbind (if sl_locked (sleeplk s l)
            then kbind (curproc s) (\<lambda>p s. Ret (sl_pid (sleeplk s l) = pid (proc s p)) s)
            else Ret False s) (\<lambda>r s.
     kbind (release l s) (\<lambda>_ s. Ret r s)))"

lemma slocks_frame [simp]:
  "lock_free (sleeplk_update f s) lk = lock_free s lk"
  "intr_ok (sleeplk_update f s) = intr_ok s"
  "mycpu (sleeplk_update f s) = mycpu s"
  "calm p (sleeplk_update f s) = calm p s"
  "quiet (sleeplk_update f s) = quiet s"
  by (simp_all add: lock_free_def intr_ok_def calm_def quiet_def mach_defs)

section \<open>Uncontended use\<close>

text \<open>\<open>no_waiters\<close>: no process sleeps on this sleep lock.\<close>

definition no_waiters :: "lockid \<Rightarrow> 'z procs_scheme \<Rightarrow> bool" where
  "no_waiters l s = (\<forall>i. \<not> (pstate (proc s i) = SLEEPING \<and> pchan (proc s i) = ChSleepLk l))"

lemma no_waiters_frame [simp]: "no_waiters l (sleeplk_update f s) = no_waiters l s"
  by (simp add: no_waiters_def)

lemma woken_none: "no_waiters l s \<Longrightarrow> woken me (ChSleepLk l) n (proc s) = proc s"
  by (auto simp: woken_def sleeps_on_def no_waiters_def)

lemma sleeplk_acq [simp]: "sleeplk (acq lk s) = sleeplk s"
  by (simp add: acq_explicit)

lemma sleeplock_section:
  assumes "calm p s"
  shows "acquire l s = Ret () (acq l s)"
    and "release l ((acq l s)\<lparr>sleeplk := f\<rparr>) = Ret () (s\<lparr>sleeplk := f\<rparr>)"
    and "release l (acq l s) = Ret () s"
    and "curproc ((acq l s)\<lparr>sleeplk := f\<rparr>) = Ret p ((acq l s)\<lparr>sleeplk := f\<rparr>)"
    and "curproc (acq l s) = Ret p (acq l s)"
proof -
  show "acquire l s = Ret () (acq l s)" using assms by (simp add: acquire_free calmD)
  show "release l ((acq l s)\<lparr>sleeplk := f\<rparr>) = Ret () (s\<lparr>sleeplk := f\<rparr>)"
    by (subst release_after [of s]) (auto simp: calmD [OF assms] acq_explicit)
  show "release l (acq l s) = Ret () s"
    by (subst release_after [of s]) (auto simp: calmD [OF assms] acq_explicit)
  show "curproc ((acq l s)\<lparr>sleeplk := f\<rparr>) = Ret p ((acq l s)\<lparr>sleeplk := f\<rparr>)" "curproc (acq l s) = Ret p (acq l s)"
    using assms by (simp_all add: curproc_ok intr_ok_acq calmD)
qed

lemma acquiresleep_free:
  assumes "calm p s" "\<not> sl_locked (sleeplk s l)"
  shows "acquiresleep l s =
     Ret () (set_slk l (\<lambda>k. k\<lparr>sl_locked := True, sl_pid := pid (proc s p)\<rparr>) s)"
  using assms
  by (simp add: acquiresleep_def acquiresleep_loop_def sleeplock_section [OF assms(1)] set_slk_def Let_def)

lemma holdingsleep_calm:
  assumes "calm p s"
  shows "holdingsleep l s = Ret (sl_locked (sleeplk s l) \<and> sl_pid (sleeplk s l) = pid (proc s p)) s"
  by (cases "sl_locked (sleeplk s l)") (simp_all add: holdingsleep_def sleeplock_section [OF assms])

lemma releasesleep_alone:
  assumes "calm p s" "no_waiters l s" "\<And>k. l \<noteq> ProcLk k"
  shows "releasesleep l s = Ret () (set_slk l (\<lambda>k. k\<lparr>sl_locked := False, sl_pid := 0\<rparr>) s)"
proof -
  have q: "quiet (acq l s)"
    using assms by (auto simp: quiet_def calmD intr_ok_acq lock_free_acq)
  have n: "no_waiters l (acq l s)" using assms(2) by (simp add: no_waiters_def)
  have eq: "(acq l s)\<lparr>sleeplk := f, proc := proc s\<rparr> = (acq l s)\<lparr>sleeplk := f\<rparr>" for f
    by (simp add: acq_explicit)
  show ?thesis
    using assms q woken_none [OF n]
    by (simp add: releasesleep_def sleeplock_section [OF assms(1)] set_slk_def Let_def wakeup_quiet eq)
qed

end
