(* ===== verification/Bio.thy ===== *)
theory Bio
  imports Sleeplock
begin

text \<open>
  The buffer cache: \<^verbatim>\<open>kernel/bio.c\<close>. Buffers are linked into a ring through
  \<^verbatim>\<open>prev\<close> and \<^verbatim>\<open>next\<close>, most recently used first; a pointer to a buffer is its index,
  and the index \<open>NBUF\<close> is the list head. The disk holds a block for every number, and a
  transfer is seen from its caller: \<^verbatim>\<open>virtio_disk_rw\<close> returns when the device is done.
  \<open>dtrace\<close> lists the block writes the device has completed, oldest first; the code never reads
  it, and it says what the disk holds if the machine stops after any of them.
\<close>

section \<open>State\<close>

definition BSIZE :: nat where "BSIZE = 1024"

record buf =
  bvalid :: bool
  bdev :: uint32
  blockno :: uint32
  refcnt :: uint32
  bprev :: nat
  bnext :: nat
  bdata :: bytes

record bcache = slocks +
  bufs :: "nat \<Rightarrow> buf"
  disk :: "uint32 \<Rightarrow> bytes"
  dtrace :: "(uint32 \<times> bytes) list"

definition set_buf :: "nat \<Rightarrow> (buf \<Rightarrow> buf) \<Rightarrow> 'z bcache_scheme \<Rightarrow> 'z bcache_scheme" where
  "set_buf i f s = s\<lparr>bufs := (bufs s)(i := f (bufs s i))\<rparr>"

lemma bcache_frame [simp]:
  "lock_free (bufs_update f s) lk = lock_free s lk"
  "lock_free (disk_update g s) lk = lock_free s lk"
  "lock_free (dtrace_update h s) lk = lock_free s lk"
  "intr_ok (bufs_update f s) = intr_ok s"
  "intr_ok (disk_update g s) = intr_ok s"
  "intr_ok (dtrace_update h s) = intr_ok s"
  "mycpu (bufs_update f s) = mycpu s"
  "mycpu (disk_update g s) = mycpu s"
  "mycpu (dtrace_update h s) = mycpu s"
  "calm p (bufs_update f s) = calm p s"
  "calm p (disk_update g s) = calm p s"
  "calm p (dtrace_update h s) = calm p s"
  "no_waiters l (bufs_update f s) = no_waiters l s"
  "no_waiters l (disk_update g s) = no_waiters l s"
  "no_waiters l (dtrace_update h s) = no_waiters l s"
  by (simp_all add: lock_free_def intr_ok_def calm_def mach_defs no_waiters_def)

section \<open>Operations\<close>

definition binit_one :: "nat \<Rightarrow> 'z bcache_scheme \<Rightarrow> 'z bcache_scheme" where
  "binit_one b s =
     (let s = set_buf b (\<lambda>x. x\<lparr>bnext := bnext (bufs s NBUF)\<rparr>) s;
          s = set_buf b (\<lambda>x. x\<lparr>bprev := NBUF\<rparr>) s;
          s = initsleeplock (BufLk b) ''buffer'' s;
          s = set_buf (bnext (bufs s NBUF)) (\<lambda>x. x\<lparr>bprev := b\<rparr>) s
      in set_buf NBUF (\<lambda>x. x\<lparr>bnext := b\<rparr>) s)"

definition binit :: "'z bcache_scheme \<Rightarrow> 'z bcache_scheme" where
  "binit s =
     (let s = initlock BcacheLk ''bcache'' s;
          s = set_buf NBUF (\<lambda>x. x\<lparr>bprev := NBUF\<rparr>) s;
          s = set_buf NBUF (\<lambda>x. x\<lparr>bnext := NBUF\<rparr>) s
      in fold binit_one [0..<NBUF] s)"

text \<open>
  A walk along the ring from a buffer until one satisfies the test or the head is reached. A
  ring of \<open>NBUF\<close> buffers is walked in that many steps; a walk that takes more never
  reaches the head and is the outer \<^const>\<open>None\<close>.
\<close>

fun ring_scan :: "nat \<Rightarrow> (nat \<Rightarrow> nat) \<Rightarrow> (nat \<Rightarrow> bool) \<Rightarrow> nat \<Rightarrow> nat option option" where
  "ring_scan fuel step hit b =
     (if b = NBUF then Some None
      else if hit b then Some (Some b)
      else case fuel of 0 \<Rightarrow> None | Suc f \<Rightarrow> ring_scan f step hit (step b))"

declare ring_scan.simps [simp del]

definition bget_take :: "nat \<Rightarrow> 'z bcache_scheme \<Rightarrow> (nat, 'z bcache_scheme) outcome" where
  "bget_take b s =
     kbind (release BcacheLk s) (\<lambda>_ s. kbind (acquiresleep (BufLk b) s) (\<lambda>_ s. Ret b s))"

definition bget :: "uint32 \<Rightarrow> uint32 \<Rightarrow> 'z bcache_scheme \<Rightarrow> (nat, 'z bcache_scheme) outcome" where
  "bget dev bno s =
     kbind (acquire BcacheLk s) (\<lambda>_ s.
       case ring_scan NBUF (\<lambda>b. bnext (bufs s b)) (\<lambda>b. bdev (bufs s b) = dev \<and> blockno (bufs s b) = bno)
              (bnext (bufs s NBUF)) of
         None \<Rightarrow> Spin
       | Some (Some b) \<Rightarrow> bget_take b (set_buf b (\<lambda>x. x\<lparr>refcnt := refcnt x + 1\<rparr>) s)
       | Some None \<Rightarrow>
           (case ring_scan NBUF (\<lambda>b. bprev (bufs s b)) (\<lambda>b. refcnt (bufs s b) = 0) (bprev (bufs s NBUF)) of
              None \<Rightarrow> Spin
            | Some (Some b) \<Rightarrow>
                bget_take b (set_buf b (\<lambda>x. x\<lparr>bdev := dev, blockno := bno, bvalid := False, refcnt := 1\<rparr>) s)
            | Some None \<Rightarrow> Panic ''bget: no buffers''))"

definition disk_rw :: "nat \<Rightarrow> bool \<Rightarrow> 'z bcache_scheme \<Rightarrow> 'z bcache_scheme" where
  "disk_rw b wr s =
     (if wr then s\<lparr>disk := (disk s)(blockno (bufs s b) := bdata (bufs s b)),
                   dtrace := dtrace s @ [(blockno (bufs s b), bdata (bufs s b))]\<rparr>
      else set_buf b (\<lambda>x. x\<lparr>bdata := disk s (blockno x)\<rparr>) s)"

definition bread :: "uint32 \<Rightarrow> uint32 \<Rightarrow> 'z bcache_scheme \<Rightarrow> (nat, 'z bcache_scheme) outcome" where
  "bread dev bno s =
     kbind (bget dev bno s) (\<lambda>b s.
       if \<not> bvalid (bufs s b) then
         let s = disk_rw b False s in Ret b (set_buf b (\<lambda>x. x\<lparr>bvalid := True\<rparr>) s)
       else Ret b s)"

definition bwrite :: "nat \<Rightarrow> 'z bcache_scheme \<Rightarrow> (unit, 'z bcache_scheme) outcome" where
  "bwrite b s =
     kbind (holdingsleep (BufLk b) s) (\<lambda>h s.
       if \<not> h then Panic ''bwrite'' else Ret () (disk_rw b True s))"

text \<open>The six assignments that move a buffer to the front of the ring.\<close>

definition move_front :: "nat \<Rightarrow> 'z bcache_scheme \<Rightarrow> 'z bcache_scheme" where
  "move_front b s =
     (let s = set_buf (bnext (bufs s b)) (\<lambda>x. x\<lparr>bprev := bprev (bufs s b)\<rparr>) s;
          s = set_buf (bprev (bufs s b)) (\<lambda>x. x\<lparr>bnext := bnext (bufs s b)\<rparr>) s;
          s = set_buf b (\<lambda>x. x\<lparr>bnext := bnext (bufs s NBUF)\<rparr>) s;
          s = set_buf b (\<lambda>x. x\<lparr>bprev := NBUF\<rparr>) s;
          s = set_buf (bnext (bufs s NBUF)) (\<lambda>x. x\<lparr>bprev := b\<rparr>) s
      in set_buf NBUF (\<lambda>x. x\<lparr>bnext := b\<rparr>) s)"

definition brelse :: "nat \<Rightarrow> 'z bcache_scheme \<Rightarrow> (unit, 'z bcache_scheme) outcome" where
  "brelse b s =
     kbind (holdingsleep (BufLk b) s) (\<lambda>h s.
       if \<not> h then Panic ''brelse''
       else
         kbind (releasesleep (BufLk b) s) (\<lambda>_ s.
         kbind (acquire BcacheLk s) (\<lambda>_ s.
           let s = set_buf b (\<lambda>x. x\<lparr>refcnt := refcnt x - 1\<rparr>) s;
               s = (if refcnt (bufs s b) = 0 then move_front b s else s)
           in release BcacheLk s)))"

definition bpin :: "nat \<Rightarrow> 'z bcache_scheme \<Rightarrow> (unit, 'z bcache_scheme) outcome" where
  "bpin b s =
     kbind (acquire BcacheLk s) (\<lambda>_ s.
       release BcacheLk (set_buf b (\<lambda>x. x\<lparr>refcnt := refcnt x + 1\<rparr>) s))"

definition bunpin :: "nat \<Rightarrow> 'z bcache_scheme \<Rightarrow> (unit, 'z bcache_scheme) outcome" where
  "bunpin b s =
     kbind (acquire BcacheLk s) (\<lambda>_ s.
       release BcacheLk (set_buf b (\<lambda>x. x\<lparr>refcnt := refcnt x - 1\<rparr>) s))"

section \<open>The ring\<close>

text \<open>\<open>chain f a xs c\<close>: following \<open>f\<close> from \<open>a\<close> visits exactly \<open>xs\<close> and then \<open>c\<close>.\<close>

fun chain :: "(nat \<Rightarrow> nat) \<Rightarrow> nat \<Rightarrow> nat list \<Rightarrow> nat \<Rightarrow> bool" where
  "chain f a [] c = (f a = c)"
| "chain f a (x # xs) c = (f a = x \<and> chain f x xs c)"

definition ring :: "(nat \<Rightarrow> nat) \<Rightarrow> (nat \<Rightarrow> nat) \<Rightarrow> nat list \<Rightarrow> bool" where
  "ring nxt prv xs = (distinct xs \<and> NBUF \<notin> set xs \<and> chain nxt NBUF xs NBUF \<and> chain prv NBUF (rev xs) NBUF)"

lemma chain_append: "chain f a (xs @ y # ys) c \<longleftrightarrow> chain f a xs y \<and> chain f y ys c"
  by (induction xs arbitrary: a) auto

lemma chain_upd: "x \<noteq> a \<Longrightarrow> x \<notin> set xs \<Longrightarrow> chain (f(x := v)) a xs c = chain f a xs c"
  by (induction xs arbitrary: a) auto

lemma ring_scan_chain:
  "chain f a xs NBUF \<Longrightarrow> NBUF \<notin> set xs \<Longrightarrow> length xs \<le> n \<Longrightarrow>
     ring_scan n f hit (f a) = Some (find hit xs)"
proof (induction xs arbitrary: a n)
  case Nil
  then show ?case by (subst ring_scan.simps) simp
next
  case (Cons x xs)
  then obtain m where "n = Suc m" by (cases n) auto
  with Cons show ?case by (subst ring_scan.simps) auto
qed

lemma chain_last: "chain f a xs c \<Longrightarrow> f (last (a # xs)) = c"
  by (induction xs arbitrary: a) auto

lemma chain_redirect:
  "distinct (a # xs) \<Longrightarrow> chain f a xs c \<Longrightarrow> chain (f(last (a # xs) := d)) a xs d"
proof (induction xs arbitrary: a)
  case Nil
  then show ?case by simp
next
  case (Cons x xs)
  have "last (x # xs) \<noteq> a" using Cons.prems(1) last_in_set [of "x # xs"] by auto
  moreover have "chain (f(last (x # xs) := d)) x xs d"
    by (rule Cons.IH) (use Cons.prems in auto)
  moreover have "last (a # x # xs) = last (x # xs)" by simp
  ultimately show ?case using Cons.prems(2) by (simp only: chain.simps) (metis fun_upd_other)
qed

text \<open>Taking a node out of a ring, and putting one in at the front.\<close>

lemma ring_next_prev:
  assumes "ring nxt prv (ys @ b # zs)"
  shows "prv b = last (NBUF # ys)" "nxt b = hd (zs @ [NBUF])"
proof -
  have "chain prv NBUF (rev zs @ b # rev ys) NBUF" using assms by (simp add: ring_def)
  then have "chain prv b (rev ys) NBUF" by (simp add: chain_append)
  then show "prv b = last (NBUF # ys)" by (cases ys rule: rev_cases) auto
  have "chain nxt b zs NBUF" using assms by (simp add: ring_def chain_append)
  then show "nxt b = hd (zs @ [NBUF])" by (cases zs) auto
qed

lemma chain_skip:
  assumes "chain f a (xs @ b # ys) c" "distinct (a # xs @ b # ys)"
  shows "chain (f(last (a # xs) := hd (ys @ [c]))) a (xs @ ys) c"
proof -
  have 1: "chain f a xs b" and 2: "chain f b ys c" using assms(1) by (simp_all add: chain_append)
  show ?thesis
  proof (cases ys)
    case Nil
    then show ?thesis using chain_redirect [of a xs f b c] 1 assms(2) by simp
  next
    case (Cons y zs)
    have "chain (f(last (a # xs) := y)) a xs y" using chain_redirect [of a xs f b y] 1 assms(2) by simp
    moreover have "last (a # xs) \<noteq> y" "last (a # xs) \<notin> set zs"
      using assms(2) Cons last_in_set [of "a # xs"] by auto
    then have "chain (f(last (a # xs) := y)) y zs c" using 2 Cons by (simp add: chain_upd)
    ultimately show ?thesis using Cons by (simp add: chain_append)
  qed
qed

lemma ring_unlink:
  assumes r: "ring nxt prv (ys @ b # zs)"
  shows "ring (nxt(prv b := nxt b)) (prv(nxt b := prv b)) (ys @ zs)"
proof -
  note np = ring_next_prev [OF r]
  have d: "distinct (NBUF # ys @ b # zs)" using r by (auto simp: ring_def)
  have "chain (nxt(last (NBUF # ys) := hd (zs @ [NBUF]))) NBUF (ys @ zs) NBUF"
    by (rule chain_skip [OF _ d]) (use r in \<open>simp add: ring_def\<close>)
  moreover have "chain (prv(last (NBUF # rev zs) := hd (rev ys @ [NBUF]))) NBUF (rev zs @ rev ys) NBUF"
    by (rule chain_skip) (use r in \<open>auto simp: ring_def\<close>)
  moreover have "last (NBUF # rev zs) = hd (zs @ [NBUF])" by (cases zs) auto
  moreover have "hd (rev ys @ [NBUF]) = last (NBUF # ys)" by (cases ys rule: rev_cases) auto
  ultimately show ?thesis using d np by (simp add: ring_def)
qed

lemma ring_front:
  assumes r: "ring nxt prv xs" and b: "b \<notin> set xs" "b \<noteq> NBUF"
  shows "ring (nxt(b := nxt NBUF, NBUF := b)) (prv(b := NBUF, nxt NBUF := b)) (b # xs)"
proof -
  have d: "distinct (NBUF # xs)" and nx: "chain nxt NBUF xs NBUF" and pv: "chain prv NBUF (rev xs) NBUF"
    using r by (simp_all add: ring_def)
  have h: "nxt NBUF = hd (xs @ [NBUF])" using nx by (cases xs) auto
  have "chain (nxt(b := nxt NBUF, NBUF := b)) b xs NBUF"
  proof (cases xs)
    case Nil
    with b h show ?thesis by simp
  next
    case (Cons y ys)
    with nx h b d show ?thesis by (auto simp: chain_upd)
  qed
  moreover have "chain (prv(b := NBUF, nxt NBUF := b)) NBUF (rev xs @ [b]) NBUF"
  proof -
    have l: "last (NBUF # rev xs) = nxt NBUF" using h by (cases xs) auto
    have "chain (prv(b := NBUF)) NBUF (rev xs) NBUF" using pv b by (simp add: chain_upd)
    then have "chain (prv(b := NBUF, nxt NBUF := b)) NBUF (rev xs) b"
      using chain_redirect [of NBUF "rev xs" "prv(b := NBUF)" NBUF b] d l by simp
    moreover have "nxt NBUF \<noteq> b" using h b by (cases xs) auto
    ultimately show ?thesis by (simp add: chain_append)
  qed
  ultimately show ?thesis using d b by (simp add: ring_def)
qed

section \<open>The cache as seen by its clients\<close>

text \<open>
  The invariant of the cache while one process uses it: the ring holds every buffer, no block is
  in two buffers, a buffer in use belongs to the disk, and an unused one agrees with it.
\<close>

definition ring_of :: "(nat \<Rightarrow> buf) \<Rightarrow> nat list \<Rightarrow> bool" where
  "ring_of B xs = ring (\<lambda>b. bnext (B b)) (\<lambda>b. bprev (B b)) xs"

definition bufs_ok :: "(nat \<Rightarrow> buf) \<Rightarrow> (uint32 \<Rightarrow> bytes) \<Rightarrow> (lockid \<Rightarrow> sleeplock) \<Rightarrow> int \<Rightarrow> bool" where
  "bufs_ok B D L me =
     ((\<exists>xs. ring_of B xs \<and> set xs = {..<NBUF}) \<and>
      (\<forall>i < NBUF. \<forall>j < NBUF. bdev (B i) = ROOTDEV \<longrightarrow> bdev (B j) = ROOTDEV \<longrightarrow>
         blockno (B i) = blockno (B j) \<longrightarrow> i = j) \<and>
      (\<forall>i < NBUF. refcnt (B i) \<noteq> 0 \<longrightarrow> bdev (B i) = ROOTDEV) \<and>
      (\<forall>i < NBUF. bdev (B i) = ROOTDEV \<longrightarrow> bvalid (B i) \<and>
         (refcnt (B i) = 0 \<longrightarrow> bdata (B i) = D (blockno (B i)))) \<and>
      (\<forall>i < NBUF. sl_locked (L (BufLk i)) \<longrightarrow> refcnt (B i) \<noteq> 0 \<and> sl_pid (L (BufLk i)) = me))"

definition bio_inv :: "nat \<Rightarrow> 'z bcache_scheme \<Rightarrow> bool" where
  "bio_inv p s = (calm p s \<and> (\<forall>l. no_waiters (BufLk l) s) \<and>
     bufs_ok (bufs s) (disk s) (sleeplk s) (pid (proc s p)))"

definition cached :: "(nat \<Rightarrow> buf) \<Rightarrow> uint32 \<Rightarrow> nat option" where
  "cached B b = first_idx (\<lambda>i. bdev (B i) = ROOTDEV \<and> blockno (B i) = b) [0..<NBUF]"

definition view :: "'z bcache_scheme \<Rightarrow> uint32 \<Rightarrow> bytes" where
  "view s b = (case cached (bufs s) b of None \<Rightarrow> disk s b | Some i \<Rightarrow> bdata (bufs s i))"

definition refs :: "(nat \<Rightarrow> buf) \<Rightarrow> uint32 \<Rightarrow> uint32" where
  "refs B b = (case cached B b of None \<Rightarrow> 0 | Some i \<Rightarrow> refcnt (B i))"

lemma bufs_okD:
  assumes "bufs_ok B D L me" "i < NBUF"
  shows "refcnt (B i) \<noteq> 0 \<Longrightarrow> bdev (B i) = ROOTDEV"
    and "bdev (B i) = ROOTDEV \<Longrightarrow> bvalid (B i)"
    and "bdev (B i) = ROOTDEV \<Longrightarrow> refcnt (B i) = 0 \<Longrightarrow> bdata (B i) = D (blockno (B i))"
    and "sl_locked (L (BufLk i)) \<Longrightarrow> refcnt (B i) \<noteq> 0"
    and "sl_locked (L (BufLk i)) \<Longrightarrow> sl_pid (L (BufLk i)) = me"
    and "j < NBUF \<Longrightarrow> bdev (B i) = ROOTDEV \<Longrightarrow> bdev (B j) = ROOTDEV \<Longrightarrow> blockno (B i) = blockno (B j) \<Longrightarrow> i = j"
  using assms unfolding bufs_ok_def by blast+

lemma bufs_ok_ring:
  assumes "bufs_ok B D L me"
  obtains xs where "ring_of B xs" "set xs = {..<NBUF}" "distinct xs" "length xs = NBUF"
proof -
  obtain xs where xs: "ring_of B xs" "set xs = {..<NBUF}" using assms by (auto simp: bufs_ok_def)
  then have "distinct xs" by (simp add: ring_of_def ring_def)
  moreover then have "length xs = NBUF" using xs(2) by (metis card_lessThan distinct_card)
  ultimately show thesis using that xs by blast
qed

lemma cached_iff:
  assumes "bufs_ok B D L me"
  shows "cached B b = Some i \<longleftrightarrow> i < NBUF \<and> bdev (B i) = ROOTDEV \<and> blockno (B i) = b"
proof
  show "i < NBUF \<and> bdev (B i) = ROOTDEV \<and> blockno (B i) = b" if "cached B b = Some i"
    using that by (auto simp: cached_def first_idx_upt_Some)
  show "cached B b = Some i" if i: "i < NBUF \<and> bdev (B i) = ROOTDEV \<and> blockno (B i) = b"
  proof (cases "cached B b")
    case None
    with i show ?thesis by (auto simp: cached_def first_idx_None)
  next
    case (Some j)
    then have "j < NBUF \<and> bdev (B j) = ROOTDEV \<and> blockno (B j) = b"
      by (auto simp: cached_def first_idx_upt_Some)
    with i Some bufs_okD(6) [OF assms, of i j] show ?thesis by auto
  qed
qed

lemma cached_None: "cached B b = None \<longleftrightarrow> (\<forall>i < NBUF. \<not> (bdev (B i) = ROOTDEV \<and> blockno (B i) = b))"
  by (auto simp: cached_def first_idx_None)

lemma find_SomeD: "find P xs = Some x \<Longrightarrow> x \<in> set xs \<and> P x"
  by (induction xs) (auto split: if_splits)

lemma find_cached:
  assumes ok: "bufs_ok B D L me" and xs: "set xs = {..<NBUF}"
  shows "find (\<lambda>i. bdev (B i) = ROOTDEV \<and> blockno (B i) = b) xs = cached B b"
proof (cases "cached B b")
  case None
  then have "\<not> (\<exists>i. i \<in> set xs \<and> bdev (B i) = ROOTDEV \<and> blockno (B i) = b)" using xs by (auto simp: cached_None)
  then show ?thesis using None by (simp add: find_None_iff)
next
  case (Some i)
  then have i: "i < NBUF \<and> bdev (B i) = ROOTDEV \<and> blockno (B i) = b" by (simp add: cached_iff [OF ok])
  then obtain j where j: "find (\<lambda>i. bdev (B i) = ROOTDEV \<and> blockno (B i) = b) xs = Some j"
    using xs find_None_iff [of "\<lambda>i. bdev (B i) = ROOTDEV \<and> blockno (B i) = b" xs]
    by (cases "find (\<lambda>i. bdev (B i) = ROOTDEV \<and> blockno (B i) = b) xs") auto
  then have "j \<in> set xs" "bdev (B j) = ROOTDEV \<and> blockno (B j) = b"
    using find_SomeD [OF j] by auto
  then show ?thesis using j i Some xs bufs_okD(6) [OF ok, of i j] by auto
qed

section \<open>Looking a block up\<close>

definition lock_buf :: "nat \<Rightarrow> int \<Rightarrow> 'z bcache_scheme \<Rightarrow> 'z bcache_scheme" where
  "lock_buf i me s = set_slk (BufLk i) (\<lambda>k. k\<lparr>sl_locked := True, sl_pid := me\<rparr>) s"

lemma bufs_acq [simp]: "bufs (acq lk s) = bufs s" "disk (acq lk s) = disk s" "dtrace (acq lk s) = dtrace s"
  by (simp_all add: acq_explicit)

lemma bget_take_calm:
  assumes "calm p s" "\<not> sl_locked (sleeplk s (BufLk b))"
  shows "bget_take b (set_buf b f (acq BcacheLk s)) = Ret b (lock_buf b (pid (proc s p)) (set_buf b f s))"
proof -
  have "release BcacheLk (set_buf b f (acq BcacheLk s)) = Ret () (set_buf b f s)"
    by (subst release_after [of s]) (auto simp: calmD [OF assms(1)] set_buf_def acq_explicit)
  moreover have "calm p (set_buf b f s)" using assms(1) by (simp add: set_buf_def)
  then have "acquiresleep (BufLk b) (set_buf b f s) =
      Ret () (lock_buf b (pid (proc s p)) (set_buf b f s))"
    using acquiresleep_free [of p "set_buf b f s" "BufLk b"] assms(2) by (simp add: lock_buf_def set_buf_def)
  ultimately show ?thesis by (simp add: bget_take_def)
qed

lemma bget_scans:
  assumes ok: "bufs_ok B D L me"
  obtains xs where "set xs = {..<NBUF}" "ring_of B xs"
    "ring_scan NBUF (\<lambda>b. bnext (B b)) (\<lambda>i. bdev (B i) = ROOTDEV \<and> blockno (B i) = b) (bnext (B NBUF)) = Some (cached B b)"
    "ring_scan NBUF (\<lambda>b. bprev (B b)) (\<lambda>i. refcnt (B i) = 0) (bprev (B NBUF)) =
       Some (find (\<lambda>i. refcnt (B i) = 0) (rev xs))"
proof -
  obtain xs where xs: "ring_of B xs" "set xs = {..<NBUF}" "length xs = NBUF" by (rule bufs_ok_ring [OF ok])
  then have r: "chain (\<lambda>b. bnext (B b)) NBUF xs NBUF" "chain (\<lambda>b. bprev (B b)) NBUF (rev xs) NBUF" "NBUF \<notin> set xs"
    by (simp_all add: ring_of_def ring_def)
  have "ring_scan NBUF (\<lambda>b. bnext (B b)) (\<lambda>i. bdev (B i) = ROOTDEV \<and> blockno (B i) = b) (bnext (B NBUF)) =
      Some (cached B b)"
    using ring_scan_chain [OF r(1,3), of NBUF] xs find_cached [OF ok xs(2), of b] by simp
  moreover have "ring_scan NBUF (\<lambda>b. bprev (B b)) (\<lambda>i. refcnt (B i) = 0) (bprev (B NBUF)) =
      Some (find (\<lambda>i. refcnt (B i) = 0) (rev xs))"
    using ring_scan_chain [OF r(2), of NBUF] r(3) xs by simp
  ultimately show thesis using that xs by blast
qed

lemma bget_hit:
  assumes inv: "bio_inv p s" and hit: "cached (bufs s) b = Some i" "\<not> sl_locked (sleeplk s (BufLk i))"
  shows "bget ROOTDEV b s =
     Ret i (lock_buf i (pid (proc s p)) (set_buf i (\<lambda>x. x\<lparr>refcnt := refcnt x + 1\<rparr>) s))"
proof -
  have calm: "calm p s" and ok: "bufs_ok (bufs s) (disk s) (sleeplk s) (pid (proc s p))"
    using inv by (simp_all add: bio_inv_def)
  obtain xs where sc: "ring_scan NBUF (\<lambda>b. bnext (bufs s b)) (\<lambda>i. bdev (bufs s i) = ROOTDEV \<and> blockno (bufs s i) = b)
      (bnext (bufs s NBUF)) = Some (cached (bufs s) b)"
    by (rule bget_scans [OF ok, of b])
  show ?thesis
    using bget_take_calm [OF calm hit(2)] sc hit(1) calm
    by (simp add: bget_def acquire_free calmD)
qed

lemma bget_miss:
  assumes inv: "bio_inv p s" and miss: "cached (bufs s) b = None" and "\<exists>i < NBUF. refcnt (bufs s i) = 0"
  shows "\<exists>v < NBUF. refcnt (bufs s v) = 0 \<and> \<not> sl_locked (sleeplk s (BufLk v)) \<and> bget ROOTDEV b s =
     Ret v (lock_buf v (pid (proc s p))
       (set_buf v (\<lambda>x. x\<lparr>bdev := ROOTDEV, blockno := b, bvalid := False, refcnt := 1\<rparr>) s))"
proof -
  have calm: "calm p s" and ok: "bufs_ok (bufs s) (disk s) (sleeplk s) (pid (proc s p))"
    using inv by (simp_all add: bio_inv_def)
  obtain xs where xs: "set xs = {..<NBUF}"
    and sc: "ring_scan NBUF (\<lambda>b. bnext (bufs s b)) (\<lambda>i. bdev (bufs s i) = ROOTDEV \<and> blockno (bufs s i) = b)
      (bnext (bufs s NBUF)) = Some (cached (bufs s) b)"
    and sv: "ring_scan NBUF (\<lambda>b. bprev (bufs s b)) (\<lambda>i. refcnt (bufs s i) = 0) (bprev (bufs s NBUF)) =
      Some (find (\<lambda>i. refcnt (bufs s i) = 0) (rev xs))"
    by (rule bget_scans [OF ok, of b])
  obtain v where v: "find (\<lambda>i. refcnt (bufs s i) = 0) (rev xs) = Some v"
    using assms(3) xs find_None_iff [of "\<lambda>i. refcnt (bufs s i) = 0" "rev xs"]
    by (cases "find (\<lambda>i. refcnt (bufs s i) = 0) (rev xs)") auto
  then have "v \<in> set (rev xs)" "refcnt (bufs s v) = 0" using find_SomeD [OF v] by auto
  then have vv: "v < NBUF" "refcnt (bufs s v) = 0" using xs by auto
  then have nl: "\<not> sl_locked (sleeplk s (BufLk v))" using bufs_okD(4) [OF ok] by blast
  have "bget ROOTDEV b s = Ret v (lock_buf v (pid (proc s p))
       (set_buf v (\<lambda>x. x\<lparr>bdev := ROOTDEV, blockno := b, bvalid := False, refcnt := 1\<rparr>) s))"
    using bget_take_calm [OF calm nl] sc sv v miss calm by (simp add: bget_def acquire_free calmD)
  with vv nl show ?thesis by blast
qed

lemma bget_full:
  assumes inv: "bio_inv p s" and miss: "cached (bufs s) b = None" and full: "\<forall>i < NBUF. refcnt (bufs s i) \<noteq> 0"
  shows "bget ROOTDEV b s = Panic ''bget: no buffers''"
proof -
  have calm: "calm p s" and ok: "bufs_ok (bufs s) (disk s) (sleeplk s) (pid (proc s p))"
    using inv by (simp_all add: bio_inv_def)
  obtain xs where xs: "set xs = {..<NBUF}"
    and sc: "ring_scan NBUF (\<lambda>b. bnext (bufs s b)) (\<lambda>i. bdev (bufs s i) = ROOTDEV \<and> blockno (bufs s i) = b)
      (bnext (bufs s NBUF)) = Some (cached (bufs s) b)"
    and sv: "ring_scan NBUF (\<lambda>b. bprev (bufs s b)) (\<lambda>i. refcnt (bufs s i) = 0) (bprev (bufs s NBUF)) =
      Some (find (\<lambda>i. refcnt (bufs s i) = 0) (rev xs))"
    by (rule bget_scans [OF ok, of b])
  have "find (\<lambda>i. refcnt (bufs s i) = 0) (rev xs) = None" using full xs by (auto simp: find_None_iff)
  then show ?thesis using sc sv miss calm by (simp add: bget_def acquire_free calmD)
qed

section \<open>The contract of the cache\<close>

definition holds :: "'z bcache_scheme \<Rightarrow> nat \<Rightarrow> uint32 \<Rightarrow> bool" where
  "holds s i b = (i < NBUF \<and> bdev (bufs s i) = ROOTDEV \<and> blockno (bufs s i) = b)"

definition buf_locked :: "'z slocks_scheme \<Rightarrow> nat \<Rightarrow> bool" where
  "buf_locked s i = sl_locked (sleeplk s (BufLk i))"

lemma ring_of_upd:
  assumes "bnext x = bnext (B v)" "bprev x = bprev (B v)"
  shows "ring_of (B(v := x)) xs = ring_of B xs"
proof -
  have "(\<lambda>b. bnext ((B(v := x)) b)) = (\<lambda>b. bnext (B b))" "(\<lambda>b. bprev ((B(v := x)) b)) = (\<lambda>b. bprev (B b))"
    using assms by auto
  then show ?thesis by (simp only: ring_of_def)
qed

lemma bufs_ok_upd:
  assumes ok: "bufs_ok B D L me" and v: "v < NBUF"
    and x: "bnext x = bnext (B v)" "bprev x = bprev (B v)" "bdev x = ROOTDEV" "bvalid x"
      "refcnt x = 0 \<Longrightarrow> bdata x = D (blockno x)"
    and uniq: "\<And>j. j < NBUF \<Longrightarrow> j \<noteq> v \<Longrightarrow> bdev (B j) = ROOTDEV \<Longrightarrow> blockno (B j) \<noteq> blockno x"
    and lk: "sl_locked (M (BufLk v)) \<Longrightarrow> refcnt x \<noteq> 0 \<and> sl_pid (M (BufLk v)) = me"
    and other: "\<And>j. j \<noteq> v \<Longrightarrow> M (BufLk j) = L (BufLk j)"
  shows "bufs_ok (B(v := x)) D M me"
proof -
  have "\<exists>xs. ring_of (B(v := x)) xs \<and> set xs = {..<NBUF}"
    using ok ring_of_upd [of x B v, OF x(1,2)] by (auto simp: bufs_ok_def)
  moreover have "i = j" if "i < NBUF" "j < NBUF" "bdev ((B(v := x)) i) = ROOTDEV" "bdev ((B(v := x)) j) = ROOTDEV"
    "blockno ((B(v := x)) i) = blockno ((B(v := x)) j)" for i j
    using that uniq bufs_okD(6) [OF ok] by (metis fun_upd_other fun_upd_same)
  moreover have "bdev ((B(v := x)) i) = ROOTDEV" if "i < NBUF" "refcnt ((B(v := x)) i) \<noteq> 0" for i
    using that x bufs_okD(1) [OF ok] by (auto split: if_splits)
  moreover have "bvalid ((B(v := x)) i) \<and>
      (refcnt ((B(v := x)) i) = 0 \<longrightarrow> bdata ((B(v := x)) i) = D (blockno ((B(v := x)) i)))"
    if "i < NBUF" "bdev ((B(v := x)) i) = ROOTDEV" for i
    using that x bufs_okD(2,3) [OF ok] by (auto split: if_splits)
  moreover have "refcnt ((B(v := x)) i) \<noteq> 0 \<and> sl_pid (M (BufLk i)) = me"
    if "i < NBUF" "sl_locked (M (BufLk i))" for i
    using that lk other bufs_okD(4,5) [OF ok, of i] by (cases "i = v") auto
  ultimately show ?thesis unfolding bufs_ok_def by blast
qed

lemma cached_upd_same:
  assumes ok: "bufs_ok B D L me" "bufs_ok (B(v := x)) D' L' me'" and v: "cached B b = Some v" "blockno x = b" "bdev x = ROOTDEV"
  shows "cached (B(v := x)) c = cached B c"
proof -
  have "cached (B(v := x)) c = Some i \<longleftrightarrow> cached B c = Some i" for i
    using v by (auto simp: cached_iff [OF ok(1)] cached_iff [OF ok(2)])
  then show ?thesis by (metis option.exhaust)
qed

text \<open>
  Reading a block that is cached and not locked, or that finds an unused buffer: the caller gets
  a locked buffer with the block's contents; every block keeps its contents, the block's
  reference count rises by one, and buffers in use stay where they are.
\<close>

definition bread_post :: "nat \<Rightarrow> uint32 \<Rightarrow> 'z bcache_scheme \<Rightarrow> nat \<Rightarrow> 'z bcache_scheme \<Rightarrow> bool" where
  "bread_post p b s i t =
     (bio_inv p t \<and> holds t i b \<and> buf_locked t i \<and> bdata (bufs t i) = view s b \<and> view t = view s \<and>
      refs (bufs t) = (refs (bufs s))(b := refs (bufs s) b + 1) \<and> refs (bufs t) b \<noteq> 0 \<and>
      (\<exists>B L. t = s\<lparr>sleeplk := L, bufs := B\<rparr>) \<and>
      (\<forall>j c. holds s j c \<longrightarrow> refs (bufs s) c \<noteq> 0 \<longrightarrow> holds t j c \<and> buf_locked t j = (j = i \<or> buf_locked s j)))"

lemma view_refs_cached:
  "cached (bufs s) c = Some i \<Longrightarrow> view s c = bdata (bufs s i) \<and> refs (bufs s) c = refcnt (bufs s i)"
  "cached (bufs s) c = None \<Longrightarrow> view s c = disk s c \<and> refs (bufs s) c = 0"
  by (simp_all add: view_def refs_def)

lemma bread_hit:
  assumes inv: "bio_inv p s" and hit: "cached (bufs s) b = Some i" "\<not> buf_locked s i"
    and small: "refcnt (bufs s i) + 1 \<noteq> 0"
  shows "\<exists>t. bread ROOTDEV b s = Ret i t \<and> bread_post p b s i t"
proof -
  let ?x = "(bufs s i)\<lparr>refcnt := refcnt (bufs s i) + 1\<rparr>"
  let ?L = "(sleeplk s)(BufLk i := (sleeplk s (BufLk i))\<lparr>sl_locked := True, sl_pid := pid (proc s p)\<rparr>)"
  let ?t = "s\<lparr>sleeplk := ?L, bufs := (bufs s)(i := ?x)\<rparr>"
  have ok: "bufs_ok (bufs s) (disk s) (sleeplk s) (pid (proc s p))" using inv by (simp add: bio_inv_def)
  have i: "i < NBUF" "bdev (bufs s i) = ROOTDEV" "blockno (bufs s i) = b" using hit(1) by (simp_all add: cached_iff [OF ok])
  then have val: "bvalid (bufs s i)" using bufs_okD(2) [OF ok] by simp
  have only: "c = b" if "cached (bufs s) c = Some i" for c using that i by (simp add: cached_iff [OF ok])
  have "bget ROOTDEV b s = Ret i ?t"
    using bget_hit [OF inv hit(1)] hit(2) by (simp add: buf_locked_def lock_buf_def set_slk_def set_buf_def)
  then have "bread ROOTDEV b s = Ret i ?t" using val by (simp add: bread_def)
  moreover have ok': "bufs_ok ((bufs s)(i := ?x)) (disk s) ?L (pid (proc s p))"
  proof (rule bufs_ok_upd [OF ok i(1)])
    show "blockno (bufs s j) \<noteq> blockno ?x" if "j < NBUF" "j \<noteq> i" "bdev (bufs s j) = ROOTDEV" for j
      using bufs_okD(6) [OF ok that(1) i(1) that(3) i(2)] that(2) by auto
  qed (use i val small in simp_all)
  moreover have ca: "cached ((bufs s)(i := ?x)) c = cached (bufs s) c" for c
    using cached_upd_same [OF ok ok' hit(1)] i by simp
  moreover have "view ?t = view s"
  proof
    fix c show "view ?t c = view s c" by (cases "cached (bufs s) c") (auto simp: view_def ca)
  qed
  moreover have "refs (bufs ?t) = (refs (bufs s))(b := refs (bufs s) b + 1)"
  proof
    fix c show "refs (bufs ?t) c = ((refs (bufs s))(b := refs (bufs s) b + 1)) c"
      using hit(1) only [of c] by (cases "cached (bufs s) c") (auto simp: refs_def ca)
  qed
  ultimately show ?thesis
    using inv i hit small view_refs_cached(1) [OF hit(1)]
    by (auto simp: bread_post_def bio_inv_def holds_def buf_locked_def)
qed

lemma bread_miss:
  assumes inv: "bio_inv p s" and miss: "cached (bufs s) b = None" and room: "\<exists>i < NBUF. refcnt (bufs s i) = 0"
  shows "\<exists>i t. bread ROOTDEV b s = Ret i t \<and> bread_post p b s i t"
proof -
  have ok: "bufs_ok (bufs s) (disk s) (sleeplk s) (pid (proc s p))" using inv by (simp add: bio_inv_def)
  obtain v where v: "v < NBUF" "refcnt (bufs s v) = 0" "\<not> sl_locked (sleeplk s (BufLk v))"
    and g: "bget ROOTDEV b s = Ret v (lock_buf v (pid (proc s p))
       (set_buf v (\<lambda>x. x\<lparr>bdev := ROOTDEV, blockno := b, bvalid := False, refcnt := 1\<rparr>) s))"
    using bget_miss [OF inv miss room] by blast
  let ?x = "(bufs s v)\<lparr>bdev := ROOTDEV, blockno := b, refcnt := 1, bdata := disk s b, bvalid := True\<rparr>"
  let ?L = "(sleeplk s)(BufLk v := (sleeplk s (BufLk v))\<lparr>sl_locked := True, sl_pid := pid (proc s p)\<rparr>)"
  let ?B = "(bufs s)(v := ?x)"
  let ?t = "s\<lparr>sleeplk := ?L, bufs := ?B\<rparr>"
  have r: "bread ROOTDEV b s = Ret v ?t"
    using g by (simp add: bread_def Let_def disk_rw_def lock_buf_def set_slk_def set_buf_def)
  have ok': "bufs_ok ?B (disk s) ?L (pid (proc s p))"
    by (rule bufs_ok_upd [OF ok v(1)]) (use v miss in \<open>auto simp: cached_None\<close>)
  have old: "cached ?B c = (if c = b then Some v else if cached (bufs s) c = Some v then None else cached (bufs s) c)" for c
  proof -
    have "cached ?B c = Some j \<longleftrightarrow>
        (if c = b then Some v else if cached (bufs s) c = Some v then None else cached (bufs s) c) = Some j" for j
      using v miss bufs_okD(6) [OF ok v(1), of j]
      by (auto simp: cached_iff [OF ok] cached_iff [OF ok'] cached_None)
    then show ?thesis by (metis option.exhaust)
  qed
  have vw: "view ?t c = view s c" for c
  proof (cases "cached (bufs s) c = Some v")
    case True
    then have "bdev (bufs s v) = ROOTDEV" "blockno (bufs s v) = c" "c \<noteq> b"
      using miss by (auto simp: cached_iff [OF ok] cached_None)
    with True show ?thesis using bufs_okD(3) [OF ok v(1)] v(2) by (simp add: view_def old)
  next
    case False
    then show ?thesis using miss by (cases "cached (bufs s) c") (auto simp: view_def old)
  qed
  have rf: "refs ?B = (refs (bufs s))(b := refs (bufs s) b + 1)"
  proof
    fix c show "refs ?B c = ((refs (bufs s))(b := refs (bufs s) b + 1)) c"
      using miss v by (cases "cached (bufs s) c") (auto simp: refs_def old)
  qed
  have keep: "j \<noteq> v" if "holds s j c" "refs (bufs s) c \<noteq> 0" for j c
  proof
    assume "j = v"
    with that(1) have "cached (bufs s) c = Some v" by (simp add: holds_def cached_iff [OF ok])
    with that(2) v(2) show False by (simp add: refs_def)
  qed
  have "bread_post p b s v ?t"
    unfolding bread_post_def
  proof (intro conjI allI impI)
    show "bio_inv p ?t" using inv ok' by (simp add: bio_inv_def)
    show "bdata (bufs ?t v) = view s b" using miss by (simp add: view_def)
    show "refs (bufs ?t) = (refs (bufs s))(b := refs (bufs s) b + 1)" using rf by simp
    show "refs (bufs ?t) b \<noteq> 0" using rf miss by (simp add: refs_def)
    show "view ?t = view s" using vw by blast
  qed (use v keep in \<open>auto simp: holds_def buf_locked_def\<close>)
  with r show ?thesis by blast
qed

end
