(* ===== verification/BioOps.thy ===== *)
theory BioOps
  imports Bio
begin

text \<open>
  The buffer cache, continued: what \<^verbatim>\<open>brelse\<close>, \<^verbatim>\<open>bwrite\<close>, \<^verbatim>\<open>bpin\<close> and
  \<^verbatim>\<open>bunpin\<close> do to the blocks seen through the cache, that releasing a buffer moves it to
  the front of the ring, and that \<^verbatim>\<open>binit\<close> builds the ring.
\<close>

section \<open>Moving a buffer to the front\<close>

lemma set_buf_keeps:
  "(\<And>y. bdev (f y) = bdev y) \<Longrightarrow> bdev (bufs (set_buf i f s) x) = bdev (bufs s x)"
  "(\<And>y. blockno (f y) = blockno y) \<Longrightarrow> blockno (bufs (set_buf i f s) x) = blockno (bufs s x)"
  "(\<And>y. bvalid (f y) = bvalid y) \<Longrightarrow> bvalid (bufs (set_buf i f s) x) = bvalid (bufs s x)"
  "(\<And>y. refcnt (f y) = refcnt y) \<Longrightarrow> refcnt (bufs (set_buf i f s) x) = refcnt (bufs s x)"
  "(\<And>y. bdata (f y) = bdata y) \<Longrightarrow> bdata (bufs (set_buf i f s) x) = bdata (bufs s x)"
  by (simp_all add: set_buf_def)

lemma move_front_frame:
  "bdev (bufs (move_front b s) x) = bdev (bufs s x)"
  "blockno (bufs (move_front b s) x) = blockno (bufs s x)"
  "bvalid (bufs (move_front b s) x) = bvalid (bufs s x)"
  "refcnt (bufs (move_front b s) x) = refcnt (bufs s x)"
  "bdata (bufs (move_front b s) x) = bdata (bufs s x)"
  unfolding move_front_def Let_def by (simp_all add: set_buf_keeps)

definition links :: "'z bcache_scheme \<Rightarrow> (nat \<Rightarrow> nat) \<times> (nat \<Rightarrow> nat)" where
  "links s = ((\<lambda>x. bnext (bufs s x)), (\<lambda>x. bprev (bufs s x)))"

lemma links_set:
  "links (set_buf i (\<lambda>x. x\<lparr>bnext := v\<rparr>) s) = ((fst (links s))(i := v), snd (links s))"
  "links (set_buf i (\<lambda>x. x\<lparr>bprev := v\<rparr>) s) = (fst (links s), (snd (links s))(i := v))"
  by (auto simp: links_def set_buf_def fun_eq_iff)

lemma links_read: "bnext (bufs s x) = fst (links s) x" "bprev (bufs s x) = snd (links s) x"
  by (simp_all add: links_def)

lemma move_front_links:
  assumes "links s = (nxt, prv)" "nxt b \<noteq> b" "prv b \<noteq> b" "b \<noteq> NBUF"
  shows "links (move_front b s) =
     ((nxt(prv b := nxt b))(b := (nxt(prv b := nxt b)) NBUF, NBUF := b),
      (prv(nxt b := prv b))(b := NBUF, (nxt(prv b := nxt b)) NBUF := b))"
  unfolding move_front_def Let_def links_read links_set
  using assms by (simp add: links_set)

lemma move_front_ring:
  assumes r: "ring_of (bufs s) (ys @ b # zs)"
  shows "ring_of (bufs (move_front b s)) (b # ys @ zs)"
proof -
  let ?n = "\<lambda>x. bnext (bufs s x)" and ?p = "\<lambda>x. bprev (bufs s x)"
  have r': "ring ?n ?p (ys @ b # zs)" using r by (simp add: ring_of_def)
  then have d: "distinct (NBUF # ys @ b # zs)" by (auto simp: ring_def)
  have ne: "?n b \<noteq> b" "?p b \<noteq> b" "b \<noteq> NBUF" "b \<notin> set (ys @ zs)"
    using ring_next_prev [OF r'] d last_in_set [of "NBUF # ys"] hd_in_set [of "zs @ [NBUF]"] by auto
  show ?thesis
    using ring_front [OF ring_unlink [OF r'] ne(4) ne(3)] move_front_links [of s ?n ?p b] ne
    by (simp add: ring_of_def links_def)
qed

section \<open>Releasing, writing and pinning\<close>

definition brelse_post :: "nat \<Rightarrow> nat \<Rightarrow> uint32 \<Rightarrow> 'z bcache_scheme \<Rightarrow> 'z bcache_scheme \<Rightarrow> bool" where
  "brelse_post p i b s t =
     (bio_inv p t \<and> view t = view s \<and> refs (bufs t) = (refs (bufs s))(b := refs (bufs s) b - 1) \<and>
      \<not> buf_locked t i \<and> (\<exists>B L. t = s\<lparr>sleeplk := L, bufs := B\<rparr>) \<and>
      (\<forall>j c. holds t j c = holds s j c) \<and> (\<forall>j. j \<noteq> i \<longrightarrow> buf_locked t j = buf_locked s j))"

text \<open>Two buffer arrays that agree on everything but the links cache the same blocks.\<close>

definition same_bufs :: "(nat \<Rightarrow> buf) \<Rightarrow> (nat \<Rightarrow> buf) \<Rightarrow> bool" where
  "same_bufs A B = (\<forall>x. bdev (A x) = bdev (B x) \<and> blockno (A x) = blockno (B x) \<and>
     bvalid (A x) = bvalid (B x) \<and> refcnt (A x) = refcnt (B x) \<and> bdata (A x) = bdata (B x))"

lemma same_bufsD:
  "same_bufs A B \<Longrightarrow> bdev (B x) = bdev (A x)" "same_bufs A B \<Longrightarrow> blockno (B x) = blockno (A x)"
  by (simp_all add: same_bufs_def)

lemma same_bufs_ok:
  assumes "bufs_ok A D L me" "same_bufs A B" "ring_of B xs" "set xs = {..<NBUF}"
  shows "bufs_ok B D L me"
proof -
  have eq: "bdev (B x) = bdev (A x)" "blockno (B x) = blockno (A x)" "bvalid (B x) = bvalid (A x)"
    "refcnt (B x) = refcnt (A x)" "bdata (B x) = bdata (A x)" for x
    using assms(2) by (simp_all add: same_bufs_def)
  show ?thesis using assms(1,3,4) unfolding bufs_ok_def eq by blast
qed

lemma same_bufs_cached: "same_bufs A B \<Longrightarrow> cached A b = cached B b"
  by (simp add: cached_def same_bufs_def)

lemma same_bufs_refs: "same_bufs A B \<Longrightarrow> refs A = refs B"
proof
  fix b assume same: "same_bufs A B"
  then have "cached A b = cached B b" by (rule same_bufs_cached)
  then show "refs A b = refs B b" using same by (auto simp: refs_def same_bufs_def split: option.split)
qed

lemma same_bufs_view:
  assumes "same_bufs (bufs s) (bufs t)" "disk t = disk s"
  shows "view t = view s"
proof
  fix b
  have "cached (bufs s) b = cached (bufs t) b" by (rule same_bufs_cached [OF assms(1)])
  then show "view t b = view s b" using assms by (auto simp: view_def same_bufs_def split: option.split)
qed

lemma bcache_section:
  assumes "calm p s"
  shows "acquire BcacheLk s = Ret () (acq BcacheLk s)"
    and "release BcacheLk ((acq BcacheLk s)\<lparr>bufs := B\<rparr>) = Ret () (s\<lparr>bufs := B\<rparr>)"
proof -
  show "acquire BcacheLk s = Ret () (acq BcacheLk s)" using assms by (simp add: acquire_free calmD)
  show "release BcacheLk ((acq BcacheLk s)\<lparr>bufs := B\<rparr>) = Ret () (s\<lparr>bufs := B\<rparr>)"
    by (subst release_after [of s]) (auto simp: calmD [OF assms] acq_explicit)
qed

text \<open>One buffer changes its count: the blocks keep their contents.\<close>

definition recount :: "nat \<Rightarrow> uint32 \<Rightarrow> (nat \<Rightarrow> buf) \<Rightarrow> nat \<Rightarrow> buf" where
  "recount i n B = B(i := (B i)\<lparr>refcnt := n\<rparr>)"

lemma recount_ok:
  assumes ok: "bufs_ok B D L me" and i: "i < NBUF" "bdev (B i) = ROOTDEV"
    and n: "n = 0 \<Longrightarrow> bdata (B i) = D (blockno (B i))"
    and lk: "sl_locked (M (BufLk i)) \<Longrightarrow> n \<noteq> 0 \<and> sl_pid (M (BufLk i)) = me"
    and other: "\<And>j. j \<noteq> i \<Longrightarrow> M (BufLk j) = L (BufLk j)"
  shows "bufs_ok (recount i n B) D M me"
  unfolding recount_def
proof (rule bufs_ok_upd [OF ok i(1)])
  show "blockno (B j) \<noteq> blockno ((B i)\<lparr>refcnt := n\<rparr>)" if "j < NBUF" "j \<noteq> i" "bdev (B j) = ROOTDEV" for j
    using bufs_okD(6) [OF ok that(1) i(1) that(3) i(2)] that(2) by auto
qed (use assms bufs_okD(2) [OF ok i] in auto)

lemma recount_fields:
  "bdata (recount i n B x) = bdata (B x)" "refcnt (recount i n B x) = (if x = i then n else refcnt (B x))"
  by (simp_all add: recount_def)

lemma recount_cached: "cached (recount i n B) b = cached B b"
proof -
  have "bdev (recount i n B x) = bdev (B x)" "blockno (recount i n B x) = blockno (B x)" for x
    by (simp_all add: recount_def)
  then show ?thesis by (simp add: cached_def)
qed

lemma recount_view: "disk t = disk s \<Longrightarrow> bufs t = recount i n (bufs s) \<Longrightarrow> view t = view s"
  by (rule ext) (auto simp: view_def recount_cached recount_fields split: option.split)

lemma recount_refs:
  assumes ok: "bufs_ok B D L me" and i: "i < NBUF" "bdev (B i) = ROOTDEV" "blockno (B i) = b"
  shows "refs (recount i n B) = (refs B)(b := n)"
proof
  fix c
  have "cached B b = Some i" using i by (simp add: cached_iff [OF ok])
  moreover have "c = b" if "cached B c = Some i" using that i by (simp add: cached_iff [OF ok])
  ultimately show "refs (recount i n B) c = ((refs B)(b := n)) c"
    by (cases "cached B c") (auto simp: refs_def recount_cached recount_fields)
qed

lemma brelse_held:
  assumes inv: "bio_inv p s" and h: "holds s i b" "buf_locked s i"
    and clean: "refs (bufs s) b = 1 \<Longrightarrow> view s b = disk s b"
  shows "\<exists>t. brelse i s = Ret () t \<and> brelse_post p i b s t"
proof -
  have calm: "calm p s" and nw: "no_waiters (BufLk i) s" and
    ok: "bufs_ok (bufs s) (disk s) (sleeplk s) (pid (proc s p))"
    using inv by (simp_all add: bio_inv_def)
  have i: "i < NBUF" "bdev (bufs s i) = ROOTDEV" "blockno (bufs s i) = b" using h(1) by (simp_all add: holds_def)
  have lk: "sl_locked (sleeplk s (BufLk i))" "sl_pid (sleeplk s (BufLk i)) = pid (proc s p)"
    using h(2) bufs_okD(5) [OF ok i(1)] by (simp_all add: buf_locked_def)
  have ca: "cached (bufs s) b = Some i" using i by (simp add: cached_iff [OF ok])
  let ?n = "refcnt (bufs s i) - 1"
  let ?L = "(sleeplk s)(BufLk i := (sleeplk s (BufLk i))\<lparr>sl_locked := False, sl_pid := 0\<rparr>)"
  let ?B = "recount i ?n (bufs s)"
  let ?a = "s\<lparr>sleeplk := ?L\<rparr>"
  have okB: "bufs_ok ?B (disk s) ?L (pid (proc s p))"
    by (rule recount_ok [OF ok i(1,2)]) (use clean ca i in \<open>auto simp: refs_def view_def\<close>)
  define m where "m = (if ?n = 0 then bufs (move_front i (s\<lparr>bufs := ?B\<rparr>)) else ?B)"
  have mf: "move_front i ((acq BcacheLk ?a)\<lparr>bufs := A\<rparr>) =
      (acq BcacheLk ?a)\<lparr>bufs := bufs (move_front i (s\<lparr>bufs := A\<rparr>))\<rparr>" for A
    by (simp add: move_front_def set_buf_def Let_def)
  have calm_a: "calm p ?a" using calm by simp
  have n0: "refcnt (?B i) = ?n" by (simp add: recount_def)
  have "brelse i s = Ret () (s\<lparr>sleeplk := ?L, bufs := m\<rparr>)"
    using releasesleep_alone [OF calm nw] lk bcache_section [OF calm_a]
    by (simp add: brelse_def holdingsleep_calm [OF calm] set_slk_def set_buf_def recount_def [symmetric] n0 mf m_def Let_def)
  moreover have same: "same_bufs ?B m" by (simp add: same_bufs_def m_def move_front_frame)
  obtain xs where xs: "ring_of m xs" "set xs = {..<NBUF}"
  proof (cases "?n = 0")
    case True
    obtain zs where zs: "ring_of ?B zs" "set zs = {..<NBUF}" by (rule bufs_ok_ring [OF okB])
    then have "i \<in> set zs" using i by simp
    then obtain us vs where uv: "zs = us @ i # vs" by (meson split_list)
    then have "ring_of (bufs (move_front i (s\<lparr>bufs := ?B\<rparr>))) (i # us @ vs)"
      using move_front_ring [of "s\<lparr>bufs := ?B\<rparr>" us i vs] zs(1) by simp
    moreover have "set (i # us @ vs) = {..<NBUF}" using zs(2) uv by auto
    ultimately show ?thesis using that [of "i # us @ vs"] True by (simp add: m_def)
  next
    case False
    obtain zs where "ring_of ?B zs" "set zs = {..<NBUF}" by (rule bufs_ok_ring [OF okB])
    with False show ?thesis using that [of zs] by (simp add: m_def)
  qed
  have okm: "bufs_ok m (disk s) ?L (pid (proc s p))" by (rule same_bufs_ok [OF okB same xs])
  have "brelse_post p i b s (s\<lparr>sleeplk := ?L, bufs := m\<rparr>)" (is "brelse_post p i b s ?t")
    unfolding brelse_post_def
  proof (intro conjI allI impI)
    show "bio_inv p ?t" using inv okm by (simp add: bio_inv_def)
    have "view ?t = view (s\<lparr>bufs := ?B\<rparr>)" by (rule same_bufs_view) (use same in simp_all)
    also have "\<dots> = view s" by (rule recount_view [of _ _ i ?n]) simp_all
    finally show "view ?t = view s" .
    have "refs (bufs ?t) = refs ?B" using same_bufs_refs [OF same] by simp
    also have "\<dots> = (refs (bufs s))(b := refs (bufs s) b - 1)"
      using recount_refs [OF ok i] ca by (simp add: refs_def)
    finally show "refs (bufs ?t) = (refs (bufs s))(b := refs (bufs s) b - 1)" .
    show "\<exists>B L. ?t = s\<lparr>sleeplk := L, bufs := B\<rparr>" by blast
    have "bdev (m j) = bdev (?B j)" "blockno (m j) = blockno (?B j)" for j
      by (rule same_bufsD [OF same])+
    moreover have "bdev (?B j) = bdev (bufs s j)" "blockno (?B j) = blockno (bufs s j)" for j
      by (simp_all add: recount_def)
    ultimately show "holds ?t j c = holds s j c" for j c
      by (simp add: holds_def)
  qed (auto simp: buf_locked_def)
  ultimately show ?thesis by blast
qed

lemma brelse_unlocked:
  "calm p s \<Longrightarrow> \<not> buf_locked s i \<Longrightarrow> brelse i s = Panic ''brelse''"
  by (simp add: brelse_def holdingsleep_calm buf_locked_def)

text \<open>The owner of a buffer changes its contents; nothing else moves.\<close>

definition put_data :: "nat \<Rightarrow> bytes \<Rightarrow> 'z bcache_scheme \<Rightarrow> 'z bcache_scheme" where
  "put_data i d s = set_buf i (\<lambda>x. x\<lparr>bdata := d\<rparr>) s"

lemma put_data_spec:
  assumes inv: "bio_inv p s" and h: "holds s i b" "buf_locked s i"
  shows "bio_inv p (put_data i d s)" "view (put_data i d s) = (view s)(b := d)"
    "refs (bufs (put_data i d s)) = refs (bufs s)" "holds (put_data i d s) j c = holds s j c"
    "buf_locked (put_data i d s) j = buf_locked s j" "disk (put_data i d s) = disk s"
proof -
  have ok: "bufs_ok (bufs s) (disk s) (sleeplk s) (pid (proc s p))" using inv by (simp add: bio_inv_def)
  have i: "i < NBUF" "bdev (bufs s i) = ROOTDEV" "blockno (bufs s i) = b" using h(1) by (simp_all add: holds_def)
  have lk: "refcnt (bufs s i) \<noteq> 0" "sl_pid (sleeplk s (BufLk i)) = pid (proc s p)"
    using h(2) bufs_okD(4,5) [OF ok i(1)] by (simp_all add: buf_locked_def)
  have ca: "cached (bufs s) b = Some i" using i by (simp add: cached_iff [OF ok])
  have only: "c = b" if "cached (bufs s) c = Some i" for c using that i by (simp add: cached_iff [OF ok])
  let ?B = "(bufs s)(i := (bufs s i)\<lparr>bdata := d\<rparr>)"
  have cB: "cached ?B c = cached (bufs s) c" for c
  proof -
    have "bdev (?B x) = bdev (bufs s x)" "blockno (?B x) = blockno (bufs s x)" for x by simp_all
    then show ?thesis by (simp add: cached_def)
  qed
  have "bufs_ok ?B (disk s) (sleeplk s) (pid (proc s p))"
  proof (rule bufs_ok_upd [OF ok i(1)])
    show "blockno (bufs s j) \<noteq> blockno ((bufs s i)\<lparr>bdata := d\<rparr>)" if "j < NBUF" "j \<noteq> i" "bdev (bufs s j) = ROOTDEV" for j
      using bufs_okD(6) [OF ok that(1) i(1) that(3) i(2)] that(2) by auto
  qed (use i lk bufs_okD(2) [OF ok i(1,2)] in auto)
  then show "bio_inv p (put_data i d s)" using inv by (simp add: bio_inv_def put_data_def set_buf_def)
  show "view (put_data i d s) = (view s)(b := d)"
  proof
    fix c show "view (put_data i d s) c = ((view s)(b := d)) c"
      using ca only [of c] by (cases "cached (bufs s) c") (auto simp: view_def put_data_def set_buf_def cB)
  qed
  show "refs (bufs (put_data i d s)) = refs (bufs s)"
    by (rule ext) (auto simp: refs_def put_data_def set_buf_def cB split: option.split)
  show "holds (put_data i d s) j c = holds s j c" "buf_locked (put_data i d s) j = buf_locked s j"
    "disk (put_data i d s) = disk s"
    by (auto simp: holds_def buf_locked_def put_data_def set_buf_def)
qed

lemma bufs_ok_disk:
  assumes "bufs_ok B D L me"
    and "\<And>j. j < NBUF \<Longrightarrow> bdev (B j) = ROOTDEV \<Longrightarrow> refcnt (B j) = 0 \<Longrightarrow> bdata (B j) = E (blockno (B j))"
  shows "bufs_ok B E L me"
  using assms by (simp add: bufs_ok_def)

lemma bwrite_held:
  assumes inv: "bio_inv p s" and h: "holds s i b" "buf_locked s i"
  shows "bwrite i s = Ret () (s\<lparr>disk := (disk s)(b := view s b), dtrace := dtrace s @ [(b, view s b)]\<rparr>)"
    and "bio_inv p (s\<lparr>disk := (disk s)(b := view s b), dtrace := dtrace s @ [(b, view s b)]\<rparr>)"
    and "view (s\<lparr>disk := (disk s)(b := view s b), dtrace := dtrace s @ [(b, view s b)]\<rparr>) = view s"
proof -
  have calm: "calm p s" and ok: "bufs_ok (bufs s) (disk s) (sleeplk s) (pid (proc s p))"
    using inv by (simp_all add: bio_inv_def)
  have i: "i < NBUF" "bdev (bufs s i) = ROOTDEV" "blockno (bufs s i) = b" using h(1) by (simp_all add: holds_def)
  have ca: "cached (bufs s) b = Some i" using i by (simp add: cached_iff [OF ok])
  have lk: "sl_locked (sleeplk s (BufLk i))" "sl_pid (sleeplk s (BufLk i)) = pid (proc s p)"
    using h(2) bufs_okD(5) [OF ok i(1)] by (simp_all add: buf_locked_def)
  show "bwrite i s = Ret () (s\<lparr>disk := (disk s)(b := view s b), dtrace := dtrace s @ [(b, view s b)]\<rparr>)"
    using lk i ca by (simp add: bwrite_def holdingsleep_calm [OF calm] disk_rw_def view_def)
  have "bufs_ok (bufs s) ((disk s)(b := view s b)) (sleeplk s) (pid (proc s p))"
  proof -
    have "bdata (bufs s j) = ((disk s)(b := view s b)) (blockno (bufs s j))"
      if "j < NBUF" "bdev (bufs s j) = ROOTDEV" "refcnt (bufs s j) = 0" for j
    proof (cases "blockno (bufs s j) = b")
      case True
      then have "cached (bufs s) b = Some j" using that by (simp add: cached_iff [OF ok])
      with True show ?thesis by (simp add: view_def)
    next
      case False
      with that bufs_okD(3) [OF ok] show ?thesis by simp
    qed
    then show ?thesis by (rule bufs_ok_disk [OF ok])
  qed
  with inv show "bio_inv p (s\<lparr>disk := (disk s)(b := view s b), dtrace := dtrace s @ [(b, view s b)]\<rparr>)" by (simp add: bio_inv_def)
  show "view (s\<lparr>disk := (disk s)(b := view s b), dtrace := dtrace s @ [(b, view s b)]\<rparr>) = view s"
    by (rule ext) (auto simp: view_def split: option.split)
qed

lemma bwrite_unlocked:
  "calm p s \<Longrightarrow> \<not> buf_locked s i \<Longrightarrow> bwrite i s = Panic ''bwrite''"
  by (simp add: bwrite_def holdingsleep_calm buf_locked_def)

lemma bpin_held:
  assumes inv: "bio_inv p s" and h: "holds s i b" and n: "refs (bufs s) b + 1 \<noteq> 0"
  shows "\<exists>t. bpin i s = Ret () t \<and> t = s\<lparr>bufs := recount i (refs (bufs s) b + 1) (bufs s)\<rparr> \<and> bio_inv p t \<and>
     view t = view s \<and> refs (bufs t) = (refs (bufs s))(b := refs (bufs s) b + 1)"
proof -
  have calm: "calm p s" and ok: "bufs_ok (bufs s) (disk s) (sleeplk s) (pid (proc s p))"
    using inv by (simp_all add: bio_inv_def)
  have i: "i < NBUF" "bdev (bufs s i) = ROOTDEV" "blockno (bufs s i) = b" using h by (simp_all add: holds_def)
  have r: "refs (bufs s) b = refcnt (bufs s i)" using i by (simp add: refs_def cached_iff [OF ok, THEN iffD2])
  let ?t = "s\<lparr>bufs := recount i (refs (bufs s) b + 1) (bufs s)\<rparr>"
  have "bpin i s = Ret () ?t"
    by (simp add: bpin_def bcache_section [OF calm] set_buf_def r recount_def)
  moreover have "bufs_ok (recount i (refs (bufs s) b + 1) (bufs s)) (disk s) (sleeplk s) (pid (proc s p))"
    by (rule recount_ok [OF ok i(1,2)]) (use n bufs_okD(5) [OF ok i(1)] in auto)
  then have "bio_inv p ?t" using inv by (simp add: bio_inv_def)
  moreover have "view ?t = view s" by (rule recount_view [of _ _ i "refs (bufs s) b + 1"]) simp_all
  ultimately show ?thesis using recount_refs [OF ok i] by simp
qed

lemma bunpin_held:
  assumes inv: "bio_inv p s" and h: "holds s i b"
    and clean: "refs (bufs s) b = 1 \<Longrightarrow> view s b = disk s b \<and> \<not> buf_locked s i"
  shows "\<exists>t. bunpin i s = Ret () t \<and> t = s\<lparr>bufs := recount i (refs (bufs s) b - 1) (bufs s)\<rparr> \<and> bio_inv p t \<and>
     view t = view s \<and> refs (bufs t) = (refs (bufs s))(b := refs (bufs s) b - 1)"
proof -
  have calm: "calm p s" and ok: "bufs_ok (bufs s) (disk s) (sleeplk s) (pid (proc s p))"
    using inv by (simp_all add: bio_inv_def)
  have i: "i < NBUF" "bdev (bufs s i) = ROOTDEV" "blockno (bufs s i) = b" using h by (simp_all add: holds_def)
  have ca: "cached (bufs s) b = Some i" using i by (simp add: cached_iff [OF ok])
  have r: "refs (bufs s) b = refcnt (bufs s i)" using ca by (simp add: refs_def)
  let ?t = "s\<lparr>bufs := recount i (refs (bufs s) b - 1) (bufs s)\<rparr>"
  have "bunpin i s = Ret () ?t"
    by (simp add: bunpin_def bcache_section [OF calm] set_buf_def r recount_def)
  moreover have "bufs_ok (recount i (refs (bufs s) b - 1) (bufs s)) (disk s) (sleeplk s) (pid (proc s p))"
    by (rule recount_ok [OF ok i(1,2)])
      (use clean ca i r bufs_okD(5) [OF ok i(1)] in \<open>auto simp: view_def buf_locked_def\<close>)
  then have "bio_inv p ?t" using inv by (simp add: bio_inv_def)
  moreover have "view ?t = view s" by (rule recount_view [of _ _ i "refs (bufs s) b - 1"]) simp_all
  ultimately show ?thesis using recount_refs [OF ok i] by simp
qed

section \<open>Initialisation\<close>

lemma initsleeplock_bufs [simp]:
  "bufs (initsleeplock l nm s) = bufs s" "links (initsleeplock l nm s) = links s" "disk (initsleeplock l nm s) = disk s"
  by (simp_all add: initsleeplock_def set_slk_def initlock_def set_lock_def links_def Let_def)

lemma binit_one_links:
  assumes "links s = (nxt, prv)" "b \<noteq> NBUF"
  shows "links (binit_one b s) = (nxt(b := nxt NBUF, NBUF := b), prv(b := NBUF, nxt NBUF := b))"
  unfolding binit_one_def Let_def links_read links_set
  using assms by (simp add: links_set)

lemma binit_one_frame:
  "bdev (bufs (binit_one b s) x) = bdev (bufs s x)"
  "refcnt (bufs (binit_one b s) x) = refcnt (bufs s x)"
  "disk (binit_one b s) = disk s"
  unfolding binit_one_def Let_def by (simp_all add: set_buf_keeps) (simp_all add: set_buf_def)

lemma binit_loop:
  assumes "ring (fst (links s)) (snd (links s)) []" "n \<le> NBUF"
  shows "ring (fst (links (fold binit_one [0..<n] s))) (snd (links (fold binit_one [0..<n] s))) (rev [0..<n])"
  using assms(2)
proof (induction n)
  case 0
  then show ?case using assms(1) by simp
next
  case (Suc n)
  let ?t = "fold binit_one [0..<n] s"
  have "ring (fst (links ?t)) (snd (links ?t)) (rev [0..<n])" using Suc by simp
  from ring_front [OF this, of n] show ?case
    using Suc.prems binit_one_links [of ?t "fst (links ?t)" "snd (links ?t)" n] by (simp add: fun_upd_def)
qed

lemma binit_loop_frame:
  "bdev (bufs (fold binit_one xs s) x) = bdev (bufs s x)"
  "refcnt (bufs (fold binit_one xs s) x) = refcnt (bufs s x)"
  by (induction xs arbitrary: s) (simp_all add: binit_one_frame)

lemma binit_ring: "ring_of (bufs (binit s)) (rev [0..<NBUF])"
proof -
  let ?s = "set_buf NBUF (\<lambda>x. x\<lparr>bnext := NBUF\<rparr>) (set_buf NBUF (\<lambda>x. x\<lparr>bprev := NBUF\<rparr>) (initlock BcacheLk ''bcache'' s))"
  have "ring (fst (links ?s)) (snd (links ?s)) []" by (simp add: ring_def links_set)
  from binit_loop [OF this, of NBUF] show ?thesis
    by (simp add: binit_def Let_def ring_of_def links_def)
qed

lemma binit_frame:
  "bdev (bufs (binit s) x) = bdev (bufs s x)" "refcnt (bufs (binit s) x) = refcnt (bufs s x)"
  by (simp_all add: binit_def Let_def binit_loop_frame set_buf_keeps) (simp_all add: initlock_def set_lock_def)

end
