(* ===== verification/Blocks.thy ===== *)
theory Blocks
  imports BioOps
begin

text \<open>
  What the buffer cache promises its clients: it is a map from block numbers to contents, with
  the contents of the disk behind it, a count of references and a set of locked blocks. Each
  operation of \<^verbatim>\<open>kernel/bio.c\<close> is shown to be one operation of that map; the ring, the
  buffer numbers and the replacement policy do not show.
\<close>

section \<open>The abstract cache\<close>

record blocks =
  bcontents :: "uint32 \<Rightarrow> bytes"
  bdisk :: "uint32 \<Rightarrow> bytes"
  bwrites :: "(uint32 \<times> bytes) list"
  brefs :: "uint32 \<Rightarrow> uint32"
  blocked :: "uint32 set"

definition held :: "'z bcache_scheme \<Rightarrow> nat \<Rightarrow> uint32 \<Rightarrow> bool" where
  "held s i b = (holds s i b \<and> buf_locked s i)"

definition blocks_of :: "'z bcache_scheme \<Rightarrow> blocks" where
  "blocks_of s = \<lparr>bcontents = view s, bdisk = disk s, bwrites = dtrace s, brefs = refs (bufs s),
     blocked = {b. \<exists>i. held s i b}\<rparr>"

definition a_read :: "uint32 \<Rightarrow> blocks \<Rightarrow> blocks" where
  "a_read b a = a\<lparr>brefs := (brefs a)(b := brefs a b + 1), blocked := insert b (blocked a)\<rparr>"

definition a_modify :: "uint32 \<Rightarrow> bytes \<Rightarrow> blocks \<Rightarrow> blocks" where
  "a_modify b d a = a\<lparr>bcontents := (bcontents a)(b := d)\<rparr>"

definition a_write :: "uint32 \<Rightarrow> blocks \<Rightarrow> blocks" where
  "a_write b a = a\<lparr>bdisk := (bdisk a)(b := bcontents a b), bwrites := bwrites a @ [(b, bcontents a b)]\<rparr>"

definition a_release :: "uint32 \<Rightarrow> blocks \<Rightarrow> blocks" where
  "a_release b a = a\<lparr>brefs := (brefs a)(b := brefs a b - 1), blocked := blocked a - {b}\<rparr>"

definition a_pin :: "uint32 \<Rightarrow> blocks \<Rightarrow> blocks" where
  "a_pin b a = a\<lparr>brefs := (brefs a)(b := brefs a b + 1)\<rparr>"

definition a_unpin :: "uint32 \<Rightarrow> blocks \<Rightarrow> blocks" where
  "a_unpin b a = a\<lparr>brefs := (brefs a)(b := brefs a b - 1)\<rparr>"

lemmas a_defs = a_read_def a_modify_def a_write_def a_release_def a_pin_def a_unpin_def

definition in_use :: "blocks \<Rightarrow> uint32 set" where
  "in_use a = {b. brefs a b \<noteq> 0}"

lemma finite_in_use [simp]: "finite (in_use a)"
  by (rule finite_subset [OF subset_UNIV]) simp

text \<open>The rest of the state is not touched by the cache.\<close>

definition cache_frame :: "'z bcache_scheme \<Rightarrow> 'z bcache_scheme \<Rightarrow> bool" where
  "cache_frame s t = (\<exists>L B D T. t = s\<lparr>sleeplk := L, bufs := B, disk := D, dtrace := T\<rparr>)"

lemma cache_frame_refl [simp]: "cache_frame s s"
  unfolding cache_frame_def
  by (rule exI [of _ "sleeplk s"], rule exI [of _ "bufs s"], rule exI [of _ "disk s"], rule exI [of _ "dtrace s"]) simp

lemma cache_frame_trans [trans]: "cache_frame s t \<Longrightarrow> cache_frame t u \<Longrightarrow> cache_frame s u"
  by (auto simp: cache_frame_def) blast

lemma cache_frameI: "cache_frame s (s\<lparr>sleeplk := L, bufs := B\<rparr>)" "cache_frame s (s\<lparr>bufs := B\<rparr>)"
  "cache_frame s (s\<lparr>disk := D, dtrace := T\<rparr>)"
proof -
  have "s\<lparr>sleeplk := L, bufs := B\<rparr> = s\<lparr>sleeplk := L, bufs := B, disk := disk s, dtrace := dtrace s\<rparr>" by simp
  then show "cache_frame s (s\<lparr>sleeplk := L, bufs := B\<rparr>)" unfolding cache_frame_def by blast
  have "s\<lparr>bufs := B\<rparr> = s\<lparr>sleeplk := sleeplk s, bufs := B, disk := disk s, dtrace := dtrace s\<rparr>" by simp
  then show "cache_frame s (s\<lparr>bufs := B\<rparr>)" unfolding cache_frame_def by blast
  have "s\<lparr>disk := D, dtrace := T\<rparr> = s\<lparr>sleeplk := sleeplk s, bufs := bufs s, disk := D, dtrace := T\<rparr>" by simp
  then show "cache_frame s (s\<lparr>disk := D, dtrace := T\<rparr>)" unfolding cache_frame_def by blast
qed

section \<open>Each operation refines its abstract counterpart\<close>

lemma bio_invD:
  "bio_inv p s \<Longrightarrow> bufs_ok (bufs s) (disk s) (sleeplk s) (pid (proc s p))"
  "bio_inv p s \<Longrightarrow> calm p s"
  by (simp_all add: bio_inv_def)

lemma holds_cached: "bio_inv p s \<Longrightarrow> holds s i b \<longleftrightarrow> cached (bufs s) b = Some i"
  by (auto simp: holds_def cached_iff [OF bio_invD(1)])

lemma held_fun: "bio_inv p s \<Longrightarrow> held s i b \<Longrightarrow> held s j b \<Longrightarrow> i = j"
  by (auto simp: held_def holds_cached)

lemma held_refs:
  assumes "bio_inv p s" "held s i b"
  shows "refs (bufs s) b \<noteq> 0"
proof -
  have "cached (bufs s) b = Some i" "i < NBUF" "sl_locked (sleeplk s (BufLk i))"
    using assms by (auto simp: held_def buf_locked_def holds_cached [OF assms(1), symmetric] holds_def)
  then show ?thesis using bufs_okD(4) [OF bio_invD(1) [OF assms(1)]] by (simp add: refs_def)
qed

text \<open>Fewer blocks in use than buffers leave a buffer for a new block.\<close>

lemma room_for_block:
  assumes inv: "bio_inv p s" and c: "card (in_use (blocks_of s)) < NBUF"
  shows "\<exists>i < NBUF. refcnt (bufs s i) = 0"
proof (rule ccontr)
  note ok = bio_invD(1) [OF inv]
  assume "\<not> ?thesis"
  then have all: "refcnt (bufs s i) \<noteq> 0" if "i < NBUF" for i using that by blast
  have dev: "bdev (bufs s i) = ROOTDEV" if "i < NBUF" for i using bufs_okD(1) [OF ok that] all that by blast
  have ca: "cached (bufs s) (blockno (bufs s i)) = Some i" if "i < NBUF" for i
    using that dev by (simp add: cached_iff [OF ok])
  have "inj_on (\<lambda>i. blockno (bufs s i)) {..<NBUF}"
    by (rule inj_onI) (metis ca lessThan_iff option.inject)
  then have "card ((\<lambda>i. blockno (bufs s i)) ` {..<NBUF}) = NBUF" by (simp add: card_image)
  moreover have "(\<lambda>i. blockno (bufs s i)) ` {..<NBUF} \<subseteq> in_use (blocks_of s)"
    using ca all by (auto simp: in_use_def blocks_of_def refs_def)
  then have "card ((\<lambda>i. blockno (bufs s i)) ` {..<NBUF}) \<le> card (in_use (blocks_of s))" by (simp add: card_mono)
  ultimately show False using c by simp
qed

lemma bread_refines:
  assumes inv: "bio_inv p s" and nl: "b \<notin> blocked (blocks_of s)" and nw: "brefs (blocks_of s) b + 1 \<noteq> 0"
    and room: "brefs (blocks_of s) b \<noteq> 0 \<or> card (in_use (blocks_of s)) < NBUF"
  shows "\<exists>i t. bread ROOTDEV b s = Ret i t \<and> bio_inv p t \<and> cache_frame s t \<and>
     blocks_of t = a_read b (blocks_of s) \<and> held t i b \<and> bdata (bufs t i) = bcontents (blocks_of s) b \<and>
     (\<forall>j c. held s j c \<longrightarrow> held t j c)"
proof -
  have "\<exists>i t. bread ROOTDEV b s = Ret i t \<and> bread_post p b s i t"
  proof (cases "cached (bufs s) b")
    case None
    then have "refs (bufs s) b = 0" by (simp add: refs_def)
    then have "card (in_use (blocks_of s)) < NBUF" using room by (simp add: blocks_of_def)
    from bread_miss [OF inv None room_for_block [OF inv this]] show ?thesis .
  next
    case (Some i)
    then have "holds s i b" using holds_cached [OF inv] by blast
    then have "\<not> buf_locked s i" using nl by (auto simp: blocks_of_def held_def)
    moreover have "refcnt (bufs s i) + 1 \<noteq> 0" using nw Some by (simp add: blocks_of_def refs_def)
    ultimately show ?thesis using bread_hit [OF inv Some] by blast
  qed
  then obtain i t where r: "bread ROOTDEV b s = Ret i t" and post: "bread_post p b s i t" by blast
  have inv': "bio_inv p t" and it: "holds t i b" "buf_locked t i" and dat: "bdata (bufs t i) = view s b"
    and vw: "view t = view s" and rf: "refs (bufs t) = (refs (bufs s))(b := refs (bufs s) b + 1)"
    and fr: "\<exists>B L. t = s\<lparr>sleeplk := L, bufs := B\<rparr>"
    and keep: "\<And>j c. holds s j c \<Longrightarrow> refs (bufs s) c \<noteq> 0 \<Longrightarrow> holds t j c \<and> buf_locked t j = (j = i \<or> buf_locked s j)"
    using post by (auto simp: bread_post_def)
  have held: "held t j c" if "held s j c" for j c
    using that keep held_refs [OF inv that] by (auto simp: held_def)
  have "held s j c \<or> (j = i \<and> c = b)" if h: "held t j c" for j c
  proof (cases "c = b")
    case True
    then show ?thesis using held_fun [OF inv', of j b i] h it by (auto simp: held_def)
  next
    case False
    then have "refs (bufs s) c \<noteq> 0" using held_refs [OF inv' h] rf by simp
    then obtain k where k: "holds s k c" by (auto simp: refs_def holds_cached [OF inv] split: option.splits)
    with keep \<open>refs (bufs s) c \<noteq> 0\<close> have t: "holds t k c" "buf_locked t k = (k = i \<or> buf_locked s k)" by auto
    then have "k = j" using h by (auto simp: held_def holds_cached [OF inv'])
    moreover have "j \<noteq> i" using h it(1) False by (auto simp: held_def holds_def)
    ultimately show ?thesis using k t h by (auto simp: held_def)
  qed
  moreover have hit: "held t i b" using it by (simp add: held_def)
  ultimately have lk: "{c. \<exists>j. held t j c} = insert b {c. \<exists>j. held s j c}"
    using held hit by blast
  have "cache_frame s t" using fr cache_frameI(1) by blast
  moreover have "blocks_of t = a_read b (blocks_of s)"
    using vw rf lk fr by (auto simp: blocks_of_def a_read_def)
  moreover have "bdata (bufs t i) = bcontents (blocks_of s) b" using dat by (simp add: blocks_of_def)
  ultimately show ?thesis using r inv' held it by (auto simp: held_def)
qed

lemma modify_refines:
  assumes inv: "bio_inv p s" and h: "held s i b"
  shows "bio_inv p (put_data i d s)" "cache_frame s (put_data i d s)"
    "blocks_of (put_data i d s) = a_modify b d (blocks_of s)" "held (put_data i d s) j c = held s j c"
    "bdata (bufs (put_data i d s) i) = d" "j \<noteq> i \<Longrightarrow> bdata (bufs (put_data i d s) j) = bdata (bufs s j)"
proof -
  have hh: "holds s i b" "buf_locked s i" using h by (simp_all add: held_def)
  note sp = put_data_spec [OF inv hh, of d]
  show "bio_inv p (put_data i d s)" by (rule sp)
  show "cache_frame s (put_data i d s)" by (simp add: put_data_def set_buf_def cache_frameI)
  have hd: "held (put_data i d s) j c = held s j c" for j c using sp(4,5) by (simp add: held_def)
  then show "held (put_data i d s) j c = held s j c" by simp
  show "blocks_of (put_data i d s) = a_modify b d (blocks_of s)"
    using sp(2,3,6) hd by (simp add: blocks_of_def a_modify_def) (simp add: put_data_def set_buf_def)
  show "bdata (bufs (put_data i d s) i) = d" "j \<noteq> i \<Longrightarrow> bdata (bufs (put_data i d s) j) = bdata (bufs s j)"
    by (simp_all add: put_data_def set_buf_def)
qed

lemma bwrite_refines:
  assumes inv: "bio_inv p s" and h: "held s i b"
  shows "\<exists>t. bwrite i s = Ret () t \<and> bio_inv p t \<and> cache_frame s t \<and>
     blocks_of t = a_write b (blocks_of s) \<and> (\<forall>j c. held t j c = held s j c) \<and> bufs t = bufs s"
proof -
  have hh: "holds s i b" "buf_locked s i" using h by (simp_all add: held_def)
  let ?t = "s\<lparr>disk := (disk s)(b := view s b), dtrace := dtrace s @ [(b, view s b)]\<rparr>"
  have hd: "held ?t j c = held s j c" for j c by (simp add: held_def holds_def buf_locked_def)
  show ?thesis
    using bwrite_held [OF inv hh] hd cache_frameI(3)
    by (intro exI [of _ ?t]) (simp add: blocks_of_def a_write_def)
qed

lemma brelse_refines:
  assumes inv: "bio_inv p s" and h: "held s i b"
    and clean: "brefs (blocks_of s) b = 1 \<Longrightarrow> bcontents (blocks_of s) b = bdisk (blocks_of s) b"
  shows "\<exists>t. brelse i s = Ret () t \<and> bio_inv p t \<and> cache_frame s t \<and>
     blocks_of t = a_release b (blocks_of s) \<and> (\<forall>j c. c \<noteq> b \<longrightarrow> held s j c \<longrightarrow> held t j c)"
proof -
  have hh: "holds s i b" "buf_locked s i" using h by (simp_all add: held_def)
  have "refs (bufs s) b = 1 \<Longrightarrow> view s b = disk s b" using clean by (simp add: blocks_of_def)
  then obtain t where r: "brelse i s = Ret () t" and post: "brelse_post p i b s t"
    using brelse_held [OF inv hh] by blast
  then have inv': "bio_inv p t" and vw: "view t = view s"
    and rf: "refs (bufs t) = (refs (bufs s))(b := refs (bufs s) b - 1)" and nl: "\<not> buf_locked t i"
    and fr: "\<exists>B L. t = s\<lparr>sleeplk := L, bufs := B\<rparr>" and hs: "\<And>j c. holds t j c = holds s j c"
    and lk: "\<And>j. j \<noteq> i \<Longrightarrow> buf_locked t j = buf_locked s j"
    by (auto simp: brelse_post_def)
  have hd: "held t j c \<longleftrightarrow> held s j c \<and> c \<noteq> b" for j c
  proof (cases "j = i")
    case True
    then show ?thesis using nl hh(1) by (auto simp: held_def holds_def)
  next
    case False
    then show ?thesis using lk [OF False] hs held_fun [OF inv h, of j] by (auto simp: held_def)
  qed
  then have "{c. \<exists>j. held t j c} = {c. \<exists>j. held s j c} - {b}" by auto
  then have "blocks_of t = a_release b (blocks_of s)"
    using vw rf fr by (auto simp: blocks_of_def a_release_def)
  moreover have "cache_frame s t" using fr cache_frameI(1) by blast
  ultimately show ?thesis using r inv' hd by blast
qed

lemma bpin_refines:
  assumes inv: "bio_inv p s" and h: "held s i b" and n: "brefs (blocks_of s) b + 1 \<noteq> 0"
  shows "\<exists>t. bpin i s = Ret () t \<and> bio_inv p t \<and> cache_frame s t \<and>
     blocks_of t = a_pin b (blocks_of s) \<and> (\<forall>j c. held t j c = held s j c)"
proof -
  have hh: "holds s i b" using h by (simp add: held_def)
  have "refs (bufs s) b + 1 \<noteq> 0" using n by (simp add: blocks_of_def)
  from bpin_held [OF inv hh this] obtain t where
    t: "bpin i s = Ret () t" "t = s\<lparr>bufs := recount i (refs (bufs s) b + 1) (bufs s)\<rparr>" "bio_inv p t"
      "view t = view s" "refs (bufs t) = (refs (bufs s))(b := refs (bufs s) b + 1)" by blast
  have hd: "held t j c = held s j c" for j c
    by (simp add: t(2) held_def holds_def buf_locked_def recount_def)
  have "blocks_of t = a_pin b (blocks_of s)"
    using t(4,5) hd by (simp add: blocks_of_def a_pin_def) (simp add: t(2))
  moreover have "cache_frame s t" using t(2) cache_frameI(2) by blast
  ultimately show ?thesis using t hd by blast
qed

lemma bunpin_refines:
  assumes inv: "bio_inv p s" and h: "held s i b" and n: "brefs (blocks_of s) b \<noteq> 1"
  shows "\<exists>t. bunpin i s = Ret () t \<and> bio_inv p t \<and> cache_frame s t \<and>
     blocks_of t = a_unpin b (blocks_of s) \<and> (\<forall>j c. held t j c = held s j c)"
proof -
  have hh: "holds s i b" using h by (simp add: held_def)
  have "refs (bufs s) b = 1 \<Longrightarrow> view s b = disk s b \<and> \<not> buf_locked s i" using n by (simp add: blocks_of_def)
  from bunpin_held [OF inv hh this] obtain t where
    t: "bunpin i s = Ret () t" "t = s\<lparr>bufs := recount i (refs (bufs s) b - 1) (bufs s)\<rparr>" "bio_inv p t"
      "view t = view s" "refs (bufs t) = (refs (bufs s))(b := refs (bufs s) b - 1)" by blast
  have hd: "held t j c = held s j c" for j c
    by (simp add: t(2) held_def holds_def buf_locked_def recount_def)
  have "blocks_of t = a_unpin b (blocks_of s)"
    using t(4,5) hd by (simp add: blocks_of_def a_unpin_def) (simp add: t(2))
  moreover have "cache_frame s t" using t(2) cache_frameI(2) by blast
  ultimately show ?thesis using t hd by blast
qed

section \<open>The interface\<close>

text \<open>Whether a block can be read: the count does not wrap, and there is a buffer for it.\<close>

definition readable :: "blocks \<Rightarrow> uint32 \<Rightarrow> bool" where
  "readable a b = (b \<notin> blocked a \<and> brefs a b + 1 \<noteq> 0 \<and> (brefs a b \<noteq> 0 \<or> card (in_use a) < NBUF))"

definition a_put :: "uint32 \<Rightarrow> bytes \<Rightarrow> blocks \<Rightarrow> blocks" where
  "a_put b d a = a\<lparr>bcontents := (bcontents a)(b := d), bdisk := (bdisk a)(b := d), bwrites := bwrites a @ [(b, d)]\<rparr>"

locale block_cache =
  fixes inv :: "'s \<Rightarrow> bool" and abs :: "'s \<Rightarrow> blocks" and hold :: "'s \<Rightarrow> nat \<Rightarrow> uint32 \<Rightarrow> bool"
    and dat :: "'s \<Rightarrow> nat \<Rightarrow> bytes" and frame :: "'s \<Rightarrow> 's \<Rightarrow> bool"
    and rd :: "uint32 \<Rightarrow> 's \<Rightarrow> (nat, 's) outcome" and put :: "nat \<Rightarrow> bytes \<Rightarrow> 's \<Rightarrow> 's"
    and wr :: "nat \<Rightarrow> 's \<Rightarrow> (unit, 's) outcome" and rel :: "nat \<Rightarrow> 's \<Rightarrow> (unit, 's) outcome"
    and unpin :: "nat \<Rightarrow> 's \<Rightarrow> (unit, 's) outcome"
  assumes frame_trans: "frame s t \<Longrightarrow> frame t u \<Longrightarrow> frame s u"
    and dat_hold: "inv s \<Longrightarrow> hold s i b \<Longrightarrow> dat s i = bcontents (abs s) b"
    and hold_refs: "inv s \<Longrightarrow> hold s i b \<Longrightarrow> brefs (abs s) b \<noteq> 0"
    and clean: "inv s \<Longrightarrow> brefs (abs s) b = 0 \<Longrightarrow> bcontents (abs s) b = bdisk (abs s) b"
    and read_ok: "inv s \<Longrightarrow> readable (abs s) b \<Longrightarrow> \<exists>i t. rd b s = Ret i t \<and> inv t \<and> frame s t \<and>
       abs t = a_read b (abs s) \<and> hold t i b \<and> (\<forall>j c. hold s j c \<longrightarrow> hold t j c)"
    and modify_ok: "inv s \<Longrightarrow> hold s i b \<Longrightarrow> inv (put i d s) \<and> frame s (put i d s) \<and>
       abs (put i d s) = a_modify b d (abs s) \<and> (\<forall>j c. hold (put i d s) j c = hold s j c)"
    and write_ok: "inv s \<Longrightarrow> hold s i b \<Longrightarrow> \<exists>t. wr i s = Ret () t \<and> inv t \<and> frame s t \<and>
       abs t = a_write b (abs s) \<and> (\<forall>j c. hold t j c = hold s j c)"
    and release_ok: "inv s \<Longrightarrow> hold s i b \<Longrightarrow>
       (brefs (abs s) b = 1 \<Longrightarrow> bcontents (abs s) b = bdisk (abs s) b) \<Longrightarrow>
       \<exists>t. rel i s = Ret () t \<and> inv t \<and> frame s t \<and> abs t = a_release b (abs s) \<and>
         (\<forall>j c. c \<noteq> b \<longrightarrow> hold s j c \<longrightarrow> hold t j c)"
    and unpin_ok: "inv s \<Longrightarrow> hold s i b \<Longrightarrow> brefs (abs s) b \<noteq> 1 \<Longrightarrow>
       \<exists>t. unpin i s = Ret () t \<and> inv t \<and> frame s t \<and> abs t = a_unpin b (abs s) \<and>
         (\<forall>j c. hold t j c = hold s j c)"
begin

text \<open>Reading a block and giving it back leaves the map as it was.\<close>

lemma read_block:
  assumes "inv s" "readable (abs s) b"
  shows "\<exists>i t u. rd b s = Ret i t \<and> dat t i = bcontents (abs s) b \<and> frame s t \<and> inv t \<and> rel i t = Ret () u \<and>
     inv u \<and> frame s u \<and> abs u = abs s"
proof -
  obtain i t where t: "rd b s = Ret i t" "inv t" "frame s t" "abs t = a_read b (abs s)" "hold t i b"
    using read_ok [OF assms] by blast
  have "bcontents (abs t) b = bdisk (abs t) b" if "brefs (abs t) b = 1"
    using that clean [OF assms(1), of b] t(4) by (simp add: a_read_def)
  then obtain u where u: "rel i t = Ret () u" "inv u" "frame t u" "abs u = a_release b (abs t)"
    using release_ok [OF t(2,5)] by blast
  have "abs u = abs s" using u(4) t(4) assms(2) by (simp add: a_read_def a_release_def readable_def)
  moreover have "dat t i = bcontents (abs s) b" using dat_hold [OF t(2,5)] t(4) by (simp add: a_read_def)
  ultimately show ?thesis using t u frame_trans [OF t(3) u(3)] by blast
qed

text \<open>Read, change, write, release: the pattern of every direct write.\<close>

lemma update_block:
  assumes "inv s" "readable (abs s) b"
  shows "\<exists>i t. rd b s = Ret i t \<and> inv t \<and> frame s t \<and> dat t i = bcontents (abs s) b \<and>
     (\<exists>u v. wr i (put i d t) = Ret () u \<and> rel i u = Ret () v \<and> inv v \<and> frame s v \<and> abs v = a_put b d (abs s))"
proof -
  obtain i t where t: "rd b s = Ret i t" "inv t" "frame s t" "abs t = a_read b (abs s)" "hold t i b"
    using read_ok [OF assms] by blast
  note m = modify_ok [OF t(2,5), of d]
  then have h: "inv (put i d t)" "hold (put i d t) i b" using t(5) by simp_all
  obtain u where u: "wr i (put i d t) = Ret () u" "inv u" "frame (put i d t) u"
    "abs u = a_write b (abs (put i d t))" "hold u i b"
    using write_ok [OF h] h(2) by blast
  have "bcontents (abs u) b = bdisk (abs u) b" by (simp add: u(4) a_write_def)
  then obtain v where v: "rel i u = Ret () v" "inv v" "frame u v" "abs v = a_release b (abs u)"
    using release_ok [OF u(2,5)] by blast
  have "frame s v" using t(3) m u(3) v(3) frame_trans by blast
  moreover have "abs v = a_put b d (abs s)"
    using v(4) u(4) m t(4) assms(2) by (simp add: a_defs a_put_def readable_def)
  moreover have "dat t i = bcontents (abs s) b" using dat_hold [OF t(2,5)] t(4) by (simp add: a_read_def)
  ultimately show ?thesis using t u v by blast
qed

text \<open>Read a target and a source block, copy, write the target, release both.\<close>

lemma copy_block:
  assumes inv: "inv s" and ra: "readable (abs s) a" and rc: "readable (a_read a (abs s)) c"
    and ne: "a \<noteq> c"
  shows "\<exists>i t j u. rd a s = Ret i t \<and> frame s t \<and> rd c t = Ret j u \<and>
     dat u i = bcontents (abs s) a \<and> dat u j = bcontents (abs s) c \<and>
     (\<exists>w x y. wr i (put i d u) = Ret () w \<and> rel j w = Ret () x \<and> rel i x = Ret () y \<and>
        inv y \<and> frame s y \<and> abs y = a_put a d (abs s))"
proof -
  obtain i t where t: "rd a s = Ret i t" "inv t" "frame s t" "abs t = a_read a (abs s)" "hold t i a"
    using read_ok [OF inv ra] by blast
  obtain j u where u: "rd c t = Ret j u" "inv u" "frame t u" "abs u = a_read c (abs t)" "hold u j c" "hold u i a"
    using read_ok [OF t(2), of c] rc t(4,5) by auto
  note m = modify_ok [OF u(2,6), of d]
  then have h: "inv (put i d u)" "hold (put i d u) i a" "hold (put i d u) j c" using u by simp_all
  obtain w where w: "wr i (put i d u) = Ret () w" "inv w" "frame (put i d u) w"
    "abs w = a_write a (abs (put i d u))" "hold w i a" "hold w j c"
    using write_ok [OF h(1,2)] h by blast
  have absw: "abs w = a_write a (a_modify a d (a_read c (a_read a (abs s))))" using w(4) m u(4) t(4) by simp
  have "bcontents (abs w) c = bdisk (abs w) c" if "brefs (abs w) c = 1"
    using that clean [OF inv, of c] ne by (simp add: absw a_defs)
  then obtain x where x: "rel j w = Ret () x" "inv x" "frame w x" "abs x = a_release c (abs w)" "hold x i a"
    using release_ok [OF w(2,6)] w(5) ne by blast
  have "bcontents (abs x) a = bdisk (abs x) a" using ne by (simp add: x(4) absw a_defs)
  then obtain y where y: "rel i x = Ret () y" "inv y" "frame x y" "abs y = a_release a (abs x)"
    using release_ok [OF x(2,5)] by blast
  have "abs y = a_put a d (abs s)"
    using ra rc ne by (simp add: y(4) x(4) absw a_defs a_put_def readable_def fun_upd_twist)
  moreover have "frame s y" using t(3) u(3) m w(3) x(3) y(3) frame_trans by blast
  moreover have "dat u i = bcontents (abs s) a" "dat u j = bcontents (abs s) c"
    using dat_hold [OF u(2,6)] dat_hold [OF u(2,5)] by (simp_all add: u(4) t(4) a_read_def)
  ultimately show ?thesis using t u w x y by blast
qed

text \<open>The same with the roles of \<^verbatim>\<open>install_trans\<close>, which also drops the pin on the target.\<close>

lemma install_block:
  assumes inv: "inv s" and ra: "readable (abs s) a" and rc: "readable (a_read a (abs s)) c"
    and ne: "a \<noteq> c" and np: "pinned \<Longrightarrow> brefs (abs s) c \<noteq> 0"
  shows "\<exists>i t j u. rd a s = Ret i t \<and> frame s t \<and> rd c t = Ret j u \<and>
     dat u i = bcontents (abs s) a \<and> dat u j = bcontents (abs s) c \<and>
     (\<exists>w x y z. wr j (put j d u) = Ret () w \<and> (if pinned then unpin j w else Ret () w) = Ret () x \<and>
        rel i x = Ret () y \<and> rel j y = Ret () z \<and> inv z \<and> frame s z \<and>
        abs z = (if pinned then a_unpin c (a_put c d (abs s)) else a_put c d (abs s)))"
proof -
  obtain i t where t: "rd a s = Ret i t" "inv t" "frame s t" "abs t = a_read a (abs s)" "hold t i a"
    using read_ok [OF inv ra] by blast
  obtain j u where u: "rd c t = Ret j u" "inv u" "frame t u" "abs u = a_read c (abs t)" "hold u j c" "hold u i a"
    using read_ok [OF t(2), of c] rc t(4,5) by auto
  note m = modify_ok [OF u(2,5), of d]
  then have h: "inv (put j d u)" "hold (put j d u) i a" "hold (put j d u) j c" using u by simp_all
  obtain w where w: "wr j (put j d u) = Ret () w" "inv w" "frame (put j d u) w"
    "abs w = a_write c (abs (put j d u))" "hold w i a" "hold w j c"
    using write_ok [OF h(1,3)] h by blast
  have absw: "abs w = a_write c (a_modify c d (a_read c (a_read a (abs s))))" using w(4) m u(4) t(4) by simp
  have "\<exists>x. (if pinned then unpin j w else Ret () w) = Ret () x \<and> inv x \<and> frame s x \<and>
      abs x = (if pinned then a_unpin c (abs w) else abs w) \<and> hold x i a \<and> hold x j c"
  proof -
    have fw: "frame s w" using t(3) u(3) m w(3) frame_trans by blast
    show ?thesis
    proof (cases pinned)
      case True
      then have "brefs (abs w) c \<noteq> 1" using np ne by (simp add: absw a_defs)
      then obtain x where "unpin j w = Ret () x" "inv x" "frame w x" "abs x = a_unpin c (abs w)" "hold x i a" "hold x j c"
        using unpin_ok [OF w(2,6)] w(5,6) by blast
      with True fw show ?thesis using frame_trans [of s w x] by auto
    next
      case False
      with fw w show ?thesis by auto
    qed
  qed
  then obtain x where x: "(if pinned then unpin j w else Ret () w) = Ret () x" "inv x" "frame s x"
    "abs x = (if pinned then a_unpin c (abs w) else abs w)" "hold x i a" "hold x j c" by blast
  have "bcontents (abs x) a = bdisk (abs x) a" if "brefs (abs x) a = 1"
    using that clean [OF inv, of a] ne by (auto simp: x(4) absw a_defs split: if_splits)
  then obtain y where y: "rel i x = Ret () y" "inv y" "frame x y" "abs y = a_release a (abs x)" "hold y j c"
    using release_ok [OF x(2,5)] x(6) ne by metis
  have "bcontents (abs y) c = bdisk (abs y) c" using ne by (simp add: y(4) x(4) absw a_defs)
  then obtain z where z: "rel j y = Ret () z" "inv z" "frame y z" "abs z = a_release c (abs y)"
    using release_ok [OF y(2,5)] by blast
  have "abs z = (if pinned then a_unpin c (a_put c d (abs s)) else a_put c d (abs s))"
  proof -
    have "insert c (insert a (blocked (abs s))) - {a} - {c} = blocked (abs s)"
      using ra rc by (auto simp: readable_def a_read_def)
    then show ?thesis using ne by (cases pinned) (simp_all add: z(4) y(4) x(4) absw a_defs a_put_def fun_upd_twist)
  qed
  moreover have "frame s z" using x(3) y(3) z(3) frame_trans by blast
  moreover have "dat u i = bcontents (abs s) a" "dat u j = bcontents (abs s) c"
    using dat_hold [OF u(2,6)] dat_hold [OF u(2,5)] by (simp_all add: u(4) t(4) a_read_def)
  ultimately show ?thesis using t u w x(1) y z by blast
qed

end

lemma blocks_clean:
  assumes inv: "bio_inv p s" and "brefs (blocks_of s) b = 0"
  shows "bcontents (blocks_of s) b = bdisk (blocks_of s) b"
proof (cases "cached (bufs s) b")
  case None
  then show ?thesis by (simp add: blocks_of_def view_def)
next
  case (Some i)
  then have "i < NBUF" "bdev (bufs s i) = ROOTDEV" "blockno (bufs s i) = b"
    by (simp_all add: cached_iff [OF bio_invD(1) [OF inv]])
  then show ?thesis
    using assms(2) Some bufs_okD(3) [OF bio_invD(1) [OF inv], of i] by (simp add: blocks_of_def view_def refs_def)
qed

interpretation bc: block_cache "bio_inv p" blocks_of held "\<lambda>s i. bdata (bufs s i)" cache_frame
  "bread ROOTDEV" put_data bwrite brelse bunpin for p
proof
  fix s t u :: "'a bcache_scheme" and i :: nat and b :: uint32 and d :: bytes
  show "cache_frame s t \<Longrightarrow> cache_frame t u \<Longrightarrow> cache_frame s u" by (rule cache_frame_trans)
  show "bio_inv p s \<Longrightarrow> held s i b \<Longrightarrow> bdata (bufs s i) = bcontents (blocks_of s) b"
    by (auto simp: held_def holds_cached blocks_of_def view_def)
  show "bio_inv p s \<Longrightarrow> held s i b \<Longrightarrow> brefs (blocks_of s) b \<noteq> 0"
    using held_refs by (simp add: blocks_of_def)
  show "bio_inv p s \<Longrightarrow> brefs (blocks_of s) b = 0 \<Longrightarrow> bcontents (blocks_of s) b = bdisk (blocks_of s) b"
    by (rule blocks_clean)
  show "bio_inv p s \<Longrightarrow> readable (blocks_of s) b \<Longrightarrow> \<exists>i t. bread ROOTDEV b s = Ret i t \<and> bio_inv p t \<and>
      cache_frame s t \<and> blocks_of t = a_read b (blocks_of s) \<and> held t i b \<and> (\<forall>j c. held s j c \<longrightarrow> held t j c)"
    using bread_refines [of p s b] by (auto simp: readable_def)
  show "bio_inv p s \<Longrightarrow> held s i b \<Longrightarrow> bio_inv p (put_data i d s) \<and> cache_frame s (put_data i d s) \<and>
      blocks_of (put_data i d s) = a_modify b d (blocks_of s) \<and> (\<forall>j c. held (put_data i d s) j c = held s j c)"
    using modify_refines [of p s i b] by blast
  show "bio_inv p s \<Longrightarrow> held s i b \<Longrightarrow> \<exists>t. bwrite i s = Ret () t \<and> bio_inv p t \<and> cache_frame s t \<and>
      blocks_of t = a_write b (blocks_of s) \<and> (\<forall>j c. held t j c = held s j c)"
    using bwrite_refines [of p s i b] by blast
  show "bio_inv p s \<Longrightarrow> held s i b \<Longrightarrow>
      (brefs (blocks_of s) b = 1 \<Longrightarrow> bcontents (blocks_of s) b = bdisk (blocks_of s) b) \<Longrightarrow>
      \<exists>t. brelse i s = Ret () t \<and> bio_inv p t \<and> cache_frame s t \<and> blocks_of t = a_release b (blocks_of s) \<and>
        (\<forall>j c. c \<noteq> b \<longrightarrow> held s j c \<longrightarrow> held t j c)"
    by (rule brelse_refines)
  show "bio_inv p s \<Longrightarrow> held s i b \<Longrightarrow> brefs (blocks_of s) b \<noteq> 1 \<Longrightarrow>
      \<exists>t. bunpin i s = Ret () t \<and> bio_inv p t \<and> cache_frame s t \<and> blocks_of t = a_unpin b (blocks_of s) \<and>
        (\<forall>j c. held t j c = held s j c)"
    by (rule bunpin_refines)
qed

end
