(* ===== verification/Log.thy ===== *)
theory Log
  imports Blocks
begin

text \<open>
  The file system log: \<^verbatim>\<open>kernel/log.c\<close>. The header lists the home blocks of the
  transaction in memory and, between the two header writes of a commit, on disk. Block numbers
  are \<^verbatim>\<open>int\<close> in the header and \<^verbatim>\<open>uint\<close> everywhere else; they are kept as the
  32-bit pattern both share. The lines \<^verbatim>\<open>printk\<close> writes to the console are left out.
\<close>

section \<open>State\<close>

record logst = bcache +
  lg_start :: uint32
  lg_outstanding :: int
  lg_committing :: bool
  lg_dev :: uint32
  lg_ncommit :: int
  lh_n :: int
  lh_block :: "nat \<Rightarrow> uint32"

lemma logst_frame [simp]:
  "lock_free (lg_start_update f1 s) lk = lock_free s lk"
  "lock_free (lg_outstanding_update f2 s) lk = lock_free s lk"
  "lock_free (lg_committing_update f3 s) lk = lock_free s lk"
  "lock_free (lg_dev_update f4 s) lk = lock_free s lk"
  "lock_free (lg_ncommit_update f5 s) lk = lock_free s lk"
  "lock_free (lh_n_update f6 s) lk = lock_free s lk"
  "lock_free (lh_block_update f7 s) lk = lock_free s lk"
  "intr_ok (lg_start_update f1 s) = intr_ok s"
  "mycpu (lg_start_update f1 s) = mycpu s"
  "intr_ok (lg_outstanding_update f2 s) = intr_ok s"
  "mycpu (lg_outstanding_update f2 s) = mycpu s"
  "intr_ok (lg_committing_update f3 s) = intr_ok s"
  "mycpu (lg_committing_update f3 s) = mycpu s"
  "intr_ok (lg_dev_update f4 s) = intr_ok s"
  "mycpu (lg_dev_update f4 s) = mycpu s"
  "intr_ok (lg_ncommit_update f5 s) = intr_ok s"
  "mycpu (lg_ncommit_update f5 s) = mycpu s"
  "intr_ok (lh_n_update f6 s) = intr_ok s"
  "mycpu (lh_n_update f6 s) = mycpu s"
  "intr_ok (lh_block_update f7 s) = intr_ok s"
  "mycpu (lh_block_update f7 s) = mycpu s"
  "calm p (lg_start_update f1 s) = calm p s"
  "calm p (lg_outstanding_update f2 s) = calm p s"
  "calm p (lg_committing_update f3 s) = calm p s"
  "calm p (lg_dev_update f4 s) = calm p s"
  "calm p (lg_ncommit_update f5 s) = calm p s"
  "calm p (lh_n_update f6 s) = calm p s"
  "calm p (lh_block_update f7 s) = calm p s"
  "no_waiters l (lg_start_update f1 s) = no_waiters l s"
  "no_waiters l (lg_outstanding_update f2 s) = no_waiters l s"
  "no_waiters l (lg_committing_update f3 s) = no_waiters l s"
  "no_waiters l (lg_dev_update f4 s) = no_waiters l s"
  "no_waiters l (lg_ncommit_update f5 s) = no_waiters l s"
  "no_waiters l (lh_n_update f6 s) = no_waiters l s"
  "no_waiters l (lh_block_update f7 s) = no_waiters l s"
  by (simp_all add: lock_free_def intr_ok_def calm_def mach_defs no_waiters_def)

lemma logst_blocks [simp]:
  "blocks_of (lg_start_update f1 s) = blocks_of s" "blocks_of (lg_outstanding_update f2 s) = blocks_of s"
  "blocks_of (lg_committing_update f3 s) = blocks_of s" "blocks_of (lg_dev_update f4 s) = blocks_of s"
  "blocks_of (lg_ncommit_update f5 s) = blocks_of s" "blocks_of (lh_n_update f6 s) = blocks_of s"
  "blocks_of (lh_block_update f7 s) = blocks_of s"
  "bio_inv p (lg_start_update f1 s) = bio_inv p s" "bio_inv p (lg_outstanding_update f2 s) = bio_inv p s"
  "bio_inv p (lg_committing_update f3 s) = bio_inv p s" "bio_inv p (lg_dev_update f4 s) = bio_inv p s"
  "bio_inv p (lg_ncommit_update f5 s) = bio_inv p s" "bio_inv p (lh_n_update f6 s) = bio_inv p s"
  "bio_inv p (lh_block_update f7 s) = bio_inv p s"
  by (simp_all add: blocks_of_def held_def holds_def buf_locked_def view_def bio_inv_def fun_eq_iff split: option.split)

section \<open>The header on disk\<close>

text \<open>
  \<^verbatim>\<open>struct logheader\<close> laid over a block: the count, then the block numbers.
\<close>

definition head_n :: "bytes \<Rightarrow> int" where
  "head_n d = sint (get32 d 0)"

definition head_block :: "bytes \<Rightarrow> nat \<Rightarrow> uint32" where
  "head_block d i = get32 d (4 + 4 * i)"

definition put_head :: "int \<Rightarrow> (nat \<Rightarrow> uint32) \<Rightarrow> bytes \<Rightarrow> bytes" where
  "put_head n blk d = fold (\<lambda>i d. put32 d (4 + 4 * i) (blk i)) [0..<nat n] (put32 d 0 (word_of_int n))"

section \<open>Operations\<close>

text \<open>One turn of each loop over the blocks of the transaction, and the loop.\<close>

definition install_one :: "bool \<Rightarrow> nat \<Rightarrow> 'z logst_scheme \<Rightarrow> (unit, 'z logst_scheme) outcome" where
  "install_one recovering tail s =
     kbind (bread (lg_dev s) (lg_start s + of_nat tail + 1) s) (\<lambda>lbuf s.
     kbind (bread (lg_dev s) (lh_block s tail) s) (\<lambda>dbuf s.
       let s = put_data dbuf (copy_bytes (bdata (bufs s dbuf)) 0 (bdata (bufs s lbuf)) 0 BSIZE) s in
     kbind (bwrite dbuf s) (\<lambda>_ s.
     kbind (if \<not> recovering then bunpin dbuf s else Ret () s) (\<lambda>_ s.
     kbind (brelse lbuf s) (\<lambda>_ s.
     brelse dbuf s)))))"

definition install_trans :: "bool \<Rightarrow> 'z logst_scheme \<Rightarrow> (unit, 'z logst_scheme) outcome" where
  "install_trans recovering s = kfor (install_one recovering) [0..<nat (lh_n s)] s"

text \<open>A header that claims more blocks than the array holds would be read past its end.\<close>

definition read_head :: "'z logst_scheme \<Rightarrow> (unit, 'z logst_scheme) outcome" where
  "read_head s =
     kbind (bread (lg_dev s) (lg_start s) s) (\<lambda>b s.
       let s = s\<lparr>lh_n := head_n (bdata (bufs s b))\<rparr> in
       if LOGBLOCKS < lh_n s then Undef
       else
         let s = s\<lparr>lh_block := fold (\<lambda>i blk. blk(i := head_block (bdata (bufs s b)) i)) [0..<nat (lh_n s)] (lh_block s)\<rparr>
         in brelse b s)"

definition write_head :: "'z logst_scheme \<Rightarrow> (unit, 'z logst_scheme) outcome" where
  "write_head s =
     kbind (bread (lg_dev s) (lg_start s) s) (\<lambda>b s.
       let s = put_data b (put_head (lh_n s) (lh_block s) (bdata (bufs s b))) s in
     kbind (bwrite b s) (\<lambda>_ s. brelse b s))"

definition recover_from_log :: "'z logst_scheme \<Rightarrow> (unit, 'z logst_scheme) outcome" where
  "recover_from_log s =
     kbind (read_head s) (\<lambda>_ s.
     kbind (install_trans True s) (\<lambda>_ s.
       let s = s\<lparr>lh_n := 0\<rparr> in write_head s))"

text \<open>\<^verbatim>\<open>initlog\<close>; the header is 124 bytes, so its size check never fires.\<close>

definition logheader_size :: nat where
  "logheader_size = 4 + 4 * nat LOGBLOCKS"

definition initlog :: "uint32 \<Rightarrow> uint32 \<Rightarrow> 'z logst_scheme \<Rightarrow> (unit, 'z logst_scheme) outcome" where
  "initlog dev logstart s =
     (if BSIZE \<le> logheader_size then Panic ''initlog: too big logheader''
      else
        let s = initlock LogLk ''log'' s;
            s = s\<lparr>lg_start := logstart\<rparr>;
            s = s\<lparr>lg_dev := dev\<rparr>
        in recover_from_log s)"

text \<open>
  The waiting loop of \<^verbatim>\<open>begin_op\<close>: one turn, and the loop entered again after a sleep.
\<close>

definition begin_op_loop :: "'z logst_scheme \<Rightarrow> (unit, 'z logst_scheme) outcome" where
  "begin_op_loop s =
     (if lg_committing s then sleep ChLog LogLk s
      else if LOGBLOCKS < lh_n s + (lg_outstanding s + 1) * MAXOPBLOCKS then sleep ChLog LogLk s
      else release LogLk (s\<lparr>lg_outstanding := lg_outstanding s + 1\<rparr>))"

definition begin_op :: "'z logst_scheme \<Rightarrow> (unit, 'z logst_scheme) outcome" where
  "begin_op s = kbind (acquire LogLk s) (\<lambda>_ s. begin_op_loop s)"

definition begin_op_resume :: "nat \<Rightarrow> 'z logst_scheme \<Rightarrow> (unit, 'z logst_scheme) outcome" where
  "begin_op_resume p s = kbind (sleep_resume p LogLk s) (\<lambda>_ s. begin_op_loop s)"

definition write_one :: "nat \<Rightarrow> 'z logst_scheme \<Rightarrow> (unit, 'z logst_scheme) outcome" where
  "write_one tail s =
     kbind (bread (lg_dev s) (lg_start s + of_nat tail + 1) s) (\<lambda>to_b s.
     kbind (bread (lg_dev s) (lh_block s tail) s) (\<lambda>from_b s.
       let s = put_data to_b (copy_bytes (bdata (bufs s to_b)) 0 (bdata (bufs s from_b)) 0 BSIZE) s in
     kbind (bwrite to_b s) (\<lambda>_ s.
     kbind (brelse from_b s) (\<lambda>_ s.
     brelse to_b s))))"

definition write_log :: "'z logst_scheme \<Rightarrow> (unit, 'z logst_scheme) outcome" where
  "write_log s = kfor write_one [0..<nat (lh_n s)] s"

definition commit :: "'z logst_scheme \<Rightarrow> (unit, 'z logst_scheme) outcome" where
  "commit s =
     (if 0 < lh_n s then
        kbind (write_log s) (\<lambda>_ s.
        kbind (write_head s) (\<lambda>_ s.
        kbind (install_trans False s) (\<lambda>_ s.
          let s = s\<lparr>lh_n := 0\<rparr> in write_head s)))
      else Ret () s)"

definition end_op :: "'z logst_scheme \<Rightarrow> (unit, 'z logst_scheme) outcome" where
  "end_op s =
     kbind (acquire LogLk s) (\<lambda>_ s.
       let s = s\<lparr>lg_outstanding := lg_outstanding s - 1\<rparr> in
       if lg_committing s then Panic ''log.committing''
       else if lg_outstanding s = 0 then
         let s = s\<lparr>lg_committing := True\<rparr> in
         kbind (release LogLk s) (\<lambda>_ s.
         kbind (commit s) (\<lambda>_ s.
         kbind (acquire LogLk s) (\<lambda>_ s.
           let s = s\<lparr>lg_committing := False\<rparr>;
               s = s\<lparr>lg_ncommit := c_int (lg_ncommit s + 1)\<rparr>
           in kbind (wakeup ChLog s) (\<lambda>_ s. release LogLk s))))
       else kbind (wakeup ChLog s) (\<lambda>_ s. release LogLk s))"

text \<open>The search for the block in the header, and the entry it takes.\<close>

definition log_slot :: "uint32 \<Rightarrow> 'z logst_scheme \<Rightarrow> nat" where
  "log_slot b s = (case first_idx (\<lambda>i. lh_block s i = b) [0..<nat (lh_n s)] of Some i \<Rightarrow> i | None \<Rightarrow> nat (lh_n s))"

definition log_write :: "nat \<Rightarrow> 'z logst_scheme \<Rightarrow> (unit, 'z logst_scheme) outcome" where
  "log_write b s =
     kbind (acquire LogLk s) (\<lambda>_ s.
       if LOGBLOCKS \<le> lh_n s then Panic ''too big a transaction''
       else if lg_outstanding s < 1 then Panic ''log_write outside of trans''
       else
         let i = log_slot (blockno (bufs s b)) s;
             s = s\<lparr>lh_block := (lh_block s)(i := blockno (bufs s b))\<rparr>
         in kbind (if int i = lh_n s
                   then kbind (bpin b s) (\<lambda>_ s. Ret () (s\<lparr>lh_n := lh_n s + 1\<rparr>))
                   else Ret () s) (\<lambda>_ s.
            release LogLk s))"

definition sys_sync_loop :: "int \<Rightarrow> 'z logst_scheme \<Rightarrow> (uint64, 'z logst_scheme) outcome" where
  "sys_sync_loop n s =
     (if lg_ncommit s < n then kbind (sleep ChLog LogLk s) (\<lambda>_ s. Ret 0 s)
      else kbind (release LogLk s) (\<lambda>_ s. Ret 0 s))"

definition sys_sync :: "'z logst_scheme \<Rightarrow> (uint64, 'z logst_scheme) outcome" where
  "sys_sync s =
     kbind (acquire LogLk s) (\<lambda>_ s.
       if lg_committing s \<or> 0 < lg_outstanding s then sys_sync_loop (c_int (lg_ncommit s + 1)) s
       else kbind (release LogLk s) (\<lambda>_ s. Ret 0 s))"

definition sys_sync_resume :: "nat \<Rightarrow> int \<Rightarrow> 'z logst_scheme \<Rightarrow> (uint64, 'z logst_scheme) outcome" where
  "sys_sync_resume p n s = kbind (sleep_resume p LogLk s) (\<lambda>_ s. sys_sync_loop n s)"

end
