(* ===== verification/LogCrash.thy ===== *)
theory LogCrash
  imports Log
begin

text \<open>
  The log makes a transaction atomic: what \<^verbatim>\<open>commit\<close> writes to the disk and in what order,
  what recovery makes of the disk after any prefix of those writes, and the space that
  \<^verbatim>\<open>begin_op\<close> reserves.
\<close>

section \<open>The header round trip\<close>

lemma put_loop_get:
  "get32 (fold (\<lambda>i d. put32 d (4 + 4 * i) (blk i)) [0..<m] d) (4 * k) =
     (if 0 < k \<and> k \<le> m then blk (k - 1) else get32 d (4 * k))"
proof (induction m)
  case 0
  then show ?case by auto
next
  case (Suc m)
  show ?case
  proof (cases "k = Suc m")
    case True
    then show ?thesis by simp
  next
    case False
    then have "4 + 4 * m + 4 \<le> 4 * k \<or> 4 * k + 4 \<le> 4 + 4 * m" by linarith
    with False Suc show ?thesis by (auto simp: get_put_apart(2))
  qed
qed

lemma put_head_n: "- (2 ^ 31) \<le> n \<Longrightarrow> n < 2 ^ 31 \<Longrightarrow> head_n (put_head n blk d) = n"
  using put_loop_get [of blk "nat n" "put32 d 0 (word_of_int n)" 0]
  by (simp add: head_n_def put_head_def signed_of_int signed_take_bit_int_eq_self)

lemma put_head_block: "i < nat n \<Longrightarrow> head_block (put_head n blk d) i = blk i"
  using put_loop_get [of blk "nat n" "put32 d 0 (word_of_int n)" "Suc i"]
  by (simp add: head_block_def put_head_def)

lemma put_head_beyond:
  assumes "n \<le> 30" "124 \<le> k"
  shows "put_head n blk d k = d k"
proof -
  have "fold (\<lambda>i d. put32 d (4 + 4 * i) (blk i)) [0..<m] d k = d k" if "m \<le> 30" for m and d :: bytes
    using that assms(2) by (induction m) (auto simp: put32_def)
  moreover have "nat n \<le> 30" using assms(1) by simp
  ultimately show ?thesis using assms(2) by (simp add: put_head_def put32_def)
qed

section \<open>Sequences of block writes\<close>

definition upds :: "(uint32 \<times> bytes) list \<Rightarrow> (uint32 \<Rightarrow> bytes) \<Rightarrow> uint32 \<Rightarrow> bytes" where
  "upds ws f = fold (\<lambda>(b, d) f. f(b := d)) ws f"

definition puts :: "(uint32 \<times> bytes) list \<Rightarrow> blocks \<Rightarrow> blocks" where
  "puts ws a = fold (\<lambda>(b, d). a_put b d) ws a"

lemma upds_simps [simp]:
  "upds [] f = f" "upds (w # ws) f = upds ws (f(fst w := snd w))" "upds (ws @ vs) f = upds vs (upds ws f)"
  by (simp_all add: upds_def split_def)

lemma puts_simps:
  "puts [] a = a" "puts (ws @ [(b, d)]) a = a_put b d (puts ws a)"
  by (simp_all add: puts_def)

lemma puts_fields:
  "puts ws a = a\<lparr>bcontents := upds ws (bcontents a), bdisk := upds ws (bdisk a), bwrites := bwrites a @ ws\<rparr>"
proof (induction ws arbitrary: a)
  case Nil
  then show ?case by (simp add: puts_def)
next
  case (Cons w ws)
  then show ?case by (cases w) (simp add: puts_def a_put_def fun_upd_def)
qed

lemma upds_other: "b \<notin> fst ` set ws \<Longrightarrow> upds ws f b = f b"
  by (induction ws arbitrary: f) auto

lemma upds_map:
  assumes "inj_on k {..<n}" "i < n"
  shows "upds (map (\<lambda>i. (k i, v i)) [0..<n]) f (k i) = v i"
  using assms
proof (induction n)
  case 0
  then show ?case by simp
next
  case (Suc n)
  show ?case
  proof (cases "i = n")
    case True
    then show ?thesis by simp
  next
    case False
    then have "k i \<noteq> k n" using Suc.prems by (auto simp: inj_on_def)
    moreover have "inj_on k {..<n}" using Suc.prems(1) by (auto simp: inj_on_def)
    ultimately show ?thesis using Suc.IH Suc.prems(2) False by simp
  qed
qed

definition sized :: "bytes \<Rightarrow> bool" where
  "sized d = (\<forall>i. BSIZE \<le> i \<longrightarrow> d i = 0)"

lemma copy_sized: "sized d \<Longrightarrow> sized e \<Longrightarrow> copy_bytes d 0 e 0 BSIZE = e"
  by (rule ext) (simp add: copy_bytes_def sized_def)

lemma upds_sized:
  "(\<And>b. sized (f b)) \<Longrightarrow> (\<And>b d. (b, d) \<in> set ws \<Longrightarrow> sized d) \<Longrightarrow> sized (upds ws f b)"
proof (induction ws arbitrary: f)
  case Nil
  then show ?case by simp
next
  case (Cons w ws)
  have "sized (upds ws (f(fst w := snd w)) b)"
  proof (rule Cons.IH)
    show "sized ((f(fst w := snd w)) c)" for c using Cons.prems(1) Cons.prems(2) [of "fst w" "snd w"] by simp
    show "(c, d) \<in> set ws \<Longrightarrow> sized d" for c d using Cons.prems(2) [of c d] by simp
  qed
  then show ?case by simp
qed

section \<open>The commit\<close>

text \<open>The blocks of the log on disk: the header and the copies.\<close>

definition log_blk :: "'z logst_scheme \<Rightarrow> nat \<Rightarrow> uint32" where
  "log_blk s i = lg_start s + of_nat i + 1"

definition log_area :: "'z logst_scheme \<Rightarrow> uint32 set" where
  "log_area s = insert (lg_start s) (log_blk s ` {..<nat LOGBLOCKS})"

definition log_ok :: "'z logst_scheme \<Rightarrow> bool" where
  "log_ok s = (lg_dev s = ROOTDEV \<and> 0 \<le> lh_n s \<and> lh_n s \<le> LOGBLOCKS \<and>
     inj_on (lh_block s) {..<nat (lh_n s)} \<and> lh_block s ` {..<nat (lh_n s)} \<inter> log_area s = {})"

text \<open>No buffer is locked, no count is near its limit, and blocks are blocks.\<close>

definition cache_idle :: "nat \<Rightarrow> 'z bcache_scheme \<Rightarrow> bool" where
  "cache_idle p s = (bio_inv p s \<and> blocked (blocks_of s) = {} \<and> (\<forall>b. brefs (blocks_of s) b < 0x7fffffff) \<and>
     (\<forall>b. sized (bcontents (blocks_of s) b)))"

lemma log_blk_inj: "inj_on (log_blk s) {..<nat LOGBLOCKS}"
proof (rule inj_onI)
  fix i j
  assume "i \<in> {..<nat LOGBLOCKS}" "j \<in> {..<nat LOGBLOCKS}" "log_blk s i = log_blk s j"
  then have "i < 30" "j < 30" "(of_nat i :: uint32) = of_nat j" by (simp_all add: log_blk_def LOGBLOCKS_def MAXOPBLOCKS_def)
  moreover have "unat (of_nat i :: uint32) = i" "unat (of_nat j :: uint32) = j"
    using \<open>i < 30\<close> \<open>j < 30\<close> by (simp_all add: unat_of_nat_lt)
  ultimately show "i = j" by metis
qed

lemma log_blk_start: "i < nat LOGBLOCKS \<Longrightarrow> log_blk s i \<noteq> lg_start s"
proof
  assume "i < nat LOGBLOCKS" "log_blk s i = lg_start s"
  then have "(of_nat (Suc i) :: uint32) = 0" "i < 30" by (simp_all add: log_blk_def LOGBLOCKS_def MAXOPBLOCKS_def algebra_simps)
  moreover have "unat (of_nat (Suc i) :: uint32) = Suc i" using \<open>i < 30\<close> by (simp add: unat_of_nat_lt del: of_nat_Suc)
  ultimately show False by simp
qed

lemma cache_frame_log:
  assumes "cache_frame s t"
  shows "lg_start t = lg_start s" "lg_dev t = lg_dev s" "lh_n t = lh_n s" "lh_block t = lh_block s"
    "lg_outstanding t = lg_outstanding s" "lg_committing t = lg_committing s" "lg_ncommit t = lg_ncommit s"
  using assms by (auto simp: cache_frame_def)

lemma in_use_read: "in_use (a_read b a) \<subseteq> insert b (in_use a)"
  by (auto simp: in_use_def a_read_def)

lemma small_count: "(n :: uint32) < 0x7fffffff \<Longrightarrow> n + 1 \<noteq> 0" "(n :: uint32) < 0x7fffffff \<Longrightarrow> n + 1 + 1 \<noteq> 0"
  by (auto simp: word_less_nat_alt unat_word_ariths unat_arith_simps)

lemma a_put_simps [simp]:
  "brefs (a_put b d a) = brefs a" "blocked (a_put b d a) = blocked a" "in_use (a_put b d a) = in_use a"
  "bcontents (a_put b d a) = (bcontents a)(b := d)" "bdisk (a_put b d a) = (bdisk a)(b := d)"
  "bwrites (a_put b d a) = bwrites a @ [(b, d)]"
  by (simp_all add: a_put_def in_use_def)

lemma log_blk_home:
  assumes "log_ok s" "i < nat (lh_n s)" "j < nat (lh_n s)"
  shows "log_blk s i \<noteq> lh_block s j" "lh_block s j \<noteq> lg_start s" "log_blk s i \<noteq> lg_start s"
proof -
  have i: "i < nat LOGBLOCKS" using assms(1,2) unfolding log_ok_def by linarith
  then show "log_blk s i \<noteq> lg_start s" by (rule log_blk_start)
  have "log_blk s i \<in> log_area s" "lg_start s \<in> log_area s" using i by (auto simp: log_area_def)
  moreover have "lh_block s j \<notin> log_area s" using assms(1,3) by (auto simp: log_ok_def)
  ultimately show "log_blk s i \<noteq> lh_block s j" "lh_block s j \<noteq> lg_start s" by auto
qed

lemma idle_readable:
  assumes "cache_idle p s" "brefs (blocks_of s) b \<noteq> 0 \<or> card (in_use (blocks_of s)) < NBUF"
  shows "readable (blocks_of s) b"
  using assms by (simp add: cache_idle_def readable_def small_count)

lemma idle_readable2:
  assumes "cache_idle p s" "a \<noteq> b"
    "brefs (blocks_of s) b \<noteq> 0 \<or> card (insert a (in_use (blocks_of s))) < NBUF"
  shows "readable (a_read a (blocks_of s)) b"
proof -
  have "card (in_use (a_read a (blocks_of s))) \<le> card (insert a (in_use (blocks_of s)))"
    by (rule card_mono) (simp_all add: in_use_read)
  with assms show ?thesis by (auto simp: cache_idle_def readable_def a_read_def small_count)
qed

lemma idle_put:
  assumes "cache_idle p s" "bio_inv p t" "blocks_of t = a_put b d (blocks_of s)" "sized d"
  shows "cache_idle p t"
  using assms by (simp add: cache_idle_def)

lemma write_one_ok:
  assumes idle: "cache_idle p s" and ok: "log_ok s" and i: "i < nat (lh_n s)"
    and pin: "brefs (blocks_of s) (lh_block s i) \<noteq> 0" and room: "card (in_use (blocks_of s)) < NBUF"
  shows "\<exists>t. write_one i s = Ret () t \<and> cache_idle p t \<and> cache_frame s t \<and>
     blocks_of t = a_put (log_blk s i) (bcontents (blocks_of s) (lh_block s i)) (blocks_of s)"
proof -
  let ?a = "log_blk s i" and ?c = "lh_block s i"
  let ?d = "bcontents (blocks_of s) ?c"
  have inv: "bio_inv p s" and sz: "sized ?d" "sized (bcontents (blocks_of s) ?a)" using idle by (simp_all add: cache_idle_def)
  have ne: "?a \<noteq> ?c" using log_blk_home [OF ok i i] by simp
  have ra: "readable (blocks_of s) ?a" using idle_readable [OF idle] room by blast
  have rc: "readable (a_read ?a (blocks_of s)) ?c" using idle_readable2 [OF idle ne] pin by blast
  obtain x t y u w v z where st: "bread ROOTDEV ?a s = Ret x t" "cache_frame s t" "bread ROOTDEV ?c t = Ret y u"
    "bdata (bufs u x) = bcontents (blocks_of s) ?a" "bdata (bufs u y) = ?d"
    "bwrite x (put_data x ?d u) = Ret () w" "brelse y w = Ret () v" "brelse x v = Ret () z"
    "bio_inv p z" "cache_frame s z" "blocks_of z = a_put ?a ?d (blocks_of s)"
    using bc.copy_block [OF inv ra rc ne, of ?d] by blast
  have "lg_dev s = ROOTDEV" using ok by (simp add: log_ok_def)
  then have "write_one i s = Ret () z"
    using st cache_frame_log [OF st(2)] copy_sized [OF sz(2,1)]
    by (simp add: write_one_def log_blk_def)
  then show ?thesis using st(9-11) idle_put [OF idle st(9,11) sz(1)] by blast
qed

lemma log_ok_frame:
  assumes "cache_frame s t"
  shows "log_ok t = log_ok s" "log_blk t = log_blk s" "log_area t = log_area s"
proof -
  show "log_blk t = log_blk s" by (rule ext) (simp add: log_blk_def cache_frame_log [OF assms])
  then show "log_area t = log_area s" by (simp add: log_area_def cache_frame_log [OF assms])
  then show "log_ok t = log_ok s" by (simp add: log_ok_def cache_frame_log [OF assms])
qed

text \<open>Copies of the home blocks, written to the log and written home.\<close>

definition log_copies :: "'z logst_scheme \<Rightarrow> (uint32 \<Rightarrow> bytes) \<Rightarrow> nat \<Rightarrow> (uint32 \<times> bytes) list" where
  "log_copies s f k = map (\<lambda>i. (log_blk s i, f (lh_block s i))) [0..<k]"

definition home_copies :: "'z logst_scheme \<Rightarrow> (uint32 \<Rightarrow> bytes) \<Rightarrow> nat \<Rightarrow> (uint32 \<times> bytes) list" where
  "home_copies s f k = map (\<lambda>i. (lh_block s i, f (log_blk s i))) [0..<k]"

lemma copies_Suc [simp]:
  "log_copies s f (Suc k) = log_copies s f k @ [(log_blk s k, f (lh_block s k))]"
  "home_copies s f (Suc k) = home_copies s f k @ [(lh_block s k, f (log_blk s k))]"
  "log_copies s f 0 = []" "home_copies s f 0 = []"
  by (simp_all add: log_copies_def home_copies_def)

lemma log_copies_fst: "fst ` set (log_copies s f k) = log_blk s ` {..<k}" "fst ` set (home_copies s f k) = lh_block s ` {..<k}"
  by (force simp: log_copies_def home_copies_def)+

lemma write_log_prefix:
  assumes idle: "cache_idle p s" and ok: "log_ok s" and k: "k \<le> nat (lh_n s)"
    and pin: "\<And>i. i < nat (lh_n s) \<Longrightarrow> brefs (blocks_of s) (lh_block s i) \<noteq> 0"
    and room: "card (in_use (blocks_of s)) < NBUF"
  shows "\<exists>t. kfor write_one [0..<k] s = Ret () t \<and> cache_idle p t \<and> cache_frame s t \<and>
     blocks_of t = puts (log_copies s (bcontents (blocks_of s)) k) (blocks_of s)"
  using k
proof (induction k)
  case 0
  then show ?case using idle by (simp add: puts_simps)
next
  case (Suc k)
  let ?f = "bcontents (blocks_of s)"
  obtain t where t: "kfor write_one [0..<k] s = Ret () t" "cache_idle p t" "cache_frame s t"
    "blocks_of t = puts (log_copies s ?f k) (blocks_of s)" using Suc by auto
  note fr = cache_frame_log [OF t(3)] log_ok_frame [OF t(3)]
  have "\<exists>u. write_one k t = Ret () u \<and> cache_idle p u \<and> cache_frame t u \<and>
     blocks_of u = a_put (log_blk t k) (bcontents (blocks_of t) (lh_block t k)) (blocks_of t)"
    by (rule write_one_ok [OF t(2)]) (use Suc.prems ok pin room in \<open>auto simp: fr t(4) puts_fields in_use_def\<close>)
  then obtain u where u: "write_one k t = Ret () u" "cache_idle p u" "cache_frame t u"
    "blocks_of u = a_put (log_blk s k) (bcontents (blocks_of t) (lh_block s k)) (blocks_of t)" by (auto simp: fr)
  have "log_blk s i \<noteq> lh_block s k" if "i < k" for i
    using log_blk_home(1) [OF ok, of i k] that Suc.prems by simp
  then have "lh_block s k \<notin> fst ` set (log_copies s ?f k)" unfolding log_copies_fst by (metis imageE lessThan_iff)
  then have "bcontents (blocks_of t) (lh_block s k) = ?f (lh_block s k)" by (simp add: t(4) puts_fields upds_other)
  then have "blocks_of u = puts (log_copies s ?f (Suc k)) (blocks_of s)"
    using u(4) t(4) by (simp add: puts_simps)
  then show ?case using t u cache_frame_trans [OF t(3) u(3)] by (auto simp: kfor_append)
qed

lemma write_log_ok:
  assumes "cache_idle p s" "log_ok s"
    and "\<And>i. i < nat (lh_n s) \<Longrightarrow> brefs (blocks_of s) (lh_block s i) \<noteq> 0"
    and "card (in_use (blocks_of s)) < NBUF"
  shows "\<exists>t. write_log s = Ret () t \<and> cache_idle p t \<and> cache_frame s t \<and>
     blocks_of t = puts (log_copies s (bcontents (blocks_of s)) (nat (lh_n s))) (blocks_of s)"
  unfolding write_log_def by (rule write_log_prefix [OF assms(1,2) order_refl assms(3,4)])

lemma write_head_ok:
  assumes idle: "cache_idle p s" and dev: "lg_dev s = ROOTDEV" "lh_n s \<le> LOGBLOCKS"
    and room: "card (in_use (blocks_of s)) < NBUF"
  shows "\<exists>t. write_head s = Ret () t \<and> cache_idle p t \<and> cache_frame s t \<and>
     blocks_of t = puts [(lg_start s, put_head (lh_n s) (lh_block s) (bcontents (blocks_of s) (lg_start s)))] (blocks_of s)"
proof -
  let ?b = "lg_start s"
  let ?d = "put_head (lh_n s) (lh_block s) (bcontents (blocks_of s) ?b)"
  have inv: "bio_inv p s" and sz: "sized (bcontents (blocks_of s) ?b)" using idle by (simp_all add: cache_idle_def)
  have rb: "readable (blocks_of s) ?b" using idle_readable [OF idle] room by blast
  obtain i t u v where st: "bread ROOTDEV ?b s = Ret i t" "cache_frame s t" "bdata (bufs t i) = bcontents (blocks_of s) ?b"
    "bwrite i (put_data i ?d t) = Ret () u" "brelse i u = Ret () v" "bio_inv p v" "cache_frame s v"
    "blocks_of v = a_put ?b ?d (blocks_of s)"
    using bc.update_block [OF inv rb, of ?d] by blast
  have "write_head s = Ret () v"
    using st dev cache_frame_log [OF st(2)] by (simp add: write_head_def)
  moreover have "sized ?d"
    using sz dev(2) by (auto simp: sized_def put_head_beyond LOGBLOCKS_def MAXOPBLOCKS_def BSIZE_def)
  then have "cache_idle p v" by (rule idle_put [OF idle st(6,8)])
  ultimately show ?thesis using st by (auto simp: puts_def)
qed

text \<open>Installing one block: its log copy goes home, and a pin is dropped unless recovering.\<close>

definition unpins :: "uint32 set \<Rightarrow> blocks \<Rightarrow> blocks" where
  "unpins X a = a\<lparr>brefs := (\<lambda>b. if b \<in> X then brefs a b - 1 else brefs a b)\<rparr>"

lemma unpins_simps: "unpins {} a = a" "unpins {c} a = a_unpin c a"
  by (auto simp: unpins_def a_unpin_def intro!: blocks.equality)

lemma install_one_ok:
  assumes idle: "cache_idle p s" and ok: "log_ok s" and i: "i < nat (lh_n s)"
    and pin: "\<not> r \<Longrightarrow> brefs (blocks_of s) (lh_block s i) \<noteq> 0"
    and room: "card (in_use (blocks_of s)) + (if r then 1 else 0) < NBUF"
  shows "\<exists>t. install_one r i s = Ret () t \<and> cache_idle p t \<and> cache_frame s t \<and>
     blocks_of t = unpins (if r then {} else {lh_block s i})
       (a_put (lh_block s i) (bcontents (blocks_of s) (log_blk s i)) (blocks_of s))"
proof -
  let ?a = "log_blk s i" and ?c = "lh_block s i"
  let ?d = "bcontents (blocks_of s) ?a"
  have inv: "bio_inv p s" and sz: "sized ?d" "sized (bcontents (blocks_of s) ?c)" using idle by (simp_all add: cache_idle_def)
  have ne: "?a \<noteq> ?c" using log_blk_home [OF ok i i] by simp
  have ra: "readable (blocks_of s) ?a" using idle_readable [OF idle] room by (auto split: if_splits)
  have rc: "readable (a_read ?a (blocks_of s)) ?c"
  proof (rule idle_readable2 [OF idle ne])
    have "card (insert ?a (in_use (blocks_of s))) \<le> Suc (card (in_use (blocks_of s)))" by (rule card_insert_le_m1) simp_all
    then show "brefs (blocks_of s) ?c \<noteq> 0 \<or> card (insert ?a (in_use (blocks_of s))) < NBUF"
      using pin room by (cases r) auto
  qed
  obtain x t y u w v z q where st: "bread ROOTDEV ?a s = Ret x t" "cache_frame s t" "bread ROOTDEV ?c t = Ret y u"
    "bdata (bufs u x) = ?d" "bdata (bufs u y) = bcontents (blocks_of s) ?c"
    "bwrite y (put_data y ?d u) = Ret () w" "(if \<not> r then bunpin y w else Ret () w) = Ret () v"
    "brelse x v = Ret () z" "brelse y z = Ret () q" "bio_inv p q" "cache_frame s q"
    "blocks_of q = (if \<not> r then a_unpin ?c (a_put ?c ?d (blocks_of s)) else a_put ?c ?d (blocks_of s))"
    using bc.install_block [OF inv ra rc ne, of "\<not> r" ?d] pin by blast
  have "lg_dev s = ROOTDEV" using ok by (simp add: log_ok_def)
  then have "install_one r i s = Ret () q"
    using st cache_frame_log [OF st(2)] copy_sized [OF sz(2,1)]
    by (simp add: install_one_def log_blk_def)
  moreover have b: "blocks_of q = unpins (if r then {} else {?c}) (a_put ?c ?d (blocks_of s))"
    using st(12) by (simp add: unpins_simps)
  moreover have "cache_idle p q"
  proof -
    have "brefs (blocks_of q) c < 0x7fffffff" for c
    proof -
      have "brefs (blocks_of s) c < 0x7fffffff" for c using idle by (simp add: cache_idle_def)
      moreover have "n - 1 < 0x7fffffff" if "n < 0x7fffffff" "n \<noteq> 0" for n :: uint32
        using that by (simp add: word_less_nat_alt unat_arith_simps)
      ultimately show ?thesis using pin by (auto simp: b unpins_def)
    qed
    then show ?thesis using idle st(10) sz by (simp add: cache_idle_def) (simp add: b unpins_def)
  qed
  ultimately show ?thesis using st(11) by blast
qed

lemma unpins_put:
  "c \<notin> X \<Longrightarrow> unpins {c} (a_put c d (unpins X a)) = unpins (insert c X) (a_put c d a)"
  by (auto simp: unpins_def a_put_def fun_eq_iff intro!: blocks.equality)

lemma unpins_fields [simp]:
  "bcontents (unpins X a) = bcontents a" "bdisk (unpins X a) = bdisk a" "bwrites (unpins X a) = bwrites a"
  "blocked (unpins X a) = blocked a" "b \<notin> X \<Longrightarrow> brefs (unpins X a) b = brefs a b"
  by (simp_all add: unpins_def)

lemma unpins_in_use: "X \<subseteq> in_use a \<Longrightarrow> in_use (unpins X a) \<subseteq> in_use a"
  by (auto simp: in_use_def unpins_def)

lemma install_prefix:
  assumes idle: "cache_idle p s" and ok: "log_ok s" and k: "k \<le> nat (lh_n s)"
    and pin: "\<And>i. \<not> r \<Longrightarrow> i < nat (lh_n s) \<Longrightarrow> brefs (blocks_of s) (lh_block s i) \<noteq> 0"
    and room: "card (in_use (blocks_of s)) + (if r then 1 else 0) < NBUF"
  shows "\<exists>t. kfor (install_one r) [0..<k] s = Ret () t \<and> cache_idle p t \<and> cache_frame s t \<and>
     blocks_of t = unpins (if r then {} else lh_block s ` {..<k})
       (puts (home_copies s (bcontents (blocks_of s)) k) (blocks_of s))"
  using k
proof (induction k)
  case 0
  then show ?case using idle by (simp add: puts_simps unpins_simps)
next
  case (Suc k)
  let ?f = "bcontents (blocks_of s)" and ?X = "if r then {} else lh_block s ` {..<k}"
  obtain t where t: "kfor (install_one r) [0..<k] s = Ret () t" "cache_idle p t" "cache_frame s t"
    "blocks_of t = unpins ?X (puts (home_copies s ?f k) (blocks_of s))" using Suc by auto
  note fr = cache_frame_log [OF t(3)] log_ok_frame [OF t(3)]
  have inj: "inj_on (lh_block s) {..<nat (lh_n s)}" using ok by (simp add: log_ok_def)
  have new: "lh_block s k \<notin> lh_block s ` {..<k}"
    using inj_onD [OF inj, of k] Suc.prems by fastforce
  then have nX: "lh_block s k \<notin> ?X" by simp
  have "?X \<subseteq> in_use (puts (home_copies s ?f k) (blocks_of s))"
    using pin Suc.prems by (auto simp: in_use_def puts_fields)
  then have "in_use (blocks_of t) \<subseteq> in_use (puts (home_copies s ?f k) (blocks_of s))"
    unfolding t(4) by (rule unpins_in_use)
  then have "in_use (blocks_of t) \<subseteq> in_use (blocks_of s)" by (simp add: puts_fields in_use_def)
  then have card: "card (in_use (blocks_of t)) \<le> card (in_use (blocks_of s))" by (simp add: card_mono)
  have refs: "brefs (blocks_of t) (lh_block s k) = brefs (blocks_of s) (lh_block s k)"
    using nX by (simp add: t(4) puts_fields)
  have "\<exists>u. install_one r k t = Ret () u \<and> cache_idle p u \<and> cache_frame t u \<and>
     blocks_of u = unpins (if r then {} else {lh_block t k})
       (a_put (lh_block t k) (bcontents (blocks_of t) (log_blk t k)) (blocks_of t))"
    by (rule install_one_ok [OF t(2)]) (use Suc.prems ok pin [of k] room card refs in \<open>auto simp: fr split: if_splits\<close>)
  then obtain u where u: "install_one r k t = Ret () u" "cache_idle p u" "cache_frame t u"
    "blocks_of u = unpins (if r then {} else {lh_block s k})
       (a_put (lh_block s k) (bcontents (blocks_of t) (log_blk s k)) (blocks_of t))" by (auto simp: fr)
  have "log_blk s k \<noteq> lh_block s i" if "i < k" for i
    using log_blk_home(1) [OF ok, of k i] that Suc.prems by simp
  then have "log_blk s k \<notin> fst ` set (home_copies s ?f k)" unfolding log_copies_fst by (metis imageE lessThan_iff)
  then have "bcontents (blocks_of t) (log_blk s k) = ?f (log_blk s k)" by (simp add: t(4) puts_fields upds_other)
  moreover have "insert (lh_block s k) (lh_block s ` {..<k}) = lh_block s ` {..<Suc k}" by (simp add: lessThan_Suc)
  ultimately have "blocks_of u = unpins (if r then {} else lh_block s ` {..<Suc k})
      (puts (home_copies s ?f (Suc k)) (blocks_of s))"
    using u(4) t(4) new unpins_put [OF new] by (cases r) (simp_all add: puts_simps unpins_simps)
  then show ?case using t u cache_frame_trans [OF t(3) u(3)] by (auto simp: kfor_append)
qed

text \<open>
  What \<^verbatim>\<open>commit\<close> writes, in order: the copies in the log, the header that commits, the
  blocks at home, and the empty header.
\<close>

definition home_list :: "'z logst_scheme \<Rightarrow> nat \<Rightarrow> (uint32 \<times> bytes) list" where
  "home_list s n = map (\<lambda>i. (lh_block s i, bcontents (blocks_of s) (lh_block s i))) [0..<n]"

definition commit_head :: "'z logst_scheme \<Rightarrow> bytes" where
  "commit_head s = put_head (lh_n s) (lh_block s) (bcontents (blocks_of s) (lg_start s))"

definition commit_writes :: "'z logst_scheme \<Rightarrow> (uint32 \<times> bytes) list" where
  "commit_writes s =
     log_copies s (bcontents (blocks_of s)) (nat (lh_n s)) @ [(lg_start s, commit_head s)] @
     home_list s (nat (lh_n s)) @ [(lg_start s, put_head 0 (lh_block s) (commit_head s))]"

lemma home_copies_eq:
  assumes "\<And>i. i < n \<Longrightarrow> f (log_blk s i) = bcontents (blocks_of s) (lh_block s i)"
  shows "home_copies s f n = home_list s n"
  using assms by (simp add: home_copies_def home_list_def)

lemma log_copies_at:
  assumes "log_ok s" "i < nat (lh_n s)"
  shows "upds (log_copies s f (nat (lh_n s))) g (log_blk s i) = f (lh_block s i)"
  unfolding log_copies_def
proof (rule upds_map)
  have "{..<nat (lh_n s)} \<subseteq> {..<nat LOGBLOCKS}" using assms(1) by (auto simp: log_ok_def)
  then show "inj_on (log_blk s) {..<nat (lh_n s)}" by (rule inj_on_subset [OF log_blk_inj])
qed (rule assms(2))

lemma start_not_copy:
  assumes "log_ok s" "k \<le> nat (lh_n s)"
  shows "lg_start s \<notin> fst ` set (log_copies s f k)" "lg_start s \<notin> fst ` set (home_copies s f k)"
    "lg_start s \<notin> fst ` set (home_list s k)" "i < nat (lh_n s) \<Longrightarrow> log_blk s i \<notin> fst ` set (home_list s k)"
proof -
  have h: "fst ` set (home_list s k) = lh_block s ` {..<k}" by (force simp: home_list_def)
  have "lg_start s \<noteq> log_blk s i" "lg_start s \<noteq> lh_block s i" if "i < k" for i
    using log_blk_home [OF assms(1), of i i] that assms(2) by auto
  then show "lg_start s \<notin> fst ` set (log_copies s f k)" "lg_start s \<notin> fst ` set (home_copies s f k)"
    "lg_start s \<notin> fst ` set (home_list s k)"
    unfolding log_copies_fst h by (metis imageE lessThan_iff)+
  have "log_blk s i \<noteq> lh_block s j" if "i < nat (lh_n s)" "j < k" for j
    using log_blk_home(1) [OF assms(1) that(1), of j] that(2) assms(2) by simp
  then show "i < nat (lh_n s) \<Longrightarrow> log_blk s i \<notin> fst ` set (home_list s k)"
    unfolding h by (metis imageE lessThan_iff)
qed

lemma puts_append:
  "puts [] a = a" "puts (ws @ vs) a = puts vs (puts ws a)" "puts (w # ws) a = puts ws (a_put (fst w) (snd w) a)"
  by (simp_all add: puts_def split_def)

lemma puts_unpins: "puts ws (unpins X a) = unpins X (puts ws a)"
  by (auto simp: puts_fields unpins_def fun_eq_iff intro!: blocks.equality)

lemma commit_ok:
  assumes idle: "cache_idle p s" and ok: "log_ok s" and n: "0 < lh_n s"
    and pin: "\<And>i. i < nat (lh_n s) \<Longrightarrow> brefs (blocks_of s) (lh_block s i) \<noteq> 0"
    and room: "card (in_use (blocks_of s)) < NBUF"
  shows "\<exists>t. commit s = Ret () t \<and> cache_idle p t \<and> (\<exists>u. cache_frame s u \<and> t = u\<lparr>lh_n := 0\<rparr>) \<and>
     blocks_of t = unpins (lh_block s ` {..<nat (lh_n s)}) (puts (commit_writes s) (blocks_of s))"
proof -
  let ?a = "blocks_of s" and ?n = "nat (lh_n s)"
  let ?f = "bcontents ?a"
  let ?wl = "log_copies s ?f ?n"
  have dev: "lg_dev s = ROOTDEV" "lh_n s \<le> LOGBLOCKS" using ok by (simp_all add: log_ok_def)
  obtain t where t: "write_log s = Ret () t" "cache_idle p t" "cache_frame s t" "blocks_of t = puts ?wl ?a"
    using write_log_ok [OF idle ok pin room] by blast
  note ft = cache_frame_log [OF t(3)] log_ok_frame [OF t(3)]
  have iu: "in_use (puts ws b) = in_use b" for ws b by (simp add: puts_fields in_use_def)
  have "bcontents (blocks_of t) (lg_start s) = ?f (lg_start s)"
    using start_not_copy(1) [OF ok order_refl] by (simp add: t(4) puts_fields upds_other)
  then obtain u where u: "write_head t = Ret () u" "cache_idle p u" "cache_frame t u"
    "blocks_of u = puts [(lg_start s, commit_head s)] (blocks_of t)"
    using write_head_ok [OF t(2)] dev room by (auto simp: ft t(4) iu commit_head_def)
  have fsu: "cache_frame s u" by (rule cache_frame_trans [OF t(3) u(3)])
  note fu = cache_frame_log [OF fsu] log_ok_frame [OF fsu]
  have au: "blocks_of u = puts (?wl @ [(lg_start s, commit_head s)]) ?a" by (simp add: u(4) t(4) puts_append)
  have "\<exists>v. install_trans False u = Ret () v \<and> cache_idle p v \<and> cache_frame u v \<and>
      blocks_of v = unpins (lh_block u ` {..<?n}) (puts (home_copies u (bcontents (blocks_of u)) ?n) (blocks_of u))"
    unfolding install_trans_def fu(3)
    using install_prefix [OF u(2), of ?n False] ok pin room by (simp add: fu au iu) (simp add: puts_fields)
  then obtain v where v: "install_trans False u = Ret () v" "cache_idle p v" "cache_frame u v"
    "blocks_of v = unpins (lh_block s ` {..<?n}) (puts (home_copies u (bcontents (blocks_of u)) ?n) (blocks_of u))"
    by (auto simp: fu)
  have "home_copies u (bcontents (blocks_of u)) ?n = home_copies s (bcontents (blocks_of u)) ?n"
    by (simp add: home_copies_def fu)
  also have "\<dots> = home_list s ?n"
    by (rule home_copies_eq)
      (use log_blk_home(3) [OF ok] log_copies_at [OF ok] in \<open>simp add: au puts_fields\<close>)
  finally have av: "blocks_of v = unpins (lh_block s ` {..<?n})
      (puts (?wl @ [(lg_start s, commit_head s)] @ home_list s ?n) ?a)"
    by (simp add: v(4) au puts_append)
  have fsv: "cache_frame s v" by (rule cache_frame_trans [OF fsu v(3)])
  note fv = cache_frame_log [OF fsv] log_ok_frame [OF fsv]
  let ?v = "v\<lparr>lh_n := 0\<rparr>"
  have idv: "cache_idle p ?v" using v(2) by (simp add: cache_idle_def)
  have "lh_block s ` {..<?n} \<subseteq> in_use ?a" using pin by (auto simp: in_use_def)
  then have "in_use (blocks_of ?v) \<subseteq> in_use ?a" using unpins_in_use [of _ "puts _ ?a"] by (simp add: av iu)
  then have "card (in_use (blocks_of ?v)) < NBUF" using room card_mono [OF finite_in_use] le_less_trans by blast
  moreover have "bcontents (blocks_of ?v) (lg_start s) = commit_head s"
    using start_not_copy(3) [OF ok order_refl] by (simp add: av puts_fields upds_other)
  ultimately obtain w where w: "write_head ?v = Ret () w" "cache_idle p w" "cache_frame ?v w"
    "blocks_of w = puts [(lg_start s, put_head 0 (lh_block s) (commit_head s))] (blocks_of v)"
    using write_head_ok [OF idv] dev by (auto simp: fv LOGBLOCKS_def MAXOPBLOCKS_def)
  have "commit s = Ret () w" using n t(1) u(1) v(1) w(1) by (simp add: commit_def)
  moreover have "blocks_of w = unpins (lh_block s ` {..<?n}) (puts (commit_writes s) ?a)"
    by (simp add: w(4) av puts_unpins puts_append commit_writes_def)
  moreover have "\<exists>u. cache_frame s u \<and> w = u\<lparr>lh_n := 0\<rparr>"
  proof -
    obtain L B D T where "w = v\<lparr>lh_n := 0\<rparr>\<lparr>sleeplk := L, bufs := B, disk := D, dtrace := T\<rparr>"
      using w(3) by (auto simp: cache_frame_def)
    then have "w = v\<lparr>sleeplk := L, bufs := B, disk := D, dtrace := T\<rparr>\<lparr>lh_n := 0\<rparr>" by simp
    moreover have "cache_frame v (v\<lparr>sleeplk := L, bufs := B, disk := D, dtrace := T\<rparr>)"
      unfolding cache_frame_def by blast
    ultimately show ?thesis using cache_frame_trans [OF fsv] by blast
  qed
  ultimately show ?thesis using w(2) by blast
qed

section \<open>Recovery\<close>

lemma fold_upd_upt: "fold (\<lambda>i f. f(i := g i)) [0..<n] f = (\<lambda>i. if i < n then g i else f i)"
  by (induction n) (auto simp: fun_eq_iff)

lemma held_logst [simp]: "held (lh_n_update f s) i b = held s i b" "held (lh_block_update g s) i b = held s i b"
  by (simp_all add: held_def holds_def buf_locked_def)

lemma read_head_ok:
  assumes idle: "cache_idle p s" and dev: "lg_dev s = ROOTDEV" and room: "card (in_use (blocks_of s)) < NBUF"
    and n: "head_n (bcontents (blocks_of s) (lg_start s)) \<le> LOGBLOCKS"
  shows "\<exists>t. read_head s = Ret () t \<and> cache_idle p t \<and> blocks_of t = blocks_of s \<and>
     lg_start t = lg_start s \<and> lg_dev t = lg_dev s \<and> lh_n t = head_n (bcontents (blocks_of s) (lg_start s)) \<and>
     (\<forall>i < nat (lh_n t). lh_block t i = head_block (bcontents (blocks_of s) (lg_start s)) i) \<and>
     lg_outstanding t = lg_outstanding s \<and> lg_committing t = lg_committing s"
proof -
  let ?b = "lg_start s"
  let ?h = "bcontents (blocks_of s) ?b"
  have inv: "bio_inv p s" using idle by (simp add: cache_idle_def)
  have rb: "readable (blocks_of s) ?b" using idle_readable [OF idle] room by blast
  obtain i t where t: "bread ROOTDEV ?b s = Ret i t" "bio_inv p t" "cache_frame s t"
    "blocks_of t = a_read ?b (blocks_of s)" "held t i ?b" using bc.read_ok [OF inv rb] by blast
  have d: "bdata (bufs t i) = ?h" using bc.dat_hold [OF t(2,5)] t(4) by (simp add: a_read_def)
  let ?t = "t\<lparr>lh_n := head_n ?h, lh_block := (\<lambda>i. if i < nat (head_n ?h) then head_block ?h i else lh_block t i)\<rparr>"
  have "\<exists>u. brelse i ?t = Ret () u \<and> bio_inv p u \<and> cache_frame ?t u \<and> blocks_of u = a_release ?b (blocks_of ?t) \<and>
      (\<forall>j c. c \<noteq> ?b \<longrightarrow> held ?t j c \<longrightarrow> held u j c)"
    by (rule bc.release_ok)
      (use t(2,5) bc.clean [OF inv, of ?b] in \<open>auto simp: t(4) a_read_def\<close>)
  then obtain u where u: "brelse i ?t = Ret () u" "bio_inv p u" "cache_frame ?t u"
    "blocks_of u = a_release ?b (blocks_of ?t)" by blast
  have "read_head s = Ret () u"
    using t(1) dev d n u(1) by (simp add: read_head_def fold_upd_upt Let_def)
  moreover have b: "blocks_of u = blocks_of s"
    using u(4) t(4) rb by (simp add: a_release_def a_read_def readable_def)
  moreover have "cache_idle p u" using idle u(2) b by (simp add: cache_idle_def)
  ultimately show ?thesis
    using cache_frame_log [OF u(3)] cache_frame_log [OF t(3)] by auto
qed

text \<open>A machine that has just started: nothing is cached that differs from the disk.\<close>

definition fresh :: "nat \<Rightarrow> 'z bcache_scheme \<Rightarrow> bool" where
  "fresh p s = (cache_idle p s \<and> in_use (blocks_of s) = {})"

lemma fresh_view: "fresh p s \<Longrightarrow> bcontents (blocks_of s) = bdisk (blocks_of s)"
  by (rule ext) (auto simp: fresh_def cache_idle_def in_use_def intro: blocks_clean)

text \<open>
  The list of blocks a header describes, and what recovery writes for it.
\<close>

definition head_ok :: "uint32 \<Rightarrow> bytes \<Rightarrow> bool" where
  "head_ok start h = (0 \<le> head_n h \<and> head_n h \<le> LOGBLOCKS \<and> inj_on (head_block h) {..<nat (head_n h)} \<and>
     head_block h ` {..<nat (head_n h)} \<inter> insert start ((\<lambda>i. start + of_nat i + 1) ` {..<nat LOGBLOCKS}) = {})"

definition redo :: "uint32 \<Rightarrow> (uint32 \<Rightarrow> bytes) \<Rightarrow> (uint32 \<times> bytes) list" where
  "redo start D = map (\<lambda>i. (head_block (D start) i, D (start + of_nat i + 1))) [0..<nat (head_n (D start))]"

lemma recover_ok:
  assumes fresh: "fresh p s" and dev: "lg_dev s = ROOTDEV" and h: "head_ok (lg_start s) (disk s (lg_start s))"
  shows "\<exists>t blk. recover_from_log s = Ret () t \<and> fresh p t \<and> lh_n t = 0 \<and> lg_start t = lg_start s \<and> lg_dev t = lg_dev s \<and>
     disk t = upds (redo (lg_start s) (disk s) @ [(lg_start s, put_head 0 blk (disk s (lg_start s)))]) (disk s)"
proof -
  let ?D = "disk s" and ?b = "lg_start s"
  have idle: "cache_idle p s" and iu: "in_use (blocks_of s) = {}" using fresh by (simp_all add: fresh_def)
  have vw: "bcontents (blocks_of s) = ?D" using fresh_view [OF fresh] by (simp add: blocks_of_def)
  obtain t where t: "read_head s = Ret () t" "cache_idle p t" "blocks_of t = blocks_of s" "lg_start t = ?b"
    "lg_dev t = lg_dev s" "lh_n t = head_n (?D ?b)" "\<And>i. i < nat (lh_n t) \<Longrightarrow> lh_block t i = head_block (?D ?b) i"
    using read_head_ok [OF idle dev] h iu by (auto simp: vw head_ok_def NBUF_def)
  have blk: "log_blk t = (\<lambda>i. ?b + of_nat i + 1)" by (rule ext) (simp add: log_blk_def t(4))
  have img: "lh_block t ` {..<nat (lh_n t)} = head_block (?D ?b) ` {..<nat (head_n (?D ?b))}"
    using t(6,7) by (auto simp: image_iff)
  have "inj_on (lh_block t) {..<nat (lh_n t)}"
    using h t(6,7) by (auto simp: head_ok_def inj_on_def)
  then have ok: "log_ok t"
    using h dev t(4-6) img by (simp add: log_ok_def head_ok_def log_area_def blk)
  have "\<exists>u. install_trans True t = Ret () u \<and> cache_idle p u \<and> cache_frame t u \<and>
      blocks_of u = puts (home_copies t (bcontents (blocks_of t)) (nat (lh_n t))) (blocks_of t)"
    unfolding install_trans_def
    using install_prefix [OF t(2) ok order_refl, of True] iu by (simp add: t(3) unpins_simps NBUF_def)
  then obtain u where u: "install_trans True t = Ret () u" "cache_idle p u" "cache_frame t u"
    "blocks_of u = puts (home_copies t ?D (nat (lh_n t))) (blocks_of s)" by (auto simp: t(3) vw)
  have hc: "home_copies t ?D (nat (lh_n t)) = redo ?b ?D"
    using t(6,7) by (simp add: home_copies_def redo_def blk)
  note fu = cache_frame_log [OF u(3)]
  let ?u = "u\<lparr>lh_n := 0\<rparr>"
  have idu: "cache_idle p ?u" using u(2) by (simp add: cache_idle_def)
  have iuu: "in_use (blocks_of u) = {}" using iu by (simp add: u(4) puts_fields in_use_def)
  have "bcontents (blocks_of u) ?b = ?D ?b"
    using start_not_copy(2) [OF ok order_refl] by (simp add: u(4) puts_fields upds_other t(4) vw)
  then obtain w where w: "write_head ?u = Ret () w" "cache_idle p w" "cache_frame ?u w"
    "blocks_of w = puts [(?b, put_head 0 (lh_block u) (?D ?b))] (blocks_of u)"
    using write_head_ok [OF idu] dev iuu by (auto simp: fu t LOGBLOCKS_def MAXOPBLOCKS_def NBUF_def)
  have "recover_from_log s = Ret () w" using t(1) u(1) w(1) by (simp add: recover_from_log_def)
  moreover have "fresh p w" using w(2) iuu by (simp add: fresh_def) (simp add: w(4) puts_fields in_use_def)
  moreover have "disk w = bdisk (blocks_of w)" "bdisk (blocks_of s) = ?D" by (simp_all add: blocks_of_def)
  then have "disk w = upds (redo ?b ?D @ [(?b, put_head 0 (lh_block u) (?D ?b))]) ?D"
    by (simp add: w(4) u(4) puts_fields hc)
  ultimately show ?thesis using cache_frame_log [OF w(3)] fu t by auto
qed

section \<open>Atomicity\<close>

definition home_blocks :: "'z logst_scheme \<Rightarrow> uint32 set" where
  "home_blocks s = lh_block s ` {..<nat (lh_n s)}"

lemma home_list_at:
  assumes "log_ok s"
  shows "upds (home_list s (nat (lh_n s))) f b = (if b \<in> home_blocks s then view s b else f b)"
proof (cases "b \<in> home_blocks s")
  case True
  then obtain i where i: "i < nat (lh_n s)" "b = lh_block s i" by (auto simp: home_blocks_def)
  have "inj_on (lh_block s) {..<nat (lh_n s)}" using assms by (simp add: log_ok_def)
  from upds_map [OF this i(1)] True i(2) show ?thesis by (simp add: home_list_def blocks_of_def)
next
  case False
  then have "b \<notin> fst ` set (home_list s (nat (lh_n s)))" by (force simp: home_list_def home_blocks_def)
  with False show ?thesis by (simp add: upds_other)
qed

lemma log_copies_outside:
  assumes "log_ok s" "b \<notin> log_area s" "k \<le> nat (lh_n s)"
  shows "upds (log_copies s g k) f b = f b"
proof -
  have "log_blk s ` {..<k} \<subseteq> log_area s" using assms by (force simp: log_area_def log_ok_def)
  then show ?thesis using assms(2) log_copies_fst(1) by (intro upds_other) blast
qed

lemma commit_head_reads:
  assumes "log_ok s"
  shows "head_n (commit_head s) = lh_n s" "i < nat (lh_n s) \<Longrightarrow> head_block (commit_head s) i = lh_block s i"
  using assms by (simp_all add: commit_head_def put_head_n put_head_block log_ok_def LOGBLOCKS_def MAXOPBLOCKS_def)

text \<open>The disk after any number of the writes of a commit, as recovery finds it.\<close>

lemma crash_before:
  assumes "log_ok s" "k \<le> nat (lh_n s)"
  shows "upds (take k (commit_writes s)) (disk s) (lg_start s) = disk s (lg_start s)"
    and "b \<notin> log_area s \<Longrightarrow> upds (take k (commit_writes s)) (disk s) b = disk s b"
proof -
  have t: "take k (commit_writes s) = log_copies s (bcontents (blocks_of s)) k"
    using assms(2) by (simp add: commit_writes_def log_copies_def take_map)
  show "upds (take k (commit_writes s)) (disk s) (lg_start s) = disk s (lg_start s)"
    using start_not_copy(1) [OF assms] by (simp add: t upds_other)
  show "b \<notin> log_area s \<Longrightarrow> upds (take k (commit_writes s)) (disk s) b = disk s b"
    using log_copies_outside [OF assms(1) _ assms(2)] by (simp add: t)
qed

lemma crash_during:
  assumes ok: "log_ok s" and k: "nat (lh_n s) < k" "k < length (commit_writes s)"
  defines "E \<equiv> upds (take k (commit_writes s)) (disk s)"
  shows "E (lg_start s) = commit_head s" "i < nat (lh_n s) \<Longrightarrow> E (log_blk s i) = view s (lh_block s i)"
    and "b \<notin> log_area s \<Longrightarrow> b \<notin> home_blocks s \<Longrightarrow> E b = disk s b"
proof -
  let ?n = "nat (lh_n s)"
  obtain m where m: "k = Suc (?n + m)" using k(1) less_iff_Suc_add by auto
  have "length (commit_writes s) = 2 * ?n + 2" by (simp add: commit_writes_def log_copies_def home_list_def)
  then have mn: "m \<le> ?n" using k(2) m by simp
  have t: "take k (commit_writes s) = log_copies s (bcontents (blocks_of s)) ?n @ [(lg_start s, commit_head s)] @ home_list s m"
    using mn by (simp add: commit_writes_def log_copies_def home_list_def m take_map)
  show "E (lg_start s) = commit_head s"
    using start_not_copy(3) [OF ok mn] by (simp add: E_def t upds_other)
  show "i < ?n \<Longrightarrow> E (log_blk s i) = view s (lh_block s i)"
    using start_not_copy(4) [OF ok mn] log_blk_home(3) [OF ok] log_copies_at [OF ok]
    by (simp add: E_def t upds_other) (simp add: blocks_of_def)
  assume b: "b \<notin> log_area s" "b \<notin> home_blocks s"
  have "fst ` set (home_list s m) \<subseteq> home_blocks s" using mn by (auto simp: home_list_def home_blocks_def)
  then have "b \<notin> fst ` set (home_list s m)" using b(2) by blast
  moreover have "b \<noteq> lg_start s" using b(1) by (auto simp: log_area_def)
  ultimately show "E b = disk s b"
    using log_copies_outside [OF ok b(1) order_refl] by (simp add: E_def t upds_other)
qed

lemma crash_after:
  assumes ok: "log_ok s"
  defines "E \<equiv> upds (commit_writes s) (disk s)"
  shows "head_n (E (lg_start s)) = 0"
    and "b \<notin> log_area s \<Longrightarrow> E b = (if b \<in> home_blocks s then view s b else disk s b)"
proof -
  show "head_n (E (lg_start s)) = 0" by (simp add: E_def commit_writes_def put_head_n)
  assume b: "b \<notin> log_area s"
  then have "b \<noteq> lg_start s" by (auto simp: log_area_def)
  then show "E b = (if b \<in> home_blocks s then view s b else disk s b)"
    using log_copies_outside [OF ok b order_refl] by (simp add: E_def commit_writes_def home_list_at [OF ok])
qed

lemma calm_initlock: "calm p s \<Longrightarrow> calm p (initlock lk nm s)"
  by (auto simp: calm_def initlock_def set_lock_def lock_free_def intr_ok_def mach_defs)

lemma initlog_fresh:
  assumes "fresh p s"
  shows "fresh p ((initlock LogLk nm s)\<lparr>lg_start := a, lg_dev := b\<rparr>)"
proof -
  have "blocks_of (initlock LogLk nm s) = blocks_of s"
    by (simp add: blocks_of_def held_def holds_def buf_locked_def view_def initlock_def set_lock_def fun_eq_iff split: option.split)
  moreover have "bio_inv p s \<Longrightarrow> bio_inv p (initlock LogLk nm s)"
    by (auto simp: bio_inv_def calm_initlock) (simp_all add: initlock_def set_lock_def no_waiters_def)
  ultimately show ?thesis using assms by (simp add: fresh_def cache_idle_def)
qed

lemma initlog_recovers:
  assumes fresh: "fresh p r" and h: "head_ok st (disk r st)"
  shows "\<exists>u blk. initlog ROOTDEV st r = Ret () u \<and> fresh p u \<and> lh_n u = 0 \<and>
     disk u = upds (redo st (disk r) @ [(st, put_head 0 blk (disk r st))]) (disk r)"
proof -
  let ?r = "(initlock LogLk ''log'' r)\<lparr>lg_start := st, lg_dev := ROOTDEV\<rparr>"
  have "disk ?r = disk r" by (simp add: initlock_def set_lock_def)
  then obtain u blk where "recover_from_log ?r = Ret () u" "fresh p u" "lh_n u = 0"
    "disk u = upds (redo st (disk r) @ [(st, put_head 0 blk (disk r st))]) (disk r)"
    using recover_ok [OF initlog_fresh [OF fresh, where nm = "''log''" and a = st and b = ROOTDEV]] h by auto
  moreover have "initlog ROOTDEV st r = recover_from_log ?r"
    by (simp add: initlog_def logheader_size_def LOGBLOCKS_def MAXOPBLOCKS_def BSIZE_def)
  ultimately show ?thesis by auto
qed

text \<open>
  Restarting after any number of the writes of a commit: recovery ends, leaves an empty log, and
  the blocks outside the log are those before the transaction if the header had not been
  written, and those after it otherwise.
\<close>

lemma crash_recovery:
  assumes ok: "log_ok s" and h0: "head_n (disk s (lg_start s)) = 0"
    and fresh: "fresh q r" and dr: "disk r = upds (take k (commit_writes s)) (disk s)"
  shows "\<exists>u. initlog ROOTDEV (lg_start s) r = Ret () u \<and> fresh q u \<and> head_n (disk u (lg_start s)) = 0 \<and>
     (\<forall>b. b \<notin> log_area s \<longrightarrow>
        disk u b = (if nat (lh_n s) < k \<and> b \<in> home_blocks s then view s b else disk s b))"
proof -
  let ?st = "lg_start s" and ?n = "nat (lh_n s)"
  let ?goal = "\<lambda>D. head_n (D ?st) = 0 \<and> (\<forall>b. b \<notin> log_area s \<longrightarrow>
        D b = (if ?n < k \<and> b \<in> home_blocks s then view s b else disk s b))"
  have area: "b \<notin> log_area s \<Longrightarrow> b \<noteq> ?st" for b by (auto simp: log_area_def)
  have z: "head_n (put_head 0 blk d) = 0" for blk d by (simp add: put_head_n)
  have "head_ok ?st (disk r ?st) \<and> (\<forall>blk. ?goal (upds (redo ?st (disk r) @ [(?st, put_head 0 blk (disk r ?st))]) (disk r)))"
  proof (cases "?n < k \<and> k < length (commit_writes s)")
    case True
    note du = crash_during [OF ok conjunct1 [OF True] conjunct2 [OF True], folded dr]
    note ch = commit_head_reads [OF ok]
    have img: "head_block (commit_head s) ` {..<?n} = home_blocks s"
      using ch(2) by (auto simp: home_blocks_def image_iff)
    have inj: "inj_on (lh_block s) {..<?n}" using ok by (simp add: log_ok_def)
    have "head_ok ?st (disk r ?st)"
    proof -
      have "inj_on (head_block (commit_head s)) {..<?n}" using inj ch(2) by (auto simp: inj_on_def)
      moreover have "log_blk s = (\<lambda>i. ?st + of_nat i + 1)" by (rule ext) (simp add: log_blk_def)
      ultimately show ?thesis using ok by (simp add: head_ok_def du(1) ch(1) img log_ok_def log_area_def home_blocks_def)
    qed
    moreover have "redo ?st (disk r) = home_list s ?n"
      using du(2) ch(2) by (simp add: redo_def du(1) ch(1) home_list_def log_blk_def blocks_of_def)
    ultimately show ?thesis
      using True area du(3) by (auto simp: home_list_at [OF ok] z)
  next
    case False
    have "head_n (disk r ?st) = 0 \<and> (\<forall>b. b \<notin> log_area s \<longrightarrow>
        disk r b = (if ?n < k \<and> b \<in> home_blocks s then view s b else disk s b))"
    proof (cases "?n < k")
      case True
      then have "take k (commit_writes s) = commit_writes s" using False by simp
      then show ?thesis using True crash_after [OF ok] by (simp add: dr)
    next
      case k: False
      then show ?thesis using crash_before [OF ok, of k] h0 by (simp add: dr)
    qed
    then show ?thesis using area by (auto simp: head_ok_def redo_def z LOGBLOCKS_def MAXOPBLOCKS_def)
  qed
  then show ?thesis using initlog_recovers [OF fresh] by metis
qed

end
