(* ===== verification/LogExample.thy ===== *)
theory LogExample
  imports LogCrash
begin

text \<open>
  A concrete machine for the theorems about the log: one process runs, block 40 is cached with
  contents the disk does not have yet, and it is pinned by a transaction of one block. The
  variant \<open>demo_boot\<close> is the machine after a restart.
\<close>

section \<open>The machine\<close>

definition demo_lproc :: "nat \<Rightarrow> proc" where
  "demo_lproc p = \<lparr>pstate = (if p = 0 then RUNNING else UNUSED), pchan = NoChan, killed_flag = 0,
     xstate = 0, pid = (if p = 0 then 1 else 0), parent = None, kstack = 0, sz = 0,
     pagetable = 0, trapframe = 0, pcontext = \<lparr>ctx_ra = 0, ctx_sp = 0, ctx_s = (\<lambda>_. 0)\<rparr>,
     ofile = (\<lambda>_. None), cwd = None, pname = (\<lambda>_. 0), sched_intena = False\<rparr>"

definition demo_data :: bytes where
  "demo_data = (\<lambda>_. 0)(0 := 7)"

text \<open>The buffers in one ring; the first \<open>n\<close> hold pinned blocks from 40 on.\<close>

definition demo_bufs :: "nat \<Rightarrow> nat \<Rightarrow> buf" where
  "demo_bufs n i = \<lparr>bvalid = i < n, bdev = (if i < n then ROOTDEV else 0), blockno = (if i < n then 40 + of_nat i else 0),
     refcnt = (if i < n then 1 else 0), bprev = (if i = NBUF then 0 else Suc i),
     bnext = (if i = 0 then NBUF else i - 1), bdata = (if i < n then demo_data else (\<lambda>_. 0))\<rparr>"

definition demo_log :: "nat \<Rightarrow> logst" where
  "demo_log n = \<lparr>hart = 0, sie = (\<lambda>_. False), cpus = (\<lambda>_. \<lparr>cproc = Some 0, noff = 0, intena = False\<rparr>),
     locks = (\<lambda>_. \<lparr>locked = False, lname = [], lcpu = None\<rparr>),
     phys = (\<lambda>_. 0), freelist = 0, kend = 0x80021000,
     syms = \<lparr>etext = 0x80008000, trampoline = 0x80007000, uservec = 0x80007000, userret = 0x80007090,
       kernelvec = 0x80005000, forkret_addr = 0x80001000, usertrap_addr = 0x80002000\<rparr>,
     proc = demo_lproc, nextpid = 2, initproc = Some 0, ticks = 7, kernel_pagetable = 0, satp = (\<lambda>_. 0),
     sem_table = (\<lambda>_. \<lparr>sem_count = 0, sem_active = 0, sem_name = (\<lambda>_. 0)\<rparr>),
     sem_event_log = (\<lambda>_. \<lparr>ev_sem_id = 0, ev_pid = 0, ev_ticks = 0, ev_type = 0, ev_pname = (\<lambda>_. 0)\<rparr>),
     sem_event_index = 0,
     sleeplk = (\<lambda>_. \<lparr>sl_locked = False, sl_name = [], sl_pid = 0\<rparr>),
     bufs = demo_bufs n, disk = (\<lambda>_ _. 0), dtrace = [],
     lg_start = 2, lg_outstanding = 0, lg_committing = True, lg_dev = ROOTDEV, lg_ncommit = 0,
     lh_n = int n, lh_block = (\<lambda>i. 40 + of_nat i)\<rparr>"

lemma demo_ring: "ring_of (demo_bufs n) (rev [0..<NBUF])"
  by (simp add: ring_of_def ring_def demo_bufs_def NBUF_def upt_conv_Cons)

lemma demo_calm: "calm 0 (demo_log n)" "no_waiters l (demo_log n)"
  by (auto simp: calm_def demo_log_def lock_free_def intr_ok_def mach_defs no_waiters_def demo_lproc_def)

lemma of_nat_small_eq:
  assumes "i < 30" "j < 30"
  shows "(of_nat i :: uint32) = of_nat j \<longleftrightarrow> i = j"
proof -
  have "unat (of_nat i :: uint32) = i" "unat (of_nat j :: uint32) = j"
    using assms by (simp_all add: unat_of_nat_lt)
  then show ?thesis by metis
qed

lemma demo_bufs_ok:
  assumes "n \<le> NBUF" "\<And>k. \<not> sl_locked (L (BufLk k))"
  shows "bufs_ok (demo_bufs n) D L me"
proof -
  have "\<exists>xs. ring_of (demo_bufs n) xs \<and> set xs = {..<NBUF}"
    using demo_ring by (intro exI [of _ "rev [0..<NBUF]"]) auto
  then show ?thesis
    using assms by (auto simp: bufs_ok_def demo_bufs_def ROOTDEV_def NBUF_def of_nat_small_eq)
qed

lemma demo_inv: "n \<le> NBUF \<Longrightarrow> bio_inv 0 (demo_log n)"
  using demo_calm demo_bufs_ok [of n "sleeplk (demo_log n)" "disk (demo_log n)"]
  by (simp add: bio_inv_def) (simp add: demo_log_def)

lemma demo_cached:
  assumes "n \<le> NBUF"
  shows "cached (demo_bufs n) b = Some i \<longleftrightarrow> i < n \<and> b = 40 + of_nat i"
  using assms cached_iff [OF demo_bufs_ok [OF assms, where D = "\<lambda>_ _. 0" and me = 1 and
    L = "\<lambda>_. \<lparr>sl_locked = False, sl_name = [], sl_pid = 0\<rparr>"], of b i]
  by (auto simp: demo_bufs_def ROOTDEV_def)

lemma demo_blocks:
  assumes "n \<le> NBUF"
  shows "bcontents (blocks_of (demo_log n)) b = (if b \<in> (\<lambda>i. 40 + of_nat i) ` {..<n} then demo_data else (\<lambda>_. 0))"
    and "brefs (blocks_of (demo_log n)) b = (if b \<in> (\<lambda>i. 40 + of_nat i) ` {..<n} then 1 else 0)"
    and "blocked (blocks_of (demo_log n)) = {}"
    and "in_use (blocks_of (demo_log n)) = (\<lambda>i. 40 + of_nat i) ` {..<n}"
proof -
  have c: "cached (demo_bufs n) b = None \<longleftrightarrow> b \<notin> (\<lambda>i. 40 + of_nat i) ` {..<n}" for b
    using demo_cached [OF assms, of b] by (cases "cached (demo_bufs n) b") auto
  have r: "brefs (blocks_of (demo_log n)) b = (if b \<in> (\<lambda>i. 40 + of_nat i) ` {..<n} then 1 else 0)" for b
    using c [of b] demo_cached [OF assms, of b]
    by (cases "cached (demo_bufs n) b") (auto simp: blocks_of_def refs_def demo_log_def demo_bufs_def)
  then show "brefs (blocks_of (demo_log n)) b = (if b \<in> (\<lambda>i. 40 + of_nat i) ` {..<n} then 1 else 0)" .
  show "in_use (blocks_of (demo_log n)) = (\<lambda>i. 40 + of_nat i) ` {..<n}"
    using r by (auto simp: in_use_def split: if_splits)
  show "bcontents (blocks_of (demo_log n)) b = (if b \<in> (\<lambda>i. 40 + of_nat i) ` {..<n} then demo_data else (\<lambda>_. 0))"
    using c [of b] demo_cached [OF assms, of b]
    by (cases "cached (demo_bufs n) b") (auto simp: blocks_of_def view_def demo_log_def demo_bufs_def)
  show "blocked (blocks_of (demo_log n)) = {}"
    by (auto simp: blocks_of_def held_def buf_locked_def demo_log_def)
qed

lemma demo_idle: "n \<le> NBUF \<Longrightarrow> cache_idle 0 (demo_log n)"
  by (auto simp: cache_idle_def demo_inv demo_blocks sized_def demo_data_def BSIZE_def)

lemma demo_card:
  assumes "n \<le> NBUF"
  shows "card (in_use (blocks_of (demo_log n))) = n"
proof -
  have "inj_on (\<lambda>i. 40 + of_nat i :: uint32) {..<n}"
    using assms of_nat_small_eq by (auto simp: inj_on_def NBUF_def)
  then show ?thesis using assms by (simp add: demo_blocks card_image)
qed

lemma demo_area:
  assumes "n \<le> NBUF"
  shows "(\<lambda>i. 40 + of_nat i) ` {..<n} \<inter> log_area (demo_log m) = {}"
proof -
  have "unat b < 40" if "b \<in> log_area (demo_log m)" for b
    using that by (auto simp: log_area_def log_blk_def demo_log_def LOGBLOCKS_def MAXOPBLOCKS_def unat_word_ariths unat_of_nat)
  moreover have "40 \<le> unat (40 + of_nat i :: uint32)" if "i < n" for i
    using that assms by (simp add: NBUF_def unat_word_ariths unat_of_nat)
  ultimately show ?thesis by fastforce
qed

lemma demo_log_ok:
  assumes "n \<le> NBUF"
  shows "log_ok (demo_log n)"
proof -
  have "inj_on (lh_block (demo_log n)) {..<n}"
    using assms of_nat_small_eq by (auto simp: inj_on_def NBUF_def demo_log_def)
  moreover have "lh_block (demo_log n) ` {..<n} = (\<lambda>i. 40 + of_nat i) ` {..<n}" by (simp add: demo_log_def)
  ultimately show ?thesis
    using assms demo_area [OF assms, of n] by (simp add: log_ok_def) (simp add: demo_log_def LOGBLOCKS_def MAXOPBLOCKS_def NBUF_def)
qed

section \<open>The machine after a restart\<close>

definition demo_boot :: "(uint32 \<Rightarrow> bytes) \<Rightarrow> logst" where
  "demo_boot D = (demo_log 0)\<lparr>disk := D\<rparr>"

lemma demo_fresh:
  assumes "\<And>b. sized (D b)"
  shows "fresh 0 (demo_boot D)"
proof -
  have ok: "bufs_ok (demo_bufs 0) D L 1" if "\<And>k. \<not> sl_locked (L (BufLk k))" for L
    using demo_bufs_ok [of 0] that by simp
  have "bio_inv 0 (demo_boot D)"
    using demo_calm ok [of "sleeplk (demo_log 0)"]
    by (simp add: bio_inv_def demo_boot_def) (simp add: demo_log_def demo_lproc_def)
  moreover have none: "cached (demo_bufs 0) b = None" for b using demo_cached [of 0 b] by (cases "cached (demo_bufs 0) b") auto
  moreover have "bufs (demo_boot D) = demo_bufs 0" "disk (demo_boot D) = D" by (simp_all add: demo_boot_def demo_log_def)
  moreover have "blocked (blocks_of (demo_boot D)) = {}"
    by (auto simp: blocks_of_def held_def buf_locked_def demo_boot_def demo_log_def)
  ultimately show ?thesis
    using assms by (simp add: fresh_def cache_idle_def) (simp add: blocks_of_def in_use_def refs_def view_def)
qed

end
