(* ===== verification/LogTheorems.thy ===== *)
theory LogTheorems
  imports LogExample
begin

text \<open>
  The theorems about the log: recording a block in a transaction, committing,
  and recovering after a crash at any point of a commit.
\<close>

section \<open>Recording a block\<close>

lemma sched_not_Ret: "sched s \<noteq> Ret x t"
  by (auto simp: sched_def kbind_eq_Ret split: if_splits)

lemma sleep_not_Ret: "sleep ch lk s \<noteq> Ret x t"
  by (auto simp: sleep_def kbind_eq_Ret Let_def sched_not_Ret)

lemma log_section:
  assumes "calm p s"
  shows "acquire LogLk s = Ret () (acq LogLk s)"
    and "release LogLk ((acq LogLk s)\<lparr>lh_block := X\<rparr>) = Ret () (s\<lparr>lh_block := X\<rparr>)"
    and "release LogLk ((acq LogLk s)\<lparr>lh_block := X, bufs := B, lh_n := m\<rparr>) = Ret () (s\<lparr>bufs := B, lh_block := X, lh_n := m\<rparr>)"
    and "release LogLk ((acq LogLk s)\<lparr>lg_outstanding := k\<rparr>) = Ret () (s\<lparr>lg_outstanding := k\<rparr>)"
proof -
  show "acquire LogLk s = Ret () (acq LogLk s)" using assms by (simp add: acquire_free calmD)
  show "release LogLk ((acq LogLk s)\<lparr>lh_block := X\<rparr>) = Ret () (s\<lparr>lh_block := X\<rparr>)"
    "release LogLk ((acq LogLk s)\<lparr>lh_block := X, bufs := B, lh_n := m\<rparr>) = Ret () (s\<lparr>bufs := B, lh_block := X, lh_n := m\<rparr>)"
    "release LogLk ((acq LogLk s)\<lparr>lg_outstanding := k\<rparr>) = Ret () (s\<lparr>lg_outstanding := k\<rparr>)"
    by (subst release_after [of s]; auto simp: calmD [OF assms] acq_explicit)+
qed

lemma log_acq [simp]:
  "lh_n (acq lk s) = lh_n s" "lh_block (acq lk s) = lh_block s" "lg_outstanding (acq lk s) = lg_outstanding s"
  "lg_committing (acq lk s) = lg_committing s" "lg_start (acq lk s) = lg_start s" "lg_dev (acq lk s) = lg_dev s"
  by (simp_all add: acq_explicit)

lemma bpin_in_log_section:
  assumes "calm p s"
  shows "bpin i ((acq LogLk s)\<lparr>lh_block := X\<rparr>) =
     Ret () ((acq LogLk s)\<lparr>lh_block := X, bufs := recount i (refcnt (bufs s i) + 1) (bufs s)\<rparr>)"
proof -
  let ?s = "(acq LogLk s)\<lparr>lh_block := X\<rparr>"
  have f: "lock_free ?s BcacheLk" "intr_ok ?s"
    using assms by (auto simp: lock_free_acq calmD intr_ok_acq)
  have "release BcacheLk ((acq BcacheLk ?s)\<lparr>bufs := B\<rparr>) = Ret () (?s\<lparr>bufs := B\<rparr>)" for B
    by (subst release_after [of ?s]) (use f in \<open>auto simp: acq_explicit\<close>)
  then show ?thesis using f by (simp add: bpin_def acquire_free set_buf_def recount_def)
qed

lemma log_slot_cases:
  "log_slot b s < nat (lh_n s) \<Longrightarrow> lh_block s (log_slot b s) = b"
  "log_slot b s = nat (lh_n s) \<longleftrightarrow> b \<notin> home_blocks s"
  "log_slot b s \<le> nat (lh_n s)"
proof -
  have "(log_slot b s < nat (lh_n s) \<and> lh_block s (log_slot b s) = b \<and> b \<in> home_blocks s) \<or>
      (log_slot b s = nat (lh_n s) \<and> b \<notin> home_blocks s)"
  proof (cases "first_idx (\<lambda>i. lh_block s i = b) [0..<nat (lh_n s)]")
    case None
    then have "log_slot b s = nat (lh_n s)" by (simp add: log_slot_def)
    moreover have "b \<notin> home_blocks s" using None by (auto simp: home_blocks_def first_idx_None)
    ultimately show ?thesis by simp
  next
    case (Some i)
    then have "i < nat (lh_n s)" "lh_block s i = b" by (simp_all add: first_idx_upt_Some)
    then show ?thesis using Some by (auto simp: log_slot_def home_blocks_def)
  qed
  then show "log_slot b s < nat (lh_n s) \<Longrightarrow> lh_block s (log_slot b s) = b"
    "log_slot b s = nat (lh_n s) \<longleftrightarrow> b \<notin> home_blocks s" "log_slot b s \<le> nat (lh_n s)"
    by auto
qed

lemma log_write_new:
  assumes inv: "bio_inv p s" and h: "held s i b" and ok: "log_ok s" and b: "b \<notin> log_area s" "b \<notin> home_blocks s"
    and room: "lh_n s < LOGBLOCKS" "1 \<le> lg_outstanding s" and n: "brefs (blocks_of s) b + 1 \<noteq> 0"
  shows "\<exists>t. log_write i s = Ret () t \<and> bio_inv p t \<and> log_ok t \<and> home_blocks t = insert b (home_blocks s) \<and>
     lh_n t = lh_n s + 1 \<and> blocks_of t = a_pin b (blocks_of s) \<and> (\<forall>j c. held t j c = held s j c) \<and>
     (\<exists>B X. t = s\<lparr>bufs := B, lh_block := X, lh_n := lh_n s + 1\<rparr>)"
proof -
  have calm: "calm p s" using inv by (simp add: bio_inv_def)
  have bi: "blockno (bufs s i) = b" "bufs_ok (bufs s) (disk s) (sleeplk s) (pid (proc s p))"
    using h bio_invD(1) [OF inv] by (auto simp: held_def holds_def)
  have ca: "cached (bufs s) b = Some i" using h inv by (simp add: held_def holds_cached)
  obtain u where u: "bpin i s = Ret () u" "bio_inv p u" "blocks_of u = a_pin b (blocks_of s)" "\<forall>j c. held u j c = held s j c"
    using bpin_refines [OF inv h n] by blast
  have "bpin i s = Ret () (s\<lparr>bufs := recount i (refcnt (bufs s i) + 1) (bufs s)\<rparr>)"
    by (simp add: bpin_def bcache_section [OF calm] set_buf_def recount_def)
  then have ueq: "u = s\<lparr>bufs := recount i (refcnt (bufs s i) + 1) (bufs s)\<rparr>" using u(1) by simp
  let ?k = "nat (lh_n s)"
  have n0: "0 \<le> lh_n s" using ok by (simp add: log_ok_def)
  have slot: "log_slot b s = ?k" using b(2) by (simp add: log_slot_cases)
  have slot': "log_slot b (acq LogLk s) = ?k" using slot by (simp add: log_slot_def cong: option.case_cong)
  let ?t = "u\<lparr>lh_block := (lh_block s)(?k := b), lh_n := lh_n s + 1\<rparr>"
  have "log_write i s = Ret () ?t"
    using room n0 bi(1) slot'
    by (simp add: log_write_def log_section [OF calm] bpin_in_log_section [OF calm] ueq Let_def)
  moreover have hb: "home_blocks ?t = insert b (home_blocks s)"
  proof -
    have "nat (lh_n s + 1) = Suc ?k" using n0 by simp
    then show ?thesis by (auto simp: home_blocks_def lessThan_Suc image_iff)
  qed
  moreover have "log_ok ?t"
  proof -
    have "inj_on (lh_block s) {..<?k}" using ok by (simp add: log_ok_def)
    moreover have "b \<notin> lh_block s ` {..<?k}" using b(2) by (simp add: home_blocks_def)
    ultimately have "inj_on ((lh_block s)(?k := b)) {..<Suc ?k}"
      by (auto simp: inj_on_def lessThan_Suc)
    moreover have "nat (lh_n s + 1) = Suc ?k" using n0 by simp
    moreover have "log_area ?t = log_area s"
      by (simp add: log_area_def log_blk_def ueq image_def)
    moreover have "home_blocks s \<inter> log_area s = {}" using ok by (simp add: log_ok_def home_blocks_def)
    ultimately show ?thesis
      using ok room b hb by (simp add: log_ok_def home_blocks_def ueq)
  qed
  moreover have "\<exists>B X. ?t = s\<lparr>bufs := B, lh_block := X, lh_n := lh_n s + 1\<rparr>" unfolding ueq by blast
  ultimately show ?thesis using u by (intro exI [of _ ?t]) simp
qed

lemma log_write_again:
  assumes inv: "bio_inv p s" and h: "held s i b" and b: "b \<in> home_blocks s"
    and room: "lh_n s < LOGBLOCKS" "1 \<le> lg_outstanding s"
  shows "log_write i s = Ret () s"
proof -
  have calm: "calm p s" using inv by (simp add: bio_inv_def)
  have bi: "blockno (bufs s i) = b" using h by (auto simp: held_def holds_def)
  have slot: "log_slot b s < nat (lh_n s)" "lh_block s (log_slot b s) = b"
    using b log_slot_cases [of b s] by (auto simp: order_le_less)
  have slot': "log_slot b (acq LogLk s) = log_slot b s" by (simp add: log_slot_def cong: option.case_cong)
  have ne: "int (log_slot b s) \<noteq> lh_n s" using slot(1) by linarith
  have id: "(lh_block s)(log_slot b s := b) = lh_block s" using slot(2) by auto
  show ?thesis
    using room bi slot' ne log_section(2) [OF calm, of "lh_block s"]
    by (simp add: log_write_def log_section(1) [OF calm] Let_def id)
qed

text \<open>
  C13: a block the caller holds is recorded in the transaction once. A new block takes the next
  entry of the header and is pinned in the cache; a block that is already there changes nothing.
  The entries stay distinct and outside the log area.
\<close>

theorem log_write_records:
  assumes "bio_inv p s" "held s i b" "log_ok s" "b \<notin> log_area s" "brefs (blocks_of s) b + 1 \<noteq> 0"
    and "lh_n s < LOGBLOCKS" "1 \<le> lg_outstanding s"
  shows "\<exists>t. log_write i s = Ret () t \<and> bio_inv p t \<and> log_ok t \<and> home_blocks t = insert b (home_blocks s) \<and>
     lh_n t = lh_n s + (if b \<in> home_blocks s then 0 else 1) \<and>
     blocks_of t = (if b \<in> home_blocks s then blocks_of s else a_pin b (blocks_of s))"
proof (cases "b \<in> home_blocks s")
  case True
  then show ?thesis using log_write_again [OF assms(1,2) True assms(6,7)] assms by (auto simp: insert_absorb)
next
  case False
  then show ?thesis using log_write_new [OF assms(1-4) False assms(6,7,5)] by auto
qed

lemma demo_read: "\<exists>i t. bread ROOTDEV 50 (demo_log 1) = Ret i t \<and> bio_inv 0 t \<and> held t i 50 \<and> cache_frame (demo_log 1) t \<and>
   brefs (blocks_of t) 50 = 1"
proof -
  have 1: "(1::nat) \<le> NBUF" by (simp add: NBUF_def)
  have "readable (blocks_of (demo_log 1)) 50"
    by (rule idle_readable [OF demo_idle [OF 1]]) (simp add: demo_card [OF 1] NBUF_def del: One_nat_def)
  moreover have "brefs (a_read 50 (blocks_of (demo_log 1))) 50 = 1"
    by (auto simp: a_read_def demo_blocks [OF 1] simp del: One_nat_def)
  ultimately show ?thesis using bc.read_ok [OF demo_inv [OF 1], of 50] by metis
qed

theorem log_write_records_witness:
  "\<exists>s :: logst. \<exists>i t. home_blocks s = {40} \<and> log_write i s = Ret () t \<and> home_blocks t = {40, 50} \<and> lh_n t = 2"
proof -
  obtain i t where t: "bio_inv 0 t" "held t i 50" "cache_frame (demo_log 1) t" "brefs (blocks_of t) 50 = 1"
    using demo_read by blast
  note fr = cache_frame_log [OF t(3)] log_ok_frame [OF t(3)]
  let ?s = "t\<lparr>lg_outstanding := 1\<rparr>"
  have home: "home_blocks ?s = {40}" by (simp add: home_blocks_def fr) (simp add: demo_log_def lessThan_Suc)
  have "lg_start (demo_log 1) = 2" by (simp add: demo_log_def)
  then have area: "50 \<notin> log_area (demo_log 1)"
    by (auto simp: log_area_def log_blk_def LOGBLOCKS_def MAXOPBLOCKS_def unat_word_ariths unat_of_nat dest!: arg_cong [of _ _ unat])
  have area': "log_area ?s = log_area (demo_log 1)" using fr(10) by (simp add: log_area_def log_blk_def image_def)
  have n1: "lh_n t = 1" by (simp add: fr demo_log_def)
  have "\<exists>u. log_write i ?s = Ret () u \<and> bio_inv 0 u \<and> log_ok u \<and> home_blocks u = insert 50 (home_blocks ?s) \<and>
     lh_n u = lh_n ?s + (if 50 \<in> home_blocks ?s then 0 else 1) \<and>
     blocks_of u = (if 50 \<in> home_blocks ?s then blocks_of ?s else a_pin 50 (blocks_of ?s))"
  proof (rule log_write_records [of 0])
    show "bio_inv 0 ?s" using t(1) by simp
    show "held ?s i 50" using t(2) by (simp add: held_def holds_def buf_locked_def)
    show "log_ok ?s" using demo_log_ok [of 1] fr(8) by (simp add: log_ok_def NBUF_def log_area_def log_blk_def image_def)
    show "50 \<notin> log_area ?s" using area area' by simp
    show "brefs (blocks_of ?s) 50 + 1 \<noteq> 0" using t(4) by simp
  qed (simp_all add: n1 LOGBLOCKS_def MAXOPBLOCKS_def)
  then obtain u where "log_write i ?s = Ret () u" "home_blocks u = {40, 50}" "lh_n u = 2"
    using home n1 by (auto simp: insert_commute)
  with home show ?thesis by blast
qed

section \<open>Committing\<close>

text \<open>
  C12: with every block of the transaction pinned and a buffer to spare, \<^verbatim>\<open>commit\<close> returns;
  it has written the header and the copies, every block of the transaction is home with its
  cached contents, no other block outside the log has changed, the log is empty in memory and
  on disk, and each block has lost one reference.
\<close>

theorem commit_installs:
  assumes "cache_idle p s" "log_ok s" "0 < lh_n s"
    and "\<And>i. i < nat (lh_n s) \<Longrightarrow> brefs (blocks_of s) (lh_block s i) \<noteq> 0"
    and "card (in_use (blocks_of s)) < NBUF"
  shows "\<exists>t. commit s = Ret () t \<and> cache_idle p t \<and> lh_n t = 0 \<and> head_n (disk t (lg_start s)) = 0 \<and>
     (\<forall>b. b \<notin> log_area s \<longrightarrow> disk t b = (if b \<in> home_blocks s then view s b else disk s b)) \<and>
     (\<forall>b. brefs (blocks_of t) b = brefs (blocks_of s) b - (if b \<in> home_blocks s then 1 else 0))"
proof -
  obtain t u where t: "commit s = Ret () t" "cache_idle p t" "t = u\<lparr>lh_n := 0\<rparr>"
    "blocks_of t = unpins (home_blocks s) (puts (commit_writes s) (blocks_of s))"
    using commit_ok [OF assms] by (auto simp: home_blocks_def)
  have "disk t = bdisk (blocks_of t)" by (simp add: blocks_of_def)
  then have "disk t = upds (commit_writes s) (disk s)" by (simp add: t(4) puts_fields) (simp add: blocks_of_def)
  moreover have "brefs (blocks_of t) b = brefs (blocks_of s) b - (if b \<in> home_blocks s then 1 else 0)" for b
    by (simp add: t(4) unpins_def puts_fields)
  moreover have "lh_n t = 0" by (simp add: t(3))
  ultimately show ?thesis using t(1,2) crash_after [OF assms(2)] by auto
qed

lemma demo_pins: "n \<le> NBUF \<Longrightarrow> i < nat (lh_n (demo_log n)) \<Longrightarrow> brefs (blocks_of (demo_log n)) (lh_block (demo_log n) i) \<noteq> 0"
  by (simp add: demo_blocks) (simp add: demo_log_def)

lemma demo_one: "(1::nat) \<le> NBUF" "lh_n (demo_log n) = int n" "lg_start (demo_log n) = 2" "disk (demo_log n) = (\<lambda>_ _. 0)"
  by (simp_all add: NBUF_def demo_log_def)

lemma demo_home: "home_blocks (demo_log 1) = {40}" "40 \<notin> log_area (demo_log 1)" "view (demo_log 1) 40 = demo_data"
proof -
  show "home_blocks (demo_log 1) = {40}" by (simp add: home_blocks_def demo_log_def lessThan_Suc)
  show "40 \<notin> log_area (demo_log 1)" using demo_area [OF demo_one(1), of 1] by (auto simp: lessThan_Suc)
  have "bcontents (blocks_of (demo_log 1)) 40 = demo_data" using demo_blocks(1) [OF demo_one(1), of 40] by (simp add: lessThan_Suc)
  then show "view (demo_log 1) 40 = demo_data" by (simp add: blocks_of_def)
qed

theorem commit_installs_witness:
  "\<exists>t. commit (demo_log 1) = Ret () t \<and> disk (demo_log 1) 40 0 = 0 \<and> disk t 40 0 = 7 \<and> lh_n t = 0"
proof -
  have room: "card (in_use (blocks_of (demo_log 1))) < NBUF" by (simp add: demo_card [OF demo_one(1)] NBUF_def del: One_nat_def)
  obtain t where t: "commit (demo_log 1) = Ret () t" "lh_n t = 0"
    "\<forall>b. b \<notin> log_area (demo_log 1) \<longrightarrow> disk t b = (if b \<in> home_blocks (demo_log 1) then view (demo_log 1) b else disk (demo_log 1) b)"
    using commit_installs [OF demo_idle [OF demo_one(1)] demo_log_ok [OF demo_one(1)] _ demo_pins [OF demo_one(1)] room]
    by (auto simp: demo_one)
  then show ?thesis using demo_home by (auto simp: demo_data_def demo_one)
qed

text \<open>
  C11: a commit is atomic against a crash. Let the machine stop after any number of the disk writes
  of a commit, and start again on that disk: recovery ends with an empty log, and outside the log
  every block is as before the transaction, or every block is as after it. The change happens with
  the write of the header, which follows those of the copies.
\<close>

theorem commit_crash_atomic:
  assumes "cache_idle p s" "log_ok s" "0 < lh_n s"
    and "\<And>i. i < nat (lh_n s) \<Longrightarrow> brefs (blocks_of s) (lh_block s i) \<noteq> 0"
    and "card (in_use (blocks_of s)) < NBUF" and "head_n (disk s (lg_start s)) = 0"
    and run: "commit s = Ret () t" "dtrace t = dtrace s @ ws"
    and boot: "fresh q r" "disk r = upds (take k ws) (disk s)"
  shows "\<exists>u. initlog ROOTDEV (lg_start s) r = Ret () u \<and> fresh q u \<and> head_n (disk u (lg_start s)) = 0 \<and>
     (\<forall>b. b \<notin> log_area s \<longrightarrow>
        disk u b = (if nat (lh_n s) < k \<and> b \<in> home_blocks s then view s b else disk s b))"
proof -
  obtain t' where t': "commit s = Ret () t'"
    "blocks_of t' = unpins (lh_block s ` {..<nat (lh_n s)}) (puts (commit_writes s) (blocks_of s))"
    using commit_ok [OF assms(1-5)] by blast
  then have "t = t'" using run(1) by simp
  have "dtrace t' = bwrites (blocks_of t')" by (simp add: blocks_of_def)
  then have "dtrace t' = dtrace s @ commit_writes s" by (simp add: t'(2) puts_fields) (simp add: blocks_of_def)
  then have "ws = commit_writes s" using run(2) \<open>t = t'\<close> by simp
  then show ?thesis using crash_recovery [OF assms(2,6) boot(1)] boot(2) by simp
qed

theorem commit_crash_atomic_witness:
  "\<exists>t ws. \<exists>r :: logst. \<exists>u. commit (demo_log 1) = Ret () t \<and> dtrace t = ws \<and> disk r = upds (take 2 ws) (disk (demo_log 1)) \<and>
     disk r 40 0 = 0 \<and> initlog ROOTDEV 2 r = Ret () u \<and> disk u 40 0 = 7"
proof -
  let ?s = "demo_log 1"
  have room: "card (in_use (blocks_of ?s)) < NBUF" by (simp add: demo_card [OF demo_one(1)] NBUF_def del: One_nat_def)
  have n: "0 < lh_n ?s" by (simp add: demo_one)
  note hyps = demo_idle [OF demo_one(1)] demo_log_ok [OF demo_one(1)] n demo_pins [OF demo_one(1)] room
  obtain t where t: "commit ?s = Ret () t"
    "blocks_of t = unpins (lh_block ?s ` {..<nat (lh_n ?s)}) (puts (commit_writes ?s) (blocks_of ?s))"
    using commit_ok [OF hyps] by blast
  have "dtrace t = bwrites (blocks_of t)" by (simp add: blocks_of_def)
  then have tr: "dtrace t = dtrace ?s @ commit_writes ?s" by (simp add: t(2) puts_fields) (simp add: blocks_of_def)
  have emp: "dtrace ?s = []" by (simp add: demo_log_def)
  let ?ws = "commit_writes ?s"
  let ?D = "upds (take 2 ?ws) (disk ?s)"
  have ws: "?ws = [(log_blk ?s 0, demo_data), (2, commit_head ?s), (40, demo_data), (2, put_head 0 (lh_block ?s) (commit_head ?s))]"
    using demo_blocks(1) [OF demo_one(1), of 40]
    by (simp add: commit_writes_def log_copies_def home_list_def demo_one lessThan_Suc) (simp add: demo_log_def)
  have "sized (commit_head ?s)"
    using demo_idle [OF demo_one(1)] by (simp add: cache_idle_def commit_head_def demo_one sized_def put_head_beyond BSIZE_def)
  then have "sized (?D b)" for b by (auto simp: ws demo_one sized_def demo_data_def BSIZE_def simp del: One_nat_def)
  then have fr: "fresh 0 (demo_boot ?D)" by (rule demo_fresh)
  have dk: "disk (demo_boot ?D) = ?D" by (simp add: demo_boot_def)
  have h0: "head_n (disk ?s (lg_start ?s)) = 0" by (simp add: demo_one head_n_def get32_def eval_nat_numeral)
  obtain u where u: "initlog ROOTDEV (lg_start ?s) (demo_boot ?D) = Ret () u"
    "\<forall>b. b \<notin> log_area ?s \<longrightarrow> disk u b = (if nat (lh_n ?s) < 2 \<and> b \<in> home_blocks ?s then view ?s b else disk ?s b)"
    using commit_crash_atomic [OF hyps h0 t(1) tr fr dk] by blast
  have "disk u 40 0 = 7" using u(2) demo_home by (auto simp: demo_one demo_data_def)
  moreover have "?D 40 0 = 0"
    using demo_home(2) by (auto simp: ws demo_one log_area_def LOGBLOCKS_def MAXOPBLOCKS_def simp del: One_nat_def)
  ultimately show ?thesis using t(1) tr emp u(1) dk
    by (intro exI [of _ t] exI [of _ ?ws] exI [of _ "demo_boot ?D"] exI [of _ u]) (simp add: demo_one(3) del: One_nat_def)
qed

section \<open>A transaction as large as the cache\<close>

text \<open>
  C16: the log accepts as many blocks as the cache has buffers, and all of them stay pinned until
  the commit. When they do, the commit needs one more buffer for the log block it writes, and the
  kernel stops with \<^verbatim>\<open>bget: no buffers\<close>.
\<close>

theorem commit_full_cache_panics:
  assumes "bio_inv p s" "lg_dev s = ROOTDEV" "0 < lh_n s"
    and "\<forall>i < NBUF. refcnt (bufs s i) \<noteq> 0" "cached (bufs s) (lg_start s + 1) = None"
  shows "commit s = Panic ''bget: no buffers''"
proof -
  obtain m where m: "nat (lh_n s) = Suc m" using assms(3) by (cases "nat (lh_n s)") auto
  have "bget ROOTDEV (lg_start s + 1) s = Panic ''bget: no buffers''" by (rule bget_full [OF assms(1,5,4)])
  then have "write_one 0 s = Panic ''bget: no buffers''"
    using assms(2) by (simp add: write_one_def bread_def)
  then show ?thesis using assms(3) by (simp add: commit_def write_log_def m upt_conv_Cons del: upt_Suc)
qed

theorem commit_full_cache_panics_witness:
  "log_ok (demo_log 30) \<and> lh_n (demo_log 30) = LOGBLOCKS \<and> commit (demo_log 30) = Panic ''bget: no buffers''"
proof -
  have n: "(30::nat) \<le> NBUF" by (simp add: NBUF_def)
  have "cached (demo_bufs 30) 3 = None"
  proof (cases "cached (demo_bufs 30) 3")
    case (Some i)
    then have i: "i < 30" "(3 :: uint32) = 40 + of_nat i" using demo_cached [OF n, of 3 i] by auto
    then have "unat (40 + of_nat i :: uint32) = 40 + i" by (simp add: unat_word_ariths unat_of_nat)
    then have "40 + i = unat (3 :: uint32)" by (simp only: i(2) [symmetric])
    then show ?thesis by simp
  qed simp
  then have "commit (demo_log 30) = Panic ''bget: no buffers''"
    by (intro commit_full_cache_panics [OF demo_inv [OF n]]) (simp_all add: demo_log_def demo_bufs_def NBUF_def)
  then show ?thesis using demo_log_ok [OF n] by (simp add: demo_one LOGBLOCKS_def MAXOPBLOCKS_def)
qed

section \<open>The header\<close>

text \<open>
  C15: what \<^verbatim>\<open>write_head\<close> puts on the disk, \<^verbatim>\<open>read_head\<close> reads back: a machine that
  starts on that disk finds the count and the block numbers of the transaction.
\<close>

theorem log_header_roundtrip:
  assumes "cache_idle p s" "lg_dev s = ROOTDEV" "0 \<le> lh_n s" "lh_n s \<le> LOGBLOCKS" "card (in_use (blocks_of s)) < NBUF"
    and "write_head s = Ret () t" "fresh q r" "disk r = disk t" "lg_dev r = ROOTDEV" "lg_start r = lg_start s"
  shows "\<exists>u. read_head r = Ret () u \<and> lh_n u = lh_n s \<and> (\<forall>i < nat (lh_n s). lh_block u i = lh_block s i)"
proof -
  let ?h = "put_head (lh_n s) (lh_block s) (bcontents (blocks_of s) (lg_start s))"
  have "blocks_of t = puts [(lg_start s, ?h)] (blocks_of s)"
    using write_head_ok [OF assms(1,2,4,5)] assms(6) by auto
  moreover have "disk t = bdisk (blocks_of t)" by (simp add: blocks_of_def)
  ultimately have "disk t (lg_start s) = ?h" by (simp add: puts_fields)
  then have h: "bcontents (blocks_of r) (lg_start r) = ?h"
    using fresh_view [OF assms(7)] assms(8,10) by (simp add: blocks_of_def)
  have hn: "head_n ?h = lh_n s" using assms(3,4) by (simp add: put_head_n LOGBLOCKS_def MAXOPBLOCKS_def)
  have "\<exists>u. read_head r = Ret () u \<and> cache_idle q u \<and> blocks_of u = blocks_of r \<and> lg_start u = lg_start r \<and>
      lg_dev u = lg_dev r \<and> lh_n u = head_n ?h \<and> (\<forall>i < nat (lh_n u). lh_block u i = head_block ?h i) \<and>
      lg_outstanding u = lg_outstanding r \<and> lg_committing u = lg_committing r"
    unfolding h [symmetric]
    by (rule read_head_ok) (use assms(4,7,9) in \<open>auto simp: fresh_def h hn NBUF_def\<close>)
  then show ?thesis using hn put_head_block by metis
qed

theorem log_header_roundtrip_witness:
  "\<exists>t u. write_head (demo_log 1) = Ret () t \<and> read_head (demo_boot (disk t)) = Ret () u \<and> lh_n u = 1 \<and> lh_block u 0 = 40"
proof -
  let ?s = "demo_log 1"
  have dev: "lg_dev ?s = ROOTDEV" "lg_dev (demo_boot D) = ROOTDEV" "lg_start (demo_boot D) = lg_start ?s" "lh_block ?s 0 = 40" for D
    by (simp_all add: demo_log_def demo_boot_def)
  have room: "card (in_use (blocks_of ?s)) < NBUF" by (simp add: demo_card [OF demo_one(1)] NBUF_def del: One_nat_def)
  have n: "0 \<le> lh_n ?s" "lh_n ?s \<le> LOGBLOCKS" by (simp_all add: demo_one LOGBLOCKS_def MAXOPBLOCKS_def)
  obtain t where t: "write_head ?s = Ret () t" "cache_idle 0 t"
    "blocks_of t = puts [(lg_start ?s, put_head (lh_n ?s) (lh_block ?s) (bcontents (blocks_of ?s) (lg_start ?s)))] (blocks_of ?s)"
    using write_head_ok [OF demo_idle [OF demo_one(1)] dev(1) n(2) room] by blast
  have "sized (bcontents (blocks_of ?s) b)" for b using demo_idle [OF demo_one(1)] by (simp add: cache_idle_def)
  moreover have "disk t = bdisk (blocks_of t)" "bdisk (blocks_of ?s) = (\<lambda>_ _. 0)" by (simp_all add: blocks_of_def demo_one)
  ultimately have "sized (disk t b)" for b
    by (auto simp: t(3) puts_fields sized_def put_head_beyond demo_one BSIZE_def)
  then have fr: "fresh 0 (demo_boot (disk t))" by (rule demo_fresh)
  have "disk (demo_boot (disk t)) = disk t" by (simp add: demo_boot_def)
  then obtain u where "read_head (demo_boot (disk t)) = Ret () u" "lh_n u = lh_n ?s" "\<forall>i < nat (lh_n ?s). lh_block u i = lh_block ?s i"
    using log_header_roundtrip [OF demo_idle [OF demo_one(1)] dev(1) n room t(1) fr _ dev(2,3)] by blast
  then show ?thesis using t(1) dev(4) by (auto simp: demo_one)
qed

end
