(* ===== verification/LogSpace.thy ===== *)
theory LogSpace
  imports LogTheorems
begin

text \<open>
  The space of the log over whole runs: \<^verbatim>\<open>begin_op\<close>, at once or after a sleep,
  \<^verbatim>\<open>log_write\<close> and \<^verbatim>\<open>end_op\<close> by any processes in any order. What \<^verbatim>\<open>begin_op\<close>
  reserves is enough, so that \<^verbatim>\<open>log_write\<close> never finds the log full.
\<close>

section \<open>What leaves the log alone\<close>

definition log_ctl :: "'z logst_scheme \<Rightarrow> int \<times> int \<times> bool" where
  "log_ctl s = (lh_n s, lg_outstanding s, lg_committing s)"

lemma log_ctl_set [simp]:
  "log_ctl (set_proc i f s) = log_ctl s" "log_ctl (set_slk l g s) = log_ctl s" "log_ctl (set_buf b k s) = log_ctl s"
  "log_ctl (set_mycpu c s) = log_ctl s" "log_ctl (disk_rw b wr s) = log_ctl s" "log_ctl (put_data b d s) = log_ctl s"
  by (simp_all add: log_ctl_def set_proc_def set_slk_def set_buf_def set_mycpu_def disk_rw_def put_data_def)

lemma log_ctl_upd [simp]:
  "log_ctl (lh_block_update f s) = log_ctl s" "log_ctl (lg_ncommit_update g s) = log_ctl s"
  "log_ctl (lh_n_update h s) = (h (lh_n s), snd (log_ctl s))"
  "log_ctl (lg_outstanding_update h s) = (lh_n s, h (lg_outstanding s), lg_committing s)"
  "log_ctl (lg_committing_update k s) = (lh_n s, lg_outstanding s, k (lg_committing s))"
  by (simp_all add: log_ctl_def)

lemma log_ctl_eq: "log_ctl t = log_ctl s \<Longrightarrow> lh_n t = lh_n s \<and> lg_outstanding t = lg_outstanding s \<and> lg_committing t = lg_committing s"
  by (simp add: log_ctl_def)

lemma lock_ctl:
  fixes s :: "'z logst_scheme"
  shows "acquire lk s = Ret x t \<Longrightarrow> log_ctl t = log_ctl s" "release lk s = Ret x t \<Longrightarrow> log_ctl t = log_ctl s"
    "myproc s = Ret q t \<Longrightarrow> log_ctl t = log_ctl s" "curproc s = Ret i t \<Longrightarrow> log_ctl t = log_ctl s"
  by (auto simp: log_ctl_def acquire_def release_def acquire_enter_def lock_exchange_def acquire_note_def release_note_def
      release_store_def myproc_def curproc_def push_off_def pop_off_def mach_defs Let_def kbind_eq_Ret
      split: if_splits option.splits)

lemma kfor_ctl:
  fixes s :: "'z logst_scheme"
  assumes "\<And>i u v y. body i u = Ret y v \<Longrightarrow> log_ctl v = log_ctl u"
  shows "kfor body is s = Ret x t \<Longrightarrow> log_ctl t = log_ctl s"
  by (induction "is" arbitrary: s) (auto simp: kbind_eq_Ret dest!: assms)

lemma wakeup_ctl:
  fixes s :: "'z logst_scheme"
  shows "wakeup ch s = Ret x t \<Longrightarrow> log_ctl t = log_ctl s"
  unfolding wakeup_def
  by (rule kfor_ctl) (auto simp: wakeup_body_def kbind_eq_Ret Let_def dest!: lock_ctl split: if_splits)

lemma sleep_resume_ctl:
  fixes s :: "'z logst_scheme"
  shows "sleep_resume p lk s = Ret x t \<Longrightarrow> log_ctl t = log_ctl s"
  by (auto simp: sleep_resume_def sched_resume_def Let_def kbind_eq_Ret dest!: lock_ctl)

lemma sleeplock_ctl:
  fixes s :: "'z logst_scheme"
  shows "acquiresleep l s = Ret x t \<Longrightarrow> log_ctl t = log_ctl s" "releasesleep l s = Ret x t \<Longrightarrow> log_ctl t = log_ctl s"
    "holdingsleep l s = Ret b t \<Longrightarrow> log_ctl t = log_ctl s"
  by (auto simp: acquiresleep_def acquiresleep_loop_def releasesleep_def holdingsleep_def Let_def kbind_eq_Ret
      sleep_not_Ret dest!: lock_ctl wakeup_ctl split: if_splits)

lemma move_front_ctl [simp]: "log_ctl (move_front b s) = log_ctl s"
  by (simp add: move_front_def Let_def)

lemma bget_take_ctl:
  fixes s :: "'z logst_scheme"
  shows "bget_take b s = Ret i t \<Longrightarrow> log_ctl t = log_ctl s"
  by (auto simp: bget_take_def kbind_eq_Ret dest!: lock_ctl sleeplock_ctl)

lemma bget_ctl:
  fixes s :: "'z logst_scheme"
  assumes "bget dev bno s = Ret i t"
  shows "log_ctl t = log_ctl s"
proof -
  let ?hit = "\<lambda>u. ring_scan NBUF (\<lambda>b. bnext (bufs u b)) (\<lambda>b. bdev (bufs u b) = dev \<and> blockno (bufs u b) = bno) (bnext (bufs u NBUF))"
  let ?old = "\<lambda>u. ring_scan NBUF (\<lambda>b. bprev (bufs u b)) (\<lambda>b. refcnt (bufs u b) = 0) (bprev (bufs u NBUF))"
  obtain u where u: "acquire BcacheLk s = Ret () u"
    and t: "(case ?hit u of None \<Rightarrow> Spin
        | Some (Some b) \<Rightarrow> bget_take b (set_buf b (\<lambda>x. x\<lparr>refcnt := refcnt x + 1\<rparr>) u)
        | Some None \<Rightarrow> (case ?old u of None \<Rightarrow> Spin
            | Some (Some b) \<Rightarrow> bget_take b (set_buf b (\<lambda>x. x\<lparr>bdev := dev, blockno := bno, bvalid := False, refcnt := 1\<rparr>) u)
            | Some None \<Rightarrow> Panic ''bget: no buffers'')) = Ret i t"
    using assms unfolding bget_def kbind_eq_Ret by auto
  then show ?thesis by (auto dest!: lock_ctl bget_take_ctl split: option.splits)
qed

lemma buffer_ctl:
  fixes s :: "'z logst_scheme"
  shows "bread dev bno s = Ret i t \<Longrightarrow> log_ctl t = log_ctl s" "bwrite b s = Ret x t \<Longrightarrow> log_ctl t = log_ctl s"
    "brelse b s = Ret x t \<Longrightarrow> log_ctl t = log_ctl s" "bpin b s = Ret x t \<Longrightarrow> log_ctl t = log_ctl s"
    "bunpin b s = Ret x t \<Longrightarrow> log_ctl t = log_ctl s"
  by (auto simp: bread_def bwrite_def brelse_def bpin_def bunpin_def Let_def kbind_eq_Ret
      dest!: lock_ctl sleeplock_ctl bget_ctl split: if_splits)

lemma log_parts_ctl:
  fixes s :: "'z logst_scheme"
  shows "write_one tail s = Ret x t \<Longrightarrow> log_ctl t = log_ctl s" "install_one r tail s = Ret x t \<Longrightarrow> log_ctl t = log_ctl s"
    "write_head s = Ret x t \<Longrightarrow> log_ctl t = log_ctl s"
  by (auto simp: write_one_def install_one_def write_head_def Let_def kbind_eq_Ret dest!: buffer_ctl split: if_splits)

lemma log_loops_ctl:
  fixes s :: "'z logst_scheme"
  shows "write_log s = Ret x t \<Longrightarrow> log_ctl t = log_ctl s" "install_trans r s = Ret x t \<Longrightarrow> log_ctl t = log_ctl s"
  unfolding write_log_def install_trans_def by (rule kfor_ctl, erule log_parts_ctl, assumption)+

section \<open>What the operations do to it\<close>

lemma commit_ctl:
  fixes s :: "'z logst_scheme"
  assumes "commit s = Ret () t" "0 \<le> lh_n s"
  shows "lh_n t = 0" "lg_outstanding t = lg_outstanding s" "lg_committing t = lg_committing s"
proof -
  have "log_ctl t = (0, lg_outstanding s, lg_committing s)"
  proof (cases "0 < lh_n s")
    case True
    then obtain u where u: "log_ctl u = log_ctl s" "write_head (u\<lparr>lh_n := 0\<rparr>) = Ret () t"
      using assms(1) by (auto simp: commit_def Let_def kbind_eq_Ret dest!: log_loops_ctl dest: log_parts_ctl(3))
    have "log_ctl t = log_ctl (u\<lparr>lh_n := 0\<rparr>)" by (rule log_parts_ctl(3) [OF u(2)])
    then show ?thesis using u(1) by (simp add: log_ctl_def)
  next
    case False
    then show ?thesis using assms by (simp add: commit_def log_ctl_def)
  qed
  then show "lh_n t = 0" "lg_outstanding t = lg_outstanding s" "lg_committing t = lg_committing s"
    by (simp_all add: log_ctl_def)
qed

lemma begin_op_loop_ctl:
  fixes s :: "'z logst_scheme"
  assumes "begin_op_loop s = Ret () t"
  shows "lh_n t = lh_n s \<and> lg_outstanding t = lg_outstanding s + 1 \<and> lh_n s + (lg_outstanding s + 1) * MAXOPBLOCKS \<le> LOGBLOCKS"
  using assms by (auto simp: begin_op_loop_def sleep_not_Ret dest!: lock_ctl(2) split: if_splits) (simp_all add: log_ctl_def)

lemma begin_op_ctl:
  fixes s :: "'z logst_scheme"
  assumes "begin_op s = Ret () t \<or> begin_op_resume p s = Ret () t"
  shows "lh_n t = lh_n s \<and> lg_outstanding t = lg_outstanding s + 1 \<and> lh_n s + (lg_outstanding s + 1) * MAXOPBLOCKS \<le> LOGBLOCKS"
proof -
  obtain u where "log_ctl u = log_ctl s" "begin_op_loop u = Ret () t"
    using assms by (auto simp: begin_op_def begin_op_resume_def kbind_eq_Ret dest!: lock_ctl(1) sleep_resume_ctl)
  then show ?thesis using begin_op_loop_ctl [of u t] by (simp add: log_ctl_def)
qed

lemma log_write_ctl:
  fixes s :: "'z logst_scheme"
  assumes "log_write b s = Ret () t"
  shows "lg_outstanding t = lg_outstanding s" "lh_n s \<le> lh_n t" "lh_n t \<le> lh_n s + 1"
proof -
  define body where "body = (\<lambda>u :: 'z logst_scheme. let i = log_slot (blockno (bufs u b)) u;
      u = u\<lparr>lh_block := (lh_block u)(i := blockno (bufs u b))\<rparr>
    in kbind (if int i = lh_n u then kbind (bpin b u) (\<lambda>_ u. Ret () (u\<lparr>lh_n := lh_n u + 1\<rparr>)) else Ret () u) (\<lambda>_ u. release LogLk u))"
  obtain u where u: "acquire LogLk s = Ret () u" "body u = Ret () t"
    using assms by (auto simp: log_write_def body_def kbind_eq_Ret split: if_splits)
  have b: "log_ctl t = log_ctl u \<or> log_ctl t = (lh_n u + 1, snd (log_ctl u))"
  proof (cases "int (log_slot (blockno (bufs u b)) u) = lh_n u")
    case True
    then obtain v where "bpin b (u\<lparr>lh_block := (lh_block u)(log_slot (blockno (bufs u b)) u := blockno (bufs u b))\<rparr>) = Ret () v"
        "release LogLk (v\<lparr>lh_n := lh_n v + 1\<rparr>) = Ret () t"
      using u(2) by (auto simp: body_def Let_def kbind_eq_Ret)
    then have "log_ctl v = log_ctl u" "log_ctl t = (lh_n v + 1, snd (log_ctl v))" by (auto dest!: lock_ctl buffer_ctl(4))
    then show ?thesis using log_ctl_eq [of v u] by simp
  next
    case False
    then show ?thesis using u(2) by (auto simp: body_def Let_def kbind_eq_Ret dest!: lock_ctl)
  qed
  then show "lg_outstanding t = lg_outstanding s" "lh_n s \<le> lh_n t" "lh_n t \<le> lh_n s + 1"
    using lock_ctl(1) [OF u(1)] by (auto simp: log_ctl_def)
qed

lemma end_op_ctl:
  fixes s :: "'z logst_scheme"
  assumes "end_op s = Ret () t" "0 \<le> lh_n s"
  shows "lg_outstanding t = lg_outstanding s - 1 \<and> lh_n t = (if lg_outstanding s = 1 then 0 else lh_n s)"
proof -
  obtain u where u: "acquire LogLk s = Ret () u" using assms(1) by (auto simp: end_op_def kbind_eq_Ret)
  note su = log_ctl_eq [OF lock_ctl(1) [OF u]]
  let ?v = "u\<lparr>lg_outstanding := lg_outstanding u - 1\<rparr>"
  have nc: "\<not> lg_committing u" using assms(1) u by (auto simp: end_op_def Let_def split: if_splits)
  show ?thesis
  proof (cases "lg_outstanding u = 1")
    case True
    then obtain v w x y where r: "release LogLk (?v\<lparr>lg_committing := True\<rparr>) = Ret () v" "commit v = Ret () w" "acquire LogLk w = Ret () x"
        "wakeup ChLog (x\<lparr>lg_committing := False, lg_ncommit := c_int (lg_ncommit x + 1)\<rparr>) = Ret () y" "release LogLk y = Ret () t"
      using assms(1) u nc by (auto simp: end_op_def Let_def kbind_eq_Ret)
    have v: "lh_n v = lh_n u" "lg_outstanding v = 0" using lock_ctl(2) [OF r(1)] True by (simp_all add: log_ctl_def)
    have "lh_n w = 0" "lg_outstanding w = 0" using commit_ctl [OF r(2)] v assms(2) su by simp_all
    then have "log_ctl x = (0, 0, lg_committing w)" using lock_ctl(1) [OF r(3)] by (simp add: log_ctl_def)
    then have "log_ctl t = (0, 0, False)" using wakeup_ctl [OF r(4)] lock_ctl(2) [OF r(5)] by (simp add: log_ctl_def)
    then show ?thesis using True su by (simp add: log_ctl_def)
  next
    case False
    then obtain y where r: "wakeup ChLog ?v = Ret () y" "release LogLk y = Ret () t"
      using assms(1) u nc by (auto simp: end_op_def Let_def kbind_eq_Ret)
    then have "log_ctl t = log_ctl ?v" using wakeup_ctl [OF r(1)] lock_ctl(2) [OF r(2)] by simp
    then show ?thesis using False su by (simp add: log_ctl_def)
  qed
qed

section \<open>Runs\<close>

text \<open>
  \<open>ops\<close> says of each process that is inside an operation how many blocks it has logged in it. A
  process logs at most \<^verbatim>\<open>MAXOPBLOCKS\<close> in one operation. Everything else the kernel does is a
  step that leaves the count, the number of operations and the commit mark as they are.
\<close>

inductive log_step :: "'z logst_scheme \<times> (nat \<Rightarrow> nat option) \<Rightarrow> 'z logst_scheme \<times> (nat \<Rightarrow> nat option) \<Rightarrow> bool" where
  begins: "ops p = None \<Longrightarrow> begin_op s = Ret () t \<Longrightarrow> log_step (s, ops) (t, ops(p \<mapsto> 0))"
| begins_later: "ops p = None \<Longrightarrow> begin_op_resume p s = Ret () t \<Longrightarrow> log_step (s, ops) (t, ops(p \<mapsto> 0))"
| writes: "ops p = Some k \<Longrightarrow> int k < MAXOPBLOCKS \<Longrightarrow> log_write b s = Ret () t \<Longrightarrow> log_step (s, ops) (t, ops(p \<mapsto> Suc k))"
| ends: "ops p = Some k \<Longrightarrow> end_op s = Ret () t \<Longrightarrow> log_step (s, ops) (t, ops(p := None))"
| other: "log_ctl t = log_ctl s \<Longrightarrow> log_step (s, ops) (t, ops)"

text \<open>The blocks that the operations in progress may still log.\<close>

definition reserved :: "(nat \<Rightarrow> nat option) \<Rightarrow> int" where
  "reserved ops = (\<Sum>p \<in> dom ops. MAXOPBLOCKS - int (the (ops p)))"

definition log_space :: "'z logst_scheme \<times> (nat \<Rightarrow> nat option) \<Rightarrow> bool" where
  "log_space = (\<lambda>(s, ops). finite (dom ops) \<and> lg_outstanding s = int (card (dom ops)) \<and> 0 \<le> lh_n s \<and>
     (\<forall>p k. ops p = Some k \<longrightarrow> int k \<le> MAXOPBLOCKS) \<and> lh_n s + reserved ops \<le> LOGBLOCKS)"

lemma reserved_new: "finite (dom ops) \<Longrightarrow> ops p = None \<Longrightarrow> reserved (ops(p \<mapsto> k)) = reserved ops + MAXOPBLOCKS - int k"
proof -
  assume "finite (dom ops)" "ops p = None"
  moreover from this have "(\<Sum>q \<in> dom ops. MAXOPBLOCKS - int (the ((ops(p \<mapsto> k)) q))) = reserved ops"
    unfolding reserved_def by (intro sum.cong) auto
  ultimately show ?thesis by (simp add: reserved_def domIff)
qed

lemma reserved_old: "finite (dom ops) \<Longrightarrow> ops p = Some k \<Longrightarrow> reserved ops = reserved (ops(p := None)) + MAXOPBLOCKS - int k"
  using reserved_new [of "ops(p := None)" p k] by (simp add: fun_upd_idem)

lemma reserved_max: "finite (dom ops) \<Longrightarrow> reserved ops \<le> int (card (dom ops)) * MAXOPBLOCKS"
  unfolding reserved_def by (rule sum_bounded_above) simp

lemma reserved_nonneg: "\<forall>p k. ops p = Some k \<longrightarrow> int k \<le> MAXOPBLOCKS \<Longrightarrow> 0 \<le> reserved ops"
  unfolding reserved_def by (rule sum_nonneg) auto

lemma log_step_space: "log_step st st' \<Longrightarrow> log_space st \<Longrightarrow> log_space st'"
proof (induction rule: log_step.induct)
  case (begins ops p s t)
  then have f: "finite (dom ops)" "reserved ops \<le> int (card (dom ops)) * MAXOPBLOCKS" using reserved_max by (auto simp: log_space_def)
  then show ?case using begins begin_op_ctl [of s t p] reserved_new [OF f(1) begins.hyps(1), of 0]
    by (auto simp: log_space_def domIff algebra_simps MAXOPBLOCKS_def)
next
  case (begins_later ops p s t)
  then have f: "finite (dom ops)" "reserved ops \<le> int (card (dom ops)) * MAXOPBLOCKS" using reserved_max by (auto simp: log_space_def)
  then show ?case using begins_later begin_op_ctl [of s t p] reserved_new [OF f(1) begins_later.hyps(1), of 0]
    by (auto simp: log_space_def domIff algebra_simps MAXOPBLOCKS_def)
next
  case (writes ops p k b s t)
  then have f: "finite (dom ops)" by (simp add: log_space_def)
  have "reserved (ops(p \<mapsto> Suc k)) = reserved ops - 1"
    using reserved_old [OF f writes.hyps(1)] reserved_new [of "ops(p := None)" p "Suc k"] f by simp
  moreover have "dom (ops(p \<mapsto> Suc k)) = dom ops" using writes.hyps(1) by auto
  ultimately show ?case using writes log_write_ctl [OF writes.hyps(3)] by (auto simp: log_space_def)
next
  case (ends ops p k s t)
  then have f: "finite (dom ops)" and k: "int k \<le> MAXOPBLOCKS" by (auto simp: log_space_def)
  have c: "card (dom ops) = Suc (card (dom (ops(p := None))))"
    using card_Suc_Diff1 [OF f, of p] domI [of ops p k, OF ends.hyps(1)] by simp
  have z: "reserved (ops(p := None)) = 0" if "card (dom (ops(p := None))) = 0"
  proof -
    have "finite (dom (ops(p := None)))" using f by simp
    then have "dom (ops(p := None)) = {}" using that card_0_eq by blast
    then show ?thesis by (simp only: reserved_def sum.empty)
  qed
  have sp: "lh_n s + reserved ops \<le> LOGBLOCKS" "0 \<le> lh_n s" "lg_outstanding s = int (card (dom ops))"
    "\<forall>q j. (ops(p := None)) q = Some j \<longrightarrow> int j \<le> MAXOPBLOCKS"
    using ends.prems by (auto simp: log_space_def)
  have room: "lh_n s + reserved (ops(p := None)) \<le> LOGBLOCKS" using sp(1) reserved_old [OF f ends.hyps(1)] k by linarith
  have t: "lg_outstanding t = int (card (dom (ops(p := None))))" "lh_n t = (if card (dom (ops(p := None))) = 0 then 0 else lh_n s)"
    using end_op_ctl [OF ends.hyps(2) sp(2)] sp(3) c by (simp_all del: dom_fun_upd)
  have "finite (dom (ops(p := None)))" using f by simp
  moreover have "lh_n t + reserved (ops(p := None)) \<le> LOGBLOCKS" "0 \<le> lh_n t"
    using t(2) z room sp(2) by (simp_all add: LOGBLOCKS_def MAXOPBLOCKS_def del: dom_fun_upd)
  ultimately show ?case using t(1) sp(4) by (simp only: log_space_def prod.case)
qed (auto simp: log_space_def log_ctl_def)

lemma log_reach_space: "log_step\<^sup>*\<^sup>* st st' \<Longrightarrow> log_space st \<Longrightarrow> log_space st'"
  by (induction rule: rtranclp_induct) (auto intro: log_step_space)

text \<open>An operation with blocks left finds room, and finds itself inside a transaction.\<close>

lemma log_space_room:
  assumes "log_space (s, ops)" "ops p = Some k" "int k < MAXOPBLOCKS"
  shows "lh_n s < LOGBLOCKS" "1 \<le> lg_outstanding s"
proof -
  have f: "finite (dom ops)" using assms(1) by (simp add: log_space_def)
  have "0 \<le> reserved (ops(p := None))" using assms(1) by (intro reserved_nonneg) (auto simp: log_space_def)
  then show "lh_n s < LOGBLOCKS" using reserved_old [OF f assms(2)] assms by (auto simp: log_space_def)
  have "0 < card (dom ops)" using f assms(2) by (auto simp: card_gt_0_iff)
  then show "1 \<le> lg_outstanding s" using assms(1) by (simp add: log_space_def)
qed

lemma lock_panics:
  "acquire lk s = Panic m \<Longrightarrow> m = ''acquire''"
  "release lk s = Panic m \<Longrightarrow> m \<in> {''release'', ''pop_off - interruptible'', ''pop_off''}"
  by (auto simp: acquire_def acquire_enter_def release_def release_note_def pop_off_def lock_exchange_def Let_def kbind_def split: if_splits outcome.splits)

lemma log_write_no_panic:
  fixes s :: "'z logst_scheme"
  assumes "lh_n s < LOGBLOCKS" "1 \<le> lg_outstanding s"
  shows "log_write b s \<notin> {Panic ''too big a transaction'', Panic ''log_write outside of trans''}"
proof (cases "acquire LogLk s")
  case (Ret x u)
  then have u: "lh_n u < LOGBLOCKS" "1 \<le> lg_outstanding u" using assms lock_ctl(1) [OF Ret] by (simp_all add: log_ctl_def)
  have "bpin b v = Panic m \<Longrightarrow> m \<in> {''acquire'', ''release'', ''pop_off - interruptible'', ''pop_off''}" for m and v :: "'z logst_scheme"
    by (auto simp: bpin_def kbind_def dest!: lock_panics split: outcome.splits)
  then show ?thesis using Ret u
    by (auto simp: log_write_def Let_def kbind_def dest!: lock_panics split: outcome.splits if_splits)
qed (auto simp: log_write_def dest!: lock_panics)

section \<open>The property\<close>

text \<open>
  C14. The log never overflows. Over every run of \<^verbatim>\<open>begin_op\<close> (at once, or after any number of
  sleeps), \<^verbatim>\<open>log_write\<close> and \<^verbatim>\<open>end_op\<close> by any processes, in which no operation logs more
  than \<^verbatim>\<open>MAXOPBLOCKS\<close> blocks: the blocks in the transaction and those the operations in progress
  may still log fit in the log, \<^verbatim>\<open>outstanding\<close> counts those operations, and an operation
  that has blocks left never makes \<^verbatim>\<open>log_write\<close> panic because the transaction is too big or
  because there is none.
\<close>

theorem log_never_overflows:
  assumes "log_space st" "log_step\<^sup>*\<^sup>* st (s, ops)"
  shows "lh_n s + (\<Sum>p \<in> dom ops. MAXOPBLOCKS - int (the (ops p))) \<le> LOGBLOCKS \<and> lg_outstanding s = int (card (dom ops)) \<and>
    (\<forall>p k b. ops p = Some k \<and> int k < MAXOPBLOCKS \<longrightarrow>
       log_write b s \<notin> {Panic ''too big a transaction'', Panic ''log_write outside of trans''})"
proof -
  have sp: "log_space (s, ops)" by (rule log_reach_space [OF assms(2,1)])
  then have "lh_n s + reserved ops \<le> LOGBLOCKS" "lg_outstanding s = int (card (dom ops))" by (simp_all add: log_space_def)
  then show ?thesis using log_write_no_panic log_space_room [OF sp] unfolding reserved_def by blast
qed

theorem log_never_overflows_witness:
  "\<exists>t. begin_op ((demo_log 1)\<lparr>lg_committing := False\<rparr>) = Ret () t \<and> lh_n t + 10 \<le> LOGBLOCKS \<and> lg_outstanding t = 1 \<and>
     log_write 0 t \<notin> {Panic ''too big a transaction'', Panic ''log_write outside of trans''}"
proof -
  let ?s = "(demo_log 1)\<lparr>lg_committing := False\<rparr>" and ?o = "Map.empty :: nat \<Rightarrow> nat option"
  have calm: "calm 0 ?s" using demo_calm by simp
  have n: "lh_n ?s = 1" "lg_outstanding ?s = 0" by (simp_all add: demo_log_def)
  then have b: "begin_op ?s = Ret () (?s\<lparr>lg_outstanding := 1\<rparr>)"
    using log_section(1,4) [OF calm] by (simp add: begin_op_def begin_op_loop_def LOGBLOCKS_def MAXOPBLOCKS_def)
  have sp: "log_space (?s, ?o)" using n by (simp add: log_space_def reserved_def LOGBLOCKS_def MAXOPBLOCKS_def)
  have "log_step (?s, ?o) (?s\<lparr>lg_outstanding := 1\<rparr>, ?o(0 \<mapsto> 0))" by (rule log_step.begins [OF _ b]) simp
  from log_never_overflows [OF sp r_into_rtranclp, OF this] b show ?thesis by (auto simp: MAXOPBLOCKS_def)
qed

end
