(* ===== verification/Vm.thy ===== *)
theory Vm
  imports Proc
begin

text \<open>
  Page tables and user memory: \<^verbatim>\<open>kernel/vm.c\<close>. Page tables live in physical memory, as
  in the code: a table is a page of 512 entries of eight bytes, and every function reads and
  writes them there.
\<close>

section \<open>Walking a page table\<close>

definition pte_addr :: "uint64 \<Rightarrow> nat \<Rightarrow> uint64 \<Rightarrow> uint64" where
  "pte_addr pt level va = pt + 8 * PX level va"

text \<open>One turn of the loop of \<^verbatim>\<open>walk\<close>: the next table, or nothing when the walk gives up.\<close>

definition walk_step :: "uint64 \<Rightarrow> nat \<Rightarrow> uint64 \<Rightarrow> bool \<Rightarrow> 'z kmem_scheme \<Rightarrow> (uint64 option, 'z kmem_scheme) outcome" where
  "walk_step pt level va alloc s =
     (let pte = pte_addr pt level va in
      if load64 (phys s) pte AND PTE_V \<noteq> 0 then Ret (Some (PTE2PA (load64 (phys s) pte))) s
      else if \<not> alloc then Ret None s
      else kbind (kalloc s) (\<lambda>pg s.
        if pg = 0 then Ret None s
        else
          let s = s\<lparr>phys := memset (phys s) pg 0 (unat PGSIZE)\<rparr>;
              s = s\<lparr>phys := store64 (phys s) pte (PA2PTE pg OR PTE_V)\<rparr>
          in Ret (Some pg) s))"

fun walk_loop :: "nat list \<Rightarrow> uint64 \<Rightarrow> uint64 \<Rightarrow> bool \<Rightarrow> 'z kmem_scheme \<Rightarrow> (uint64, 'z kmem_scheme) outcome" where
  "walk_loop [] pt va alloc s = Ret (pte_addr pt 0 va) s"
| "walk_loop (level # levels) pt va alloc s =
     kbind (walk_step pt level va alloc s) (\<lambda>r s.
       case r of None \<Rightarrow> Ret 0 s | Some pt' \<Rightarrow> walk_loop levels pt' va alloc s)"

definition walk :: "uint64 \<Rightarrow> uint64 \<Rightarrow> bool \<Rightarrow> 'z kmem_scheme \<Rightarrow> (uint64, 'z kmem_scheme) outcome" where
  "walk pt va alloc s = (if MAXVA \<le> va then Panic ''walk'' else walk_loop [2, 1] pt va alloc s)"

definition walkaddr :: "uint64 \<Rightarrow> uint64 \<Rightarrow> 'z kmem_scheme \<Rightarrow> (uint64, 'z kmem_scheme) outcome" where
  "walkaddr pt va s =
     (if MAXVA \<le> va then Ret 0 s
      else kbind (walk pt va False s) (\<lambda>pte s.
        if pte = 0 then Ret 0 s
        else if load64 (phys s) pte AND PTE_V = 0 then Ret 0 s
        else if load64 (phys s) pte AND PTE_U = 0 then Ret 0 s
        else Ret (PTE2PA (load64 (phys s) pte)) s))"

lemma walk_bound: "walk pt va alloc s = Ret r t \<Longrightarrow> va < MAXVA"
  by (auto simp: walk_def split: if_splits)

lemma MAXVA_unat [simp]: "unat MAXVA = 2 ^ 38"
  by (simp add: MAXVA_def push_bit_eq_mult)

lemma below_MAXVA_step: "a < MAXVA \<Longrightarrow> unat (a + PGSIZE) = unat a + 4096"
  by (simp add: word_less_nat_alt unat_word_ariths)

lemma page_step_measure:
  "a < MAXVA \<Longrightarrow> 274877911040 - unat (a + PGSIZE) < 274877911040 - unat a"
  by (simp add: below_MAXVA_step) (simp add: word_less_nat_alt)

section \<open>Mapping and unmapping\<close>

text \<open>
  The loops step by a page. An address past the user address space makes \<^verbatim>\<open>walk\<close> panic,
  so every one of them ends.
\<close>

function mappages_loop :: "uint64 \<Rightarrow> uint64 \<Rightarrow> uint64 \<Rightarrow> uint64 \<Rightarrow> uint64 \<Rightarrow> 'z kmem_scheme \<Rightarrow> (int, 'z kmem_scheme) outcome" where
  "mappages_loop pt a last_a pa perm s =
     kbind (walk pt a True s) (\<lambda>pte s.
       if pte = 0 then Ret (- 1) s
       else if load64 (phys s) pte AND PTE_V \<noteq> 0 then Panic ''mappages: remap''
       else
         let s = s\<lparr>phys := store64 (phys s) pte (PA2PTE pa OR perm OR PTE_V)\<rparr>
         in if a = last_a then Ret 0 s
            else mappages_loop pt (a + PGSIZE) last_a (pa + PGSIZE) perm s)"
  by pat_completeness auto
termination
  by (relation "measure (\<lambda>(pt, a, last_a, pa, perm, s). 274877911040 - unat a)")
    (auto dest!: walk_bound intro!: page_step_measure)

declare mappages_loop.simps [simp del]

definition mappages :: "uint64 \<Rightarrow> uint64 \<Rightarrow> uint64 \<Rightarrow> uint64 \<Rightarrow> uint64 \<Rightarrow> 'z kmem_scheme \<Rightarrow> (int, 'z kmem_scheme) outcome" where
  "mappages pt va sz_b pa perm s =
     (if va mod PGSIZE \<noteq> 0 then Panic ''mappages: va not aligned''
      else if sz_b mod PGSIZE \<noteq> 0 then Panic ''mappages: size not aligned''
      else if sz_b = 0 then Panic ''mappages: size''
      else mappages_loop pt va (va + sz_b - PGSIZE) pa perm s)"

definition kvmmap :: "uint64 \<Rightarrow> uint64 \<Rightarrow> uint64 \<Rightarrow> uint64 \<Rightarrow> uint64 \<Rightarrow> 'z kmem_scheme \<Rightarrow> (unit, 'z kmem_scheme) outcome" where
  "kvmmap kpgtbl va pa sz_b perm s =
     kbind (mappages kpgtbl va sz_b pa perm s) (\<lambda>r s. if r \<noteq> 0 then Panic ''kvmmap'' else Ret () s)"

definition uvmcreate :: "'z kmem_scheme \<Rightarrow> (uint64, 'z kmem_scheme) outcome" where
  "uvmcreate s =
     kbind (kalloc s) (\<lambda>pt s.
       if pt = 0 then Ret 0 s
       else Ret pt (s\<lparr>phys := memset (phys s) pt 0 (unat PGSIZE)\<rparr>))"

definition uvmunmap_page :: "uint64 \<Rightarrow> uint64 \<Rightarrow> bool \<Rightarrow> 'z kmem_scheme \<Rightarrow> (unit, 'z kmem_scheme) outcome" where
  "uvmunmap_page pt a do_free s =
     kbind (walk pt a False s) (\<lambda>pte s.
       if pte = 0 then Ret () s
       else if load64 (phys s) pte AND PTE_V = 0 then Ret () s
       else kbind (if do_free then kfree (PTE2PA (load64 (phys s) pte)) s else Ret () s) (\<lambda>_ s.
         Ret () (s\<lparr>phys := store64 (phys s) pte 0\<rparr>)))"

lemma uvmunmap_page_bound: "uvmunmap_page pt a f s = Ret r t \<Longrightarrow> a < MAXVA"
  by (auto simp: uvmunmap_page_def kbind_eq_Ret dest: walk_bound)

function uvmunmap_loop :: "uint64 \<Rightarrow> uint64 \<Rightarrow> uint64 \<Rightarrow> bool \<Rightarrow> 'z kmem_scheme \<Rightarrow> (unit, 'z kmem_scheme) outcome" where
  "uvmunmap_loop pt a end_a do_free s =
     (if a < end_a then
        kbind (uvmunmap_page pt a do_free s) (\<lambda>_ s. uvmunmap_loop pt (a + PGSIZE) end_a do_free s)
      else Ret () s)"
  by pat_completeness auto
termination
  by (relation "measure (\<lambda>(pt, a, e, f, s). 274877911040 - unat a)")
    (auto dest!: uvmunmap_page_bound intro!: page_step_measure)

declare uvmunmap_loop.simps [simp del]

definition uvmunmap :: "uint64 \<Rightarrow> uint64 \<Rightarrow> uint64 \<Rightarrow> bool \<Rightarrow> 'z kmem_scheme \<Rightarrow> (unit, 'z kmem_scheme) outcome" where
  "uvmunmap pt va npages do_free s =
     (if va mod PGSIZE \<noteq> 0 then Panic ''uvmunmap: not aligned''
      else uvmunmap_loop pt va (va + npages * PGSIZE) do_free s)"

text \<open>The page count passes through a C \<^verbatim>\<open>int\<close> on its way to \<^verbatim>\<open>uvmunmap\<close>.\<close>

definition uvmdealloc :: "uint64 \<Rightarrow> uint64 \<Rightarrow> uint64 \<Rightarrow> 'z kmem_scheme \<Rightarrow> (uint64, 'z kmem_scheme) outcome" where
  "uvmdealloc pt oldsz newsz s =
     (if oldsz \<le> newsz then Ret oldsz s
      else
        kbind (if PGROUNDUP newsz < PGROUNDUP oldsz then
                 let npages = c_int (uint ((PGROUNDUP oldsz - PGROUNDUP newsz) div PGSIZE))
                 in uvmunmap pt (PGROUNDUP newsz) (word_of_int npages) True s
               else Ret () s) (\<lambda>_ s.
        Ret newsz s))"

lemma mappages_bound: "mappages pt va sz_b pa perm s = Ret r t \<Longrightarrow> va < MAXVA"
  by (subst (asm) mappages_def, subst (asm) mappages_loop.simps)
    (auto simp: kbind_eq_Ret dest: walk_bound split: if_splits)

function uvmalloc_loop :: "uint64 \<Rightarrow> uint64 \<Rightarrow> uint64 \<Rightarrow> uint64 \<Rightarrow> uint64 \<Rightarrow> 'z kmem_scheme \<Rightarrow> (uint64, 'z kmem_scheme) outcome" where
  "uvmalloc_loop pt a oldsz newsz xperm s =
     (if a < newsz then
        kbind (kalloc s) (\<lambda>mem s.
          if mem = 0 then kbind (uvmdealloc pt a oldsz s) (\<lambda>_ s. Ret 0 s)
          else
            let s = s\<lparr>phys := memset (phys s) mem 0 (unat PGSIZE)\<rparr>
            in kbind (mappages pt a PGSIZE mem (PTE_R OR PTE_U OR xperm) s) (\<lambda>r s.
                 if r \<noteq> 0 then
                   kbind (kfree mem s) (\<lambda>_ s.
                   kbind (uvmdealloc pt a oldsz s) (\<lambda>_ s. Ret 0 s))
                 else uvmalloc_loop pt (a + PGSIZE) oldsz newsz xperm s))
      else Ret newsz s)"
  by pat_completeness auto
termination
  by (relation "measure (\<lambda>(pt, a, os, ns, x, s). 274877911040 - unat a)")
    (auto dest!: mappages_bound intro!: page_step_measure)

declare uvmalloc_loop.simps [simp del]

definition uvmalloc :: "uint64 \<Rightarrow> uint64 \<Rightarrow> uint64 \<Rightarrow> uint64 \<Rightarrow> 'z kmem_scheme \<Rightarrow> (uint64, 'z kmem_scheme) outcome" where
  "uvmalloc pt oldsz newsz xperm s =
     (if newsz < oldsz then Ret oldsz s
      else uvmalloc_loop pt (PGROUNDUP oldsz) (PGROUNDUP oldsz) newsz xperm s)"

text \<open>
  \<^verbatim>\<open>freewalk\<close> recurses from a table into the tables it points to. The first argument
  bounds the depth: tables of the three levels the hardware walks are freed with the value 3,
  and a chain of tables deeper than that does not return.
\<close>

fun freewalk_depth :: "nat \<Rightarrow> uint64 \<Rightarrow> 'z kmem_scheme \<Rightarrow> (unit, 'z kmem_scheme) outcome" where
  "freewalk_depth 0 pt s = Spin"
| "freewalk_depth (Suc d) pt s =
     kbind (kfor (\<lambda>i s.
       let pte = load64 (phys s) (pt + 8 * of_nat i) in
       if pte AND PTE_V \<noteq> 0 \<and> pte AND (PTE_R OR PTE_W OR PTE_X) = 0 then
         kbind (freewalk_depth d (PTE2PA pte) s) (\<lambda>_ s.
           Ret () (s\<lparr>phys := store64 (phys s) (pt + 8 * of_nat i) 0\<rparr>))
       else if pte AND PTE_V \<noteq> 0 then Panic ''freewalk: leaf''
       else Ret () s) [0..<512] s) (\<lambda>_ s. kfree pt s)"

definition freewalk :: "uint64 \<Rightarrow> 'z kmem_scheme \<Rightarrow> (unit, 'z kmem_scheme) outcome" where
  "freewalk pt s = freewalk_depth 3 pt s"

definition uvmfree :: "uint64 \<Rightarrow> uint64 \<Rightarrow> 'z kmem_scheme \<Rightarrow> (unit, 'z kmem_scheme) outcome" where
  "uvmfree pt sz_b s =
     kbind (if 0 < sz_b then uvmunmap pt 0 (PGROUNDUP sz_b div PGSIZE) True s else Ret () s) (\<lambda>_ s.
     freewalk pt s)"

text \<open>
  The loop of \<^verbatim>\<open>uvmcopy\<close> on one page: done with it, or the error exit of the function.
\<close>

definition uvmcopy_page :: "uint64 \<Rightarrow> uint64 \<Rightarrow> uint64 \<Rightarrow> 'z kmem_scheme \<Rightarrow> (bool, 'z kmem_scheme) outcome" where
  "uvmcopy_page old new i s =
     kbind (walk old i False s) (\<lambda>pte s.
       if pte = 0 then Ret True s
       else if load64 (phys s) pte AND PTE_V = 0 then Ret True s
       else
         let pa = PTE2PA (load64 (phys s) pte);
             flags = PTE_FLAGS (load64 (phys s) pte)
         in kbind (kalloc s) (\<lambda>mem s.
              if mem = 0 then Ret False s
              else
                let s = s\<lparr>phys := memmove (phys s) mem pa (ucast PGSIZE)\<rparr>
                in kbind (mappages new i PGSIZE mem flags s) (\<lambda>r s.
                     if r \<noteq> 0 then kbind (kfree mem s) (\<lambda>_ s. Ret False s)
                     else Ret True s)))"

lemma uvmcopy_page_bound: "uvmcopy_page old new i s = Ret r t \<Longrightarrow> i < MAXVA"
  by (auto simp: uvmcopy_page_def kbind_eq_Ret dest: walk_bound)

function uvmcopy_loop :: "uint64 \<Rightarrow> uint64 \<Rightarrow> uint64 \<Rightarrow> uint64 \<Rightarrow> 'z kmem_scheme \<Rightarrow> (int, 'z kmem_scheme) outcome" where
  "uvmcopy_loop old new sz_b i s =
     (if i < sz_b then
        kbind (uvmcopy_page old new i s) (\<lambda>ok s.
          if ok then uvmcopy_loop old new sz_b (i + PGSIZE) s
          else kbind (uvmunmap new 0 (i div PGSIZE) True s) (\<lambda>_ s. Ret (- 1) s))
      else Ret 0 s)"
  by pat_completeness auto
termination
  by (relation "measure (\<lambda>(old, new, sz, i, s). 274877911040 - unat i)")
    (auto dest!: uvmcopy_page_bound intro!: page_step_measure)

declare uvmcopy_loop.simps [simp del]

definition uvmcopy :: "uint64 \<Rightarrow> uint64 \<Rightarrow> uint64 \<Rightarrow> 'z kmem_scheme \<Rightarrow> (int, 'z kmem_scheme) outcome" where
  "uvmcopy old new sz_b s = uvmcopy_loop old new sz_b 0 s"

definition uvmclear :: "uint64 \<Rightarrow> uint64 \<Rightarrow> 'z kmem_scheme \<Rightarrow> (unit, 'z kmem_scheme) outcome" where
  "uvmclear pt va s =
     kbind (walk pt va False s) (\<lambda>pte s.
       if pte = 0 then Panic ''uvmclear''
       else Ret () (s\<lparr>phys := store64 (phys s) pte (load64 (phys s) pte AND NOT PTE_U)\<rparr>))"

section \<open>Lazily allocated memory and copies\<close>

definition ismapped :: "uint64 \<Rightarrow> uint64 \<Rightarrow> 'z kmem_scheme \<Rightarrow> (bool, 'z kmem_scheme) outcome" where
  "ismapped pt va s =
     kbind (walk pt va False s) (\<lambda>pte s.
       if pte = 0 then Ret False s else Ret (load64 (phys s) pte AND PTE_V \<noteq> 0) s)"

definition vmfault :: "uint64 \<Rightarrow> uint64 \<Rightarrow> bool \<Rightarrow> 'z procs_scheme \<Rightarrow> (uint64, 'z procs_scheme) outcome" where
  "vmfault pt va rd s =
     kbind (curproc s) (\<lambda>p s.
       if sz (proc s p) \<le> va then Ret 0 s
       else
         let va = PGROUNDDOWN va in
         kbind (ismapped pt va s) (\<lambda>b s.
           if b then Ret 0 s
           else kbind (kalloc s) (\<lambda>mem s.
             if mem = 0 then Ret 0 s
             else
               let s = s\<lparr>phys := memset (phys s) mem 0 (unat PGSIZE)\<rparr>
               in kbind (mappages (pagetable (proc s p)) va PGSIZE mem (PTE_W OR PTE_U OR PTE_R) s) (\<lambda>r s.
                    if r \<noteq> 0 then kbind (kfree mem s) (\<lambda>_ s. Ret 0 s)
                    else Ret mem s))))"

text \<open>
  Copies between user memory and an array of the kernel. The array is a function from offsets
  to bytes; \<^verbatim>\<open>copyin\<close> and \<^verbatim>\<open>copyinstr\<close> return it updated. A null entry pointer would
  be read through, which traps.
\<close>

function copyout :: "uint64 \<Rightarrow> uint64 \<Rightarrow> bytes \<Rightarrow> nat \<Rightarrow> uint64 \<Rightarrow> 'z procs_scheme \<Rightarrow> (int, 'z procs_scheme) outcome" where
  "copyout pt dstva src off len s =
     (if 0 < len then
        let va0 = PGROUNDDOWN dstva in
        if MAXVA \<le> va0 then Ret (- 1) s
        else
          kbind (walkaddr pt va0 s) (\<lambda>pa0 s.
          kbind (if pa0 = 0 then vmfault pt va0 False s else Ret pa0 s) (\<lambda>pa0 s.
            if pa0 = 0 then Ret (- 1) s
            else
              kbind (walk pt va0 False s) (\<lambda>pte s.
                if pte = 0 then Panic ''kerneltrap''
                else if load64 (phys s) pte AND PTE_W = 0 then Ret (- 1) s
                else
                  let n = page_chunk dstva len;
                      s = s\<lparr>phys := store_bytes (phys s) (pa0 + (dstva - va0)) src off (unat n)\<rparr>
                  in copyout pt (va0 + PGSIZE) src (off + unat n) (len - n) s)))
      else Ret 0 s)"
  by pat_completeness auto
termination
  by (relation "measure (\<lambda>(pt, d, src, off, len, s). unat len)") (auto simp: page_chunk_less)

declare copyout.simps [simp del]

function copyin :: "uint64 \<Rightarrow> bytes \<Rightarrow> nat \<Rightarrow> uint64 \<Rightarrow> uint64 \<Rightarrow> 'z procs_scheme \<Rightarrow> (int \<times> bytes, 'z procs_scheme) outcome" where
  "copyin pt dst off srcva len s =
     (if 0 < len then
        let va0 = PGROUNDDOWN srcva in
        kbind (walkaddr pt va0 s) (\<lambda>pa0 s.
        kbind (if pa0 = 0 then vmfault pt va0 False s else Ret pa0 s) (\<lambda>pa0 s.
          if pa0 = 0 then Ret (- 1, dst) s
          else
            let n = page_chunk srcva len;
                dst = load_bytes dst off (phys s) (pa0 + (srcva - va0)) (unat n)
            in copyin pt dst (off + unat n) (va0 + PGSIZE) (len - n) s))
      else Ret (0, dst) s)"
  by pat_completeness auto
termination
  by (relation "measure (\<lambda>(pt, d, off, a, len, s). unat len)") (auto simp: page_chunk_less)

declare copyin.simps [simp del]

text \<open>
  The inner loop of \<^verbatim>\<open>copyinstr\<close>: the array, and whether the terminating zero was met.
\<close>

fun copyinstr_page :: "bytes \<Rightarrow> nat \<Rightarrow> physmem \<Rightarrow> uint64 \<Rightarrow> nat \<Rightarrow> bytes \<times> bool" where
  "copyinstr_page dst off m p 0 = (dst, False)"
| "copyinstr_page dst off m p (Suc n) =
     (if m p = 0 then (dst(off := 0), True)
      else copyinstr_page (dst(off := m p)) (Suc off) m (p + 1) n)"

function copyinstr :: "uint64 \<Rightarrow> bytes \<Rightarrow> nat \<Rightarrow> uint64 \<Rightarrow> uint64 \<Rightarrow> 'z kmem_scheme \<Rightarrow> (int \<times> bytes, 'z kmem_scheme) outcome" where
  "copyinstr pt dst off srcva mx s =
     (if 0 < mx then
        let va0 = PGROUNDDOWN srcva in
        kbind (walkaddr pt va0 s) (\<lambda>pa0 s.
          if pa0 = 0 then Ret (- 1, dst) s
          else
            let n = page_chunk srcva mx in
            case copyinstr_page dst off (phys s) (pa0 + (srcva - va0)) (unat n) of (dst, got_null) \<Rightarrow>
              if got_null then Ret (0, dst) s
              else copyinstr pt dst (off + unat n) (va0 + PGSIZE) (mx - n) s)
      else Ret (- 1, dst) s)"
  by pat_completeness auto
termination
  by (relation "measure (\<lambda>(pt, d, off, a, mx, s). unat mx)") (auto simp: page_chunk_less)

declare copyinstr.simps [simp del]

section \<open>Page tables as trees\<close>

lemma apart_unat:
  assumes "unat a + n \<le> unat b" "unat b + k \<le> 2 ^ 64"
  shows "apart a n b k"
  unfolding apart_def
proof (intro allI notI)
  fix x :: uint64
  assume x: "unat (x - a) < n \<and> unat (x - b) < k"
  show False
  proof (cases "unat a \<le> unat x")
    case True
    then have "unat (x - a) = unat x - unat a" by (simp add: unat_sub_if')
    then have "unat x < unat a + n" using x True by linarith
    then have "unat x < unat b" using assms(1) by simp
    then have "unat (x - b) = unat x + 2 ^ 64 - unat b" by (simp add: unat_sub_if')
    with x assms(2) unat_lt_2p [of b] show False by simp linarith
  next
    case False
    then have "unat (x - a) = unat x + 2 ^ 64 - unat a" by (simp add: unat_sub_if')
    with x assms False unat_lt_2p [of a] show False by simp linarith
  qed
qed

lemma PX_less: "unat (PX level va) < 512"
proof -
  have "PX level va = take_bit 9 (drop_bit (PXSHIFT level) va)"
    by (simp add: PX_def take_bit_eq_mask mask_eq_exp_minus_1)
  then have "unat (PX level va) = take_bit 9 (unat (drop_bit (PXSHIFT level) va))"
    by (simp only: unsigned_take_bit_eq)
  also have "\<dots> < 2 ^ 9" by (rule take_bit_nat_less_exp)
  finally show ?thesis by simp
qed

definition entry :: "uint64 \<Rightarrow> nat \<Rightarrow> uint64" where
  "entry p i = p + 8 * of_nat i"

lemma pte_addr_entry: "pte_addr pt level va = entry pt (unat (PX level va))"
  by (simp add: pte_addr_def entry_def)

lemma unat_entry:
  assumes "aligned p" "i < 512"
  shows "unat (entry p i) = unat p + 8 * i"
proof -
  have "unat p \<le> 2 ^ 64 - 4096" by (rule aligned_unat_le [OF assms(1)])
  with assms(2) show ?thesis by (simp add: entry_def unat_word_ariths unat_of_nat)
qed

lemma entries_apart:
  assumes "aligned p" "aligned q" "i < 512" "j < 512" "(p, i) \<noteq> (q, j)"
  shows "apart (entry p i) 8 (entry q j) 8"
proof -
  note e = unat_entry [OF assms(1,3)] unat_entry [OF assms(2,4)]
  have b: "unat p \<le> 2 ^ 64 - 4096" "unat q \<le> 2 ^ 64 - 4096" using aligned_unat_le assms(1,2) by blast+
  obtain k l where k: "unat p = 4096 * k" and l: "unat q = 4096 * l"
    using assms(1,2) by (auto elim!: alignedE)
  have "k = l \<Longrightarrow> p = q" using k l word_unat_eq_iff [of p q] by simp
  with assms(5) consider "k < l" | "l < k" | "k = l" "i < j" | "k = l" "j < i"
    by (metis linorder_neqE_nat)
  then have "unat (entry p i) + 8 \<le> unat (entry q j) \<or> unat (entry q j) + 8 \<le> unat (entry p i)"
    by cases (use e k l assms(3,4) in linarith)+
  then show ?thesis
  proof
    assume "unat (entry p i) + 8 \<le> unat (entry q j)"
    then show ?thesis by (rule apart_unat) (use e b assms in simp)
  next
    assume "unat (entry q j) + 8 \<le> unat (entry p i)"
    then have "apart (entry q j) 8 (entry p i) 8" by (rule apart_unat) (use e b assms in simp)
    then show ?thesis by (simp add: apart_commute)
  qed
qed

lemma load_store_entry:
  assumes "aligned p" "aligned q" "i < 512" "j < 512"
  shows "load64 (store64 m (entry p i) v) (entry q j) = (if p = q \<and> i = j then v else load64 m (entry q j))"
  using assms by (auto intro!: load64_store64_apart entries_apart)

lemma entry_in_page:
  assumes "aligned q" "j < 512" "x - entry q j < 8"
  shows "unat (x - q) < 4096"
proof -
  have "x - q = (x - entry q j) + of_nat (8 * j)" by (simp add: entry_def)
  then have "unat (x - q) = unat ((x - entry q j) + of_nat (8 * j))" by (rule arg_cong)
  moreover have "unat (x - entry q j) < 8" using assms(3) by (simp add: word_less_nat_alt)
  moreover have "unat (of_nat (8 * j) :: uint64) = 8 * j" by (rule unat_of_nat_lt) (use assms(2) in simp)
  ultimately show ?thesis using assms(2) by (simp only: unat_word_ariths) simp
qed

lemma load_memset_entry:
  assumes "aligned q" "j < 512" "aligned x"
  shows "load64 (memset m x c 4096) (entry q j) =
     (if x = q then load64 (\<lambda>_. word_of_int c) (entry q j) else load64 m (entry q j))"
proof (cases "x = q")
  case True
  then show ?thesis
    using entry_in_page [OF assms(1,2)] by (auto intro!: load64_cong simp: memset_word)
next
  case False
  have "4096 \<le> unat (y - x)" if "y - entry q j < 8" for y
  proof -
    have "page_of y = page_of q" using entry_in_page [OF assms(1,2) that] in_page_iff [OF assms(1)] by simp
    then have "page_of y \<noteq> page_of x" using False assms by (simp add: aligned_page_inj)
    then show ?thesis using in_page_iff [OF assms(3), of y] by simp
  qed
  then have "load64 (memset m x c 4096) (entry q j) = load64 m (entry q j)"
    by (intro load64_cong memset_page_far)
  with False show ?thesis by simp
qed

lemma load64_zero: "load64 (\<lambda>_. 0) a = 0"
proof -
  have "le_load n (\<lambda>_. 0) = (0 :: uint64)" for n by (induction n) auto
  then show ?thesis by (simp add: load64_def)
qed
end
