(* ===== verification/ProcMem.thy ===== *)
theory ProcMem
  imports Vm
begin

text \<open>
  The memory of processes: the kernel page table of \<^verbatim>\<open>kernel/vm.c\<close>, and from
  \<^verbatim>\<open>kernel/proc.c\<close> the allocation of a process, its page table, its growth and its release.
\<close>

section \<open>The kernel page table\<close>

definition proc_mapstacks :: "uint64 \<Rightarrow> 'z procs_scheme \<Rightarrow> (unit, 'z procs_scheme) outcome" where
  "proc_mapstacks kpgtbl s =
     kfor (\<lambda>i s.
       kbind (kalloc s) (\<lambda>pa s.
         if pa = 0 then Panic ''kalloc''
         else kvmmap kpgtbl (KSTACK i) pa PGSIZE (PTE_R OR PTE_W) s)) [0..<NPROC] s"

definition kvmmake :: "'z procs_scheme \<Rightarrow> (uint64, 'z procs_scheme) outcome" where
  "kvmmake s =
     kbind (kalloc s) (\<lambda>kpgtbl s.
       let s = s\<lparr>phys := memset (phys s) kpgtbl 0 (unat PGSIZE)\<rparr>;
           et = etext (syms s)
       in
       kbind (kvmmap kpgtbl UART0 UART0 PGSIZE (PTE_R OR PTE_W) s) (\<lambda>_ s.
       kbind (kvmmap kpgtbl VIRTIO0 VIRTIO0 PGSIZE (PTE_R OR PTE_W) s) (\<lambda>_ s.
       kbind (kvmmap kpgtbl PLIC PLIC 0x4000000 (PTE_R OR PTE_W) s) (\<lambda>_ s.
       kbind (kvmmap kpgtbl KERNBASE KERNBASE (et - KERNBASE) (PTE_R OR PTE_X) s) (\<lambda>_ s.
       kbind (kvmmap kpgtbl et et (PHYSTOP - et) (PTE_R OR PTE_W) s) (\<lambda>_ s.
       kbind (kvmmap kpgtbl TRAMPOLINE (trampoline (syms s)) PGSIZE (PTE_R OR PTE_X) s) (\<lambda>_ s.
       kbind (proc_mapstacks kpgtbl s) (\<lambda>_ s.
       Ret kpgtbl s))))))))"

definition kvminit :: "'z procs_scheme \<Rightarrow> (unit, 'z procs_scheme) outcome" where
  "kvminit s = kbind (kvmmake s) (\<lambda>kpgtbl s. Ret () (s\<lparr>kernel_pagetable := kpgtbl\<rparr>))"

definition kvminithart :: "'z procs_scheme \<Rightarrow> 'z procs_scheme" where
  "kvminithart s = s\<lparr>satp := (satp s)(hart s := MAKE_SATP (kernel_pagetable s))\<rparr>"

section \<open>User page tables\<close>

definition proc_pagetable :: "nat \<Rightarrow> 'z procs_scheme \<Rightarrow> (uint64, 'z procs_scheme) outcome" where
  "proc_pagetable p s =
     kbind (uvmcreate s) (\<lambda>pt s.
       if pt = 0 then Ret 0 s
       else
         kbind (mappages pt TRAMPOLINE PGSIZE (trampoline (syms s)) (PTE_R OR PTE_X) s) (\<lambda>r s.
           if r < 0 then kbind (uvmfree pt 0 s) (\<lambda>_ s. Ret 0 s)
           else
             kbind (mappages pt TRAPFRAME PGSIZE (trapframe (proc s p)) (PTE_R OR PTE_W) s) (\<lambda>r s.
               if r < 0 then
                 kbind (uvmunmap pt TRAMPOLINE 1 False s) (\<lambda>_ s.
                 kbind (uvmfree pt 0 s) (\<lambda>_ s. Ret 0 s))
               else Ret pt s)))"

definition proc_freepagetable :: "uint64 \<Rightarrow> uint64 \<Rightarrow> 'z kmem_scheme \<Rightarrow> (unit, 'z kmem_scheme) outcome" where
  "proc_freepagetable pt sz_b s =
     kbind (uvmunmap pt TRAMPOLINE 1 False s) (\<lambda>_ s.
     kbind (uvmunmap pt TRAPFRAME 1 False s) (\<lambda>_ s.
     uvmfree pt sz_b s))"

section \<open>Allocating and freeing a process\<close>

definition freeproc :: "nat \<Rightarrow> 'z procs_scheme \<Rightarrow> (unit, 'z procs_scheme) outcome" where
  "freeproc p s =
     kbind (if trapframe (proc s p) \<noteq> 0 then kfree (trapframe (proc s p)) s else Ret () s) (\<lambda>_ s.
       let s = set_proc p (\<lambda>q. q\<lparr>trapframe := 0\<rparr>) s in
       kbind (if pagetable (proc s p) \<noteq> 0
              then proc_freepagetable (pagetable (proc s p)) (sz (proc s p)) s else Ret () s) (\<lambda>_ s.
         Ret () (set_proc p (\<lambda>q. q\<lparr>pagetable := 0, sz := 0, pid := 0, parent := None,
           pname := (pname q)(0 := 0), pchan := NoChan, killed_flag := 0, xstate := 0,
           pstate := UNUSED\<rparr>) s)))"

definition zero_context :: swtch_context where
  "zero_context = \<lparr>ctx_ra = 0, ctx_sp = 0, ctx_s = (\<lambda>_. 0)\<rparr>"

text \<open>The search for a free entry, which leaves its lock held, and then the rest.\<close>

definition allocproc_scan :: "nat \<Rightarrow> 'z procs_scheme \<Rightarrow> (nat option, 'z procs_scheme) outcome" where
  "allocproc_scan i s =
     kbind (acquire (ProcLk i) s) (\<lambda>_ s.
       if pstate (proc s i) = UNUSED then Ret (Some i) s
       else kbind (release (ProcLk i) s) (\<lambda>_ s. Ret None s))"

definition allocproc_found :: "nat \<Rightarrow> 'z procs_scheme \<Rightarrow> (nat option, 'z procs_scheme) outcome" where
  "allocproc_found p s =
     kbind (allocpid s) (\<lambda>n s.
       let s = set_proc p (\<lambda>q. q\<lparr>pid := n\<rparr>) s;
           s = set_proc p (\<lambda>q. q\<lparr>pstate := USED\<rparr>) s
       in
       kbind (kalloc s) (\<lambda>tf s.
         let s = set_proc p (\<lambda>q. q\<lparr>trapframe := tf\<rparr>) s in
         if tf = 0 then
           kbind (freeproc p s) (\<lambda>_ s. kbind (release (ProcLk p) s) (\<lambda>_ s. Ret None s))
         else
           kbind (proc_pagetable p s) (\<lambda>pt s.
             let s = set_proc p (\<lambda>q. q\<lparr>pagetable := pt\<rparr>) s in
             if pt = 0 then
               kbind (freeproc p s) (\<lambda>_ s. kbind (release (ProcLk p) s) (\<lambda>_ s. Ret None s))
             else
               let s = set_proc p (\<lambda>q. q\<lparr>pcontext := zero_context\<rparr>) s;
                   s = set_proc p (\<lambda>q. q\<lparr>pcontext := (pcontext q)\<lparr>ctx_ra := forkret_addr (syms s)\<rparr>\<rparr>) s;
                   s = set_proc p (\<lambda>q. q\<lparr>pcontext := (pcontext q)\<lparr>ctx_sp := kstack q + PGSIZE\<rparr>\<rparr>) s
               in Ret (Some p) s)))"

definition allocproc :: "'z procs_scheme \<Rightarrow> (nat option, 'z procs_scheme) outcome" where
  "allocproc s =
     kbind (kfirst allocproc_scan [0..<NPROC] s) (\<lambda>r s.
       case r of None \<Rightarrow> Ret None s | Some p \<Rightarrow> allocproc_found p s)"

definition growproc :: "int \<Rightarrow> 'z procs_scheme \<Rightarrow> (int, 'z procs_scheme) outcome" where
  "growproc n s =
     kbind (curproc s) (\<lambda>p s.
       let sz0 = sz (proc s p); pt = pagetable (proc s p) in
       if 0 < n then
         if TRAPFRAME < sz0 + word_of_int n then Ret (- 1) s
         else
           kbind (uvmalloc pt sz0 (sz0 + word_of_int n) PTE_W s) (\<lambda>sz1 s.
             if sz1 = 0 then Ret (- 1) s
             else Ret 0 (set_proc p (\<lambda>q. q\<lparr>sz := sz1\<rparr>) s))
       else if n < 0 then
         kbind (uvmdealloc pt sz0 (sz0 + word_of_int n) s) (\<lambda>sz1 s.
           Ret 0 (set_proc p (\<lambda>q. q\<lparr>sz := sz1\<rparr>) s))
       else Ret 0 (set_proc p (\<lambda>q. q\<lparr>sz := sz0\<rparr>) s))"

section \<open>Copies to either space\<close>

text \<open>
  The other end of a copy: a user address, a physical address of the kernel, or an offset in an
  array of a kernel structure. The array travels along and comes back updated.
\<close>

datatype xloc = UserVA uint64 | PhysA uint64 | KObj nat

definition either_copyout :: "xloc \<Rightarrow> bytes \<Rightarrow> nat \<Rightarrow> uint64 \<Rightarrow> bytes \<Rightarrow> 'z procs_scheme \<Rightarrow> (int \<times> bytes, 'z procs_scheme) outcome" where
  "either_copyout dst src off len obj s =
     (case dst of
        UserVA a \<Rightarrow> kbind (curproc s) (\<lambda>p s.
          kbind (copyout (pagetable (proc s p)) a src off len s) (\<lambda>r s. Ret (r, obj) s))
      | PhysA a \<Rightarrow> kbind (myproc s) (\<lambda>_ s.
          Ret (0, obj) (s\<lparr>phys := store_bytes (phys s) a src off (unat len)\<rparr>))
      | KObj d \<Rightarrow> kbind (myproc s) (\<lambda>_ s.
          Ret (0, \<lambda>i. if d \<le> i \<and> i < d + unat len then src (off + (i - d)) else obj i) s))"

definition either_copyin :: "bytes \<Rightarrow> nat \<Rightarrow> xloc \<Rightarrow> uint64 \<Rightarrow> bytes \<Rightarrow> 'z procs_scheme \<Rightarrow> (int \<times> bytes, 'z procs_scheme) outcome" where
  "either_copyin dst off src len obj s =
     (case src of
        UserVA a \<Rightarrow> kbind (curproc s) (\<lambda>p s. copyin (pagetable (proc s p)) dst off a len s)
      | PhysA a \<Rightarrow> kbind (myproc s) (\<lambda>_ s. Ret (0, load_bytes dst off (phys s) a (unat len)) s)
      | KObj d \<Rightarrow> kbind (myproc s) (\<lambda>_ s.
          Ret (0, \<lambda>i. if off \<le> i \<and> i < off + unat len then obj (d + (i - off)) else dst i) s))"

end
