(* ===== verification/Fs.thy ===== *)
theory Fs
  imports Log ProcMem
begin

text \<open>
  The file system on top of the log: \<^verbatim>\<open>kernel/fs.c\<close>. Blocks and their bitmap, inodes and
  the table of them in memory, file contents, directories and path names. An inode pointer is an
  index of the table, a null pointer is \<^const>\<open>None\<close>; the structures on disk are laid over
  the bytes of a block. The C type \<^verbatim>\<open>short\<close> is an \<^typ>\<open>int\<close> wrapped to 16 bits.
\<close>

section \<open>State\<close>

definition ROOTINO :: uint32 where "ROOTINO = 1"
definition FSMAGIC :: uint32 where "FSMAGIC = 0x10203040"
definition NDIRECT :: nat where "NDIRECT = 12"
definition NINDIRECT :: nat where "NINDIRECT = 256"
definition MAXFILE :: nat where "MAXFILE = NDIRECT + NINDIRECT"
definition IPB :: uint32 where "IPB = 16"
definition BPB :: nat where "BPB = 8192"
definition DIRSIZ :: nat where "DIRSIZ = 14"

definition T_DIR :: int where "T_DIR = 1"
definition T_FILE :: int where "T_FILE = 2"
definition T_DEVICE :: int where "T_DEVICE = 3"

definition c_short :: "int \<Rightarrow> int" where
  "c_short x = signed_take_bit 15 x"

record superblock =
  sb_magic :: uint32
  sb_size :: uint32
  sb_nblocks :: uint32
  sb_ninodes :: uint32
  sb_nlog :: uint32
  sb_logstart :: uint32
  sb_inodestart :: uint32
  sb_bmapstart :: uint32

record inode =
  i_dev :: uint32
  i_inum :: uint32
  i_ref :: int
  i_valid :: bool
  i_type :: int
  i_major :: int
  i_minor :: int
  i_nlink :: int
  i_size :: uint32
  i_addrs :: "nat \<Rightarrow> uint32"

record fsst = logst +
  sb :: superblock
  itab :: "nat \<Rightarrow> inode"

definition set_inode :: "nat \<Rightarrow> (inode \<Rightarrow> inode) \<Rightarrow> 'z fsst_scheme \<Rightarrow> 'z fsst_scheme" where
  "set_inode i f s = s\<lparr>itab := (itab s)(i := f (itab s i))\<rparr>"

section \<open>Layout on disk\<close>

definition IBLOCK :: "uint32 \<Rightarrow> 'z fsst_scheme \<Rightarrow> uint32" where
  "IBLOCK i s = i div IPB + sb_inodestart (sb s)"

definition BBLOCK :: "uint32 \<Rightarrow> 'z fsst_scheme \<Rightarrow> uint32" where
  "BBLOCK b s = b div of_nat BPB + sb_bmapstart (sb s)"

definition get_superblock :: "bytes \<Rightarrow> superblock" where
  "get_superblock d = \<lparr>sb_magic = get32 d 0, sb_size = get32 d 4, sb_nblocks = get32 d 8, sb_ninodes = get32 d 12,
     sb_nlog = get32 d 16, sb_logstart = get32 d 20, sb_inodestart = get32 d 24, sb_bmapstart = get32 d 28\<rparr>"

text \<open>\<^verbatim>\<open>struct dinode\<close> at its place in a block of 16 inodes.\<close>

definition dinode_off :: "uint32 \<Rightarrow> nat" where
  "dinode_off inum = 64 * unat (inum mod IPB)"

definition dinode_type :: "bytes \<Rightarrow> uint32 \<Rightarrow> int" where
  "dinode_type d inum = sint (get16 d (dinode_off inum))"

definition dinode_nlink :: "bytes \<Rightarrow> uint32 \<Rightarrow> int" where
  "dinode_nlink d inum = sint (get16 d (dinode_off inum + 6))"

definition get_dinode :: "bytes \<Rightarrow> uint32 \<Rightarrow> inode \<Rightarrow> inode" where
  "get_dinode d inum ip = (let k = dinode_off inum in
     ip\<lparr>i_type := sint (get16 d k), i_major := sint (get16 d (k + 2)), i_minor := sint (get16 d (k + 4)),
        i_nlink := sint (get16 d (k + 6)), i_size := get32 d (k + 8),
        i_addrs := (\<lambda>i. if i \<le> NDIRECT then get32 d (k + 12 + 4 * i) else i_addrs ip i)\<rparr>)"

definition put_dinode :: "inode \<Rightarrow> uint32 \<Rightarrow> bytes \<Rightarrow> bytes" where
  "put_dinode ip inum d = (let k = dinode_off inum;
     d = put16 d k (word_of_int (i_type ip));
     d = put16 d (k + 2) (word_of_int (i_major ip));
     d = put16 d (k + 4) (word_of_int (i_minor ip));
     d = put16 d (k + 6) (word_of_int (i_nlink ip));
     d = put32 d (k + 8) (i_size ip)
     in fold (\<lambda>i d. put32 d (k + 12 + 4 * i) (i_addrs ip i)) [0..<NDIRECT + 1] d)"

text \<open>Clearing a dinode and giving it a type, as \<^verbatim>\<open>ialloc\<close> does.\<close>

definition new_dinode :: "int \<Rightarrow> uint32 \<Rightarrow> bytes \<Rightarrow> bytes" where
  "new_dinode ty inum d =
     put16 (memset d (dinode_off inum) 0 64) (dinode_off inum) (word_of_int ty)"

section \<open>Blocks\<close>

definition readsb :: "uint32 \<Rightarrow> 'z fsst_scheme \<Rightarrow> (unit, 'z fsst_scheme) outcome" where
  "readsb dev s =
     kbind (bread dev 1 s) (\<lambda>bp s.
       let s = s\<lparr>sb := get_superblock (bdata (bufs s bp))\<rparr> in brelse bp s)"

definition bzero :: "uint32 \<Rightarrow> uint32 \<Rightarrow> 'z logst_scheme \<Rightarrow> (unit, 'z logst_scheme) outcome" where
  "bzero dev bno s =
     kbind (bread dev bno s) (\<lambda>bp s.
       let s = put_data bp (memset (bdata (bufs s bp)) 0 0 BSIZE) s in
     kbind (log_write bp s) (\<lambda>_ s. brelse bp s))"

definition bit_clear :: "bytes \<Rightarrow> nat \<Rightarrow> bool" where
  "bit_clear d bi = (d (bi div 8) AND push_bit (bi mod 8) 1 = 0)"

definition mark_used :: "bytes \<Rightarrow> nat \<Rightarrow> bytes" where
  "mark_used d bi = d(bi div 8 := d (bi div 8) OR push_bit (bi mod 8) 1)"

definition mark_free :: "bytes \<Rightarrow> nat \<Rightarrow> bytes" where
  "mark_free d bi = d(bi div 8 := d (bi div 8) AND NOT (push_bit (bi mod 8) 1))"

text \<open>
  The outer loop of \<^verbatim>\<open>balloc\<close> visits one bitmap block per \<open>BPB\<close> blocks of the file
  system; its body leaves the loop with the block allocated.
\<close>

definition balloc_group :: "uint32 \<Rightarrow> nat \<Rightarrow> 'z fsst_scheme \<Rightarrow> (uint32 option, 'z fsst_scheme) outcome" where
  "balloc_group dev b s =
     kbind (bread dev (BBLOCK (of_nat b) s) s) (\<lambda>bp s.
       case first_idx (bit_clear (bdata (bufs s bp))) [0..<min BPB (unat (sb_size (sb s)) - b)] of
         Some bi \<Rightarrow>
           let s = put_data bp (mark_used (bdata (bufs s bp)) bi) s in
           kbind (log_write bp s) (\<lambda>_ s.
           kbind (brelse bp s) (\<lambda>_ s.
           kbind (bzero dev (of_nat (b + bi)) s) (\<lambda>_ s.
           Ret (Some (of_nat (b + bi))) s)))
       | None \<Rightarrow> kbind (brelse bp s) (\<lambda>_ s. Ret None s))"

definition balloc :: "uint32 \<Rightarrow> 'z fsst_scheme \<Rightarrow> (uint32, 'z fsst_scheme) outcome" where
  "balloc dev s =
     kbind (kfirst (\<lambda>k. balloc_group dev (k * BPB)) [0..<(unat (sb_size (sb s)) + BPB - 1) div BPB] s)
       (\<lambda>r s. Ret (case r of Some b \<Rightarrow> b | None \<Rightarrow> 0) s)"

definition bfree :: "uint32 \<Rightarrow> uint32 \<Rightarrow> 'z fsst_scheme \<Rightarrow> (unit, 'z fsst_scheme) outcome" where
  "bfree dev b s =
     kbind (bread dev (BBLOCK b s) s) (\<lambda>bp s.
       let bi = unat b mod BPB in
       if bit_clear (bdata (bufs s bp)) bi then Panic ''freeing free block''
       else
         let s = put_data bp (mark_free (bdata (bufs s bp)) bi) s in
         kbind (log_write bp s) (\<lambda>_ s. brelse bp s))"

section \<open>Inodes\<close>

definition iinit :: "'z slocks_scheme \<Rightarrow> 'z slocks_scheme" where
  "iinit s = fold (\<lambda>i s. initsleeplock (InodeLk i) ''inode'' s) [0..<NINODE] (initlock ItableLk ''itable'' s)"

text \<open>The search of \<^verbatim>\<open>iget\<close>: the entry in use for the inode, and the first free one.\<close>

definition iget_hit :: "uint32 \<Rightarrow> uint32 \<Rightarrow> (nat \<Rightarrow> inode) \<Rightarrow> nat option" where
  "iget_hit dev inum T = first_idx (\<lambda>i. 0 < i_ref (T i) \<and> i_dev (T i) = dev \<and> i_inum (T i) = inum) [0..<NINODE]"

definition iget_empty :: "(nat \<Rightarrow> inode) \<Rightarrow> nat option" where
  "iget_empty T = first_idx (\<lambda>i. i_ref (T i) = 0) [0..<NINODE]"

definition iget :: "uint32 \<Rightarrow> uint32 \<Rightarrow> 'z fsst_scheme \<Rightarrow> (nat, 'z fsst_scheme) outcome" where
  "iget dev inum s =
     kbind (acquire ItableLk s) (\<lambda>_ s.
       case iget_hit dev inum (itab s) of
         Some i \<Rightarrow>
           let s = set_inode i (\<lambda>ip. ip\<lparr>i_ref := c_int (i_ref ip + 1)\<rparr>) s in
           kbind (release ItableLk s) (\<lambda>_ s. Ret i s)
       | None \<Rightarrow>
           (case iget_empty (itab s) of
              None \<Rightarrow> Panic ''iget: no inodes''
            | Some i \<Rightarrow>
                let s = set_inode i (\<lambda>ip. ip\<lparr>i_dev := dev, i_inum := inum, i_ref := 1, i_valid := False\<rparr>) s in
                kbind (release ItableLk s) (\<lambda>_ s. Ret i s)))"

text \<open>One turn of the loop of \<^verbatim>\<open>ialloc\<close>, and the loop.\<close>

definition ialloc_try :: "uint32 \<Rightarrow> int \<Rightarrow> uint32 \<Rightarrow> 'z fsst_scheme \<Rightarrow> (nat option, 'z fsst_scheme) outcome" where
  "ialloc_try dev ty inum s =
     kbind (bread dev (IBLOCK inum s) s) (\<lambda>bp s.
       if dinode_type (bdata (bufs s bp)) inum = 0 then
         let s = put_data bp (new_dinode ty inum (bdata (bufs s bp))) s in
         kbind (log_write bp s) (\<lambda>_ s.
         kbind (brelse bp s) (\<lambda>_ s.
         kbind (iget dev inum s) (\<lambda>i s. Ret (Some i) s)))
       else kbind (brelse bp s) (\<lambda>_ s. Ret None s))"

definition ialloc :: "uint32 \<Rightarrow> int \<Rightarrow> 'z fsst_scheme \<Rightarrow> (nat option, 'z fsst_scheme) outcome" where
  "ialloc dev ty s =
     kfirst (\<lambda>inum. ialloc_try dev ty (of_nat inum)) [1..<unat (sb_ninodes (sb s))] s"

definition iupdate :: "nat \<Rightarrow> 'z fsst_scheme \<Rightarrow> (unit, 'z fsst_scheme) outcome" where
  "iupdate ip s =
     kbind (bread (i_dev (itab s ip)) (IBLOCK (i_inum (itab s ip)) s) s) (\<lambda>bp s.
       let s = put_data bp (put_dinode (itab s ip) (i_inum (itab s ip)) (bdata (bufs s bp))) s in
     kbind (log_write bp s) (\<lambda>_ s. brelse bp s))"

definition idup :: "nat \<Rightarrow> 'z fsst_scheme \<Rightarrow> (nat, 'z fsst_scheme) outcome" where
  "idup ip s =
     kbind (acquire ItableLk s) (\<lambda>_ s.
       let s = set_inode ip (\<lambda>x. x\<lparr>i_ref := c_int (i_ref x + 1)\<rparr>) s in
     kbind (release ItableLk s) (\<lambda>_ s. Ret ip s))"

definition ilock :: "nat option \<Rightarrow> 'z fsst_scheme \<Rightarrow> (unit, 'z fsst_scheme) outcome" where
  "ilock ipo s =
     (case ipo of
        None \<Rightarrow> Panic ''ilock''
      | Some ip \<Rightarrow>
          if i_ref (itab s ip) < 1 then Panic ''ilock''
          else
            kbind (acquiresleep (InodeLk ip) s) (\<lambda>_ s.
              if \<not> i_valid (itab s ip) then
                kbind (bread (i_dev (itab s ip)) (IBLOCK (i_inum (itab s ip)) s) s) (\<lambda>bp s.
                  let s = set_inode ip (get_dinode (bdata (bufs s bp)) (i_inum (itab s ip))) s in
                kbind (brelse bp s) (\<lambda>_ s.
                  let s = set_inode ip (\<lambda>x. x\<lparr>i_valid := True\<rparr>) s in
                  if i_type (itab s ip) = 0 then Panic ''ilock: no type'' else Ret () s))
              else Ret () s))"

definition iunlock :: "nat option \<Rightarrow> 'z fsst_scheme \<Rightarrow> (unit, 'z fsst_scheme) outcome" where
  "iunlock ipo s =
     (case ipo of
        None \<Rightarrow> Panic ''iunlock''
      | Some ip \<Rightarrow>
          kbind (holdingsleep (InodeLk ip) s) (\<lambda>h s.
            if \<not> h \<or> i_ref (itab s ip) < 1 then Panic ''iunlock''
            else releasesleep (InodeLk ip) s))"

section \<open>Contents\<close>

definition bmap :: "nat \<Rightarrow> uint32 \<Rightarrow> 'z fsst_scheme \<Rightarrow> (uint32, 'z fsst_scheme) outcome" where
  "bmap ip bn s =
     (if unat bn < NDIRECT then
        if i_addrs (itab s ip) (unat bn) = 0 then
          kbind (balloc (i_dev (itab s ip)) s) (\<lambda>addr s.
            if addr = 0 then Ret 0 s
            else Ret addr (set_inode ip (\<lambda>x. x\<lparr>i_addrs := (i_addrs x)(unat bn := addr)\<rparr>) s))
        else Ret (i_addrs (itab s ip) (unat bn)) s
      else
        let bn = bn - of_nat NDIRECT in
        if unat bn < NINDIRECT then
          kbind (if i_addrs (itab s ip) NDIRECT = 0 then
                   kbind (balloc (i_dev (itab s ip)) s) (\<lambda>addr s.
                     if addr = 0 then Ret 0 s
                     else Ret addr (set_inode ip (\<lambda>x. x\<lparr>i_addrs := (i_addrs x)(NDIRECT := addr)\<rparr>) s))
                 else Ret (i_addrs (itab s ip) NDIRECT) s) (\<lambda>addr s.
            if addr = 0 then Ret 0 s
            else
              kbind (bread (i_dev (itab s ip)) addr s) (\<lambda>bp s.
              kbind (if get32 (bdata (bufs s bp)) (4 * unat bn) = 0 then
                       kbind (balloc (i_dev (itab s ip)) s) (\<lambda>addr s.
                         if addr \<noteq> 0 then
                           let s = put_data bp (put32 (bdata (bufs s bp)) (4 * unat bn) addr) s in
                           kbind (log_write bp s) (\<lambda>_ s. Ret addr s)
                         else Ret addr s)
                     else Ret (get32 (bdata (bufs s bp)) (4 * unat bn)) s) (\<lambda>addr s.
              kbind (brelse bp s) (\<lambda>_ s. Ret addr s))))
        else Panic ''bmap: out of range'')"

definition itrunc_direct :: "nat \<Rightarrow> nat \<Rightarrow> 'z fsst_scheme \<Rightarrow> (unit, 'z fsst_scheme) outcome" where
  "itrunc_direct ip i s =
     (if i_addrs (itab s ip) i \<noteq> 0 then
        kbind (bfree (i_dev (itab s ip)) (i_addrs (itab s ip) i) s) (\<lambda>_ s.
          Ret () (set_inode ip (\<lambda>x. x\<lparr>i_addrs := (i_addrs x)(i := 0)\<rparr>) s))
      else Ret () s)"

definition itrunc_indirect :: "nat \<Rightarrow> 'z fsst_scheme \<Rightarrow> (unit, 'z fsst_scheme) outcome" where
  "itrunc_indirect ip s =
     (if i_addrs (itab s ip) NDIRECT \<noteq> 0 then
        kbind (bread (i_dev (itab s ip)) (i_addrs (itab s ip) NDIRECT) s) (\<lambda>bp s.
        kbind (kfor (\<lambda>j s. if get32 (bdata (bufs s bp)) (4 * j) \<noteq> 0
                           then bfree (i_dev (itab s ip)) (get32 (bdata (bufs s bp)) (4 * j)) s
                           else Ret () s) [0..<NINDIRECT] s) (\<lambda>_ s.
        kbind (brelse bp s) (\<lambda>_ s.
        kbind (bfree (i_dev (itab s ip)) (i_addrs (itab s ip) NDIRECT) s) (\<lambda>_ s.
          Ret () (set_inode ip (\<lambda>x. x\<lparr>i_addrs := (i_addrs x)(NDIRECT := 0)\<rparr>) s)))))
      else Ret () s)"

definition itrunc :: "nat \<Rightarrow> 'z fsst_scheme \<Rightarrow> (unit, 'z fsst_scheme) outcome" where
  "itrunc ip s =
     kbind (kfor (itrunc_direct ip) [0..<NDIRECT] s) (\<lambda>_ s.
     kbind (itrunc_indirect ip s) (\<lambda>_ s.
       let s = set_inode ip (\<lambda>x. x\<lparr>i_size := 0\<rparr>) s in iupdate ip s))"

definition iput :: "nat \<Rightarrow> 'z fsst_scheme \<Rightarrow> (unit, 'z fsst_scheme) outcome" where
  "iput ip s =
     kbind (acquire ItableLk s) (\<lambda>_ s.
     kbind (if i_ref (itab s ip) = 1 \<and> i_valid (itab s ip) \<and> i_nlink (itab s ip) = 0 then
              kbind (acquiresleep (InodeLk ip) s) (\<lambda>_ s.
              kbind (release ItableLk s) (\<lambda>_ s.
              kbind (itrunc ip s) (\<lambda>_ s.
                let s = set_inode ip (\<lambda>x. x\<lparr>i_type := 0\<rparr>) s in
              kbind (iupdate ip s) (\<lambda>_ s.
                let s = set_inode ip (\<lambda>x. x\<lparr>i_valid := False\<rparr>) s in
              kbind (releasesleep (InodeLk ip) s) (\<lambda>_ s.
              acquire ItableLk s)))))
            else Ret () s) (\<lambda>_ s.
       let s = set_inode ip (\<lambda>x. x\<lparr>i_ref := c_int (i_ref x - 1)\<rparr>) s in
     release ItableLk s))"

definition iunlockput :: "nat option \<Rightarrow> 'z fsst_scheme \<Rightarrow> (unit, 'z fsst_scheme) outcome" where
  "iunlockput ipo s =
     kbind (iunlock ipo s) (\<lambda>_ s.
       case ipo of None \<Rightarrow> Panic ''kerneltrap'' | Some ip \<Rightarrow> iput ip s)"

definition ireclaim_one :: "uint32 \<Rightarrow> uint32 \<Rightarrow> 'z fsst_scheme \<Rightarrow> (unit, 'z fsst_scheme) outcome" where
  "ireclaim_one dev inum s =
     kbind (bread dev (IBLOCK inum s) s) (\<lambda>bp s.
     kbind (if dinode_type (bdata (bufs s bp)) inum \<noteq> 0 \<and> dinode_nlink (bdata (bufs s bp)) inum = 0
            then kbind (iget dev inum s) (\<lambda>i s. Ret (Some i) s) else Ret None s) (\<lambda>ipo s.
     kbind (brelse bp s) (\<lambda>_ s.
       case ipo of
         None \<Rightarrow> Ret () s
       | Some ip \<Rightarrow>
           kbind (begin_op s) (\<lambda>_ s.
           kbind (ilock (Some ip) s) (\<lambda>_ s.
           kbind (iunlock (Some ip) s) (\<lambda>_ s.
           kbind (iput ip s) (\<lambda>_ s.
           end_op s)))))))"

definition ireclaim :: "uint32 \<Rightarrow> 'z fsst_scheme \<Rightarrow> (unit, 'z fsst_scheme) outcome" where
  "ireclaim dev s = kfor (\<lambda>inum. ireclaim_one dev (of_nat inum)) [1..<unat (sb_ninodes (sb s))] s"

definition fsinit :: "uint32 \<Rightarrow> 'z fsst_scheme \<Rightarrow> (unit, 'z fsst_scheme) outcome" where
  "fsinit dev s =
     kbind (readsb dev s) (\<lambda>_ s.
       if sb_magic (sb s) \<noteq> FSMAGIC then Panic ''invalid file system''
       else kbind (initlog dev (sb_logstart (sb s)) s) (\<lambda>_ s. ireclaim dev s))"

end
