(* ===== verification/FsDir.thy ===== *)
theory FsDir
  imports Fs
begin

text \<open>
  The upper half of \<^verbatim>\<open>kernel/fs.c\<close>: reading and writing file contents, directories, and
  path names. Kernel buffers travel through \<^verbatim>\<open>readi\<close> and \<^verbatim>\<open>writei\<close> as arrays.
\<close>

section \<open>Reading and writing\<close>

record stat =
  st_dev :: int
  st_ino :: uint32
  st_type :: int
  st_nlink :: int
  st_size :: uint64

definition stati :: "nat \<Rightarrow> 'z fsst_scheme \<Rightarrow> stat" where
  "stati ip s = \<lparr>st_dev = sint (i_dev (itab s ip)), st_ino = i_inum (itab s ip), st_type = i_type (itab s ip),
     st_nlink = i_nlink (itab s ip), st_size = ucast (i_size (itab s ip))\<rparr>"

definition xadvance :: "xloc \<Rightarrow> uint32 \<Rightarrow> xloc" where
  "xadvance x m = (case x of UserVA a \<Rightarrow> UserVA (a + ucast m) | PhysA a \<Rightarrow> PhysA (a + ucast m) | KObj d \<Rightarrow> KObj (d + unat m))"

definition chunk :: "uint32 \<Rightarrow> uint32 \<Rightarrow> uint32" where
  "chunk left off = min left (of_nat BSIZE - off mod of_nat BSIZE)"

lemma chunk_pos:
  assumes "tot < n"
  shows "unat n - unat (tot + chunk (n - tot) off) < unat n - unat tot"
proof -
  have le: "unat (chunk (n - tot) off) \<le> unat n - unat tot"
    using assms by (simp add: chunk_def min_def word_le_nat_alt unat_sub word_less_nat_alt)
  have "unat (off mod of_nat BSIZE) < 1024" by (simp add: BSIZE_def unat_mod)
  then have "unat (of_nat BSIZE - off mod of_nat BSIZE) > 0"
    by (simp add: BSIZE_def unat_sub word_le_nat_alt)
  moreover have "unat (n - tot) > 0" using assms by (simp add: unat_sub word_less_nat_alt word_le_nat_alt)
  ultimately have pos: "0 < unat (chunk (n - tot) off)" by (simp add: chunk_def min_def)
  have "unat tot + unat (chunk (n - tot) off) < 2 ^ 32"
    using le assms unat_lt_2p [of n] by (simp add: word_less_nat_alt)
  then have "unat (tot + chunk (n - tot) off) = unat tot + unat (chunk (n - tot) off)"
    by (simp add: unat_word_ariths)
  with le pos show ?thesis using assms by (simp add: word_less_nat_alt)
qed

text \<open>
  The loop of \<^verbatim>\<open>readi\<close>: the value of \<^verbatim>\<open>tot\<close> it returns, which is \<open>-1\<close> when a copy
  fails, and the kernel array that is the destination of a \<open>KObj\<close> copy.
\<close>

function readi_loop :: "nat \<Rightarrow> xloc \<Rightarrow> uint32 \<Rightarrow> uint32 \<Rightarrow> uint32 \<Rightarrow> bytes \<Rightarrow> 'z fsst_scheme \<Rightarrow> (uint32 \<times> bytes, 'z fsst_scheme) outcome" where
  "readi_loop ip dst off n tot obj s =
     (if tot < n then
        kbind (bmap ip (off div of_nat BSIZE) s) (\<lambda>addr s.
          if addr = 0 then Ret (tot, obj) s
          else
            kbind (bread (i_dev (itab s ip)) addr s) (\<lambda>bp s.
              let m = chunk (n - tot) off in
              kbind (either_copyout dst (bdata (bufs s bp)) (unat (off mod of_nat BSIZE)) (ucast m) obj s) (\<lambda>(r, obj) s.
                if r = - 1 then kbind (brelse bp s) (\<lambda>_ s. Ret (- 1, obj) s)
                else kbind (brelse bp s) (\<lambda>_ s. readi_loop ip (xadvance dst m) (off + m) n (tot + m) obj s))))
      else Ret (tot, obj) s)"
  by pat_completeness auto
termination
  by (relation "measure (\<lambda>(ip, dst, off, n, tot, obj, s). unat n - unat tot)") (auto simp: chunk_pos)

declare readi_loop.simps [simp del]

definition readi :: "nat \<Rightarrow> xloc \<Rightarrow> uint32 \<Rightarrow> uint32 \<Rightarrow> bytes \<Rightarrow> 'z fsst_scheme \<Rightarrow> (int \<times> bytes, 'z fsst_scheme) outcome" where
  "readi ip dst off n obj s =
     (if i_size (itab s ip) < off \<or> off + n < off then Ret (0, obj) s
      else
        let n = (if i_size (itab s ip) < off + n then i_size (itab s ip) - off else n) in
        kbind (readi_loop ip dst off n 0 obj s) (\<lambda>(tot, obj) s. Ret (sint tot, obj) s))"

text \<open>The loop of \<^verbatim>\<open>writei\<close>: the values of \<^verbatim>\<open>tot\<close> and \<^verbatim>\<open>off\<close> at its end.\<close>

function writei_loop :: "nat \<Rightarrow> xloc \<Rightarrow> uint32 \<Rightarrow> uint32 \<Rightarrow> uint32 \<Rightarrow> bytes \<Rightarrow> 'z fsst_scheme \<Rightarrow> (uint32 \<times> uint32, 'z fsst_scheme) outcome" where
  "writei_loop ip src off n tot obj s =
     (if tot < n then
        kbind (bmap ip (off div of_nat BSIZE) s) (\<lambda>addr s.
          if addr = 0 then Ret (tot, off) s
          else
            kbind (bread (i_dev (itab s ip)) addr s) (\<lambda>bp s.
              let m = chunk (n - tot) off in
              kbind (either_copyin (bdata (bufs s bp)) (unat (off mod of_nat BSIZE)) src (ucast m) obj s) (\<lambda>(r, d) s.
                let s = put_data bp d s in
                if r = - 1 then kbind (brelse bp s) (\<lambda>_ s. Ret (tot, off) s)
                else
                  kbind (log_write bp s) (\<lambda>_ s.
                  kbind (brelse bp s) (\<lambda>_ s.
                  writei_loop ip (xadvance src m) (off + m) n (tot + m) obj s)))))
      else Ret (tot, off) s)"
  by pat_completeness auto
termination
  by (relation "measure (\<lambda>(ip, src, off, n, tot, obj, s). unat n - unat tot)") (auto simp: chunk_pos)

declare writei_loop.simps [simp del]

definition writei :: "nat \<Rightarrow> xloc \<Rightarrow> uint32 \<Rightarrow> uint32 \<Rightarrow> bytes \<Rightarrow> 'z fsst_scheme \<Rightarrow> (int, 'z fsst_scheme) outcome" where
  "writei ip src off n obj s =
     (if i_size (itab s ip) < off \<or> off + n < off then Ret (- 1) s
      else if MAXFILE * BSIZE < unat (off + n) then Ret (- 1) s
      else
        kbind (writei_loop ip src off n 0 obj s) (\<lambda>(tot, off) s.
          let s = (if i_size (itab s ip) < off then set_inode ip (\<lambda>x. x\<lparr>i_size := off\<rparr>) s else s)
          in kbind (iupdate ip s) (\<lambda>_ s. Ret (sint tot) s)))"

section \<open>Directories\<close>

text \<open>A directory entry is 16 bytes: the inode number, then the name.\<close>

definition de_inum :: "bytes \<Rightarrow> uint16" where
  "de_inum de = get16 de 0"

definition de_name :: "bytes \<Rightarrow> bytes" where
  "de_name de = (\<lambda>i. de (2 + i))"

definition namecmp :: "bytes \<Rightarrow> bytes \<Rightarrow> int" where
  "namecmp a b = strncmp a 0 b 0 DIRSIZ"

lemma readi_full_bound:
  assumes "readi ip dst off n obj s = Ret (r, o') t" "0 < r"
  shows "\<not> off + n < off"
  using assms by (auto simp: readi_def split: if_splits)

lemma dirent_step:
  assumes "\<not> off + 16 < (off :: uint32)"
  shows "4294967296 - unat (off + 16) < 4294967296 - unat off"
proof -
  have "unat off + 16 < 2 ^ 32"
  proof (rule ccontr)
    assume big: "\<not> ?thesis"
    then have "(unat off + 16) mod 2 ^ 32 = unat off + 16 - 2 ^ 32"
      using unat_lt_2p [of off] by (simp add: mod_if)
    then have "unat (off + 16) < unat off" using big unat_lt_2p [of off] by (simp add: unat_word_ariths)
    with assms show False by (simp add: word_less_nat_alt)
  qed
  then show ?thesis by (simp add: unat_word_ariths)
qed

text \<open>
  The loops over the entries of a directory stop at the first entry that satisfies a test; the
  entry read and its offset are the result. A short read is a panic with the caller's message.
\<close>

function dir_scan :: "string \<Rightarrow> (bytes \<Rightarrow> bool) \<Rightarrow> nat \<Rightarrow> uint32 \<Rightarrow> bytes \<Rightarrow> 'z fsst_scheme \<Rightarrow> (bool \<times> uint32 \<times> bytes, 'z fsst_scheme) outcome" where
  "dir_scan msg P dp off de s =
     (if off < i_size (itab s dp) then
        kbind (readi dp (KObj 0) off 16 de s) (\<lambda>(r, de) s.
          if r \<noteq> 16 then Panic msg
          else if P de then Ret (True, off, de) s
          else dir_scan msg P dp (off + 16) de s)
      else Ret (False, off, de) s)"
  by pat_completeness auto
termination
  by (relation "measure (\<lambda>(msg, P, dp, off, de, s). 4294967296 - unat off)")
    (auto dest!: readi_full_bound intro!: dirent_step)

declare dir_scan.simps [simp del]

definition dirlookup :: "nat \<Rightarrow> bytes \<Rightarrow> bytes \<Rightarrow> 'z fsst_scheme \<Rightarrow> ((nat \<times> uint32) option, 'z fsst_scheme) outcome" where
  "dirlookup dp name de s =
     (if i_type (itab s dp) \<noteq> T_DIR then Panic ''dirlookup not DIR''
      else
        kbind (dir_scan ''dirlookup read'' (\<lambda>de. de_inum de \<noteq> 0 \<and> namecmp name (de_name de) = 0) dp 0 de s)
          (\<lambda>(found, off, de) s.
             if found then kbind (iget (i_dev (itab s dp)) (ucast (de_inum de)) s) (\<lambda>i s. Ret (Some (i, off)) s)
             else Ret None s))"

definition make_dirent :: "bytes \<Rightarrow> uint16 \<Rightarrow> bytes \<Rightarrow> bytes" where
  "make_dirent name inum de = put16 (strncpy de 2 name 0 DIRSIZ) 0 inum"

text \<open>
  \<^verbatim>\<open>dirlink\<close>. The local array \<^verbatim>\<open>de\<close> starts with whatever the stack holds; the offset is
  an \<^verbatim>\<open>int\<close> in the source, of the same 32 bits.
\<close>

definition dirlink :: "nat \<Rightarrow> bytes \<Rightarrow> uint32 \<Rightarrow> bytes \<Rightarrow> 'z fsst_scheme \<Rightarrow> (int, 'z fsst_scheme) outcome" where
  "dirlink dp name inum de s =
     kbind (dirlookup dp name de s) (\<lambda>r s.
       case r of
         Some (ip, _) \<Rightarrow> kbind (iput ip s) (\<lambda>_ s. Ret (- 1) s)
       | None \<Rightarrow>
           kbind (dir_scan ''dirlink read'' (\<lambda>de. de_inum de = 0) dp 0 de s) (\<lambda>(_, off, de) s.
           kbind (writei dp (KObj 0) off 16 (make_dirent name (ucast inum) de) s) (\<lambda>r s.
             Ret (if r \<noteq> 16 then - 1 else 0) s)))"

section \<open>Paths\<close>

text \<open>
  A scan along a string while a test holds. \<^const>\<open>None\<close> is a scan that never stops, which needs
  a string without its terminating zero.
\<close>

partial_function (option) scan_while :: "(uint8 \<Rightarrow> bool) \<Rightarrow> bytes \<Rightarrow> nat \<Rightarrow> nat option" where
  "scan_while P p i = (if P (p i) then scan_while P p (Suc i) else Some i)"

declare scan_while.simps [code]

definition SLASH :: uint8 where "SLASH = 47"

text \<open>
  \<^verbatim>\<open>skipelem\<close> on a path and a position in it: nothing when no element is left, else the new
  position and the array \<^verbatim>\<open>name\<close> with the element copied in.
\<close>

definition skipelem :: "bytes \<Rightarrow> nat \<Rightarrow> bytes \<Rightarrow> (nat \<times> bytes) option option" where
  "skipelem path i name =
     Option.bind (scan_while (\<lambda>c. c = SLASH) path i) (\<lambda>i.
       if path i = 0 then Some None
       else
         Option.bind (scan_while (\<lambda>c. c \<noteq> SLASH \<and> c \<noteq> 0) path i) (\<lambda>j.
           let len = j - i;
               name = (if DIRSIZ \<le> len then copy_bytes name 0 path i DIRSIZ
                       else (copy_bytes name 0 path i len)(len := 0))
           in Option.bind (scan_while (\<lambda>c. c = SLASH) path j) (\<lambda>j. Some (Some (j, name)))))"

text \<open>
  The loop of \<^verbatim>\<open>namex\<close>. It runs for as long as \<^verbatim>\<open>skipelem\<close> finds an element, and has the value
  \<open>None\<close> when that never ends. \<open>obind\<close> goes on after an operation inside such a loop.
\<close>

definition obind :: "('a, 's) outcome \<Rightarrow> ('a \<Rightarrow> 's \<Rightarrow> ('b, 's) outcome option) \<Rightarrow> ('b, 's) outcome option" where
  "obind m f = (case m of Ret x s \<Rightarrow> f x s | Panic e \<Rightarrow> Some (Panic e) | Spin \<Rightarrow> Some Spin | Swtch s \<Rightarrow> Some (Swtch s) | Undef \<Rightarrow> Some Undef)"

lemma obind_mono [partial_function_mono]:
  assumes "\<And>x s. mono_option (\<lambda>f. B f x s)"
  shows "mono_option (\<lambda>f. obind m (B f))"
  unfolding obind_def using assms by (cases m) (auto simp: monotone_def option.leq_refl)

lemma obind_Some: "obind m (\<lambda>x s. Some (f x s)) = Some (kbind m f)"
  by (cases m) (simp_all add: obind_def)

partial_function (option) namex_loop :: "nat \<Rightarrow> bytes \<Rightarrow> nat \<Rightarrow> bool \<Rightarrow> bytes \<Rightarrow> 'z fsst_scheme \<Rightarrow> (nat option \<times> bytes, 'z fsst_scheme) outcome option" where
  "namex_loop ip path i par name s =
     (case skipelem path i name of
        None \<Rightarrow> Some Undef
      | Some None \<Rightarrow>
          Some (if par then kbind (iput ip s) (\<lambda>_ s. Ret (None, name) s) else Ret (Some ip, name) s)
      | Some (Some (j, name)) \<Rightarrow>
          obind (ilock (Some ip) s) (\<lambda>_ s.
            if i_type (itab s ip) \<noteq> T_DIR then
              Some (kbind (iunlockput (Some ip) s) (\<lambda>_ s. Ret (None, name) s))
            else if par \<and> path j = 0 then
              Some (kbind (iunlock (Some ip) s) (\<lambda>_ s. Ret (Some ip, name) s))
            else
              obind (dirlookup ip name (\<lambda>_. 0) s) (\<lambda>r s.
                case r of
                  None \<Rightarrow> Some (kbind (iunlockput (Some ip) s) (\<lambda>_ s. Ret (None, name) s))
                | Some (nxt, _) \<Rightarrow>
                    obind (iunlockput (Some ip) s) (\<lambda>_ s. namex_loop nxt path j par name s))))"

definition namex :: "bytes \<Rightarrow> bool \<Rightarrow> bytes \<Rightarrow> 'z fsst_scheme \<Rightarrow> (nat option \<times> bytes, 'z fsst_scheme) outcome" where
  "namex path par name s =
     kbind (if path 0 = SLASH then iget ROOTDEV ROOTINO s
            else kbind (curproc s) (\<lambda>p s.
                   case cwd (proc s p) of None \<Rightarrow> Panic ''kerneltrap'' | Some ip \<Rightarrow> idup ip s)) (\<lambda>ip s.
     case namex_loop ip path 0 par name s of None \<Rightarrow> Spin | Some r \<Rightarrow> r)"

definition namei :: "bytes \<Rightarrow> 'z fsst_scheme \<Rightarrow> (nat option, 'z fsst_scheme) outcome" where
  "namei path s = kbind (namex path False (\<lambda>_. 0) s) (\<lambda>(ip, _) s. Ret ip s)"

definition nameiparent :: "bytes \<Rightarrow> bytes \<Rightarrow> 'z fsst_scheme \<Rightarrow> (nat option \<times> bytes, 'z fsst_scheme) outcome" where
  "nameiparent path name s = namex path True name s"

end
