(* ===== verification/Printk.thy ===== *)
theory Printk
  imports FsDir
begin

text \<open>
  Console output: the polled half of \<^verbatim>\<open>kernel/uart.c\<close>, \<^verbatim>\<open>consputc\<close> of
  \<^verbatim>\<open>kernel/console.c\<close>, \<^verbatim>\<open>kernel/printk.c\<close>, and \<^verbatim>\<open>procdump\<close> of
  \<^verbatim>\<open>kernel/proc.c\<close>. The UART is the bytes waiting in its receive FIFO, the bytes it has been
  given to send, whether it is idle, and the values written to its control registers.
\<close>

section \<open>State\<close>

datatype devfn = ConsoleDev

record devst = fsst +
  uart_rx :: "uint8 list"
  uart_out :: "uint8 list"
  uart_idle :: bool
  uart_ctl :: "(nat \<times> uint8) list"
  tx_busy :: bool
  panicking :: bool
  panicked :: bool
  cons_buf :: bytes
  cons_r :: uint32
  cons_w :: uint32
  cons_e :: uint32
  devsw :: "int \<Rightarrow> devfn option"

section \<open>One character\<close>

text \<open>A byte written to the holding register; the device is busy until it has sent it.\<close>

definition write_THR :: "uint8 \<Rightarrow> 'z devst_scheme \<Rightarrow> 'z devst_scheme" where
  "write_THR c s = s\<lparr>uart_out := uart_out s @ [c], uart_idle := False\<rparr>"

text \<open>
  \<^verbatim>\<open>uartputc_sync\<close>. The loop that polls the line status register ends when the device has
  sent what it holds, which it does by itself; the model takes that as done at once. After a panic
  has been printed, no other hart gets past the second test.
\<close>

definition uartputc_sync :: "uint8 \<Rightarrow> 'z devst_scheme \<Rightarrow> (unit, 'z devst_scheme) outcome" where
  "uartputc_sync c s =
     (let s = (if \<not> panicking s then push_off s else s) in
      if panicked s then Spin
      else
        let s = write_THR c (s\<lparr>uart_idle := True\<rparr>) in
        if \<not> panicking s then pop_off s else Ret () s)"

definition BACKSPACE :: int where "BACKSPACE = 0x100"

definition consputc :: "int \<Rightarrow> 'z devst_scheme \<Rightarrow> (unit, 'z devst_scheme) outcome" where
  "consputc c s =
     (if c = BACKSPACE then
        kbind (uartputc_sync 8 s) (\<lambda>_ s.
        kbind (uartputc_sync 32 s) (\<lambda>_ s.
        uartputc_sync 8 s))
      else uartputc_sync (word_of_int c) s)"

section \<open>Numbers\<close>

definition digits :: "nat \<Rightarrow> uint8" where
  "digits k = (if k < 10 then 48 + of_nat k else 87 + of_nat k)"

text \<open>
  The digits \<^verbatim>\<open>printint\<close> stores, least significant first. The base is 10 or 16 in every call.
\<close>

function int_digits :: "nat \<Rightarrow> nat \<Rightarrow> uint8 list" where
  "int_digits x base =
     digits (x mod base) # (if x div base \<noteq> 0 \<and> 1 < base then int_digits (x div base) base else [])"
  by pat_completeness auto
termination
  by (relation "measure fst") (auto intro!: div_less_dividend intro: Nat.gr0I)

declare int_digits.simps [simp del]

text \<open>The contents of \<^verbatim>\<open>buf\<close>: the digits, and the sign after them.\<close>

definition printint_buf :: "uint64 \<Rightarrow> nat \<Rightarrow> bool \<Rightarrow> uint8 list" where
  "printint_buf xx base sign =
     (let neg = (sign \<and> sint xx < 0); x = (if neg then - xx else xx)
      in int_digits (unat x) base @ (if neg then [45] else []))"

definition consputs :: "uint8 list \<Rightarrow> 'z devst_scheme \<Rightarrow> (unit, 'z devst_scheme) outcome" where
  "consputs cs s = kfor (\<lambda>c. consputc (uint c)) cs s"

definition printint :: "uint64 \<Rightarrow> nat \<Rightarrow> bool \<Rightarrow> 'z devst_scheme \<Rightarrow> (unit, 'z devst_scheme) outcome" where
  "printint xx base sign s =
     (let buf = printint_buf xx base sign in
      if 20 < length buf then Undef else consputs (rev buf) s)"

fun ptr_digits :: "nat \<Rightarrow> uint64 \<Rightarrow> uint8 list" where
  "ptr_digits 0 x = []"
| "ptr_digits (Suc n) x = digits (unat (drop_bit 60 x)) # ptr_digits n (push_bit 4 x)"

definition printptr :: "uint64 \<Rightarrow> 'z devst_scheme \<Rightarrow> (unit, 'z devst_scheme) outcome" where
  "printptr x s =
     kbind (consputc 48 s) (\<lambda>_ s.
     kbind (consputc 120 s) (\<lambda>_ s.
     consputs (ptr_digits 16 x) s))"

section \<open>Formatted output\<close>

text \<open>
  An argument of \<^verbatim>\<open>printk\<close> is a 64-bit register or a string pointer. The format is walked
  as in the source; taking an argument that is not there, or of the wrong kind, is undefined.
\<close>

datatype varg = VNum uint64 | VStr "string option"

definition bstr :: "string \<Rightarrow> uint8 list" where
  "bstr cs = map of_char cs"

definition va_num :: "varg list \<Rightarrow> (uint64 \<times> varg list) option" where
  "va_num as = (case as of VNum x # r \<Rightarrow> Some (x, r) | _ \<Rightarrow> None)"

definition va_str :: "varg list \<Rightarrow> (string \<times> varg list) option" where
  "va_str as = (case as of VStr (Some t) # r \<Rightarrow> Some (t, r) | VStr None # r \<Rightarrow> Some (''(null)'', r) | _ \<Rightarrow> None)"

text \<open>
  The conversions: the letters after the percent sign, how many of them belong to it, and the
  output they make of the argument.
\<close>

datatype conv = CInt nat bool | CUint nat | CPtr | CChar | CStr | CPct | CStop | COther char

definition conversion :: "string \<Rightarrow> conv \<times> nat \<times> bool" where
  "conversion r =
     (let at = (\<lambda>i. if i < length r then Some (r ! i) else None);
          c0 = at 0; c1 = at 1; c2 = at 2 in
      if c0 = Some CHR ''d'' then (CInt 10 False, 1, True)
      else if c0 = Some CHR ''l'' \<and> c1 = Some CHR ''d'' then (CInt 10 True, 2, True)
      else if c0 = Some CHR ''l'' \<and> c1 = Some CHR ''l'' \<and> c2 = Some CHR ''d'' then (CInt 10 True, 3, True)
      else if c0 = Some CHR ''u'' then (CUint 10, 1, False)
      else if c0 = Some CHR ''l'' \<and> c1 = Some CHR ''u'' then (CUint 10, 2, True)
      else if c0 = Some CHR ''l'' \<and> c1 = Some CHR ''l'' \<and> c2 = Some CHR ''u'' then (CUint 10, 3, True)
      else if c0 = Some CHR ''x'' then (CUint 16, 1, False)
      else if c0 = Some CHR ''l'' \<and> c1 = Some CHR ''x'' then (CUint 16, 2, True)
      else if c0 = Some CHR ''l'' \<and> c1 = Some CHR ''l'' \<and> c2 = Some CHR ''x'' then (CUint 16, 3, True)
      else if c0 = Some CHR ''p'' then (CPtr, 1, True)
      else if c0 = Some CHR ''c'' then (CChar, 1, True)
      else if c0 = Some CHR ''s'' then (CStr, 1, True)
      else if c0 = Some CHR ''%'' then (CPct, 1, True)
      else case c0 of None \<Rightarrow> (CStop, 0, True) | Some c \<Rightarrow> (COther c, 1, True))"

definition conv_out :: "conv \<Rightarrow> bool \<Rightarrow> varg list \<Rightarrow> 'z devst_scheme \<Rightarrow> (varg list, 'z devst_scheme) outcome" where
  "conv_out cv wide as s =
     (case cv of
        CInt base long \<Rightarrow> (case va_num as of None \<Rightarrow> Undef
          | Some (x, r) \<Rightarrow> kbind (printint (if long then x else word_of_int (sint (ucast x :: uint32))) base True s) (\<lambda>_ s. Ret r s))
      | CUint base \<Rightarrow> (case va_num as of None \<Rightarrow> Undef
          | Some (x, r) \<Rightarrow> kbind (printint (if wide then x else ucast (ucast x :: uint32)) base False s) (\<lambda>_ s. Ret r s))
      | CPtr \<Rightarrow> (case va_num as of None \<Rightarrow> Undef | Some (x, r) \<Rightarrow> kbind (printptr x s) (\<lambda>_ s. Ret r s))
      | CChar \<Rightarrow> (case va_num as of None \<Rightarrow> Undef
          | Some (x, r) \<Rightarrow> kbind (consputc (sint (ucast x :: uint32)) s) (\<lambda>_ s. Ret r s))
      | CStr \<Rightarrow> (case va_str as of None \<Rightarrow> Undef | Some (t, r) \<Rightarrow> kbind (consputs (bstr t) s) (\<lambda>_ s. Ret r s))
      | CPct \<Rightarrow> kbind (consputc 37 s) (\<lambda>_ s. Ret as s)
      | CStop \<Rightarrow> Ret as s
      | COther c \<Rightarrow> kbind (consputc 37 s) (\<lambda>_ s. kbind (consputc (of_char c) s) (\<lambda>_ s. Ret as s)))"

lemma conversion_le: "fst (snd (conversion r)) \<le> length r"
proof -
  have *: "(if i < length r then Some (r ! i) else None) = Some c \<Longrightarrow> Suc i \<le> length r" for i c
    by (auto split: if_splits)
  show ?thesis
    using *[of 0] *[of 1] *[of 2]
    by (auto simp: conversion_def Let_def numeral_2_eq_2 split: option.split)
qed

function printk_loop :: "string \<Rightarrow> varg list \<Rightarrow> 'z devst_scheme \<Rightarrow> (unit, 'z devst_scheme) outcome" where
  "printk_loop [] as s = Ret () s"
| "printk_loop (cx # r) as s =
     (if cx \<noteq> CHR ''%'' then kbind (consputc (of_char cx) s) (\<lambda>_ s. printk_loop r as s)
      else
        case conversion r of (cv, k, wide) \<Rightarrow>
          if cv = CStop then Ret () s
          else kbind (conv_out cv wide as s) (\<lambda>as s. printk_loop (drop k r) as s))"
  by pat_completeness auto
termination
  by (relation "measure (\<lambda>(f, as, s). length f)") auto

definition printk :: "string \<Rightarrow> varg list \<Rightarrow> 'z devst_scheme \<Rightarrow> (int, 'z devst_scheme) outcome" where
  "printk fmt as s =
     kbind (if \<not> panicking s then acquire PrLk s else Ret () s) (\<lambda>_ s.
     kbind (printk_loop fmt as s) (\<lambda>_ s.
     kbind (if \<not> panicking s then release PrLk s else Ret () s) (\<lambda>_ s.
     Ret 0 s)))"

definition printkinit :: "'z mach_scheme \<Rightarrow> 'z mach_scheme" where
  "printkinit s = initlock PrLk ''pr'' s"

text \<open>What \<^verbatim>\<open>panic\<close> leaves on the console before it spins.\<close>

definition panic_print :: "string \<Rightarrow> 'z devst_scheme \<Rightarrow> (unit, 'z devst_scheme) outcome" where
  "panic_print msg s =
     (let s = s\<lparr>panicking := True\<rparr> in
      kbind (printk ''panic: '' [] s) (\<lambda>_ s.
      kbind (printk (''%s'' @ [CHR 0x0A]) [VStr (Some msg)] s) (\<lambda>_ s.
      Ret () (s\<lparr>panicked := True\<rparr>))))"

section \<open>The process list\<close>

definition state_name :: "procstate \<Rightarrow> string" where
  "state_name st = (case st of UNUSED \<Rightarrow> ''unused'' | USED \<Rightarrow> ''used'' | SLEEPING \<Rightarrow> ''sleep ''
     | RUNNABLE \<Rightarrow> ''runble'' | RUNNING \<Rightarrow> ''run   '' | ZOMBIE \<Rightarrow> ''zombie'')"

text \<open>A name as a C string: the bytes before the first zero, in an array of \<open>n\<close>.\<close>

fun cstr :: "nat \<Rightarrow> bytes \<Rightarrow> string" where
  "cstr 0 b = []"
| "cstr (Suc n) b = (if b 0 = 0 then [] else char_of (unat (b 0)) # cstr n (\<lambda>i. b (Suc i)))"

definition procdump :: "'z devst_scheme \<Rightarrow> (unit, 'z devst_scheme) outcome" where
  "procdump s =
     kbind (printk [CHR 0x0A] [] s) (\<lambda>_ s.
     kfor (\<lambda>i s.
       if pstate (proc s i) = UNUSED then Ret () s
       else
         kbind (printk ''%d %s %s'' [VNum (word_of_int (pid (proc s i))), VStr (Some (state_name (pstate (proc s i)))),
            VStr (Some (cstr 16 (pname (proc s i))))] s) (\<lambda>_ s.
         kbind (printk [CHR 0x0A] [] s) (\<lambda>_ s. Ret () s))) [0..<NPROC] s)"

end
