(* ===== verification/Console.thy ===== *)
theory Console
  imports Printk
begin

text \<open>
  The console: the interrupt-driven half of \<^verbatim>\<open>kernel/uart.c\<close> and \<^verbatim>\<open>kernel/console.c\<close>.
  A loop that sleeps is a definition entered again on resumption.
\<close>

section \<open>The UART\<close>

definition write_ctl :: "nat \<Rightarrow> uint8 \<Rightarrow> 'z devst_scheme \<Rightarrow> 'z devst_scheme" where
  "write_ctl reg v s = s\<lparr>uart_ctl := uart_ctl s @ [(reg, v)]\<rparr>"

definition uartinit :: "'z devst_scheme \<Rightarrow> 'z devst_scheme" where
  "uartinit s =
     (let s = write_ctl 1 0x00 s;
          s = write_ctl 3 (push_bit 7 1) s;
          s = write_ctl 0 0x03 s;
          s = write_ctl 1 0x00 s;
          s = write_ctl 3 3 s;
          s = write_ctl 2 (push_bit 0 1 OR push_bit 1 3) s;
          s = write_ctl 1 (push_bit 1 1 OR push_bit 0 1) s
      in initlock TxLk ''uart'' s)"

fun uartwrite_loop :: "uint8 list \<Rightarrow> 'z devst_scheme \<Rightarrow> (unit, 'z devst_scheme) outcome" where
  "uartwrite_loop [] s = release TxLk s"
| "uartwrite_loop (c # cs) s =
     (if tx_busy s then sleep ChTx TxLk s
      else uartwrite_loop cs ((write_THR c s)\<lparr>tx_busy := True\<rparr>))"

definition uartwrite :: "uint8 list \<Rightarrow> 'z devst_scheme \<Rightarrow> (unit, 'z devst_scheme) outcome" where
  "uartwrite cs s = kbind (acquire TxLk s) (\<lambda>_ s. uartwrite_loop cs s)"

definition uartwrite_resume :: "nat \<Rightarrow> uint8 list \<Rightarrow> 'z devst_scheme \<Rightarrow> (unit, 'z devst_scheme) outcome" where
  "uartwrite_resume p cs s = kbind (sleep_resume p TxLk s) (\<lambda>_ s. uartwrite_loop cs s)"

definition uartgetc :: "'z devst_scheme \<Rightarrow> int \<times> 'z devst_scheme" where
  "uartgetc s = (case uart_rx s of [] \<Rightarrow> (- 1, s) | c # cs \<Rightarrow> (uint c, s\<lparr>uart_rx := cs\<rparr>))"

section \<open>Input\<close>

definition INPUT_BUF_SIZE :: uint32 where "INPUT_BUF_SIZE = 128"

definition CTRL :: "char \<Rightarrow> int" where
  "CTRL c = of_char c - 64"

text \<open>The character in the ring at an index that counts on without bound.\<close>

definition cons_at :: "'z devst_scheme \<Rightarrow> uint32 \<Rightarrow> uint8" where
  "cons_at s i = cons_buf s (unat (i mod INPUT_BUF_SIZE))"

lemma uartputc_keeps:
  "uartputc_sync c s = Ret x t \<Longrightarrow> cons_e t = cons_e s \<and> cons_w t = cons_w s \<and> cons_r t = cons_r s \<and> cons_buf t = cons_buf s"
  by (auto simp: uartputc_sync_def Let_def pop_off_def push_off_def write_THR_def intr_off_def intr_on_def set_mycpu_def
      split: if_splits)

lemma consputc_keeps:
  "consputc c s = Ret x t \<Longrightarrow> cons_e t = cons_e s \<and> cons_w t = cons_w s \<and> cons_r t = cons_r s \<and> cons_buf t = cons_buf s"
  by (auto simp: consputc_def kbind_eq_Ret dest!: uartputc_keeps split: if_splits)

lemma kill_line_step:
  assumes "e \<noteq> (w :: uint32)"
  shows "unat (e - 1 - w) < unat (e - w)"
proof -
  have "e - w \<noteq> 0" using assms by simp
  then have "unat (e - w - 1) < unat (e - w)" by (metis measure_unat)
  then show ?thesis by (simp add: diff_right_commute)
qed

function kill_line :: "'z devst_scheme \<Rightarrow> (unit, 'z devst_scheme) outcome" where
  "kill_line s =
     (if cons_e s \<noteq> cons_w s \<and> cons_at s (cons_e s - 1) \<noteq> 10 then
        kbind (consputc BACKSPACE (s\<lparr>cons_e := cons_e s - 1\<rparr>)) (\<lambda>_ s. kill_line s)
      else Ret () s)"
  by pat_completeness auto
termination
  by (relation "measure (\<lambda>s. unat (cons_e s - cons_w s))") (auto dest!: consputc_keeps intro!: kill_line_step)

declare kill_line.simps [simp del]

definition consoleintr :: "int \<Rightarrow> 'z devst_scheme \<Rightarrow> (unit, 'z devst_scheme) outcome" where
  "consoleintr c s =
     kbind (acquire ConsLk s) (\<lambda>_ s.
     kbind (if c = CTRL CHR ''P'' then procdump s
            else if c = CTRL CHR ''U'' then kill_line s
            else if c = CTRL CHR ''H'' \<or> c = 0x7f then
              if cons_e s \<noteq> cons_w s then consputc BACKSPACE (s\<lparr>cons_e := cons_e s - 1\<rparr>) else Ret () s
            else if c \<noteq> 0 \<and> cons_e s - cons_r s < INPUT_BUF_SIZE then
              let c = (if c = 13 then 10 else c) in
              kbind (consputc c s) (\<lambda>_ s.
                let s = s\<lparr>cons_buf := (cons_buf s)(unat (cons_e s mod INPUT_BUF_SIZE) := word_of_int c), cons_e := cons_e s + 1\<rparr> in
                if c = 10 \<or> c = CTRL CHR ''D'' \<or> cons_e s - cons_r s = INPUT_BUF_SIZE
                then wakeup ChCons (s\<lparr>cons_w := cons_e s\<rparr>)
                else Ret () s)
            else Ret () s) (\<lambda>_ s.
     release ConsLk s))"

text \<open>
  The loop of \<^verbatim>\<open>uartintr\<close> reads the receive FIFO until it is empty; \<open>n\<close> bounds it by
  the bytes waiting at its start, and what arrives later raises another interrupt.
\<close>

fun uartintr_loop :: "nat \<Rightarrow> 'z devst_scheme \<Rightarrow> (unit, 'z devst_scheme) outcome" where
  "uartintr_loop 0 s = Ret () s"
| "uartintr_loop (Suc n) s =
     (case uartgetc s of (c, s) \<Rightarrow>
        if c = - 1 then Ret () s else kbind (consoleintr c s) (\<lambda>_ s. uartintr_loop n s))"

definition uartintr :: "'z devst_scheme \<Rightarrow> (unit, 'z devst_scheme) outcome" where
  "uartintr s =
     kbind (acquire TxLk s) (\<lambda>_ s.
     kbind (if uart_idle s then wakeup ChTx (s\<lparr>tx_busy := False\<rparr>) else Ret () s) (\<lambda>_ s.
     kbind (release TxLk s) (\<lambda>_ s.
     uartintr_loop (Suc (length (uart_rx s))) s)))"

text \<open>
  The body of \<^verbatim>\<open>consoleread\<close> with the lock held. A wait with no input gives up the
  processor; the rest of the read is the same loop with what is left to read.
\<close>

fun consoleread_loop :: "nat \<Rightarrow> uint32 \<Rightarrow> xloc \<Rightarrow> bytes \<Rightarrow> 'z devst_scheme \<Rightarrow> (int \<times> bytes, 'z devst_scheme) outcome" where
  "consoleread_loop 0 target dst obj s = kbind (release ConsLk s) (\<lambda>_ s. Ret (sint target, obj) s)"
| "consoleread_loop (Suc n) target dst obj s =
     (if cons_r s = cons_w s then
        kbind (curproc s) (\<lambda>p s.
        kbind (killed p s) (\<lambda>k s.
          if k \<noteq> 0 then kbind (release ConsLk s) (\<lambda>_ s. Ret (- 1, obj) s)
          else kbind (sleep ChCons ConsLk s) (\<lambda>_ s. Ret (0, obj) s)))
      else
        let c = cons_at s (cons_r s); s = s\<lparr>cons_r := cons_r s + 1\<rparr> in
        if uint c = CTRL CHR ''D'' then
          let s = (if of_nat (Suc n) < target then s\<lparr>cons_r := cons_r s - 1\<rparr> else s)
          in kbind (release ConsLk s) (\<lambda>_ s. Ret (sint (target - of_nat (Suc n)), obj) s)
        else
          kbind (either_copyout dst (\<lambda>_. c) 0 1 obj s) (\<lambda>(r, obj) s.
            if r = - 1 then kbind (release ConsLk s) (\<lambda>_ s. Ret (sint (target - of_nat (Suc n)), obj) s)
            else if c = 10 then kbind (release ConsLk s) (\<lambda>_ s. Ret (sint (target - of_nat n), obj) s)
            else consoleread_loop n target (xadvance dst 1) obj s))"

definition consoleread :: "xloc \<Rightarrow> int \<Rightarrow> bytes \<Rightarrow> 'z devst_scheme \<Rightarrow> (int \<times> bytes, 'z devst_scheme) outcome" where
  "consoleread dst n obj s =
     kbind (acquire ConsLk s) (\<lambda>_ s.
       if n \<le> 0 then kbind (release ConsLk s) (\<lambda>_ s. Ret (0, obj) s)
       else consoleread_loop (nat n) (word_of_int n) dst obj s)"

definition consoleread_resume :: "nat \<Rightarrow> nat \<Rightarrow> uint32 \<Rightarrow> xloc \<Rightarrow> bytes \<Rightarrow> 'z devst_scheme \<Rightarrow> (int \<times> bytes, 'z devst_scheme) outcome" where
  "consoleread_resume p n target dst obj s =
     kbind (sleep_resume p ConsLk s) (\<lambda>_ s. consoleread_loop n target dst obj s)"

section \<open>Output\<close>

function consolewrite_loop :: "xloc \<Rightarrow> bytes \<Rightarrow> int \<Rightarrow> int \<Rightarrow> bytes \<Rightarrow> 'z devst_scheme \<Rightarrow> (int, 'z devst_scheme) outcome" where
  "consolewrite_loop src buf i n obj s =
     (if i < n then
        let nn = min 32 (n - i) in
        kbind (either_copyin buf 0 src (word_of_int nn) obj s) (\<lambda>(r, buf) s.
          if r = - 1 then Ret i s
          else
            kbind (uartwrite (map buf [0..<nat nn]) s) (\<lambda>_ s.
            consolewrite_loop (xadvance src (word_of_int nn)) buf (i + nn) n obj s))
      else Ret i s)"
  by pat_completeness auto
termination
  by (relation "measure (\<lambda>(src, buf, i, n, obj, s). nat (n - i))") auto

declare consolewrite_loop.simps [simp del]

definition consolewrite :: "xloc \<Rightarrow> int \<Rightarrow> bytes \<Rightarrow> 'z devst_scheme \<Rightarrow> (int, 'z devst_scheme) outcome" where
  "consolewrite src n obj s = consolewrite_loop src (\<lambda>_. 0) 0 n obj s"

section \<open>Initialisation and dispatch\<close>

definition CONSOLE :: int where "CONSOLE = 1"

definition consoleinit :: "'z devst_scheme \<Rightarrow> 'z devst_scheme" where
  "consoleinit s =
     (let s = initlock ConsLk ''cons'' s;
          s = uartinit s
      in s\<lparr>devsw := (devsw s)(CONSOLE := Some ConsoleDev)\<rparr>)"

definition dev_read :: "devfn \<Rightarrow> xloc \<Rightarrow> int \<Rightarrow> 'z devst_scheme \<Rightarrow> (int, 'z devst_scheme) outcome" where
  "dev_read d dst n s =
     (case d of ConsoleDev \<Rightarrow> kbind (consoleread dst n (\<lambda>_. 0) s) (\<lambda>(r, _) s. Ret r s))"

definition dev_write :: "devfn \<Rightarrow> xloc \<Rightarrow> int \<Rightarrow> 'z devst_scheme \<Rightarrow> (int, 'z devst_scheme) outcome" where
  "dev_write d src n s = (case d of ConsoleDev \<Rightarrow> consolewrite src n (\<lambda>_. 0) s)"

end
