(* ===== verification/File.thy ===== *)
theory File
  imports Console
begin

text \<open>
  Open files and pipes: \<^verbatim>\<open>kernel/file.c\<close> and \<^verbatim>\<open>kernel/pipe.c\<close>. A file pointer is
  an index of the file table. A pipe is named by the page that holds it; its fields are kept apart
  from the bytes of the page.
\<close>

section \<open>State\<close>

definition PIPESIZE :: uint32 where "PIPESIZE = 512"

record pipe =
  pi_data :: bytes
  nread :: uint32
  nwrite :: uint32
  readopen :: bool
  writeopen :: bool

datatype fdtype = FD_NONE | FD_PIPE | FD_INODE | FD_DEVICE

record kfile =
  f_type :: fdtype
  f_ref :: int
  f_readable :: bool
  f_writable :: bool
  f_pipe :: uint64
  f_ip :: nat
  f_off :: uint32
  f_major :: int

record filest = devst +
  ftable :: "nat \<Rightarrow> kfile"
  pipes :: "uint64 \<Rightarrow> pipe"

definition set_file :: "nat \<Rightarrow> (kfile \<Rightarrow> kfile) \<Rightarrow> 'z filest_scheme \<Rightarrow> 'z filest_scheme" where
  "set_file i g s = s\<lparr>ftable := (ftable s)(i := g (ftable s i))\<rparr>"

definition set_pipe :: "uint64 \<Rightarrow> (pipe \<Rightarrow> pipe) \<Rightarrow> 'z filest_scheme \<Rightarrow> 'z filest_scheme" where
  "set_pipe q g s = s\<lparr>pipes := (pipes s)(q := g (pipes s q))\<rparr>"

section \<open>Pipes\<close>

definition pipeclose :: "uint64 \<Rightarrow> bool \<Rightarrow> 'z filest_scheme \<Rightarrow> (unit, 'z filest_scheme) outcome" where
  "pipeclose q writable s =
     kbind (acquire (PipeLk q) s) (\<lambda>_ s.
     kbind (if writable then wakeup (ChPipeR q) (set_pipe q (\<lambda>x. x\<lparr>writeopen := False\<rparr>) s)
            else wakeup (ChPipeW q) (set_pipe q (\<lambda>x. x\<lparr>readopen := False\<rparr>) s)) (\<lambda>_ s.
       if \<not> readopen (pipes s q) \<and> \<not> writeopen (pipes s q)
       then kbind (release (PipeLk q) s) (\<lambda>_ s. kfree q s)
       else release (PipeLk q) s))"

definition pipe_put :: "uint8 \<Rightarrow> pipe \<Rightarrow> pipe" where
  "pipe_put c x = x\<lparr>pi_data := (pi_data x)(unat (nwrite x mod PIPESIZE) := c), nwrite := nwrite x + 1\<rparr>"

definition pipe_head :: "pipe \<Rightarrow> uint8" where
  "pipe_head x = pi_data x (unat (nread x mod PIPESIZE))"

text \<open>
  The loop of \<^verbatim>\<open>pipewrite\<close> with the lock held: \<open>i\<close> bytes are written, \<open>m\<close> are
  left. A full pipe wakes the readers and gives up the processor.
\<close>

fun pipewrite_loop :: "nat \<Rightarrow> uint64 \<Rightarrow> uint64 \<Rightarrow> nat \<Rightarrow> nat \<Rightarrow> 'z filest_scheme \<Rightarrow> (int, 'z filest_scheme) outcome" where
  "pipewrite_loop pr q addr i 0 s =
     kbind (wakeup (ChPipeR q) s) (\<lambda>_ s. kbind (release (PipeLk q) s) (\<lambda>_ s. Ret (int i) s))"
| "pipewrite_loop pr q addr i (Suc m) s =
     kbind (if \<not> readopen (pipes s q) then Ret True s
            else kbind (killed pr s) (\<lambda>k s. Ret (k \<noteq> 0) s)) (\<lambda>stop s.
       if stop then kbind (release (PipeLk q) s) (\<lambda>_ s. Ret (- 1) s)
       else if nwrite (pipes s q) = nread (pipes s q) + PIPESIZE then
         kbind (wakeup (ChPipeR q) s) (\<lambda>_ s. kbind (sleep (ChPipeW q) (PipeLk q) s) (\<lambda>_ s. Ret (int i) s))
       else
         kbind (copyin (pagetable (proc s pr)) (\<lambda>_. 0) 0 (addr + of_nat i) 1 s) (\<lambda>(r, ch) s.
           if r = - 1 then
             kbind (wakeup (ChPipeR q) s) (\<lambda>_ s. kbind (release (PipeLk q) s) (\<lambda>_ s. Ret (int i) s))
           else pipewrite_loop pr q addr (Suc i) m (set_pipe q (pipe_put (ch 0)) s)))"

definition pipewrite :: "uint64 \<Rightarrow> uint64 \<Rightarrow> int \<Rightarrow> 'z filest_scheme \<Rightarrow> (int, 'z filest_scheme) outcome" where
  "pipewrite q addr n s =
     kbind (curproc s) (\<lambda>pr s.
     kbind (acquire (PipeLk q) s) (\<lambda>_ s. pipewrite_loop pr q addr 0 (nat n) s))"

definition pipewrite_resume :: "nat \<Rightarrow> uint64 \<Rightarrow> uint64 \<Rightarrow> nat \<Rightarrow> nat \<Rightarrow> 'z filest_scheme \<Rightarrow> (int, 'z filest_scheme) outcome" where
  "pipewrite_resume pr q addr i m s =
     kbind (sleep_resume pr (PipeLk q) s) (\<lambda>_ s. pipewrite_loop pr q addr i m s)"

text \<open>The copying loop of \<^verbatim>\<open>piperead\<close>: the final value of its counter.\<close>

fun piperead_copy :: "nat \<Rightarrow> uint64 \<Rightarrow> uint64 \<Rightarrow> nat \<Rightarrow> nat \<Rightarrow> 'z filest_scheme \<Rightarrow> (int, 'z filest_scheme) outcome" where
  "piperead_copy pr q addr i 0 s = Ret (int i) s"
| "piperead_copy pr q addr i (Suc m) s =
     (if nread (pipes s q) = nwrite (pipes s q) then Ret (int i) s
      else
        let ch = pipe_head (pipes s q) in
        kbind (copyout (pagetable (proc s pr)) (addr + of_nat i) (\<lambda>_. ch) 0 1 s) (\<lambda>r s.
          if r = - 1 then Ret (if i = 0 then - 1 else int i) s
          else piperead_copy pr q addr (Suc i) m (set_pipe q (\<lambda>x. x\<lparr>nread := nread x + 1\<rparr>) s)))"

definition piperead_loop :: "nat \<Rightarrow> uint64 \<Rightarrow> uint64 \<Rightarrow> int \<Rightarrow> 'z filest_scheme \<Rightarrow> (int, 'z filest_scheme) outcome" where
  "piperead_loop pr q addr n s =
     (if nread (pipes s q) = nwrite (pipes s q) \<and> writeopen (pipes s q) then
        kbind (killed pr s) (\<lambda>k s.
          if k \<noteq> 0 then kbind (release (PipeLk q) s) (\<lambda>_ s. Ret (- 1) s)
          else kbind (sleep (ChPipeR q) (PipeLk q) s) (\<lambda>_ s. Ret 0 s))
      else
        kbind (piperead_copy pr q addr 0 (nat n) s) (\<lambda>i s.
        kbind (wakeup (ChPipeW q) s) (\<lambda>_ s.
        kbind (release (PipeLk q) s) (\<lambda>_ s. Ret i s))))"

definition piperead :: "uint64 \<Rightarrow> uint64 \<Rightarrow> int \<Rightarrow> 'z filest_scheme \<Rightarrow> (int, 'z filest_scheme) outcome" where
  "piperead q addr n s =
     kbind (curproc s) (\<lambda>pr s.
     kbind (acquire (PipeLk q) s) (\<lambda>_ s. piperead_loop pr q addr n s))"

definition piperead_resume :: "nat \<Rightarrow> uint64 \<Rightarrow> uint64 \<Rightarrow> int \<Rightarrow> 'z filest_scheme \<Rightarrow> (int, 'z filest_scheme) outcome" where
  "piperead_resume pr q addr n s =
     kbind (sleep_resume pr (PipeLk q) s) (\<lambda>_ s. piperead_loop pr q addr n s)"

section \<open>The file table\<close>

definition fileinit :: "'z mach_scheme \<Rightarrow> 'z mach_scheme" where
  "fileinit s = initlock FtableLk ''ftable'' s"

definition filealloc :: "'z filest_scheme \<Rightarrow> (nat option, 'z filest_scheme) outcome" where
  "filealloc s =
     kbind (acquire FtableLk s) (\<lambda>_ s.
       case first_idx (\<lambda>i. f_ref (ftable s i) = 0) [0..<NFILE] of
         Some i \<Rightarrow>
           let s = set_file i (\<lambda>x. x\<lparr>f_ref := 1\<rparr>) s in
           kbind (release FtableLk s) (\<lambda>_ s. Ret (Some i) s)
       | None \<Rightarrow> kbind (release FtableLk s) (\<lambda>_ s. Ret None s))"

definition filedup :: "nat \<Rightarrow> 'z filest_scheme \<Rightarrow> (nat, 'z filest_scheme) outcome" where
  "filedup f s =
     kbind (acquire FtableLk s) (\<lambda>_ s.
       if f_ref (ftable s f) < 1 then Panic ''filedup''
       else
         let s = set_file f (\<lambda>x. x\<lparr>f_ref := c_int (f_ref x + 1)\<rparr>) s in
         kbind (release FtableLk s) (\<lambda>_ s. Ret f s))"

definition fileclose :: "nat \<Rightarrow> 'z filest_scheme \<Rightarrow> (unit, 'z filest_scheme) outcome" where
  "fileclose f s =
     kbind (acquire FtableLk s) (\<lambda>_ s.
       if f_ref (ftable s f) < 1 then Panic ''fileclose''
       else
         let s = set_file f (\<lambda>x. x\<lparr>f_ref := f_ref x - 1\<rparr>) s in
         if 0 < f_ref (ftable s f) then release FtableLk s
         else
           let ff = ftable s f;
               s = set_file f (\<lambda>x. x\<lparr>f_ref := 0, f_type := FD_NONE\<rparr>) s
           in
           kbind (release FtableLk s) (\<lambda>_ s.
             case f_type ff of
               FD_PIPE \<Rightarrow> pipeclose (f_pipe ff) (f_writable ff) s
             | FD_NONE \<Rightarrow> Ret () s
             | _ \<Rightarrow>
                 kbind (begin_op s) (\<lambda>_ s.
                 kbind (iput (f_ip ff) s) (\<lambda>_ s.
                 end_op s))))"

text \<open>The 24 bytes of \<^verbatim>\<open>struct stat\<close> as they lie in memory, padding included.\<close>

definition stat_bytes :: "stat \<Rightarrow> bytes" where
  "stat_bytes st =
     (let d = put32 (\<lambda>_. 0) 0 (word_of_int (st_dev st));
          d = put32 d 4 (st_ino st);
          d = put16 d 8 (word_of_int (st_type st));
          d = put16 d 10 (word_of_int (st_nlink st));
          d = put32 d 16 (ucast (st_size st))
      in put32 d 20 (ucast (drop_bit 32 (st_size st))))"

definition filestat :: "nat \<Rightarrow> uint64 \<Rightarrow> 'z filest_scheme \<Rightarrow> (int, 'z filest_scheme) outcome" where
  "filestat f addr s =
     kbind (curproc s) (\<lambda>p s.
       if f_type (ftable s f) = FD_INODE \<or> f_type (ftable s f) = FD_DEVICE then
         kbind (ilock (Some (f_ip (ftable s f))) s) (\<lambda>_ s.
           let st = stati (f_ip (ftable s f)) s in
         kbind (iunlock (Some (f_ip (ftable s f))) s) (\<lambda>_ s.
         kbind (copyout (pagetable (proc s p)) addr (stat_bytes st) 0 24 s) (\<lambda>r s.
           Ret (if r < 0 then - 1 else 0) s)))
       else Ret (- 1) s)"

definition fileread :: "nat \<Rightarrow> uint64 \<Rightarrow> int \<Rightarrow> 'z filest_scheme \<Rightarrow> (int, 'z filest_scheme) outcome" where
  "fileread f addr n s =
     (if \<not> f_readable (ftable s f) then Ret (- 1) s
      else case f_type (ftable s f) of
        FD_PIPE \<Rightarrow> piperead (f_pipe (ftable s f)) addr n s
      | FD_DEVICE \<Rightarrow>
          let m = f_major (ftable s f) in
          if m < 0 \<or> NDEV \<le> m then Ret (- 1) s
          else (case devsw s m of None \<Rightarrow> Ret (- 1) s | Some d \<Rightarrow> dev_read d (UserVA addr) n s)
      | FD_INODE \<Rightarrow>
          kbind (ilock (Some (f_ip (ftable s f))) s) (\<lambda>_ s.
          kbind (readi (f_ip (ftable s f)) (UserVA addr) (f_off (ftable s f)) (word_of_int n) (\<lambda>_. 0) s) (\<lambda>(r, _) s.
            let s = (if 0 < r then set_file f (\<lambda>x. x\<lparr>f_off := f_off x + word_of_int r\<rparr>) s else s) in
          kbind (iunlock (Some (f_ip (ftable s f))) s) (\<lambda>_ s. Ret r s)))
      | FD_NONE \<Rightarrow> Panic ''fileread'')"

text \<open>
  The loop of \<^verbatim>\<open>filewrite\<close> for an inode: a transaction per piece of at most \<open>max\<close>
  bytes. The result is the value of \<^verbatim>\<open>i\<close> at its end.
\<close>

definition filewrite_max :: int where
  "filewrite_max = (MAXOPBLOCKS - 1 - 1 - 2) div 2 * int BSIZE"

function filewrite_loop :: "nat \<Rightarrow> uint64 \<Rightarrow> int \<Rightarrow> int \<Rightarrow> 'z filest_scheme \<Rightarrow> (int, 'z filest_scheme) outcome" where
  "filewrite_loop f addr i n s =
     (if i < n then
        let n1 = (if filewrite_max < n - i then filewrite_max else n - i) in
        kbind (begin_op s) (\<lambda>_ s.
        kbind (ilock (Some (f_ip (ftable s f))) s) (\<lambda>_ s.
        kbind (writei (f_ip (ftable s f)) (UserVA (addr + word_of_int i)) (f_off (ftable s f)) (word_of_int n1) (\<lambda>_. 0) s) (\<lambda>r s.
          let s = (if 0 < r then set_file f (\<lambda>x. x\<lparr>f_off := f_off x + word_of_int r\<rparr>) s else s) in
        kbind (iunlock (Some (f_ip (ftable s f))) s) (\<lambda>_ s.
        kbind (end_op s) (\<lambda>_ s.
          if r \<noteq> n1 then Ret i s else filewrite_loop f addr (i + r) n s)))))
      else Ret i s)"
  by pat_completeness auto
termination
  by (relation "measure (\<lambda>(f, addr, i, n, s). nat (n - i))")
    (auto simp: filewrite_max_def MAXOPBLOCKS_def BSIZE_def split: if_splits)

declare filewrite_loop.simps [simp del]

definition filewrite :: "nat \<Rightarrow> uint64 \<Rightarrow> int \<Rightarrow> 'z filest_scheme \<Rightarrow> (int, 'z filest_scheme) outcome" where
  "filewrite f addr n s =
     (if \<not> f_writable (ftable s f) then Ret (- 1) s
      else case f_type (ftable s f) of
        FD_PIPE \<Rightarrow> pipewrite (f_pipe (ftable s f)) addr n s
      | FD_DEVICE \<Rightarrow>
          let m = f_major (ftable s f) in
          if m < 0 \<or> NDEV \<le> m then Ret (- 1) s
          else (case devsw s m of None \<Rightarrow> Ret (- 1) s | Some d \<Rightarrow> dev_write d (UserVA addr) n s)
      | FD_INODE \<Rightarrow> kbind (filewrite_loop f addr 0 n s) (\<lambda>i s. Ret (if i = n then n else - 1) s)
      | FD_NONE \<Rightarrow> Panic ''filewrite'')"

section \<open>Making a pipe\<close>

text \<open>
  \<^verbatim>\<open>pipealloc\<close>: the two files, or nothing when the table or memory is exhausted. What was
  taken before the failure is given back.
\<close>

definition pipealloc_bad :: "nat option \<Rightarrow> nat option \<Rightarrow> 'z filest_scheme \<Rightarrow> ((nat \<times> nat) option, 'z filest_scheme) outcome" where
  "pipealloc_bad f0 f1 s =
     kbind (case f0 of Some f \<Rightarrow> fileclose f s | None \<Rightarrow> Ret () s) (\<lambda>_ s.
     kbind (case f1 of Some f \<Rightarrow> fileclose f s | None \<Rightarrow> Ret () s) (\<lambda>_ s.
     Ret None s))"

definition pipealloc :: "'z filest_scheme \<Rightarrow> ((nat \<times> nat) option, 'z filest_scheme) outcome" where
  "pipealloc s =
     kbind (filealloc s) (\<lambda>f0 s.
       case f0 of
         None \<Rightarrow> pipealloc_bad None None s
       | Some a \<Rightarrow>
           kbind (filealloc s) (\<lambda>f1 s.
             case f1 of
               None \<Rightarrow> pipealloc_bad (Some a) None s
             | Some b \<Rightarrow>
                 kbind (kalloc s) (\<lambda>q s.
                   if q = 0 then pipealloc_bad (Some a) (Some b) s
                   else
                     let s = set_pipe q (\<lambda>x. x\<lparr>readopen := True, writeopen := True, nwrite := 0, nread := 0\<rparr>) s;
                         s = initlock (PipeLk q) ''pipe'' s;
                         s = set_file a (\<lambda>x. x\<lparr>f_type := FD_PIPE, f_readable := True, f_writable := False, f_pipe := q\<rparr>) s;
                         s = set_file b (\<lambda>x. x\<lparr>f_type := FD_PIPE, f_readable := False, f_writable := True, f_pipe := q\<rparr>) s
                     in Ret (Some (a, b)) s)))"

end
