(* ===== verification/Virtio.thy ===== *)
theory Virtio
  imports File
begin

text \<open>
  The disk driver, \<^verbatim>\<open>kernel/virtio_disk.c\<close>, and the structures of \<^verbatim>\<open>kernel/virtio.h\<close> it
  shares with the device. The three pages of the queue are typed arrays; the address in a descriptor
  names the object it points to. The device itself is not part of the sources: what it answers in
  a register is a parameter, \<open>vd_accept\<close>, and its side of the queue is the environment's.
\<close>

section \<open>Shared structures\<close>

definition VD_NUM :: nat where "VD_NUM = 8"

definition VIRTIO_MMIO_MAGIC_VALUE :: uint64 where "VIRTIO_MMIO_MAGIC_VALUE = 0x000"
definition VIRTIO_MMIO_VERSION :: uint64 where "VIRTIO_MMIO_VERSION = 0x004"
definition VIRTIO_MMIO_DEVICE_ID :: uint64 where "VIRTIO_MMIO_DEVICE_ID = 0x008"
definition VIRTIO_MMIO_VENDOR_ID :: uint64 where "VIRTIO_MMIO_VENDOR_ID = 0x00c"
definition VIRTIO_MMIO_DEVICE_FEATURES :: uint64 where "VIRTIO_MMIO_DEVICE_FEATURES = 0x010"
definition VIRTIO_MMIO_DRIVER_FEATURES :: uint64 where "VIRTIO_MMIO_DRIVER_FEATURES = 0x020"
definition VIRTIO_MMIO_QUEUE_SEL :: uint64 where "VIRTIO_MMIO_QUEUE_SEL = 0x030"
definition VIRTIO_MMIO_QUEUE_NUM_MAX :: uint64 where "VIRTIO_MMIO_QUEUE_NUM_MAX = 0x034"
definition VIRTIO_MMIO_QUEUE_NUM :: uint64 where "VIRTIO_MMIO_QUEUE_NUM = 0x038"
definition VIRTIO_MMIO_QUEUE_READY :: uint64 where "VIRTIO_MMIO_QUEUE_READY = 0x044"
definition VIRTIO_MMIO_QUEUE_NOTIFY :: uint64 where "VIRTIO_MMIO_QUEUE_NOTIFY = 0x050"
definition VIRTIO_MMIO_INTERRUPT_STATUS :: uint64 where "VIRTIO_MMIO_INTERRUPT_STATUS = 0x060"
definition VIRTIO_MMIO_INTERRUPT_ACK :: uint64 where "VIRTIO_MMIO_INTERRUPT_ACK = 0x064"
definition VIRTIO_MMIO_STATUS :: uint64 where "VIRTIO_MMIO_STATUS = 0x070"
definition VIRTIO_MMIO_QUEUE_DESC_LOW :: uint64 where "VIRTIO_MMIO_QUEUE_DESC_LOW = 0x080"
definition VIRTIO_MMIO_QUEUE_DESC_HIGH :: uint64 where "VIRTIO_MMIO_QUEUE_DESC_HIGH = 0x084"
definition VIRTIO_MMIO_DRIVER_DESC_LOW :: uint64 where "VIRTIO_MMIO_DRIVER_DESC_LOW = 0x090"
definition VIRTIO_MMIO_DRIVER_DESC_HIGH :: uint64 where "VIRTIO_MMIO_DRIVER_DESC_HIGH = 0x094"
definition VIRTIO_MMIO_DEVICE_DESC_LOW :: uint64 where "VIRTIO_MMIO_DEVICE_DESC_LOW = 0x0a0"
definition VIRTIO_MMIO_DEVICE_DESC_HIGH :: uint64 where "VIRTIO_MMIO_DEVICE_DESC_HIGH = 0x0a4"

definition VIRTIO_CONFIG_S_ACKNOWLEDGE :: uint32 where "VIRTIO_CONFIG_S_ACKNOWLEDGE = 1"
definition VIRTIO_CONFIG_S_DRIVER :: uint32 where "VIRTIO_CONFIG_S_DRIVER = 2"
definition VIRTIO_CONFIG_S_DRIVER_OK :: uint32 where "VIRTIO_CONFIG_S_DRIVER_OK = 4"
definition VIRTIO_CONFIG_S_FEATURES_OK :: uint32 where "VIRTIO_CONFIG_S_FEATURES_OK = 8"

definition VIRTIO_BLK_F_RO :: nat where "VIRTIO_BLK_F_RO = 5"
definition VIRTIO_BLK_F_SCSI :: nat where "VIRTIO_BLK_F_SCSI = 7"
definition VIRTIO_BLK_F_CONFIG_WCE :: nat where "VIRTIO_BLK_F_CONFIG_WCE = 11"
definition VIRTIO_BLK_F_MQ :: nat where "VIRTIO_BLK_F_MQ = 12"
definition VIRTIO_F_ANY_LAYOUT :: nat where "VIRTIO_F_ANY_LAYOUT = 27"
definition VIRTIO_RING_F_INDIRECT_DESC :: nat where "VIRTIO_RING_F_INDIRECT_DESC = 28"
definition VIRTIO_RING_F_EVENT_IDX :: nat where "VIRTIO_RING_F_EVENT_IDX = 29"

definition VRING_DESC_F_NEXT :: uint16 where "VRING_DESC_F_NEXT = 1"
definition VRING_DESC_F_WRITE :: uint16 where "VRING_DESC_F_WRITE = 2"

definition VIRTIO_BLK_T_IN :: uint32 where "VIRTIO_BLK_T_IN = 0"
definition VIRTIO_BLK_T_OUT :: uint32 where "VIRTIO_BLK_T_OUT = 1"

text \<open>What a descriptor's address points to: nothing, a command header, a buffer's data, a status byte.\<close>

datatype dma = DmaNull | DmaReq nat | DmaData nat | DmaStatus nat

record virtq_desc =
  d_addr :: dma
  d_len :: uint32
  d_flags :: uint16
  d_next :: uint16

record virtio_blk_req =
  rq_type :: uint32
  rq_reserved :: uint32
  rq_sector :: uint64

record vdisk = filest +
  vd_desc_page :: uint64
  vd_avail_page :: uint64
  vd_used_page :: uint64
  vd_desc :: "nat \<Rightarrow> virtq_desc"
  avail_idx :: uint16
  avail_ring :: "nat \<Rightarrow> uint16"
  used_ring_idx :: uint16
  used_ring :: "nat \<Rightarrow> uint32"
  vd_free :: "nat \<Rightarrow> bool"
  used_idx :: uint16
  info_b :: "nat \<Rightarrow> nat option"
  info_status :: "nat \<Rightarrow> uint8"
  vd_ops :: "nat \<Rightarrow> virtio_blk_req"
  b_disk :: "nat \<Rightarrow> bool"
  vd_reg :: "uint64 \<Rightarrow> uint32"
  vd_accept :: "uint64 \<Rightarrow> uint32 \<Rightarrow> uint32"

definition desc_null :: virtq_desc where
  "desc_null = \<lparr>d_addr = DmaNull, d_len = 0, d_flags = 0, d_next = 0\<rparr>"

definition set_desc :: "nat \<Rightarrow> virtq_desc \<Rightarrow> 'z vdisk_scheme \<Rightarrow> 'z vdisk_scheme" where
  "set_desc i d s = s\<lparr>vd_desc := (vd_desc s)(i := d)\<rparr>"

text \<open>A device register: a store leaves in it what the device accepts.\<close>

definition read_R :: "uint64 \<Rightarrow> 'z vdisk_scheme \<Rightarrow> uint32" where
  "read_R r s = vd_reg s r"

definition write_R :: "uint64 \<Rightarrow> uint32 \<Rightarrow> 'z vdisk_scheme \<Rightarrow> 'z vdisk_scheme" where
  "write_R r v s = s\<lparr>vd_reg := (vd_reg s)(r := vd_accept s r v)\<rparr>"

section \<open>Initialisation\<close>

definition negotiate :: "uint32 \<Rightarrow> uint32" where
  "negotiate f = fold (\<lambda>b f. f AND NOT (push_bit b 1))
     [VIRTIO_BLK_F_RO, VIRTIO_BLK_F_SCSI, VIRTIO_BLK_F_CONFIG_WCE, VIRTIO_BLK_F_MQ,
      VIRTIO_F_ANY_LAYOUT, VIRTIO_RING_F_EVENT_IDX, VIRTIO_RING_F_INDIRECT_DESC] f"

definition vd_probe :: "'z vdisk_scheme \<Rightarrow> bool" where
  "vd_probe s = (read_R VIRTIO_MMIO_MAGIC_VALUE s = 0x74726976 \<and> read_R VIRTIO_MMIO_VERSION s = 2 \<and>
     read_R VIRTIO_MMIO_DEVICE_ID s = 2 \<and> read_R VIRTIO_MMIO_VENDOR_ID s = 0x554d4551)"

text \<open>The queue set-up at the end of \<^verbatim>\<open>virtio_disk_init\<close>, from the allocation of the pages on.\<close>

definition vd_setup_queue :: "uint32 \<Rightarrow> 'z vdisk_scheme \<Rightarrow> (unit, 'z vdisk_scheme) outcome" where
  "vd_setup_queue status s =
     kbind (kalloc s) (\<lambda>d s.
     kbind (kalloc s) (\<lambda>a s.
     kbind (kalloc s) (\<lambda>u s.
       let s = s\<lparr>vd_desc_page := d, vd_avail_page := a, vd_used_page := u\<rparr> in
       if d = 0 \<or> a = 0 \<or> u = 0 then Panic ''virtio disk kalloc''
       else
         let s = s\<lparr>phys := memset (memset (memset (phys s) d 0 4096) a 0 4096) u 0 4096,
                   vd_desc := (\<lambda>_. desc_null), avail_idx := 0, avail_ring := (\<lambda>_. 0),
                   used_ring_idx := 0, used_ring := (\<lambda>_. 0)\<rparr>;
             s = write_R VIRTIO_MMIO_QUEUE_NUM (of_nat VD_NUM) s;
             s = write_R VIRTIO_MMIO_QUEUE_DESC_LOW (ucast d) s;
             s = write_R VIRTIO_MMIO_QUEUE_DESC_HIGH (ucast (drop_bit 32 d)) s;
             s = write_R VIRTIO_MMIO_DRIVER_DESC_LOW (ucast a) s;
             s = write_R VIRTIO_MMIO_DRIVER_DESC_HIGH (ucast (drop_bit 32 a)) s;
             s = write_R VIRTIO_MMIO_DEVICE_DESC_LOW (ucast u) s;
             s = write_R VIRTIO_MMIO_DEVICE_DESC_HIGH (ucast (drop_bit 32 u)) s;
             s = write_R VIRTIO_MMIO_QUEUE_READY 1 s;
             s = s\<lparr>vd_free := (\<lambda>i. if i < VD_NUM then True else vd_free s i)\<rparr>
         in Ret () (write_R VIRTIO_MMIO_STATUS (status OR VIRTIO_CONFIG_S_DRIVER_OK) s))))"

definition virtio_disk_init :: "'z vdisk_scheme \<Rightarrow> (unit, 'z vdisk_scheme) outcome" where
  "virtio_disk_init s =
     (let s = initlock VdiskLk ''virtio_disk'' s in
      if \<not> vd_probe s then Panic ''could not find virtio disk''
      else
        let s = write_R VIRTIO_MMIO_STATUS 0 s;
            status = VIRTIO_CONFIG_S_ACKNOWLEDGE;
            s = write_R VIRTIO_MMIO_STATUS status s;
            status = status OR VIRTIO_CONFIG_S_DRIVER;
            s = write_R VIRTIO_MMIO_STATUS status s;
            s = write_R VIRTIO_MMIO_DRIVER_FEATURES (negotiate (read_R VIRTIO_MMIO_DEVICE_FEATURES s)) s;
            status = status OR VIRTIO_CONFIG_S_FEATURES_OK;
            s = write_R VIRTIO_MMIO_STATUS status s;
            status = read_R VIRTIO_MMIO_STATUS s
        in
        if status AND VIRTIO_CONFIG_S_FEATURES_OK = 0 then Panic ''virtio disk FEATURES_OK unset''
        else
          let s = write_R VIRTIO_MMIO_QUEUE_SEL 0 s in
          if read_R VIRTIO_MMIO_QUEUE_READY s \<noteq> 0 then Panic ''virtio disk should not be ready''
          else
            let mx = read_R VIRTIO_MMIO_QUEUE_NUM_MAX s in
            if mx = 0 then Panic ''virtio disk has no queue 0''
            else if mx < of_nat VD_NUM then Panic ''virtio disk max queue too short''
            else vd_setup_queue status s)"

section \<open>Descriptors\<close>

definition alloc_desc :: "'z vdisk_scheme \<Rightarrow> nat option \<times> 'z vdisk_scheme" where
  "alloc_desc s =
     (case first_idx (vd_free s) [0..<VD_NUM] of
        Some i \<Rightarrow> (Some i, s\<lparr>vd_free := (vd_free s)(i := False)\<rparr>)
      | None \<Rightarrow> (None, s))"

definition free_desc :: "nat \<Rightarrow> 'z vdisk_scheme \<Rightarrow> (unit, 'z vdisk_scheme) outcome" where
  "free_desc i s =
     (if VD_NUM \<le> i then Panic ''free_desc 1''
      else if vd_free s i then Panic ''free_desc 2''
      else
        let s = set_desc i desc_null s;
            s = s\<lparr>vd_free := (vd_free s)(i := True)\<rparr>
        in wakeup ChDiskFree s)"

text \<open>
  The loop of \<^verbatim>\<open>free_chain\<close>. Every turn frees a descriptor that was in use and a turn on a free
  one panics, so there are at most \<open>VD_NUM + 1\<close> turns.
\<close>

fun free_chain_loop :: "nat \<Rightarrow> nat \<Rightarrow> 'z vdisk_scheme \<Rightarrow> (unit, 'z vdisk_scheme) outcome" where
  "free_chain_loop 0 i s = Spin"
| "free_chain_loop (Suc n) i s =
     (let flag = d_flags (vd_desc s i);
          nxt = unat (d_next (vd_desc s i))
      in kbind (free_desc i s) (\<lambda>_ s.
           if flag AND VRING_DESC_F_NEXT \<noteq> 0 then free_chain_loop n nxt s else Ret () s))"

definition free_chain :: "nat \<Rightarrow> 'z vdisk_scheme \<Rightarrow> (unit, 'z vdisk_scheme) outcome" where
  "free_chain i s = free_chain_loop (VD_NUM + 1) i s"

definition alloc3_desc :: "'z vdisk_scheme \<Rightarrow> ((nat \<times> nat \<times> nat) option, 'z vdisk_scheme) outcome" where
  "alloc3_desc s =
     (case alloc_desc s of
        (None, s) \<Rightarrow> Ret None s
      | (Some i, s) \<Rightarrow>
          (case alloc_desc s of
             (None, s) \<Rightarrow> kbind (free_desc i s) (\<lambda>_ s. Ret None s)
           | (Some j, s) \<Rightarrow>
               (case alloc_desc s of
                  (None, s) \<Rightarrow> kbind (free_desc i s) (\<lambda>_ s. kbind (free_desc j s) (\<lambda>_ s. Ret None s))
                | (Some k, s) \<Rightarrow> Ret (Some (i, j, k)) s)))"

section \<open>Requests\<close>

text \<open>
  \<^verbatim>\<open>virtio_disk_rw\<close> up to the wait for the device: \<open>vd_submit\<close> formats the request in the
  three descriptors and hands it over. The caller of \<^verbatim>\<open>virtio_disk_rw\<close> always waits, since
  \<^verbatim>\<open>b->disk\<close> is set; \<open>virtio_disk_rw_done\<close> is what runs when it is woken.
\<close>

definition vd_submit :: "nat \<Rightarrow> bool \<Rightarrow> nat \<times> nat \<times> nat \<Rightarrow> 'z vdisk_scheme \<Rightarrow> 'z vdisk_scheme" where
  "vd_submit b wr idx s =
     (case idx of (i0, i1, i2) \<Rightarrow>
      let sector = ucast (blockno (bufs s b) * of_nat (BSIZE div 512));
          s = s\<lparr>vd_ops := (vd_ops s)(i0 := \<lparr>rq_type = (if wr then VIRTIO_BLK_T_OUT else VIRTIO_BLK_T_IN),
                                       rq_reserved = 0, rq_sector = sector\<rparr>)\<rparr>;
          s = set_desc i0 \<lparr>d_addr = DmaReq i0, d_len = 16, d_flags = VRING_DESC_F_NEXT, d_next = of_nat i1\<rparr> s;
          s = set_desc i1 \<lparr>d_addr = DmaData b, d_len = of_nat BSIZE,
                d_flags = (if wr then 0 else VRING_DESC_F_WRITE) OR VRING_DESC_F_NEXT, d_next = of_nat i2\<rparr> s;
          s = s\<lparr>info_status := (info_status s)(i0 := 0xff)\<rparr>;
          s = set_desc i2 \<lparr>d_addr = DmaStatus i0, d_len = 1, d_flags = VRING_DESC_F_WRITE, d_next = 0\<rparr> s;
          s = s\<lparr>b_disk := (b_disk s)(b := True)\<rparr>;
          s = s\<lparr>info_b := (info_b s)(i0 := Some b)\<rparr>;
          s = s\<lparr>avail_ring := (avail_ring s)(unat (avail_idx s) mod VD_NUM := of_nat i0)\<rparr>;
          s = s\<lparr>avail_idx := avail_idx s + 1\<rparr>
      in write_R VIRTIO_MMIO_QUEUE_NOTIFY 0 s)"

definition vd_finish :: "nat \<Rightarrow> 'z vdisk_scheme \<Rightarrow> (unit, 'z vdisk_scheme) outcome" where
  "vd_finish i0 s =
     (let s = s\<lparr>info_b := (info_b s)(i0 := None)\<rparr> in
      kbind (free_chain i0 s) (\<lambda>_ s. release VdiskLk s))"

definition virtio_disk_wait :: "nat \<Rightarrow> nat \<Rightarrow> 'z vdisk_scheme \<Rightarrow> (unit, 'z vdisk_scheme) outcome" where
  "virtio_disk_wait b i0 s =
     (if b_disk s b then sleep (ChBuf b) VdiskLk s else vd_finish i0 s)"

definition virtio_disk_rw_loop :: "nat \<Rightarrow> bool \<Rightarrow> 'z vdisk_scheme \<Rightarrow> (unit, 'z vdisk_scheme) outcome" where
  "virtio_disk_rw_loop b wr s =
     kbind (alloc3_desc s) (\<lambda>r s.
       case r of
         None \<Rightarrow> sleep ChDiskFree VdiskLk s
       | Some (i0, i1, i2) \<Rightarrow> virtio_disk_wait b i0 (vd_submit b wr (i0, i1, i2) s))"

definition virtio_disk_rw :: "nat \<Rightarrow> bool \<Rightarrow> 'z vdisk_scheme \<Rightarrow> (unit, 'z vdisk_scheme) outcome" where
  "virtio_disk_rw b wr s = kbind (acquire VdiskLk s) (\<lambda>_ s. virtio_disk_rw_loop b wr s)"

definition virtio_disk_rw_resume :: "nat \<Rightarrow> nat \<Rightarrow> bool \<Rightarrow> 'z vdisk_scheme \<Rightarrow> (unit, 'z vdisk_scheme) outcome" where
  "virtio_disk_rw_resume p b wr s =
     kbind (sleep_resume p VdiskLk s) (\<lambda>_ s. virtio_disk_rw_loop b wr s)"

definition virtio_disk_rw_done :: "nat \<Rightarrow> nat \<Rightarrow> nat \<Rightarrow> 'z vdisk_scheme \<Rightarrow> (unit, 'z vdisk_scheme) outcome" where
  "virtio_disk_rw_done p b i0 s =
     kbind (sleep_resume p VdiskLk s) (\<lambda>_ s. virtio_disk_wait b i0 s)"

section \<open>Completion\<close>

text \<open>
  One entry of the used ring. The identifier is the device's; one past the table reads outside
  \<^verbatim>\<open>disk.info\<close>.
\<close>

definition vd_complete :: "'z vdisk_scheme \<Rightarrow> (unit, 'z vdisk_scheme) outcome" where
  "vd_complete s =
     (let i = unat (used_ring s (unat (used_idx s) mod VD_NUM)) in
      if VD_NUM \<le> i then Undef
      else if info_status s i \<noteq> 0 then Panic ''virtio_disk_intr status''
      else
        (case info_b s i of
           None \<Rightarrow> Panic ''kerneltrap''
         | Some b \<Rightarrow>
             let s = s\<lparr>b_disk := (b_disk s)(b := False)\<rparr> in
             kbind (wakeup (ChBuf b) s) (\<lambda>_ s. Ret () (s\<lparr>used_idx := used_idx s + 1\<rparr>))))"

text \<open>The loop runs once per entry the device has added since the last interrupt, modulo \<open>2 ^ 16\<close>.\<close>

fun vd_complete_loop :: "nat \<Rightarrow> 'z vdisk_scheme \<Rightarrow> (unit, 'z vdisk_scheme) outcome" where
  "vd_complete_loop 0 s = Ret () s"
| "vd_complete_loop (Suc n) s = kbind (vd_complete s) (\<lambda>_ s. vd_complete_loop n s)"

definition virtio_disk_intr :: "'z vdisk_scheme \<Rightarrow> (unit, 'z vdisk_scheme) outcome" where
  "virtio_disk_intr s =
     kbind (acquire VdiskLk s) (\<lambda>_ s.
       let s = write_R VIRTIO_MMIO_INTERRUPT_ACK (read_R VIRTIO_MMIO_INTERRUPT_STATUS s AND 3) s in
     kbind (vd_complete_loop (unat (used_ring_idx s - used_idx s)) s) (\<lambda>_ s.
     release VdiskLk s))"

end
