(* ===== verification/Csr.thy ===== *)
theory Csr
  imports Virtio
begin

text \<open>
  The control registers of \<^verbatim>\<open>kernel/riscv.h\<close>, the interrupt controller of
  \<^verbatim>\<open>kernel/plic.c\<close>, the machine-mode start-up of \<^verbatim>\<open>kernel/start.c\<close>, and the
  saved user registers of a process. Every hart has its own register file. The enable bit of
  \<^verbatim>\<open>sstatus\<close> is the field \<open>sie\<close> of the machine state, which the spinlocks use; the
  accessors put it in its place.
\<close>

section \<open>Register file\<close>

record csrs =
  c_mhartid :: uint64
  c_mstatus :: uint64
  c_mepc :: uint64
  c_sstatus :: uint64
  c_sip :: uint64
  c_sie :: uint64
  c_mie :: uint64
  c_sepc :: uint64
  c_medeleg :: uint64
  c_mideleg :: uint64
  c_stvec :: uint64
  c_stimecmp :: uint64
  c_menvcfg :: uint64
  c_pmpcfg0 :: uint64
  c_pmpaddr0 :: uint64
  c_scause :: uint64
  c_stval :: uint64
  c_mcounteren :: uint64
  c_time :: uint64

text \<open>
  \<open>plic_reg\<close> holds what was stored in the controller's registers and \<open>plic_irqs\<close> the
  interrupts it will hand to a hart, in order. \<open>started\<close> and \<open>first_run\<close> are the static
  variables of \<^verbatim>\<open>main\<close> and \<^verbatim>\<open>forkret\<close>. \<open>stack_junk\<close> is what a local array holds before it is
  written.
\<close>

record trapst = vdisk +
  csr :: "nat \<Rightarrow> csrs"
  plic_reg :: "uint64 \<Rightarrow> uint32"
  plic_irqs :: "nat \<Rightarrow> uint32 list"
  started :: bool
  first_run :: bool
  stack_junk :: bytes

definition mycsr :: "'z trapst_scheme \<Rightarrow> csrs" where
  "mycsr s = csr s (hart s)"

definition set_csr :: "(csrs \<Rightarrow> csrs) \<Rightarrow> 'z trapst_scheme \<Rightarrow> 'z trapst_scheme" where
  "set_csr f s = s\<lparr>csr := (csr s)(hart s := f (csr s (hart s)))\<rparr>"

definition MSTATUS_MPP_MASK :: uint64 where "MSTATUS_MPP_MASK = push_bit 11 3"
definition MSTATUS_MPP_M :: uint64 where "MSTATUS_MPP_M = push_bit 11 3"
definition MSTATUS_MPP_S :: uint64 where "MSTATUS_MPP_S = push_bit 11 1"
definition MSTATUS_MPP_U :: uint64 where "MSTATUS_MPP_U = push_bit 11 0"
definition SSTATUS_SPP :: uint64 where "SSTATUS_SPP = push_bit 8 1"
definition SSTATUS_SPIE :: uint64 where "SSTATUS_SPIE = push_bit 5 1"
definition SSTATUS_UPIE :: uint64 where "SSTATUS_UPIE = push_bit 4 1"
definition SSTATUS_SIE :: uint64 where "SSTATUS_SIE = push_bit 1 1"
definition SSTATUS_UIE :: uint64 where "SSTATUS_UIE = push_bit 0 1"
definition SIE_SEIE :: uint64 where "SIE_SEIE = push_bit 9 1"
definition SIE_STIE :: uint64 where "SIE_STIE = push_bit 5 1"
definition MIE_STIE :: uint64 where "MIE_STIE = push_bit 5 1"

definition r_mhartid :: "'z trapst_scheme \<Rightarrow> uint64" where "r_mhartid s = c_mhartid (mycsr s)"
definition r_mstatus :: "'z trapst_scheme \<Rightarrow> uint64" where "r_mstatus s = c_mstatus (mycsr s)"
definition r_sip :: "'z trapst_scheme \<Rightarrow> uint64" where "r_sip s = c_sip (mycsr s)"
definition r_sie :: "'z trapst_scheme \<Rightarrow> uint64" where "r_sie s = c_sie (mycsr s)"
definition r_mie :: "'z trapst_scheme \<Rightarrow> uint64" where "r_mie s = c_mie (mycsr s)"
definition r_sepc :: "'z trapst_scheme \<Rightarrow> uint64" where "r_sepc s = c_sepc (mycsr s)"
definition r_medeleg :: "'z trapst_scheme \<Rightarrow> uint64" where "r_medeleg s = c_medeleg (mycsr s)"
definition r_mideleg :: "'z trapst_scheme \<Rightarrow> uint64" where "r_mideleg s = c_mideleg (mycsr s)"
definition r_stvec :: "'z trapst_scheme \<Rightarrow> uint64" where "r_stvec s = c_stvec (mycsr s)"
definition r_stimecmp :: "'z trapst_scheme \<Rightarrow> uint64" where "r_stimecmp s = c_stimecmp (mycsr s)"
definition r_menvcfg :: "'z trapst_scheme \<Rightarrow> uint64" where "r_menvcfg s = c_menvcfg (mycsr s)"
definition r_scause :: "'z trapst_scheme \<Rightarrow> uint64" where "r_scause s = c_scause (mycsr s)"
definition r_stval :: "'z trapst_scheme \<Rightarrow> uint64" where "r_stval s = c_stval (mycsr s)"
definition r_mcounteren :: "'z trapst_scheme \<Rightarrow> uint64" where "r_mcounteren s = c_mcounteren (mycsr s)"
definition r_time :: "'z trapst_scheme \<Rightarrow> uint64" where "r_time s = c_time (mycsr s)"

definition w_mstatus :: "uint64 \<Rightarrow> 'z trapst_scheme \<Rightarrow> 'z trapst_scheme" where
  "w_mstatus x = set_csr (\<lambda>c. c\<lparr>c_mstatus := x\<rparr>)"
definition w_mepc :: "uint64 \<Rightarrow> 'z trapst_scheme \<Rightarrow> 'z trapst_scheme" where
  "w_mepc x = set_csr (\<lambda>c. c\<lparr>c_mepc := x\<rparr>)"
definition w_sip :: "uint64 \<Rightarrow> 'z trapst_scheme \<Rightarrow> 'z trapst_scheme" where
  "w_sip x = set_csr (\<lambda>c. c\<lparr>c_sip := x\<rparr>)"
definition w_sie :: "uint64 \<Rightarrow> 'z trapst_scheme \<Rightarrow> 'z trapst_scheme" where
  "w_sie x = set_csr (\<lambda>c. c\<lparr>c_sie := x\<rparr>)"
definition w_mie :: "uint64 \<Rightarrow> 'z trapst_scheme \<Rightarrow> 'z trapst_scheme" where
  "w_mie x = set_csr (\<lambda>c. c\<lparr>c_mie := x\<rparr>)"
definition w_sepc :: "uint64 \<Rightarrow> 'z trapst_scheme \<Rightarrow> 'z trapst_scheme" where
  "w_sepc x = set_csr (\<lambda>c. c\<lparr>c_sepc := x\<rparr>)"
definition w_medeleg :: "uint64 \<Rightarrow> 'z trapst_scheme \<Rightarrow> 'z trapst_scheme" where
  "w_medeleg x = set_csr (\<lambda>c. c\<lparr>c_medeleg := x\<rparr>)"
definition w_mideleg :: "uint64 \<Rightarrow> 'z trapst_scheme \<Rightarrow> 'z trapst_scheme" where
  "w_mideleg x = set_csr (\<lambda>c. c\<lparr>c_mideleg := x\<rparr>)"
definition w_stvec :: "uint64 \<Rightarrow> 'z trapst_scheme \<Rightarrow> 'z trapst_scheme" where
  "w_stvec x = set_csr (\<lambda>c. c\<lparr>c_stvec := x\<rparr>)"
definition w_stimecmp :: "uint64 \<Rightarrow> 'z trapst_scheme \<Rightarrow> 'z trapst_scheme" where
  "w_stimecmp x = set_csr (\<lambda>c. c\<lparr>c_stimecmp := x\<rparr>)"
definition w_menvcfg :: "uint64 \<Rightarrow> 'z trapst_scheme \<Rightarrow> 'z trapst_scheme" where
  "w_menvcfg x = set_csr (\<lambda>c. c\<lparr>c_menvcfg := x\<rparr>)"
definition w_pmpcfg0 :: "uint64 \<Rightarrow> 'z trapst_scheme \<Rightarrow> 'z trapst_scheme" where
  "w_pmpcfg0 x = set_csr (\<lambda>c. c\<lparr>c_pmpcfg0 := x\<rparr>)"
definition w_pmpaddr0 :: "uint64 \<Rightarrow> 'z trapst_scheme \<Rightarrow> 'z trapst_scheme" where
  "w_pmpaddr0 x = set_csr (\<lambda>c. c\<lparr>c_pmpaddr0 := x\<rparr>)"
definition w_mcounteren :: "uint64 \<Rightarrow> 'z trapst_scheme \<Rightarrow> 'z trapst_scheme" where
  "w_mcounteren x = set_csr (\<lambda>c. c\<lparr>c_mcounteren := x\<rparr>)"

definition r_satp :: "'z procs_scheme \<Rightarrow> uint64" where "r_satp s = satp s (hart s)"
definition w_satp :: "uint64 \<Rightarrow> 'z procs_scheme \<Rightarrow> 'z procs_scheme" where
  "w_satp x s = s\<lparr>satp := (satp s)(hart s := x)\<rparr>"

text \<open>The thread pointer holds the number of the hart.\<close>

definition r_tp :: "'z mach_scheme \<Rightarrow> uint64" where "r_tp s = of_nat (hart s)"
definition w_tp :: "uint64 \<Rightarrow> 'z mach_scheme \<Rightarrow> 'z mach_scheme" where "w_tp x s = s\<lparr>hart := unat x\<rparr>"

definition r_sstatus :: "'z trapst_scheme \<Rightarrow> uint64" where
  "r_sstatus s = (if sie s (hart s) then c_sstatus (mycsr s) OR SSTATUS_SIE
                  else c_sstatus (mycsr s) AND NOT SSTATUS_SIE)"

definition w_sstatus :: "uint64 \<Rightarrow> 'z trapst_scheme \<Rightarrow> 'z trapst_scheme" where
  "w_sstatus x s = set_csr (\<lambda>c. c\<lparr>c_sstatus := x\<rparr>) (s\<lparr>sie := (sie s)(hart s := x AND SSTATUS_SIE \<noteq> 0)\<rparr>)"

lemma bit_SSTATUS_SIE [simp]: "bit SSTATUS_SIE n \<longleftrightarrow> n = 1"
  by (auto simp: SSTATUS_SIE_def bit_simps)

lemma word_bit_test: "(x :: uint64) AND push_bit n 1 \<noteq> 0 \<longleftrightarrow> n < 64 \<and> bit x n"
proof -
  have "x AND push_bit n 1 \<noteq> 0 \<longleftrightarrow> (\<exists>k. bit (x AND push_bit n 1) k)"
    by (metis bit_0_eq bit_eqI bot_apply bot_bool_def)
  also have "\<dots> \<longleftrightarrow> n < 64 \<and> bit x n"
    using bit_imp_le_length [of x n] by (auto simp: bit_simps)
  finally show ?thesis .
qed

text \<open>What is written to \<^verbatim>\<open>sstatus\<close> is read back.\<close>

lemma r_w_sstatus: "r_sstatus (w_sstatus x s) = x"
proof -
  have t: "x AND SSTATUS_SIE \<noteq> 0 \<longleftrightarrow> bit x 1"
    using word_bit_test [of x 1] by (simp add: SSTATUS_SIE_def)
  have "(if bit x 1 then x OR SSTATUS_SIE else x AND NOT SSTATUS_SIE) = x"
    by (auto intro!: bit_word_eqI simp: bit_simps)
  then show ?thesis
    by (simp add: r_sstatus_def w_sstatus_def set_csr_def mycsr_def t split: if_splits)
qed

section \<open>The interrupt controller\<close>

definition UART0_IRQ :: uint32 where "UART0_IRQ = 10"
definition VIRTIO0_IRQ :: uint32 where "VIRTIO0_IRQ = 1"

definition PLIC_SENABLE :: "uint64 \<Rightarrow> uint64" where "PLIC_SENABLE h = PLIC + 0x2080 + h * 0x100"
definition PLIC_SPRIORITY :: "uint64 \<Rightarrow> uint64" where "PLIC_SPRIORITY h = PLIC + 0x201000 + h * 0x2000"
definition PLIC_SCLAIM :: "uint64 \<Rightarrow> uint64" where "PLIC_SCLAIM h = PLIC + 0x201004 + h * 0x2000"

definition plic_write :: "uint64 \<Rightarrow> uint32 \<Rightarrow> 'z trapst_scheme \<Rightarrow> 'z trapst_scheme" where
  "plic_write a v s = s\<lparr>plic_reg := (plic_reg s)(a := v)\<rparr>"

definition plicinit :: "'z trapst_scheme \<Rightarrow> 'z trapst_scheme" where
  "plicinit s =
     (let s = plic_write (PLIC + ucast UART0_IRQ * 4) 1 s
      in plic_write (PLIC + ucast VIRTIO0_IRQ * 4) 1 s)"

definition plicinithart :: "'z trapst_scheme \<Rightarrow> 'z trapst_scheme" where
  "plicinithart s =
     (let h = of_nat (cpuid s);
          s = plic_write (PLIC_SENABLE h) (push_bit (unat UART0_IRQ) 1 OR push_bit (unat VIRTIO0_IRQ) 1) s
      in plic_write (PLIC_SPRIORITY h) 0 s)"

text \<open>A load from the claim register takes the next pending interrupt, zero when there is none.\<close>

definition plic_claim :: "'z trapst_scheme \<Rightarrow> int \<times> 'z trapst_scheme" where
  "plic_claim s =
     (case plic_irqs s (cpuid s) of
        [] \<Rightarrow> (0, s)
      | q # qs \<Rightarrow> (sint q, s\<lparr>plic_irqs := (plic_irqs s)(cpuid s := qs)\<rparr>))"

definition plic_complete :: "int \<Rightarrow> 'z trapst_scheme \<Rightarrow> 'z trapst_scheme" where
  "plic_complete irq s = plic_write (PLIC_SCLAIM (of_nat (cpuid s))) (word_of_int irq) s"

section \<open>Machine-mode start\<close>

definition timerinit :: "'z trapst_scheme \<Rightarrow> 'z trapst_scheme" where
  "timerinit s =
     (let s = w_menvcfg (r_menvcfg s OR push_bit 63 1) s;
          s = w_mcounteren (r_mcounteren s OR 2) s
      in w_stimecmp (r_time s + 1000000) s)"

text \<open>\<^verbatim>\<open>start\<close>, up to the \<^verbatim>\<open>mret\<close> that enters \<^verbatim>\<open>main\<close>, whose address is a parameter.\<close>

definition start :: "uint64 \<Rightarrow> 'z trapst_scheme \<Rightarrow> 'z trapst_scheme" where
  "start main_addr s =
     (let x = r_mstatus s;
          x = x AND NOT MSTATUS_MPP_MASK;
          x = x OR MSTATUS_MPP_S;
          s = w_mstatus x s;
          s = w_mepc main_addr s;
          s = w_satp 0 s;
          s = w_medeleg 0xffff s;
          s = w_mideleg 0xffff s;
          s = w_sie (r_sie s OR SIE_SEIE OR SIE_STIE) s;
          s = w_pmpaddr0 0x3fffffffffffff s;
          s = w_pmpcfg0 0xf s;
          s = timerinit s
      in w_tp (r_mhartid s) s)"

section \<open>Saved user registers\<close>

text \<open>\<^verbatim>\<open>struct trapframe\<close> lies in the page \<open>trapframe\<close> points to; a field is its offset.\<close>

definition tf_kernel_satp :: uint64 where "tf_kernel_satp = 0"
definition tf_kernel_sp :: uint64 where "tf_kernel_sp = 8"
definition tf_kernel_trap :: uint64 where "tf_kernel_trap = 16"
definition tf_epc :: uint64 where "tf_epc = 24"
definition tf_kernel_hartid :: uint64 where "tf_kernel_hartid = 32"
definition tf_sp :: uint64 where "tf_sp = 48"
definition tf_a0 :: uint64 where "tf_a0 = 112"
definition tf_a1 :: uint64 where "tf_a1 = 120"
definition tf_a7 :: uint64 where "tf_a7 = 168"
definition tf_bytes :: nat where "tf_bytes = 288"

definition get_tf :: "nat \<Rightarrow> uint64 \<Rightarrow> 'z procs_scheme \<Rightarrow> uint64" where
  "get_tf p r s = load64 (phys s) (trapframe (proc s p) + r)"

definition set_tf :: "nat \<Rightarrow> uint64 \<Rightarrow> uint64 \<Rightarrow> 'z procs_scheme \<Rightarrow> 'z procs_scheme" where
  "set_tf p r v s = s\<lparr>phys := store64 (phys s) (trapframe (proc s p) + r) v\<rparr>"

definition prepare_return :: "'z trapst_scheme \<Rightarrow> (unit, 'z trapst_scheme) outcome" where
  "prepare_return s =
     kbind (curproc s) (\<lambda>p s.
       let s = intr_off s;
           s = w_stvec (TRAMPOLINE + (uservec (syms s) - trampoline (syms s))) s;
           s = set_tf p tf_kernel_satp (r_satp s) s;
           s = set_tf p tf_kernel_sp (kstack (proc s p) + PGSIZE) s;
           s = set_tf p tf_kernel_trap (usertrap_addr (syms s)) s;
           s = set_tf p tf_kernel_hartid (r_tp s) s;
           x = r_sstatus s;
           x = x AND NOT SSTATUS_SPP;
           x = x OR SSTATUS_SPIE;
           s = w_sstatus x s
       in Ret () (w_sepc (get_tf p tf_epc s) s))"

end
