(* ===== verification/Exec.thy ===== *)
theory Exec
  imports Csr
begin

text \<open>
  Loading a program: \<^verbatim>\<open>kernel/exec.c\<close> and the file formats of \<^verbatim>\<open>kernel/elf.h\<close>.
  Headers are the bytes read from the file, with a definition per field. The argument strings are
  arrays; in the code they are pages that belong to the caller and that nothing else writes.
\<close>

section \<open>ELF headers\<close>

definition ELF_MAGIC :: uint32 where "ELF_MAGIC = 0x464C457F"
definition ELF_PROG_LOAD :: uint32 where "ELF_PROG_LOAD = 1"
definition USERSTACK :: uint64 where "USERSTACK = 1"

definition elf_magic :: "bytes \<Rightarrow> uint32" where "elf_magic e = get32 e 0"
definition elf_entry :: "bytes \<Rightarrow> uint64" where "elf_entry e = get64 e 24"
definition elf_phoff :: "bytes \<Rightarrow> uint64" where "elf_phoff e = get64 e 32"
definition elf_phnum :: "bytes \<Rightarrow> uint16" where "elf_phnum e = get16 e 56"

definition ph_type :: "bytes \<Rightarrow> uint32" where "ph_type h = get32 h 0"
definition ph_flags :: "bytes \<Rightarrow> uint32" where "ph_flags h = get32 h 4"
definition ph_off :: "bytes \<Rightarrow> uint64" where "ph_off h = get64 h 8"
definition ph_vaddr :: "bytes \<Rightarrow> uint64" where "ph_vaddr h = get64 h 16"
definition ph_filesz :: "bytes \<Rightarrow> uint64" where "ph_filesz h = get64 h 32"
definition ph_memsz :: "bytes \<Rightarrow> uint64" where "ph_memsz h = get64 h 40"

definition flags2perm :: "uint32 \<Rightarrow> uint64" where
  "flags2perm flags =
     (let perm = (if flags AND 1 \<noteq> 0 then PTE_X else 0)
      in if flags AND 2 \<noteq> 0 then perm OR PTE_W else perm)"

section \<open>Segments\<close>

text \<open>
  The loop of \<^verbatim>\<open>loadseg\<close>, whose counter is 32 bits wide. A segment within a page of
  \<open>2 ^ 32\<close> bytes would wrap it; no address space of this kernel maps that much, so the walk of
  such a segment panics before, and the model does not follow it past the wrap.
\<close>

function loadseg_loop :: "uint64 \<Rightarrow> uint64 \<Rightarrow> nat \<Rightarrow> uint32 \<Rightarrow> uint32 \<Rightarrow> uint32 \<Rightarrow> 'z fsst_scheme \<Rightarrow> (int, 'z fsst_scheme) outcome" where
  "loadseg_loop pt va ip offset usz i s =
     (if i < usz then
        kbind (walkaddr pt (va + ucast i) s) (\<lambda>pa s.
          if pa = 0 then Panic ''loadseg: address should exist''
          else
            let n = (if usz - i < 4096 then usz - i else 4096) in
            kbind (readi ip (PhysA pa) (offset + i) n (\<lambda>_. 0) s) (\<lambda>(r, _) s.
              if r \<noteq> sint n then Ret (- 1) s
              else if i + 4096 < i then Spin
              else loadseg_loop pt va ip offset usz (i + 4096) s))
      else Ret 0 s)"
  by pat_completeness auto
termination
proof (relation "measure (\<lambda>(pt, va, ip, offset, usz, i, s). 4294967296 - unat i)", goal_cases)
  case (2 pt va ip offset usz i)
  have "unat i + 4096 < 4294967296"
  proof (rule ccontr)
    assume b: "\<not> ?thesis"
    have "unat (i + 4096) = (unat i + 4096) mod 4294967296" by (simp add: unat_word_ariths)
    also have "\<dots> = unat i + 4096 - 4294967296" using b unat_lt_2p [of i] by (simp add: mod_if)
    finally have "unat (i + 4096) < unat i" using b unat_lt_2p [of i] by simp
    with 2 show False by (simp add: word_less_nat_alt)
  qed
  then show ?case by (simp add: unat_word_ariths)
qed auto

declare loadseg_loop.simps [simp del]

definition loadseg :: "uint64 \<Rightarrow> uint64 \<Rightarrow> nat \<Rightarrow> uint32 \<Rightarrow> uint32 \<Rightarrow> 'z fsst_scheme \<Rightarrow> (int, 'z fsst_scheme) outcome" where
  "loadseg pt va ip offset usz s = loadseg_loop pt va ip offset usz 0 s"

text \<open>
  The loop over the program headers: whether all were loaded, and the size reached. The
  \<^verbatim>\<open>goto bad\<close> of the source is the answer \<^const>\<open>False\<close>.
\<close>

fun load_segments :: "nat \<Rightarrow> uint32 \<Rightarrow> uint64 \<Rightarrow> nat \<Rightarrow> uint64 \<Rightarrow> bytes \<Rightarrow> 'z fsst_scheme \<Rightarrow> (bool \<times> uint64, 'z fsst_scheme) outcome" where
  "load_segments 0 off pt ip sz0 ph s = Ret (True, sz0) s"
| "load_segments (Suc n) off pt ip sz0 ph s =
     kbind (readi ip (KObj 0) off 56 ph s) (\<lambda>(r, ph) s.
       if r \<noteq> 56 then Ret (False, sz0) s
       else if ph_type ph \<noteq> ELF_PROG_LOAD then load_segments n (off + 56) pt ip sz0 ph s
       else if ph_memsz ph < ph_filesz ph then Ret (False, sz0) s
       else if ph_vaddr ph + ph_memsz ph < ph_vaddr ph then Ret (False, sz0) s
       else if ph_vaddr ph mod PGSIZE \<noteq> 0 then Ret (False, sz0) s
       else
         kbind (uvmalloc pt sz0 (ph_vaddr ph + ph_memsz ph) (flags2perm (ph_flags ph)) s) (\<lambda>sz1 s.
           if sz1 = 0 then Ret (False, sz0) s
           else
             kbind (loadseg pt (ph_vaddr ph) ip (ucast (ph_off ph)) (ucast (ph_filesz ph)) s) (\<lambda>r s.
               if r < 0 then Ret (False, sz1) s
               else load_segments n (off + 56) pt ip sz1 ph s)))"

section \<open>The new stack\<close>

text \<open>
  The argument strings, pushed below the stack pointer: the new stack pointer and the contents of
  \<^verbatim>\<open>ustack\<close>, or nothing when the stack page is too small.
\<close>

fun push_args :: "uint64 \<Rightarrow> uint64 \<Rightarrow> bytes list \<Rightarrow> uint64 \<Rightarrow> uint64 list \<Rightarrow> 'z procs_scheme \<Rightarrow> ((uint64 \<times> uint64 list) option, 'z procs_scheme) outcome" where
  "push_args pt stackbase [] sp us s = Ret (Some (sp, us)) s"
| "push_args pt stackbase (a # as) sp us s =
     (if MAXARG \<le> length us then Ret None s
      else case strlen a 0 of
        None \<Rightarrow> Undef
      | Some n \<Rightarrow>
          let sp = sp - (of_nat n + 1);
              sp = sp - sp mod 16
          in
          if sp < stackbase then Ret None s
          else
            kbind (copyout pt sp a 0 (of_nat n + 1) s) (\<lambda>r s.
              if r < 0 then Ret None s else push_args pt stackbase as sp (us @ [sp]) s))"

definition ustack_bytes :: "uint64 list \<Rightarrow> bytes" where
  "ustack_bytes us = (\<lambda>i. le_byte (us ! (i div 8)) (i mod 8))"

text \<open>The array has \<open>MAXARG\<close> entries, so a full one has no room for the terminating zero.\<close>

definition push_ustack :: "uint64 \<Rightarrow> uint64 \<Rightarrow> uint64 \<Rightarrow> uint64 list \<Rightarrow> 'z procs_scheme \<Rightarrow> (uint64 option, 'z procs_scheme) outcome" where
  "push_ustack pt stackbase sp us s =
     (if MAXARG \<le> length us then Undef
      else
        let n = of_nat (length us + 1) * 8;
            sp = sp - n;
            sp = sp - sp mod 16
        in
        if sp < stackbase then Ret None s
        else
          kbind (copyout pt sp (ustack_bytes (us @ [0])) 0 n s) (\<lambda>r s.
            Ret (if r < 0 then None else Some sp) s))"

text \<open>The last element of a path of \<open>n\<close> bytes.\<close>

definition last_elem :: "bytes \<Rightarrow> nat \<Rightarrow> nat" where
  "last_elem path n = fold (\<lambda>i l. if path i = SLASH then i + 1 else l) [0..<n] 0"

section \<open>kexec\<close>

definition kexec_bad :: "uint64 \<Rightarrow> uint64 \<Rightarrow> nat option \<Rightarrow> 'z fsst_scheme \<Rightarrow> (int, 'z fsst_scheme) outcome" where
  "kexec_bad pt usz ipo s =
     kbind (if pt \<noteq> 0 then proc_freepagetable pt usz s else Ret () s) (\<lambda>_ s.
     kbind (case ipo of
              None \<Rightarrow> Ret () s
            | Some ip \<Rightarrow> kbind (iunlockput (Some ip) s) (\<lambda>_ s. end_op s)) (\<lambda>_ s.
     Ret (- 1) s))"

definition kexec_commit :: "nat \<Rightarrow> bytes \<Rightarrow> uint64 \<Rightarrow> uint64 \<Rightarrow> uint64 \<Rightarrow> uint64 \<Rightarrow> uint64 \<Rightarrow> 'z trapst_scheme \<Rightarrow> (unit, 'z trapst_scheme) outcome" where
  "kexec_commit p path pt usz oldsz entry_pc sp s =
     (let s = set_tf p tf_a1 sp s in
      case strlen path 0 of
        None \<Rightarrow> Undef
      | Some n \<Rightarrow>
          let s = set_proc p (\<lambda>q. q\<lparr>pname := safestrcpy (pname q) (\<lambda>i. path (last_elem path n + i)) 16\<rparr>) s;
              oldpagetable = pagetable (proc s p);
              s = set_proc p (\<lambda>q. q\<lparr>pagetable := pt\<rparr>) s;
              s = set_proc p (\<lambda>q. q\<lparr>sz := usz\<rparr>) s;
              s = set_tf p tf_epc entry_pc s;
              s = set_tf p tf_sp sp s
          in proc_freepagetable oldpagetable oldsz s)"

text \<open>From the second \<^verbatim>\<open>myproc\<close> on: the stack, the arguments, and the commit.\<close>

definition kexec_stack :: "bytes \<Rightarrow> bytes list \<Rightarrow> uint64 \<Rightarrow> uint64 \<Rightarrow> uint64 \<Rightarrow> 'z trapst_scheme \<Rightarrow> (int, 'z trapst_scheme) outcome" where
  "kexec_stack path argv pt usz entry_pc s =
     kbind (curproc s) (\<lambda>p s.
       let oldsz = sz (proc s p);
           usz = PGROUNDUP usz
       in
       kbind (uvmalloc pt usz (usz + (USERSTACK + 1) * PGSIZE) PTE_W s) (\<lambda>sz1 s.
         if sz1 = 0 then kexec_bad pt usz None s
         else
           kbind (uvmclear pt (sz1 - (USERSTACK + 1) * PGSIZE) s) (\<lambda>_ s.
           kbind (push_args pt (sz1 - USERSTACK * PGSIZE) argv sz1 [] s) (\<lambda>r s.
             case r of
               None \<Rightarrow> kexec_bad pt sz1 None s
             | Some (sp, us) \<Rightarrow>
                 kbind (push_ustack pt (sz1 - USERSTACK * PGSIZE) sp us s) (\<lambda>r s.
                   case r of
                     None \<Rightarrow> kexec_bad pt sz1 None s
                   | Some sp \<Rightarrow>
                       kbind (kexec_commit p path pt sz1 oldsz entry_pc sp s) (\<lambda>_ s.
                       Ret (int (length us)) s))))))"

definition kexec :: "bytes \<Rightarrow> bytes list \<Rightarrow> 'z trapst_scheme \<Rightarrow> (int, 'z trapst_scheme) outcome" where
  "kexec path argv s =
     kbind (curproc s) (\<lambda>p s.
     kbind (begin_op s) (\<lambda>_ s.
     kbind (namei path s) (\<lambda>ipo s.
       case ipo of
         None \<Rightarrow> kbind (end_op s) (\<lambda>_ s. Ret (- 1) s)
       | Some ip \<Rightarrow>
           kbind (ilock (Some ip) s) (\<lambda>_ s.
           kbind (readi ip (KObj 0) 0 64 (stack_junk s) s) (\<lambda>(r, elf) s.
             if r \<noteq> 64 \<or> elf_magic elf \<noteq> ELF_MAGIC then kexec_bad 0 0 (Some ip) s
             else
               kbind (proc_pagetable p s) (\<lambda>pt s.
                 if pt = 0 then kexec_bad 0 0 (Some ip) s
                 else
                   kbind (load_segments (unat (elf_phnum elf)) (ucast (elf_phoff elf)) pt ip 0 (stack_junk s) s)
                     (\<lambda>(ok, usz) s.
                        if \<not> ok then kexec_bad pt usz (Some ip) s
                        else
                          kbind (iunlockput (Some ip) s) (\<lambda>_ s.
                          kbind (end_op s) (\<lambda>_ s.
                          kexec_stack path argv pt usz (elf_entry elf) s)))))))))"

end
