(* ===== verification/ProcLife.thy ===== *)
theory ProcLife
  imports Exec
begin

text \<open>
  The life of a process in \<^verbatim>\<open>kernel/proc.c\<close>: the first process, \<^verbatim>\<open>fork\<close>,
  \<^verbatim>\<open>exit\<close>, \<^verbatim>\<open>wait\<close>, and the first return to user space.
\<close>

text \<open>A string literal of the source as an array.\<close>

definition lit :: "string \<Rightarrow> bytes" where
  "lit t = (\<lambda>i. if i < length t then of_char (t ! i) else 0)"

definition chan_of :: "nat option \<Rightarrow> chan" where
  "chan_of po = (case po of None \<Rightarrow> NoChan | Some p \<Rightarrow> ChProc p)"

definition userinit :: "'z fsst_scheme \<Rightarrow> (unit, 'z fsst_scheme) outcome" where
  "userinit s =
     kbind (allocproc s) (\<lambda>po s.
       let s = s\<lparr>initproc := po\<rparr> in
       case po of
         None \<Rightarrow> Panic ''kerneltrap''
       | Some p \<Rightarrow>
           kbind (namei (lit ''/'') s) (\<lambda>ip s.
             let s = set_proc p (\<lambda>q. q\<lparr>cwd := ip\<rparr>) s;
                 s = set_proc p (\<lambda>q. q\<lparr>pstate := RUNNABLE\<rparr>) s
             in release (ProcLk p) s))"

section \<open>fork\<close>

definition dup_files :: "nat \<Rightarrow> nat \<Rightarrow> 'z filest_scheme \<Rightarrow> (unit, 'z filest_scheme) outcome" where
  "dup_files p np s =
     kfor (\<lambda>i s.
       case ofile (proc s p) i of
         None \<Rightarrow> Ret () s
       | Some f \<Rightarrow>
           kbind (filedup f s) (\<lambda>f s.
             Ret () (set_proc np (\<lambda>q. q\<lparr>ofile := (ofile q)(i := Some f)\<rparr>) s))) [0..<NOFILE] s"

definition copy_trapframe :: "nat \<Rightarrow> nat \<Rightarrow> 'z procs_scheme \<Rightarrow> 'z procs_scheme" where
  "copy_trapframe p np s =
     s\<lparr>phys := store_bytes (phys s) (trapframe (proc s np))
                 (\<lambda>i. phys s (trapframe (proc s p) + of_nat i)) 0 tf_bytes\<rparr>"

text \<open>The end of \<^verbatim>\<open>kfork\<close>, from the release of the child's lock on.\<close>

definition kfork_publish :: "nat \<Rightarrow> nat \<Rightarrow> int \<Rightarrow> 'z procs_scheme \<Rightarrow> (int, 'z procs_scheme) outcome" where
  "kfork_publish p np n s =
     kbind (release (ProcLk np) s) (\<lambda>_ s.
     kbind (acquire WaitLk s) (\<lambda>_ s.
       let s = set_proc np (\<lambda>q. q\<lparr>parent := Some p\<rparr>) s in
     kbind (release WaitLk s) (\<lambda>_ s.
     kbind (acquire (ProcLk np) s) (\<lambda>_ s.
       let s = set_proc np (\<lambda>q. q\<lparr>pstate := RUNNABLE\<rparr>) s in
     kbind (release (ProcLk np) s) (\<lambda>_ s. Ret n s)))))"

definition kfork :: "'z filest_scheme \<Rightarrow> (int, 'z filest_scheme) outcome" where
  "kfork s =
     kbind (curproc s) (\<lambda>p s.
     kbind (allocproc s) (\<lambda>npo s.
       case npo of
         None \<Rightarrow> Ret (- 1) s
       | Some np \<Rightarrow>
           kbind (uvmcopy (pagetable (proc s p)) (pagetable (proc s np)) (sz (proc s p)) s) (\<lambda>r s.
             if r < 0 then
               kbind (freeproc np s) (\<lambda>_ s.
               kbind (release (ProcLk np) s) (\<lambda>_ s. Ret (- 1) s))
             else
               let s = set_proc np (\<lambda>q. q\<lparr>sz := sz (proc s p)\<rparr>) s;
                   s = copy_trapframe p np s;
                   s = set_tf np tf_a0 0 s
               in
               kbind (dup_files p np s) (\<lambda>_ s.
                 case cwd (proc s p) of
                   None \<Rightarrow> Panic ''kerneltrap''
                 | Some dir \<Rightarrow>
                     kbind (idup dir s) (\<lambda>dir s.
                       let s = set_proc np (\<lambda>q. q\<lparr>cwd := Some dir\<rparr>) s;
                           s = set_proc np (\<lambda>q. q\<lparr>pname := safestrcpy (pname q) (pname (proc s p)) 16\<rparr>) s;
                           n = pid (proc s np)
                       in kfork_publish p np n s)))))"

section \<open>exit\<close>

definition reparent :: "nat \<Rightarrow> 'z procs_scheme \<Rightarrow> (unit, 'z procs_scheme) outcome" where
  "reparent p s =
     kfor (\<lambda>i s.
       if parent (proc s i) = Some p then
         let s = set_proc i (\<lambda>q. q\<lparr>parent := initproc s\<rparr>) s in
         wakeup (chan_of (initproc s)) s
       else Ret () s) [0..<NPROC] s"

definition close_files :: "nat \<Rightarrow> 'z filest_scheme \<Rightarrow> (unit, 'z filest_scheme) outcome" where
  "close_files p s =
     kfor (\<lambda>fd s.
       case ofile (proc s p) fd of
         None \<Rightarrow> Ret () s
       | Some f \<Rightarrow>
           kbind (fileclose f s) (\<lambda>_ s.
             Ret () (set_proc p (\<lambda>q. q\<lparr>ofile := (ofile q)(fd := None)\<rparr>) s))) [0..<NOFILE] s"

definition kexit_zombie :: "nat \<Rightarrow> int \<Rightarrow> 'z procs_scheme \<Rightarrow> (unit, 'z procs_scheme) outcome" where
  "kexit_zombie p status s =
     kbind (acquire WaitLk s) (\<lambda>_ s.
     kbind (reparent p s) (\<lambda>_ s.
     kbind (wakeup (chan_of (parent (proc s p))) s) (\<lambda>_ s.
     kbind (acquire (ProcLk p) s) (\<lambda>_ s.
       let s = set_proc p (\<lambda>q. q\<lparr>xstate := status\<rparr>) s;
           s = set_proc p (\<lambda>q. q\<lparr>pstate := ZOMBIE\<rparr>) s
       in
     kbind (release WaitLk s) (\<lambda>_ s.
     kbind (sched s) (\<lambda>_ s. Panic ''zombie exit''))))))"

definition kexit :: "int \<Rightarrow> 'z filest_scheme \<Rightarrow> (unit, 'z filest_scheme) outcome" where
  "kexit status s =
     kbind (curproc s) (\<lambda>p s.
       if initproc s = Some p then Panic ''init exiting''
       else
         kbind (close_files p s) (\<lambda>_ s.
         kbind (begin_op s) (\<lambda>_ s.
           case cwd (proc s p) of
             None \<Rightarrow> Panic ''kerneltrap''
           | Some dir \<Rightarrow>
               kbind (iput dir s) (\<lambda>_ s.
               kbind (end_op s) (\<lambda>_ s.
                 let s = set_proc p (\<lambda>q. q\<lparr>cwd := None\<rparr>) s
                 in kexit_zombie p status s)))))"

section \<open>wait\<close>

text \<open>
  The visit of \<^verbatim>\<open>kwait\<close> to one entry of the table: the value it returns when the entry is
  a child that has exited.
\<close>

definition kwait_visit :: "nat \<Rightarrow> uint64 \<Rightarrow> nat \<Rightarrow> 'z procs_scheme \<Rightarrow> (int option, 'z procs_scheme) outcome" where
  "kwait_visit p addr i s =
     (if parent (proc s i) = Some p then
        kbind (acquire (ProcLk i) s) (\<lambda>_ s.
          if pstate (proc s i) = ZOMBIE then
            let n = pid (proc s i) in
            kbind (if addr \<noteq> 0
                   then copyout (pagetable (proc s p)) addr (le_byte (word_of_int (xstate (proc s i)) :: uint32)) 0 4 s
                   else Ret 0 s) (\<lambda>r s.
              if r < 0 then
                kbind (release (ProcLk i) s) (\<lambda>_ s.
                kbind (release WaitLk s) (\<lambda>_ s. Ret (Some (- 1)) s))
              else
                kbind (freeproc i s) (\<lambda>_ s.
                kbind (release (ProcLk i) s) (\<lambda>_ s.
                kbind (release WaitLk s) (\<lambda>_ s. Ret (Some n) s))))
          else kbind (release (ProcLk i) s) (\<lambda>_ s. Ret None s))
      else Ret None s)"

definition havekids :: "nat \<Rightarrow> 'z procs_scheme \<Rightarrow> bool" where
  "havekids p s = list_ex (\<lambda>i. parent (proc s i) = Some p) [0..<NPROC]"

definition kwait_loop :: "nat \<Rightarrow> uint64 \<Rightarrow> 'z procs_scheme \<Rightarrow> (int, 'z procs_scheme) outcome" where
  "kwait_loop p addr s =
     kbind (kfirst (kwait_visit p addr) [0..<NPROC] s) (\<lambda>r s.
       case r of
         Some n \<Rightarrow> Ret n s
       | None \<Rightarrow>
           kbind (if \<not> havekids p s then Ret True s
                  else kbind (killed p s) (\<lambda>k s. Ret (k \<noteq> 0) s)) (\<lambda>stop s.
             if stop then kbind (release WaitLk s) (\<lambda>_ s. Ret (- 1) s)
             else kbind (sleep (ChProc p) WaitLk s) (\<lambda>_ s. Ret 0 s)))"

definition kwait :: "uint64 \<Rightarrow> 'z procs_scheme \<Rightarrow> (int, 'z procs_scheme) outcome" where
  "kwait addr s =
     kbind (curproc s) (\<lambda>p s.
     kbind (acquire WaitLk s) (\<lambda>_ s. kwait_loop p addr s))"

definition kwait_resume :: "nat \<Rightarrow> uint64 \<Rightarrow> 'z procs_scheme \<Rightarrow> (int, 'z procs_scheme) outcome" where
  "kwait_resume p addr s =
     kbind (sleep_resume p WaitLk s) (\<lambda>_ s. kwait_loop p addr s)"

section \<open>The first return to user space\<close>

text \<open>\<^verbatim>\<open>forkret\<close>, up to its jump: the code it jumps to and the \<^verbatim>\<open>satp\<close> it passes.\<close>

definition forkret :: "'z trapst_scheme \<Rightarrow> (uint64 \<times> uint64, 'z trapst_scheme) outcome" where
  "forkret s =
     kbind (curproc s) (\<lambda>p s.
     kbind (release (ProcLk p) s) (\<lambda>_ s.
     kbind (if first_run s then
              kbind (fsinit ROOTDEV s) (\<lambda>_ s.
                let s = s\<lparr>first_run := False\<rparr> in
              kbind (kexec (lit ''/init'') [lit ''/init''] s) (\<lambda>r s.
                let s = set_tf p tf_a0 (word_of_int r) s in
                if get_tf p tf_a0 s = - 1 then Panic ''exec'' else Ret () s))
            else Ret () s) (\<lambda>_ s.
     kbind (prepare_return s) (\<lambda>_ s.
     Ret (TRAMPOLINE + (userret (syms s) - trampoline (syms s)), MAKE_SATP (pagetable (proc s p))) s))))"

end
