(* ===== verification/Gantt.thy ===== *)
theory Gantt
  imports Printk
begin

text \<open>
  The chart of a semaphore's history, \<^verbatim>\<open>sem_gantt\<close> in \<^verbatim>\<open>kernel/semaphore.c\<close>: the
  events of one semaphore are collected from the ring of \<^verbatim>\<open>sem_record_event\<close>, the time
  axis is scaled to at most 80 columns, and every process gets a line with a mark per column.
\<close>

section \<open>Collecting the events\<close>

definition MAX_GANTT_EVENTS :: nat where "MAX_GANTT_EVENTS = 256"
definition MAX_GANTT_PIDS :: nat where "MAX_GANTT_PIDS = 32"

text \<open>The local variables of the collecting loop; the arrays are lists of the entries in use. The
  names copied with the events are never read again, so an event is kept as it is.\<close>

record gantt =
  g_events :: "sem_event list"
  g_pids :: "(int \<times> bytes) list"
  t_min :: uint32
  t_max :: uint32

definition gantt_start :: gantt where
  "gantt_start = \<lparr>g_events = [], g_pids = [], t_min = 0xFFFFFFFF, t_max = 0\<rparr>"

definition gantt_add :: "sem_event \<Rightarrow> gantt \<Rightarrow> gantt" where
  "gantt_add e g =
     (let g = g\<lparr>g_events := g_events g @ [e]\<rparr>;
          g = (if ev_ticks e < t_min g then g\<lparr>t_min := ev_ticks e\<rparr> else g);
          g = (if t_max g < ev_ticks e then g\<lparr>t_max := ev_ticks e\<rparr> else g)
      in if ev_pid e \<notin> fst ` set (g_pids g) \<and> length (g_pids g) < MAX_GANTT_PIDS
         then g\<lparr>g_pids := g_pids g @ [(ev_pid e, safestrcpy (\<lambda>_. 0) (ev_pname e) 16)]\<rparr> else g)"

text \<open>One turn of the loop; the test on the number of events is part of the loop's condition.\<close>

definition gantt_turn :: "int \<Rightarrow> sem_event \<Rightarrow> gantt \<Rightarrow> gantt" where
  "gantt_turn sem_id e g =
     (if length (g_events g) < MAX_GANTT_EVENTS \<and> ev_sem_id e = sem_id then gantt_add e g else g)"

text \<open>The entries of the ring, oldest first, as \<^verbatim>\<open>start\<close> and \<^verbatim>\<open>total\<close> delimit them.\<close>

definition log_window :: "'z sems_scheme \<Rightarrow> sem_event list" where
  "log_window s =
     (let total = sem_event_index s;
          start = (if SEM_EVENT_LOG_SIZE < total then total - SEM_EVENT_LOG_SIZE else 0);
          total = (if SEM_EVENT_LOG_SIZE < total then SEM_EVENT_LOG_SIZE else total)
      in map (\<lambda>i. sem_event_log s (c_rem (start + int i) SEM_EVENT_LOG_SIZE)) [0..<nat total])"

definition gantt_collect :: "int \<Rightarrow> 'z sems_scheme \<Rightarrow> gantt" where
  "gantt_collect sem_id s = fold (gantt_turn sem_id) (log_window s) gantt_start"

section \<open>The time axis\<close>

definition t_range :: "gantt \<Rightarrow> uint32" where
  "t_range g = t_max g - t_min g + 1"

definition char_width :: "gantt \<Rightarrow> nat" where
  "char_width g = (if t_range g \<le> 80 then unat (t_range g) else 80)"

definition tick_per_char :: "gantt \<Rightarrow> uint32" where
  "tick_per_char g = (if t_range g \<le> 80 then 1 else (t_range g + 79) div 80)"

definition col_start :: "gantt \<Rightarrow> nat \<Rightarrow> uint32" where
  "col_start g c = t_min g + of_nat c * tick_per_char g"

definition col_end :: "gantt \<Rightarrow> nat \<Rightarrow> uint32" where
  "col_end g c = min (t_max g) (col_start g c + tick_per_char g - 1)"

section \<open>The marks\<close>

text \<open>The tick of the first event of the process and type among those that follow, or \<open>dflt\<close>.\<close>

fun next_tick :: "int \<Rightarrow> int \<Rightarrow> sem_event list \<Rightarrow> uint32 \<Rightarrow> uint32" where
  "next_tick n ty [] dflt = dflt"
| "next_tick n ty (e # es) dflt =
     (if ev_pid e = n \<and> ev_type e = word_of_int ty then ev_ticks e else next_tick n ty es dflt)"

definition overlaps :: "uint32 \<Rightarrow> uint32 \<Rightarrow> uint32 \<Rightarrow> uint32 \<Rightarrow> bool" where
  "overlaps a b ts te = (ts < b \<and> a \<le> te \<or> a = b \<and> ts = a \<and> te = a)"

text \<open>The loop over the events: the values of \<^verbatim>\<open>has_holding\<close> and \<^verbatim>\<open>has_waiting\<close>.\<close>

fun gantt_flags :: "int \<Rightarrow> uint32 \<Rightarrow> uint32 \<Rightarrow> uint32 \<Rightarrow> sem_event list \<Rightarrow> bool \<times> bool \<Rightarrow> bool \<times> bool" where
  "gantt_flags n tm ts te [] hw = hw"
| "gantt_flags n tm ts te (e # es) (h, w) =
     (if ev_pid e \<noteq> n then gantt_flags n tm ts te es (h, w)
      else if ev_type e = word_of_int SEM_EVENT_ACQUIRE then
        gantt_flags n tm ts te es
          (if overlaps (ev_ticks e) (next_tick n SEM_EVENT_RELEASE es (tm + 1)) ts te then (True, w) else (h, w))
      else if ev_type e = word_of_int SEM_EVENT_WAIT then
        gantt_flags n tm ts te es
          (if overlaps (ev_ticks e) (next_tick n SEM_EVENT_ACQUIRE es (tm + 1)) ts te then (h, True) else (h, w))
      else gantt_flags n tm ts te es (h, w))"

definition gantt_mark :: "gantt \<Rightarrow> int \<Rightarrow> nat \<Rightarrow> char" where
  "gantt_mark g n c =
     (case gantt_flags n (t_max g) (col_start g c) (col_end g c) (g_events g) (False, False) of
        (h, w) \<Rightarrow> if h then CHR ''#'' else if w then CHR ''W'' else CHR ''.'')"

section \<open>Printing\<close>

definition NL :: string where "NL = [CHR 0x0A]"

definition pr :: "string \<Rightarrow> varg list \<Rightarrow> 'z devst_scheme \<Rightarrow> (unit, 'z devst_scheme) outcome" where
  "pr fmt as s = kbind (printk fmt as s) (\<lambda>_ s. Ret () s)"

definition num :: "uint32 \<Rightarrow> varg" where "num x = VNum (ucast x)"
definition snum :: "int \<Rightarrow> varg" where "snum x = VNum (word_of_int x)"

text \<open>The number of digits the axis loop counts for a label.\<close>

fun ndig :: "nat \<Rightarrow> nat" where
  "ndig n = (if 10 \<le> n then Suc (ndig (n div 10)) else 1)"

declare ndig.simps [simp del]

text \<open>The labels, one every ten columns, with the column the output has reached.\<close>

fun gantt_axis :: "gantt \<Rightarrow> nat list \<Rightarrow> nat \<Rightarrow> 'z devst_scheme \<Rightarrow> (unit, 'z devst_scheme) outcome" where
  "gantt_axis g [] col s = Ret () s"
| "gantt_axis g (c # cs) col s =
     kbind (kfor (\<lambda>_. pr '' '' []) [col..<c] s) (\<lambda>_ s.
     kbind (pr ''%d'' [num (col_start g c)] s) (\<lambda>_ s.
     gantt_axis g cs (max col c + ndig (unat (col_start g c))) s))"

definition gantt_rule :: "gantt \<Rightarrow> 'z devst_scheme \<Rightarrow> (unit, 'z devst_scheme) outcome" where
  "gantt_rule g s =
     kfor (\<lambda>c. pr (if c mod 10 = 0 then (if c mod 50 = 0 then ''|'' else [CHR 0x27]) else '' '') [])
       [0..<char_width g] s"

definition gantt_line :: "gantt \<Rightarrow> int \<times> bytes \<Rightarrow> 'z devst_scheme \<Rightarrow> (unit, 'z devst_scheme) outcome" where
  "gantt_line g np s =
     (case np of (n, nm) \<Rightarrow>
        kbind (pr (if n < 10 then ''pid0%d '' else ''pid%d '') [snum n] s) (\<lambda>_ s.
        kbind (kfor (\<lambda>c. pr [gantt_mark g n c] []) [0..<char_width g] s) (\<lambda>_ s.
        pr ('' %s'' @ NL) [VStr (Some (cstr 16 nm))] s)))"

definition gantt_head :: "int \<Rightarrow> gantt \<Rightarrow> 'z devst_scheme \<Rightarrow> (unit, 'z devst_scheme) outcome" where
  "gantt_head sem_id g s =
     (let m = sem_table s (nat sem_id) in
      kbind (pr NL [] s) (\<lambda>_ s.
      kbind (pr (''=== Semaphore Gantt Chart ==='' @ NL) [] s) (\<lambda>_ s.
      kbind (pr (''Sem: '' @ [CHR 0x22] @ ''%s'' @ [CHR 0x22] @ '' (id=%d)  value=%d  events=%d'' @ NL)
         [VStr (Some (cstr 16 (sem_name m))), snum sem_id, snum (sem_count m), snum (int (length (g_events g)))] s) (\<lambda>_ s.
      kbind (pr (''Ticks: %d .. %d  (%d ticks total)'' @ NL)
         [num (t_min g), num (t_max g), num (t_max g - t_min g + 1)] s) (\<lambda>_ s.
      kbind (pr (''Legend: # = holding CS   W = waiting   . = idle'' @ NL) [] s) (\<lambda>_ s.
      pr NL [] s))))))"

definition sem_gantt :: "int \<Rightarrow> 'z devst_scheme \<Rightarrow> (unit, 'z devst_scheme) outcome" where
  "sem_gantt sem_id s =
     (if sem_id_bad sem_id s then pr (''sem_gantt: invalid semaphore id %d'' @ NL) [snum sem_id] s
      else
        kbind (acquire SemEventLk s) (\<lambda>_ s.
          let g = gantt_collect sem_id s in
        kbind (release SemEventLk s) (\<lambda>_ s.
          if g_events g = [] then
            pr (''sem_gantt: no events for semaphore '' @ [CHR 0x22] @ ''%s'' @ [CHR 0x22] @ '' (id=%d)'' @ NL)
              [VStr (Some (cstr 16 (sem_name (sem_table s (nat sem_id))))), snum sem_id] s
          else
            kbind (gantt_head sem_id g s) (\<lambda>_ s.
            kbind (pr ''tick:'' [] s) (\<lambda>_ s.
            kbind (gantt_axis g (map (\<lambda>k. 10 * k) [0..<(char_width g + 9) div 10]) 5 s) (\<lambda>_ s.
            kbind (pr NL [] s) (\<lambda>_ s.
            kbind (pr ''     '' [] s) (\<lambda>_ s.
            kbind (gantt_rule g s) (\<lambda>_ s.
            kbind (pr NL [] s) (\<lambda>_ s.
            kbind (kfor (gantt_line g) (g_pids g) s) (\<lambda>_ s.
            pr NL [] s)))))))))))"

end
