(* ===== verification/Syscall.thy ===== *)
theory Syscall
  imports ProcLife Gantt
begin

text \<open>
  System calls: the arguments and the dispatch of \<^verbatim>\<open>kernel/syscall.c\<close>, the calls on
  processes and semaphores of \<^verbatim>\<open>kernel/sysproc.c\<close>, and the calls on files of
  \<^verbatim>\<open>kernel/sysfile.c\<close>. A result is the 64-bit value that goes to the caller's \<^verbatim>\<open>a0\<close>.
\<close>

section \<open>Arguments\<close>

definition fetchaddr :: "uint64 \<Rightarrow> 'z procs_scheme \<Rightarrow> (int \<times> uint64, 'z procs_scheme) outcome" where
  "fetchaddr addr s =
     kbind (curproc s) (\<lambda>p s.
       if sz (proc s p) \<le> addr \<or> sz (proc s p) < addr + 8 then Ret (- 1, 0) s
       else
         kbind (copyin (pagetable (proc s p)) (\<lambda>_. 0) 0 addr 8 s) (\<lambda>(r, d) s.
           if r \<noteq> 0 then Ret (- 1, 0) s else Ret (0, get64 d 0) s))"

definition fetchstr :: "uint64 \<Rightarrow> bytes \<Rightarrow> uint64 \<Rightarrow> 'z procs_scheme \<Rightarrow> (int \<times> bytes, 'z procs_scheme) outcome" where
  "fetchstr addr buf mx s =
     kbind (curproc s) (\<lambda>p s.
     kbind (copyinstr (pagetable (proc s p)) buf 0 addr mx s) (\<lambda>(r, buf) s.
       if r < 0 then Ret (- 1, buf) s
       else case strlen buf 0 of None \<Rightarrow> Undef | Some n \<Rightarrow> Ret (int n, buf) s))"

definition argraw :: "nat \<Rightarrow> 'z procs_scheme \<Rightarrow> (uint64, 'z procs_scheme) outcome" where
  "argraw n s =
     kbind (curproc s) (\<lambda>p s.
       if n \<le> 5 then Ret (get_tf p (tf_a0 + 8 * of_nat n) s) s else Panic ''argraw'')"

definition argint :: "nat \<Rightarrow> 'z procs_scheme \<Rightarrow> (int, 'z procs_scheme) outcome" where
  "argint n s = kbind (argraw n s) (\<lambda>x s. Ret (sint (ucast x :: uint32)) s)"

definition argaddr :: "nat \<Rightarrow> 'z procs_scheme \<Rightarrow> (uint64, 'z procs_scheme) outcome" where
  "argaddr n s = argraw n s"

definition argstr :: "nat \<Rightarrow> bytes \<Rightarrow> uint64 \<Rightarrow> 'z procs_scheme \<Rightarrow> (int \<times> bytes, 'z procs_scheme) outcome" where
  "argstr n buf mx s = kbind (argaddr n s) (\<lambda>a s. fetchstr a buf mx s)"

text \<open>An \<^verbatim>\<open>int\<close> result as the register sees it.\<close>

definition ireg :: "(int, 's) outcome \<Rightarrow> (uint64, 's) outcome" where
  "ireg m = kbind m (\<lambda>r s. Ret (word_of_int r) s)"

definition fail :: "'s \<Rightarrow> (uint64, 's) outcome" where
  "fail s = Ret (- 1) s"

section \<open>Processes and semaphores\<close>

definition sys_exit :: "'z filest_scheme \<Rightarrow> (uint64, 'z filest_scheme) outcome" where
  "sys_exit s = kbind (argint 0 s) (\<lambda>n s. kbind (kexit n s) (\<lambda>_ s. Ret 0 s))"

definition sys_getpid :: "'z procs_scheme \<Rightarrow> (uint64, 'z procs_scheme) outcome" where
  "sys_getpid s = kbind (curproc s) (\<lambda>p s. Ret (word_of_int (pid (proc s p))) s)"

definition sys_fork :: "'z filest_scheme \<Rightarrow> (uint64, 'z filest_scheme) outcome" where
  "sys_fork s = ireg (kfork s)"

definition sys_wait :: "'z procs_scheme \<Rightarrow> (uint64, 'z procs_scheme) outcome" where
  "sys_wait s = kbind (argaddr 0 s) (\<lambda>a s. ireg (kwait a s))"

definition SBRK_EAGER :: int where "SBRK_EAGER = 1"

definition sys_sbrk :: "'z procs_scheme \<Rightarrow> (uint64, 'z procs_scheme) outcome" where
  "sys_sbrk s =
     kbind (argint 0 s) (\<lambda>n s.
     kbind (argint 1 s) (\<lambda>t s.
     kbind (curproc s) (\<lambda>p s.
       let addr = sz (proc s p) in
       if t = SBRK_EAGER \<or> n < 0 then
         kbind (growproc n s) (\<lambda>r s. if r < 0 then fail s else Ret addr s)
       else if addr + word_of_int n < addr then fail s
       else if TRAPFRAME < addr + word_of_int n then fail s
       else
         kbind (curproc s) (\<lambda>p s.
           Ret addr (set_proc p (\<lambda>q. q\<lparr>sz := sz q + word_of_int n\<rparr>) s)))))"

definition sys_pause_loop :: "uint32 \<Rightarrow> int \<Rightarrow> 'z procs_scheme \<Rightarrow> (uint64, 'z procs_scheme) outcome" where
  "sys_pause_loop ticks0 n s =
     (if ticks s - ticks0 < word_of_int n then
        kbind (curproc s) (\<lambda>p s.
        kbind (killed p s) (\<lambda>k s.
          if k \<noteq> 0 then kbind (release TicksLk s) (\<lambda>_ s. fail s)
          else kbind (sleep ChTicks TicksLk s) (\<lambda>_ s. Ret 0 s)))
      else kbind (release TicksLk s) (\<lambda>_ s. Ret 0 s))"

definition sys_pause :: "'z procs_scheme \<Rightarrow> (uint64, 'z procs_scheme) outcome" where
  "sys_pause s =
     kbind (argint 0 s) (\<lambda>n s.
       let n = (if n < 0 then 0 else n) in
     kbind (acquire TicksLk s) (\<lambda>_ s. sys_pause_loop (ticks s) n s))"

definition sys_pause_resume :: "nat \<Rightarrow> uint32 \<Rightarrow> int \<Rightarrow> 'z procs_scheme \<Rightarrow> (uint64, 'z procs_scheme) outcome" where
  "sys_pause_resume p ticks0 n s =
     kbind (sleep_resume p TicksLk s) (\<lambda>_ s. sys_pause_loop ticks0 n s)"

definition sys_kill :: "'z procs_scheme \<Rightarrow> (uint64, 'z procs_scheme) outcome" where
  "sys_kill s = kbind (argint 0 s) (\<lambda>n s. ireg (kkill n s))"

definition sys_uptime :: "'z procs_scheme \<Rightarrow> (uint64, 'z procs_scheme) outcome" where
  "sys_uptime s =
     kbind (acquire TicksLk s) (\<lambda>_ s.
       let xticks = ticks s in
     kbind (release TicksLk s) (\<lambda>_ s. Ret (ucast xticks) s))"

text \<open>The result of \<^verbatim>\<open>argstr\<close> is not looked at, so the name may be what the stack held.\<close>

definition sys_sem_open :: "'z trapst_scheme \<Rightarrow> (uint64, 'z trapst_scheme) outcome" where
  "sys_sem_open s =
     kbind (argint 0 s) (\<lambda>v s.
     kbind (argstr 1 (stack_junk s) 16 s) (\<lambda>(_, nm) s.
     ireg (sem_alloc v nm s)))"

definition sys_sem_gantt :: "'z devst_scheme \<Rightarrow> (uint64, 'z devst_scheme) outcome" where
  "sys_sem_gantt s = kbind (argint 0 s) (\<lambda>n s. kbind (sem_gantt n s) (\<lambda>_ s. Ret 0 s))"

section \<open>Descriptors\<close>

definition argfd :: "nat \<Rightarrow> 'z procs_scheme \<Rightarrow> ((nat \<times> nat) option, 'z procs_scheme) outcome" where
  "argfd n s =
     kbind (argint n s) (\<lambda>fd s.
       if fd < 0 \<or> int NOFILE \<le> fd then Ret None s
       else
         kbind (curproc s) (\<lambda>p s.
           Ret (case ofile (proc s p) (nat fd) of None \<Rightarrow> None | Some f \<Rightarrow> Some (nat fd, f)) s))"

definition set_ofile :: "nat \<Rightarrow> nat \<Rightarrow> nat option \<Rightarrow> 'z procs_scheme \<Rightarrow> 'z procs_scheme" where
  "set_ofile p fd fo s = set_proc p (\<lambda>q. q\<lparr>ofile := (ofile q)(fd := fo)\<rparr>) s"

definition fdalloc :: "nat \<Rightarrow> 'z procs_scheme \<Rightarrow> (nat option, 'z procs_scheme) outcome" where
  "fdalloc f s =
     kbind (curproc s) (\<lambda>p s.
       case first_idx (\<lambda>fd. ofile (proc s p) fd = None) [0..<NOFILE] of
         Some fd \<Rightarrow> Ret (Some fd) (set_ofile p fd (Some f) s)
       | None \<Rightarrow> Ret None s)"

definition sys_dup :: "'z filest_scheme \<Rightarrow> (uint64, 'z filest_scheme) outcome" where
  "sys_dup s =
     kbind (argfd 0 s) (\<lambda>r s.
       case r of
         None \<Rightarrow> fail s
       | Some (_, f) \<Rightarrow>
           kbind (fdalloc f s) (\<lambda>r s.
             case r of
               None \<Rightarrow> fail s
             | Some fd \<Rightarrow> kbind (filedup f s) (\<lambda>_ s. Ret (of_nat fd) s)))"

definition sys_read :: "'z filest_scheme \<Rightarrow> (uint64, 'z filest_scheme) outcome" where
  "sys_read s =
     kbind (argaddr 1 s) (\<lambda>a s.
     kbind (argint 2 s) (\<lambda>n s.
     kbind (argfd 0 s) (\<lambda>r s.
       case r of None \<Rightarrow> fail s | Some (_, f) \<Rightarrow> ireg (fileread f a n s))))"

definition sys_write :: "'z filest_scheme \<Rightarrow> (uint64, 'z filest_scheme) outcome" where
  "sys_write s =
     kbind (argaddr 1 s) (\<lambda>a s.
     kbind (argint 2 s) (\<lambda>n s.
     kbind (argfd 0 s) (\<lambda>r s.
       case r of None \<Rightarrow> fail s | Some (_, f) \<Rightarrow> ireg (filewrite f a n s))))"

definition sys_close :: "'z filest_scheme \<Rightarrow> (uint64, 'z filest_scheme) outcome" where
  "sys_close s =
     kbind (argfd 0 s) (\<lambda>r s.
       case r of
         None \<Rightarrow> fail s
       | Some (fd, f) \<Rightarrow>
           kbind (curproc s) (\<lambda>p s.
             let s = set_ofile p fd None s in
           kbind (fileclose f s) (\<lambda>_ s. Ret 0 s)))"

definition sys_fstat :: "'z filest_scheme \<Rightarrow> (uint64, 'z filest_scheme) outcome" where
  "sys_fstat s =
     kbind (argaddr 1 s) (\<lambda>st s.
     kbind (argfd 0 s) (\<lambda>r s.
       case r of None \<Rightarrow> fail s | Some (_, f) \<Rightarrow> ireg (filestat f st s)))"

end
