(* ===== verification/Sysfile.thy ===== *)
theory Sysfile
  imports Syscall
begin

text \<open>
  The calls of \<^verbatim>\<open>kernel/sysfile.c\<close> that work on path names: links, creation, opening,
  directories, pipes and program execution. Every \<^verbatim>\<open>goto\<close> of the source is a definition.
\<close>

definition O_RDONLY :: uint32 where "O_RDONLY = 0x000"
definition O_WRONLY :: uint32 where "O_WRONLY = 0x001"
definition O_RDWR :: uint32 where "O_RDWR = 0x002"
definition O_CREATE :: uint32 where "O_CREATE = 0x200"
definition O_TRUNC :: uint32 where "O_TRUNC = 0x400"

definition argpath :: "nat \<Rightarrow> 'z trapst_scheme \<Rightarrow> (bytes option, 'z trapst_scheme) outcome" where
  "argpath n s = kbind (argstr n (stack_junk s) (of_nat MAXPATH) s) (\<lambda>(r, path) s.
     Ret (if r < 0 then None else Some path) s)"

definition end_fail :: "'z logst_scheme \<Rightarrow> (uint64, 'z logst_scheme) outcome" where
  "end_fail s = kbind (end_op s) (\<lambda>_ s. fail s)"

definition add_nlink :: "nat \<Rightarrow> int \<Rightarrow> 'z fsst_scheme \<Rightarrow> 'z fsst_scheme" where
  "add_nlink ip d s = set_inode ip (\<lambda>x. x\<lparr>i_nlink := c_short (i_nlink x + d)\<rparr>) s"

section \<open>link and unlink\<close>

definition sys_link_bad :: "nat \<Rightarrow> 'z fsst_scheme \<Rightarrow> (uint64, 'z fsst_scheme) outcome" where
  "sys_link_bad ip s =
     kbind (ilock (Some ip) s) (\<lambda>_ s.
       let s = add_nlink ip (- 1) s in
     kbind (iupdate ip s) (\<lambda>_ s.
     kbind (iunlockput (Some ip) s) (\<lambda>_ s. end_fail s)))"

definition sys_link_to :: "nat \<Rightarrow> bytes \<Rightarrow> 'z trapst_scheme \<Rightarrow> (uint64, 'z trapst_scheme) outcome" where
  "sys_link_to ip new s =
     kbind (nameiparent new (stack_junk s) s) (\<lambda>(dpo, name) s.
       case dpo of
         None \<Rightarrow> sys_link_bad ip s
       | Some dp \<Rightarrow>
           kbind (ilock (Some dp) s) (\<lambda>_ s.
           kbind (if i_dev (itab s dp) \<noteq> i_dev (itab s ip) then Ret (- 1) s
                  else dirlink dp name (i_inum (itab s ip)) (stack_junk s) s) (\<lambda>r s.
             if r < 0 then kbind (iunlockput (Some dp) s) (\<lambda>_ s. sys_link_bad ip s)
             else
               kbind (iunlockput (Some dp) s) (\<lambda>_ s.
               kbind (iput ip s) (\<lambda>_ s.
               kbind (end_op s) (\<lambda>_ s. Ret 0 s))))))"

definition sys_link :: "'z trapst_scheme \<Rightarrow> (uint64, 'z trapst_scheme) outcome" where
  "sys_link s =
     kbind (argpath 0 s) (\<lambda>oldo s.
       case oldo of
         None \<Rightarrow> fail s
       | Some old \<Rightarrow>
           kbind (argpath 1 s) (\<lambda>newo s.
             case newo of
               None \<Rightarrow> fail s
             | Some new \<Rightarrow>
                 kbind (begin_op s) (\<lambda>_ s.
                 kbind (namei old s) (\<lambda>ipo s.
                   case ipo of
                     None \<Rightarrow> end_fail s
                   | Some ip \<Rightarrow>
                       kbind (ilock (Some ip) s) (\<lambda>_ s.
                         if i_type (itab s ip) = T_DIR then
                           kbind (iunlockput (Some ip) s) (\<lambda>_ s. end_fail s)
                         else
                           let s = add_nlink ip 1 s in
                           kbind (iupdate ip s) (\<lambda>_ s.
                           kbind (iunlock (Some ip) s) (\<lambda>_ s.
                           sys_link_to ip new s)))))))"

definition isdirempty :: "nat \<Rightarrow> 'z trapst_scheme \<Rightarrow> (bool, 'z trapst_scheme) outcome" where
  "isdirempty dp s =
     kbind (dir_scan ''isdirempty: readi'' (\<lambda>de. de_inum de \<noteq> 0) dp 32 (stack_junk s) s)
       (\<lambda>(found, _) s. Ret (\<not> found) s)"

definition sys_unlink_bad :: "nat \<Rightarrow> 'z fsst_scheme \<Rightarrow> (uint64, 'z fsst_scheme) outcome" where
  "sys_unlink_bad dp s = kbind (iunlockput (Some dp) s) (\<lambda>_ s. end_fail s)"

text \<open>From the erasure of the entry on.\<close>

definition sys_unlink_entry :: "nat \<Rightarrow> nat \<Rightarrow> uint32 \<Rightarrow> 'z fsst_scheme \<Rightarrow> (uint64, 'z fsst_scheme) outcome" where
  "sys_unlink_entry dp ip off s =
     kbind (writei dp (KObj 0) off 16 (\<lambda>_. 0) s) (\<lambda>r s.
       if r \<noteq> 16 then Panic ''unlink: writei''
       else
         kbind (if i_type (itab s ip) = T_DIR then iupdate dp (add_nlink dp (- 1) s) else Ret () s) (\<lambda>_ s.
         kbind (iunlockput (Some dp) s) (\<lambda>_ s.
           let s = add_nlink ip (- 1) s in
         kbind (iupdate ip s) (\<lambda>_ s.
         kbind (iunlockput (Some ip) s) (\<lambda>_ s.
         kbind (end_op s) (\<lambda>_ s. Ret 0 s))))))"

definition sys_unlink :: "'z trapst_scheme \<Rightarrow> (uint64, 'z trapst_scheme) outcome" where
  "sys_unlink s =
     kbind (argpath 0 s) (\<lambda>po s.
       case po of
         None \<Rightarrow> fail s
       | Some path \<Rightarrow>
           kbind (begin_op s) (\<lambda>_ s.
           kbind (nameiparent path (stack_junk s) s) (\<lambda>(dpo, name) s.
             case dpo of
               None \<Rightarrow> end_fail s
             | Some dp \<Rightarrow>
                 kbind (ilock (Some dp) s) (\<lambda>_ s.
                   if namecmp name (lit ''.'') = 0 \<or> namecmp name (lit ''..'') = 0 then sys_unlink_bad dp s
                   else
                     kbind (dirlookup dp name (stack_junk s) s) (\<lambda>r s.
                       case r of
                         None \<Rightarrow> sys_unlink_bad dp s
                       | Some (ip, off) \<Rightarrow>
                           kbind (ilock (Some ip) s) (\<lambda>_ s.
                             if i_nlink (itab s ip) < 1 then Panic ''unlink: nlink < 1''
                             else
                               kbind (if i_type (itab s ip) = T_DIR
                                      then kbind (isdirempty ip s) (\<lambda>e s. Ret (\<not> e) s) else Ret False s) (\<lambda>full s.
                                 if full then kbind (iunlockput (Some ip) s) (\<lambda>_ s. sys_unlink_bad dp s)
                                 else sys_unlink_entry dp ip off s)))))))"

section \<open>Creation\<close>

definition create_fail :: "nat \<Rightarrow> nat \<Rightarrow> 'z fsst_scheme \<Rightarrow> (nat option, 'z fsst_scheme) outcome" where
  "create_fail ip dp s =
     (let s = set_inode ip (\<lambda>x. x\<lparr>i_nlink := 0\<rparr>) s in
      kbind (iupdate ip s) (\<lambda>_ s.
      kbind (iunlockput (Some ip) s) (\<lambda>_ s.
      kbind (iunlockput (Some dp) s) (\<lambda>_ s. Ret None s))))"

text \<open>The entries of a new directory and the entry for the new inode: whether all went in.\<close>

definition create_links :: "nat \<Rightarrow> nat \<Rightarrow> bytes \<Rightarrow> int \<Rightarrow> 'z trapst_scheme \<Rightarrow> (bool, 'z trapst_scheme) outcome" where
  "create_links dp ip name ty s =
     kbind (if ty = T_DIR then
              kbind (dirlink ip (lit ''.'') (i_inum (itab s ip)) (stack_junk s) s) (\<lambda>r s.
                if r < 0 then Ret False s
                else kbind (dirlink ip (lit ''..'') (i_inum (itab s dp)) (stack_junk s) s) (\<lambda>r s. Ret (\<not> r < 0) s))
            else Ret True s) (\<lambda>ok s.
       if \<not> ok then Ret False s
       else kbind (dirlink dp name (i_inum (itab s ip)) (stack_junk s) s) (\<lambda>r s. Ret (\<not> r < 0) s))"

definition create_new :: "nat \<Rightarrow> bytes \<Rightarrow> int \<Rightarrow> int \<Rightarrow> int \<Rightarrow> 'z trapst_scheme \<Rightarrow> (nat option, 'z trapst_scheme) outcome" where
  "create_new dp name ty major minor s =
     kbind (ialloc (i_dev (itab s dp)) ty s) (\<lambda>ipo s.
       case ipo of
         None \<Rightarrow> kbind (iunlockput (Some dp) s) (\<lambda>_ s. Ret None s)
       | Some ip \<Rightarrow>
           kbind (ilock (Some ip) s) (\<lambda>_ s.
             let s = set_inode ip (\<lambda>x. x\<lparr>i_major := major, i_minor := minor, i_nlink := 1\<rparr>) s in
           kbind (iupdate ip s) (\<lambda>_ s.
           kbind (create_links dp ip name ty s) (\<lambda>ok s.
             if \<not> ok then create_fail ip dp s
             else
               kbind (if ty = T_DIR then iupdate dp (add_nlink dp 1 s) else Ret () s) (\<lambda>_ s.
               kbind (iunlockput (Some dp) s) (\<lambda>_ s. Ret (Some ip) s))))))"

definition create :: "bytes \<Rightarrow> int \<Rightarrow> int \<Rightarrow> int \<Rightarrow> 'z trapst_scheme \<Rightarrow> (nat option, 'z trapst_scheme) outcome" where
  "create path ty major minor s =
     kbind (nameiparent path (stack_junk s) s) (\<lambda>(dpo, name) s.
       case dpo of
         None \<Rightarrow> Ret None s
       | Some dp \<Rightarrow>
           kbind (ilock (Some dp) s) (\<lambda>_ s.
           kbind (dirlookup dp name (stack_junk s) s) (\<lambda>r s.
             case r of
               Some (ip, _) \<Rightarrow>
                 kbind (iunlockput (Some dp) s) (\<lambda>_ s.
                 kbind (ilock (Some ip) s) (\<lambda>_ s.
                   if ty = T_FILE \<and> (i_type (itab s ip) = T_FILE \<or> i_type (itab s ip) = T_DEVICE) then Ret (Some ip) s
                   else kbind (iunlockput (Some ip) s) (\<lambda>_ s. Ret None s)))
             | None \<Rightarrow> create_new dp name ty major minor s)))"

section \<open>open\<close>

text \<open>The inode to open, locked, or nothing.\<close>

definition open_inode :: "bytes \<Rightarrow> uint32 \<Rightarrow> 'z trapst_scheme \<Rightarrow> (nat option, 'z trapst_scheme) outcome" where
  "open_inode path omode s =
     (if omode AND O_CREATE \<noteq> 0 then create path T_FILE 0 0 s
      else
        kbind (namei path s) (\<lambda>ipo s.
          case ipo of
            None \<Rightarrow> Ret None s
          | Some ip \<Rightarrow>
              kbind (ilock (Some ip) s) (\<lambda>_ s.
                if i_type (itab s ip) = T_DIR \<and> omode \<noteq> O_RDONLY then
                  kbind (iunlockput (Some ip) s) (\<lambda>_ s. Ret None s)
                else Ret (Some ip) s)))"

definition open_file :: "nat \<Rightarrow> uint32 \<Rightarrow> nat \<Rightarrow> 'z filest_scheme \<Rightarrow> 'z filest_scheme" where
  "open_file ip omode f s =
     (let s = (if i_type (itab s ip) = T_DEVICE
               then set_file f (\<lambda>x. x\<lparr>f_type := FD_DEVICE, f_major := i_major (itab s ip)\<rparr>) s
               else set_file f (\<lambda>x. x\<lparr>f_type := FD_INODE, f_off := 0\<rparr>) s)
      in set_file f (\<lambda>x. x\<lparr>f_ip := ip, f_readable := (omode AND O_WRONLY = 0),
           f_writable := (omode AND O_WRONLY \<noteq> 0 \<or> omode AND O_RDWR \<noteq> 0)\<rparr>) s)"

definition sys_open_ip :: "nat \<Rightarrow> uint32 \<Rightarrow> 'z filest_scheme \<Rightarrow> (uint64, 'z filest_scheme) outcome" where
  "sys_open_ip ip omode s =
     (if i_type (itab s ip) = T_DEVICE \<and> (i_major (itab s ip) < 0 \<or> NDEV \<le> i_major (itab s ip)) then
        kbind (iunlockput (Some ip) s) (\<lambda>_ s. end_fail s)
      else
        kbind (filealloc s) (\<lambda>fo s.
        kbind (case fo of None \<Rightarrow> Ret None s | Some f \<Rightarrow> fdalloc f s) (\<lambda>fdo s.
          case (fo, fdo) of
            (Some f, Some fd) \<Rightarrow>
              let s = open_file ip omode f s in
              kbind (if omode AND O_TRUNC \<noteq> 0 \<and> i_type (itab s ip) = T_FILE then itrunc ip s else Ret () s) (\<lambda>_ s.
              kbind (iunlock (Some ip) s) (\<lambda>_ s.
              kbind (end_op s) (\<lambda>_ s. Ret (of_nat fd) s)))
          | _ \<Rightarrow>
              kbind (case fo of None \<Rightarrow> Ret () s | Some f \<Rightarrow> fileclose f s) (\<lambda>_ s.
              kbind (iunlockput (Some ip) s) (\<lambda>_ s. end_fail s)))))"

definition sys_open :: "'z trapst_scheme \<Rightarrow> (uint64, 'z trapst_scheme) outcome" where
  "sys_open s =
     kbind (argint 1 s) (\<lambda>om s.
     kbind (argpath 0 s) (\<lambda>po s.
       case po of
         None \<Rightarrow> fail s
       | Some path \<Rightarrow>
           kbind (begin_op s) (\<lambda>_ s.
           kbind (open_inode path (word_of_int om) s) (\<lambda>ipo s.
             case ipo of None \<Rightarrow> end_fail s | Some ip \<Rightarrow> sys_open_ip ip (word_of_int om) s))))"

section \<open>Directories\<close>

definition sys_mkdir :: "'z trapst_scheme \<Rightarrow> (uint64, 'z trapst_scheme) outcome" where
  "sys_mkdir s =
     kbind (begin_op s) (\<lambda>_ s.
     kbind (argpath 0 s) (\<lambda>po s.
     kbind (case po of None \<Rightarrow> Ret None s | Some path \<Rightarrow> create path T_DIR 0 0 s) (\<lambda>ipo s.
       case ipo of
         None \<Rightarrow> end_fail s
       | Some ip \<Rightarrow>
           kbind (iunlockput (Some ip) s) (\<lambda>_ s.
           kbind (end_op s) (\<lambda>_ s. Ret 0 s)))))"

definition sys_mknod :: "'z trapst_scheme \<Rightarrow> (uint64, 'z trapst_scheme) outcome" where
  "sys_mknod s =
     kbind (begin_op s) (\<lambda>_ s.
     kbind (argint 1 s) (\<lambda>major s.
     kbind (argint 2 s) (\<lambda>minor s.
     kbind (argpath 0 s) (\<lambda>po s.
     kbind (case po of None \<Rightarrow> Ret None s | Some path \<Rightarrow> create path T_DEVICE (c_short major) (c_short minor) s) (\<lambda>ipo s.
       case ipo of
         None \<Rightarrow> end_fail s
       | Some ip \<Rightarrow>
           kbind (iunlockput (Some ip) s) (\<lambda>_ s.
           kbind (end_op s) (\<lambda>_ s. Ret 0 s)))))))"

definition sys_chdir :: "'z trapst_scheme \<Rightarrow> (uint64, 'z trapst_scheme) outcome" where
  "sys_chdir s =
     kbind (curproc s) (\<lambda>p s.
     kbind (begin_op s) (\<lambda>_ s.
     kbind (argpath 0 s) (\<lambda>po s.
     kbind (case po of None \<Rightarrow> Ret None s | Some path \<Rightarrow> namei path s) (\<lambda>ipo s.
       case ipo of
         None \<Rightarrow> end_fail s
       | Some ip \<Rightarrow>
           kbind (ilock (Some ip) s) (\<lambda>_ s.
             if i_type (itab s ip) \<noteq> T_DIR then kbind (iunlockput (Some ip) s) (\<lambda>_ s. end_fail s)
             else
               kbind (iunlock (Some ip) s) (\<lambda>_ s.
                 case cwd (proc s p) of
                   None \<Rightarrow> Panic ''kerneltrap''
                 | Some old \<Rightarrow>
                     kbind (iput old s) (\<lambda>_ s.
                     kbind (end_op s) (\<lambda>_ s.
                     Ret 0 (set_proc p (\<lambda>q. q\<lparr>cwd := Some ip\<rparr>) s)))))))))"

section \<open>exec and pipe\<close>

text \<open>
  The loop of \<^verbatim>\<open>sys_exec\<close> over the argument vector: the pages allocated so far and whether
  it ended at the null pointer. There are \<open>MAXARG\<close> turns at most.
\<close>

fun fetch_args :: "nat \<Rightarrow> uint64 \<Rightarrow> uint64 list \<Rightarrow> 'z trapst_scheme \<Rightarrow> (bool \<times> uint64 list, 'z trapst_scheme) outcome" where
  "fetch_args 0 uargv pages s = Ret (False, pages) s"
| "fetch_args (Suc n) uargv pages s =
     kbind (fetchaddr (uargv + 8 * of_nat (length pages)) s) (\<lambda>(r, uarg) s.
       if r < 0 then Ret (False, pages) s
       else if uarg = 0 then Ret (True, pages) s
       else
         kbind (kalloc s) (\<lambda>pa s.
           if pa = 0 then Ret (False, pages) s
           else
             kbind (fetchstr uarg (\<lambda>i. phys s (pa + of_nat i)) PGSIZE s) (\<lambda>(r, buf) s.
               let s = s\<lparr>phys := store_bytes (phys s) pa buf 0 (unat PGSIZE)\<rparr> in
               if r < 0 then Ret (False, pages @ [pa]) s
               else fetch_args n uargv (pages @ [pa]) s)))"

definition sys_exec :: "'z trapst_scheme \<Rightarrow> (uint64, 'z trapst_scheme) outcome" where
  "sys_exec s =
     kbind (argaddr 1 s) (\<lambda>uargv s.
     kbind (argpath 0 s) (\<lambda>po s.
       case po of
         None \<Rightarrow> fail s
       | Some path \<Rightarrow>
           kbind (fetch_args MAXARG uargv [] s) (\<lambda>(ok, pages) s.
           kbind (if ok then kexec path (map (\<lambda>pa i. phys s (pa + of_nat i)) pages) s else Ret (- 1) s) (\<lambda>r s.
           kbind (kfor kfree pages s) (\<lambda>_ s.
           Ret (word_of_int r) s)))))"

definition fd_bytes :: "nat \<Rightarrow> bytes" where
  "fd_bytes fd = le_byte (of_nat fd :: uint32)"

definition sys_pipe_undo :: "nat \<Rightarrow> nat list \<Rightarrow> nat \<Rightarrow> nat \<Rightarrow> 'z filest_scheme \<Rightarrow> (uint64, 'z filest_scheme) outcome" where
  "sys_pipe_undo p fds rfile wfile s =
     (let s = fold (\<lambda>fd. set_ofile p fd None) fds s in
      kbind (fileclose rfile s) (\<lambda>_ s.
      kbind (fileclose wfile s) (\<lambda>_ s. fail s)))"

definition sys_pipe :: "'z filest_scheme \<Rightarrow> (uint64, 'z filest_scheme) outcome" where
  "sys_pipe s =
     kbind (curproc s) (\<lambda>p s.
     kbind (argaddr 0 s) (\<lambda>fdarray s.
     kbind (pipealloc s) (\<lambda>r s.
       case r of
         None \<Rightarrow> fail s
       | Some (rfile, wfile) \<Rightarrow>
           kbind (fdalloc rfile s) (\<lambda>fo0 s.
             case fo0 of
               None \<Rightarrow> sys_pipe_undo p [] rfile wfile s
             | Some fd0 \<Rightarrow>
                 kbind (fdalloc wfile s) (\<lambda>fo1 s.
                   case fo1 of
                     None \<Rightarrow> sys_pipe_undo p [fd0] rfile wfile s
                   | Some fd1 \<Rightarrow>
                       kbind (copyout (pagetable (proc s p)) fdarray (fd_bytes fd0) 0 4 s) (\<lambda>r s.
                       kbind (if r < 0 then Ret r s
                              else copyout (pagetable (proc s p)) (fdarray + 4) (fd_bytes fd1) 0 4 s) (\<lambda>r s.
                         if r < 0 then sys_pipe_undo p [fd0, fd1] rfile wfile s else Ret 0 s)))))))"

end
