(* ===== verification/Trap.thy ===== *)
theory Trap
  imports Sysfile
begin

text \<open>
  System call dispatch (\<^verbatim>\<open>kernel/syscall.c\<close>), traps and interrupts (\<^verbatim>\<open>kernel/trap.c\<close>)
  and the start of the kernel (\<^verbatim>\<open>kernel/main.c\<close>).
\<close>

section \<open>Dispatch\<close>

definition SYS_fork :: int where "SYS_fork = 1"
definition SYS_exit :: int where "SYS_exit = 2"
definition SYS_wait :: int where "SYS_wait = 3"
definition SYS_pipe :: int where "SYS_pipe = 4"
definition SYS_read :: int where "SYS_read = 5"
definition SYS_kill :: int where "SYS_kill = 6"
definition SYS_exec :: int where "SYS_exec = 7"
definition SYS_fstat :: int where "SYS_fstat = 8"
definition SYS_chdir :: int where "SYS_chdir = 9"
definition SYS_dup :: int where "SYS_dup = 10"
definition SYS_getpid :: int where "SYS_getpid = 11"
definition SYS_sbrk :: int where "SYS_sbrk = 12"
definition SYS_pause :: int where "SYS_pause = 13"
definition SYS_uptime :: int where "SYS_uptime = 14"
definition SYS_open :: int where "SYS_open = 15"
definition SYS_write :: int where "SYS_write = 16"
definition SYS_mknod :: int where "SYS_mknod = 17"
definition SYS_unlink :: int where "SYS_unlink = 18"
definition SYS_link :: int where "SYS_link = 19"
definition SYS_mkdir :: int where "SYS_mkdir = 20"
definition SYS_close :: int where "SYS_close = 21"
definition SYS_sync :: int where "SYS_sync = 22"
definition SYS_sleep :: int where "SYS_sleep = 23"
definition SYS_sem_open :: int where "SYS_sem_open = 24"
definition SYS_sem_wait :: int where "SYS_sem_wait = 25"
definition SYS_sem_signal :: int where "SYS_sem_signal = 26"
definition SYS_sem_close :: int where "SYS_sem_close = 27"
definition SYS_sem_gantt :: int where "SYS_sem_gantt = 28"

definition sem_call :: "(int \<Rightarrow> 'z procs_scheme \<Rightarrow> (int, 'z procs_scheme) outcome) \<Rightarrow> 'z procs_scheme \<Rightarrow> (uint64, 'z procs_scheme) outcome" where
  "sem_call f s = kbind (argint 0 s) (\<lambda>n s. ireg (f n s))"

text \<open>The table of calls. \<open>SYS_sleep\<close> has a number and no entry.\<close>

definition syscalls :: "int \<Rightarrow> ('z trapst_scheme \<Rightarrow> (uint64, 'z trapst_scheme) outcome) option" where
  "syscalls n =
     (if n = SYS_fork then Some sys_fork
      else if n = SYS_exit then Some sys_exit
      else if n = SYS_wait then Some sys_wait
      else if n = SYS_pipe then Some sys_pipe
      else if n = SYS_read then Some sys_read
      else if n = SYS_kill then Some sys_kill
      else if n = SYS_exec then Some sys_exec
      else if n = SYS_fstat then Some sys_fstat
      else if n = SYS_chdir then Some sys_chdir
      else if n = SYS_dup then Some sys_dup
      else if n = SYS_getpid then Some sys_getpid
      else if n = SYS_sbrk then Some sys_sbrk
      else if n = SYS_pause then Some sys_pause
      else if n = SYS_uptime then Some sys_uptime
      else if n = SYS_open then Some sys_open
      else if n = SYS_write then Some sys_write
      else if n = SYS_mknod then Some sys_mknod
      else if n = SYS_unlink then Some sys_unlink
      else if n = SYS_link then Some sys_link
      else if n = SYS_mkdir then Some sys_mkdir
      else if n = SYS_close then Some sys_close
      else if n = SYS_sync then Some sys_sync
      else if n = SYS_sem_open then Some sys_sem_open
      else if n = SYS_sem_wait then Some (sem_call sys_sem_wait)
      else if n = SYS_sem_signal then Some (sem_call sys_sem_signal)
      else if n = SYS_sem_close then Some (sem_call sys_sem_close)
      else if n = SYS_sem_gantt then Some sys_sem_gantt
      else None)"

definition syscall :: "'z trapst_scheme \<Rightarrow> (unit, 'z trapst_scheme) outcome" where
  "syscall s =
     kbind (curproc s) (\<lambda>p s.
       let n = sint (ucast (get_tf p tf_a7 s) :: uint32) in
       case syscalls n of
         Some f \<Rightarrow> kbind (f s) (\<lambda>r s. Ret () (set_tf p tf_a0 r s))
       | None \<Rightarrow>
           kbind (pr (''%d %s: unknown sys call %d'' @ NL)
             [snum (pid (proc s p)), VStr (Some (cstr 16 (pname (proc s p)))), snum n] s) (\<lambda>_ s.
           Ret () (set_tf p tf_a0 (- 1) s)))"

section \<open>Traps\<close>

definition trapinit :: "'z mach_scheme \<Rightarrow> 'z mach_scheme" where
  "trapinit s = initlock TicksLk ''time'' s"

definition trapinithart :: "'z trapst_scheme \<Rightarrow> 'z trapst_scheme" where
  "trapinithart s = w_stvec (kernelvec (syms s)) s"

definition clockintr :: "'z trapst_scheme \<Rightarrow> (unit, 'z trapst_scheme) outcome" where
  "clockintr s =
     kbind (if cpuid s = 0 then
              kbind (acquire TicksLk s) (\<lambda>_ s.
                let s = s\<lparr>ticks := ticks s + 1\<rparr> in
              kbind (wakeup ChTicks s) (\<lambda>_ s.
              release TicksLk s))
            else Ret () s) (\<lambda>_ s.
     Ret () (w_stimecmp (r_time s + 1000000) s))"

definition devintr :: "'z trapst_scheme \<Rightarrow> (int, 'z trapst_scheme) outcome" where
  "devintr s =
     (if r_scause s = 0x8000000000000009 then
        (case plic_claim s of (irq, s) \<Rightarrow>
           kbind (if irq = sint UART0_IRQ then uartintr s
                  else if irq = sint VIRTIO0_IRQ then virtio_disk_intr s
                  else if irq \<noteq> 0 then pr (''unexpected interrupt irq=%d'' @ NL) [snum irq] s
                  else Ret () s) (\<lambda>_ s.
             Ret 1 (if irq \<noteq> 0 then plic_complete irq s else s)))
      else if r_scause s = 0x8000000000000005 then
        kbind (clockintr s) (\<lambda>_ s. Ret 2 s)
      else Ret 0 s)"

text \<open>
  \<^verbatim>\<open>usertrap\<close> from the handling of the cause on, then its end. A handler that gives up the
  processor is a \<open>Swtch\<close>; \<open>usertrap_end\<close> is where the trap goes on after it.
\<close>

definition kexit_if_killed :: "nat \<Rightarrow> 'z filest_scheme \<Rightarrow> (unit, 'z filest_scheme) outcome" where
  "kexit_if_killed p s = kbind (killed p s) (\<lambda>k s. if k \<noteq> 0 then kexit (- 1) s else Ret () s)"

definition usertrap_cause :: "nat \<Rightarrow> 'z trapst_scheme \<Rightarrow> (int, 'z trapst_scheme) outcome" where
  "usertrap_cause p s =
     (if r_scause s = 8 then
        kbind (kexit_if_killed p s) (\<lambda>_ s.
          let s = set_tf p tf_epc (get_tf p tf_epc s + 4) s;
              s = intr_on s
          in kbind (syscall s) (\<lambda>_ s. Ret 0 s))
      else
        kbind (devintr s) (\<lambda>which_dev s.
          if which_dev \<noteq> 0 then Ret which_dev s
          else
            kbind (if r_scause s = 15 \<or> r_scause s = 13
                   then kbind (vmfault (pagetable (proc s p)) (r_stval s) (r_scause s = 13) s) (\<lambda>m s. Ret (m \<noteq> 0) s)
                   else Ret False s) (\<lambda>ok s.
              if ok then Ret 0 s
              else
                kbind (pr (''usertrap(): unexpected scause 0x%lx pid=%d'' @ NL)
                  [VNum (r_scause s), snum (pid (proc s p))] s) (\<lambda>_ s.
                kbind (pr (''            sepc=0x%lx stval=0x%lx'' @ NL)
                  [VNum (r_sepc s), VNum (r_stval s)] s) (\<lambda>_ s.
                kbind (setkilled p s) (\<lambda>_ s. Ret 0 s))))))"

definition usertrap_end :: "nat \<Rightarrow> 'z trapst_scheme \<Rightarrow> (uint64, 'z trapst_scheme) outcome" where
  "usertrap_end p s =
     kbind (prepare_return s) (\<lambda>_ s. Ret (MAKE_SATP (pagetable (proc s p))) s)"

definition usertrap :: "'z trapst_scheme \<Rightarrow> (uint64, 'z trapst_scheme) outcome" where
  "usertrap s =
     (if r_sstatus s AND SSTATUS_SPP \<noteq> 0 then Panic ''usertrap: not from user mode''
      else
        let s = w_stvec (kernelvec (syms s)) s in
        kbind (curproc s) (\<lambda>p s.
          let s = set_tf p tf_epc (r_sepc s) s in
        kbind (usertrap_cause p s) (\<lambda>which_dev s.
        kbind (kexit_if_killed p s) (\<lambda>_ s.
        kbind (if which_dev = 2 then yield s else Ret () s) (\<lambda>_ s.
        usertrap_end p s)))))"

text \<open>The registers \<^verbatim>\<open>kerneltrap\<close> saved are put back whether or not it gave up the processor.\<close>

definition kerneltrap_end :: "uint64 \<Rightarrow> uint64 \<Rightarrow> 'z trapst_scheme \<Rightarrow> (unit, 'z trapst_scheme) outcome" where
  "kerneltrap_end sepc sstatus s = Ret () (w_sstatus sstatus (w_sepc sepc s))"

definition kerneltrap :: "'z trapst_scheme \<Rightarrow> (unit, 'z trapst_scheme) outcome" where
  "kerneltrap s =
     (let sepc = r_sepc s;
          sstatus = r_sstatus s;
          scause = r_scause s
      in
      if sstatus AND SSTATUS_SPP = 0 then Panic ''kerneltrap: not from supervisor mode''
      else if intr_get s then Panic ''kerneltrap: interrupts enabled''
      else
        kbind (devintr s) (\<lambda>which_dev s.
          if which_dev = 0 then
            kbind (pr (''scause=0x%lx sepc=0x%lx stval=0x%lx'' @ NL)
              [VNum scause, VNum (r_sepc s), VNum (r_stval s)] s) (\<lambda>_ s. Panic ''kerneltrap'')
          else
            kbind (if which_dev = 2 then kbind (myproc s) (\<lambda>po s. Ret (po \<noteq> None) s) else Ret False s) (\<lambda>y s.
            kbind (if y then yield s else Ret () s) (\<lambda>_ s.
            kerneltrap_end sepc sstatus s))))"

section \<open>main\<close>

text \<open>
  \<^verbatim>\<open>main\<close> on the boot hart and on the others, up to the call of the scheduler. A hart that
  waits for \<^verbatim>\<open>started\<close> spins until the boot hart has set it.
\<close>

definition main_boot :: "'z trapst_scheme \<Rightarrow> (unit, 'z trapst_scheme) outcome" where
  "main_boot s =
     (let s = consoleinit s;
          s = printkinit s
      in
      kbind (pr NL [] s) (\<lambda>_ s.
      kbind (pr (''xv6 kernel is booting'' @ NL) [] s) (\<lambda>_ s.
      kbind (pr NL [] s) (\<lambda>_ s.
      kbind (kinit s) (\<lambda>_ s.
      kbind (kvminit s) (\<lambda>_ s.
        let s = kvminithart s;
            s = procinit s;
            s = trapinit s;
            s = trapinithart s;
            s = plicinit s;
            s = plicinithart s;
            s = binit s;
            s = iinit s;
            s = fileinit s
        in
      kbind (virtio_disk_init s) (\<lambda>_ s.
        let s = sem_table_init s in
      kbind (userinit s) (\<lambda>_ s.
      Ret () (s\<lparr>started := True\<rparr>)))))))))"

definition main_other :: "'z trapst_scheme \<Rightarrow> (unit, 'z trapst_scheme) outcome" where
  "main_other s =
     (if \<not> started s then Spin
      else
        kbind (pr (''hart %d starting'' @ NL) [snum (int (cpuid s))] s) (\<lambda>_ s.
          let s = kvminithart s;
              s = trapinithart s
          in Ret () (plicinithart s)))"

definition main :: "'z trapst_scheme \<Rightarrow> (unit, 'z trapst_scheme) outcome" where
  "main s = (if cpuid s = 0 then main_boot s else main_other s)"

end
