(* ===== verification/VmTree.thy ===== *)
theory VmTree
  imports Vm
begin

text \<open>
  What the page-table functions of \<^verbatim>\<open>kernel/vm.c\<close> do to the tree of tables in memory: a
  walk that allocates keeps every mapping, \<^verbatim>\<open>mappages\<close> changes one mapping and no other, and
  a look-up finds what was mapped.
\<close>

section \<open>The tree\<close>


text \<open>
  The tables of a tree, by the indices that lead to them: \<open>tab []\<close> is the root,
  \<open>tab [i]\<close> a table of the middle level, \<open>tab [i, j]\<close> one of the lowest.
\<close>

type_synonym ptab = "nat list \<Rightarrow> uint64 option"

definition pt_tree :: "physmem \<Rightarrow> ptab \<Rightarrow> bool" where
  "pt_tree m tab =
     ((\<forall>ps p. tab ps = Some p \<longrightarrow> aligned p \<and> p < PHYSTOP \<and> p \<noteq> 0) \<and>
      (\<forall>ps qs p. tab ps = Some p \<longrightarrow> tab qs = Some p \<longrightarrow> ps = qs) \<and>
      (\<forall>ps i. tab (ps @ [i]) \<noteq> None \<longrightarrow> tab ps \<noteq> None) \<and>
      (\<forall>ps p i. tab ps = Some p \<longrightarrow> length ps < 2 \<longrightarrow> i < 512 \<longrightarrow>
         (case tab (ps @ [i]) of
            None \<Rightarrow> load64 m (entry p i) AND PTE_V = 0
          | Some q \<Rightarrow> load64 m (entry p i) = PA2PTE q OR PTE_V)))"

definition leaf :: "physmem \<Rightarrow> ptab \<Rightarrow> nat \<Rightarrow> nat \<Rightarrow> nat \<Rightarrow> uint64" where
  "leaf m tab i j k = (case tab [i, j] of None \<Rightarrow> 0 | Some q \<Rightarrow> load64 m (entry q k))"

abbreviation px :: "nat \<Rightarrow> uint64 \<Rightarrow> nat" where
  "px level va \<equiv> unat (PX level va)"

definition pte_view :: "physmem \<Rightarrow> ptab \<Rightarrow> uint64 \<Rightarrow> uint64" where
  "pte_view m tab va = leaf m tab (px 2 va) (px 1 va) (px 0 va)"

definition vm_inv :: "'z kmem_scheme \<Rightarrow> ptab \<Rightarrow> uint64 list \<Rightarrow> bool" where
  "vm_inv s tab xs = (kmem_ready s \<and> kmem_list s xs \<and> pt_tree (phys s) tab \<and>
     (\<forall>p \<in> ran tab. kpage s p \<and> p \<notin> set xs))"

lemma pt_treeD:
  assumes "pt_tree m tab" "tab ps = Some p"
  shows "aligned p" "p < PHYSTOP" "p \<noteq> 0"
  using assms unfolding pt_tree_def by blast+

lemma pt_tree_inj: "pt_tree m tab \<Longrightarrow> tab ps = Some p \<Longrightarrow> tab qs = Some p \<Longrightarrow> ps = qs"
  unfolding pt_tree_def by blast

lemma pt_tree_closed: "pt_tree m tab \<Longrightarrow> tab (ps @ [i]) = Some q \<Longrightarrow> \<exists>p. tab ps = Some p"
  unfolding pt_tree_def by (metis not_Some_eq)

lemma pt_tree_entry:
  assumes "pt_tree m tab" "tab ps = Some p" "length ps < 2" "i < 512"
  shows "tab (ps @ [i]) = None \<Longrightarrow> load64 m (entry p i) AND PTE_V = 0"
    and "tab (ps @ [i]) = Some q \<Longrightarrow> load64 m (entry p i) = PA2PTE q OR PTE_V"
  using assms unfolding pt_tree_def by (auto split: option.splits dest!: spec [of _ ps] spec [of _ p] spec [of _ i])

lemma PTE_V_nonzero [simp]: "PTE_V \<noteq> 0"
  by (simp add: PTE_V_def)

lemma PTE2PA_table:
  assumes "aligned q" "q < PHYSTOP"
  shows "PTE2PA (PA2PTE q OR PTE_V) = q"
  using assms by (intro PTE2PA_PA2PTE) (auto simp: PTE_V_def word_less_nat_alt)

text \<open>Putting a fresh zeroed page under an empty entry of a table.\<close>

definition grow_mem :: "physmem \<Rightarrow> uint64 \<Rightarrow> nat \<Rightarrow> uint64 \<Rightarrow> physmem" where
  "grow_mem m p i x = store64 (memset (memset m x 5 4096) x 0 4096) (entry p i) (PA2PTE x OR PTE_V)"

lemma grow_load:
  assumes "aligned p" "aligned q" "aligned x" "p \<noteq> x" "i < 512" "j < 512"
  shows "load64 (grow_mem m p i x) (entry q j) =
     (if q = p \<and> j = i then PA2PTE x OR PTE_V else if q = x then 0 else load64 m (entry q j))"
  using assms by (auto simp: grow_mem_def load_store_entry load_memset_entry load64_zero)

lemma pt_tree_grow:
  assumes t: "pt_tree m tab" and p: "tab ps = Some p" "length ps < 2" "i < 512" "tab (ps @ [i]) = None"
    and x: "aligned x" "x < PHYSTOP" "x \<noteq> 0" "x \<notin> ran tab"
  shows "pt_tree (grow_mem m p i x) (tab(ps @ [i] \<mapsto> x))"
proof -
  let ?tab = "tab(ps @ [i] \<mapsto> x)"
  have al: "aligned p" and px: "p \<noteq> x" using pt_treeD [OF t p(1)] x p by (auto simp: ran_def)
  have closed: "tab ((ps @ [i]) @ [j]) = None" for j
    using t p(4) unfolding pt_tree_def by blast
  have "case ?tab (qs @ [j]) of None \<Rightarrow> load64 (grow_mem m p i x) (entry q j) AND PTE_V = 0
      | Some r \<Rightarrow> load64 (grow_mem m p i x) (entry q j) = PA2PTE r OR PTE_V"
    if q: "?tab qs = Some q" "length qs < 2" "j < 512" for qs q j
  proof (cases "qs = ps @ [i]")
    case True
    then have "q = x" using q by simp
    moreover have "?tab (qs @ [j]) = None" using True closed by simp
    ultimately show ?thesis using al px x q p by (simp add: grow_load)
  next
    case False
    then have tq: "tab qs = Some q" using q by simp
    have alq: "aligned q" and qx: "q \<noteq> x" using pt_treeD [OF t tq] x tq by (auto simp: ran_def)
    have "q = p \<longleftrightarrow> qs = ps" using pt_tree_inj [OF t tq, of ps] p tq by auto
    then show ?thesis
      using pt_tree_entry [OF t tq q(2,3)] al alq px qx x p q
      by (auto simp: grow_load split: option.splits)
  qed
  moreover have "aligned q \<and> q < PHYSTOP \<and> q \<noteq> 0" if "?tab qs = Some q" for qs q
    using that pt_treeD [OF t] x by (auto split: if_splits)
  moreover have "qs = rs" if "?tab qs = Some q" "?tab rs = Some q" for qs rs q
    using that pt_tree_inj [OF t] x by (auto simp: ran_def split: if_splits)
  moreover have "?tab qs \<noteq> None" if "?tab (qs @ [j]) \<noteq> None" for qs j
    using that p pt_tree_closed [OF t] by (auto split: if_splits)
  ultimately show ?thesis unfolding pt_tree_def by blast
qed

lemma leaf_grow:
  assumes t: "pt_tree m tab" and p: "tab ps = Some p" "length ps < 2" "i < 512" "tab (ps @ [i]) = None"
    and x: "aligned x" "x \<notin> ran tab" and c: "c < 512"
  shows "leaf (grow_mem m p i x) (tab(ps @ [i] \<mapsto> x)) a b c = leaf m tab a b c"
proof -
  have al: "aligned p" and px: "p \<noteq> x" using pt_treeD [OF t p(1)] x p by (auto simp: ran_def)
  show ?thesis
  proof (cases "[a, b] = ps @ [i]")
    case True
    then have "tab [a, b] = None" "(tab(ps @ [i] \<mapsto> x)) [a, b] = Some x" using p(4) by (simp_all only: fun_upd_same)
    then show ?thesis using al px x p c by (simp add: leaf_def grow_load)
  next
    case False
    show ?thesis
    proof (cases "tab [a, b]")
      case None
      moreover have "(tab(ps @ [i] \<mapsto> x)) [a, b] = tab [a, b]" using False by (rule fun_upd_other)
      ultimately show ?thesis by (simp add: leaf_def)
    next
      case (Some q)
      then have "q \<noteq> p" "q \<noteq> x" "aligned q"
        using pt_tree_inj [OF t Some, of ps] p x pt_treeD [OF t Some] by (auto simp: ran_def)
      moreover have "(tab(ps @ [i] \<mapsto> x)) [a, b] = Some q" using fun_upd_other [OF False, of tab "Some x"] Some by (rule trans)
      ultimately show ?thesis using Some al px x p c by (simp add: leaf_def grow_load)
    qed
  qed
qed

section \<open>Walking and growing\<close>

text \<open>
  \<open>vm_ext\<close>: from one state to the other the tree only gained tables, taken from the free
  list; every mapping is as before, and so is every byte outside the tables and the free pages.
\<close>

definition vm_pages :: "ptab \<Rightarrow> uint64 list \<Rightarrow> uint64 set" where
  "vm_pages tab xs = ran tab \<union> set xs"

definition vm_ext :: "'z kmem_scheme \<Rightarrow> ptab \<Rightarrow> uint64 list \<Rightarrow> 'z kmem_scheme \<Rightarrow> ptab \<Rightarrow> uint64 list \<Rightarrow> bool" where
  "vm_ext s tab xs t tab' xs' =
     (vm_inv t tab' xs' \<and> tab \<subseteq>\<^sub>m tab' \<and>
      (\<forall>i j k. k < 512 \<longrightarrow> leaf (phys t) tab' i j k = leaf (phys s) tab i j k) \<and>
      vm_pages tab' xs' = vm_pages tab xs \<and>
      (\<exists>m f. t = s\<lparr>phys := m, freelist := f\<rparr>) \<and>
      (\<forall>x. page_of x \<notin> page_of ` vm_pages tab xs \<longrightarrow> phys t x = phys s x))"

lemma vm_ext_refl: "vm_inv s tab xs \<Longrightarrow> vm_ext s tab xs s tab xs"
proof -
  have "\<exists>m f. s = s\<lparr>phys := m, freelist := f\<rparr>" by (rule exI [of _ "phys s"], rule exI [of _ "freelist s"]) simp
  moreover assume "vm_inv s tab xs"
  ultimately show ?thesis by (simp add: vm_ext_def)
qed

lemma vm_ext_trans:
  assumes "vm_ext s tab xs t tab' xs'" "vm_ext t tab' xs' u tab'' xs''"
  shows "vm_ext s tab xs u tab'' xs''"
proof -
  obtain m f where "t = s\<lparr>phys := m, freelist := f\<rparr>" using assms(1) by (auto simp: vm_ext_def)
  moreover obtain m' f' where "u = t\<lparr>phys := m', freelist := f'\<rparr>" using assms(2) by (auto simp: vm_ext_def)
  ultimately have "u = s\<lparr>phys := m', freelist := f'\<rparr>" by simp
  then have "\<exists>m f. u = s\<lparr>phys := m, freelist := f\<rparr>" by blast
  moreover have "tab \<subseteq>\<^sub>m tab''" using assms by (auto simp: vm_ext_def intro: map_le_trans)
  ultimately show ?thesis using assms by (simp add: vm_ext_def)
qed

lemma flist_store_other:
  assumes "flist m p xs" "aligned q" "i < 512" "\<forall>x \<in> set xs. aligned x \<and> x \<noteq> q"
  shows "flist (store64 m (entry q i) v) p xs"
proof (rule flist_other_page [OF assms(1,2,4)])
  fix a assume far: "4096 \<le> unat (a - q)"
  show "store64 m (entry q i) v a = m a"
    using entry_in_page [OF assms(2,3), of a] far by (auto simp: store64_def not_less)
qed

lemma grow_mem_page:
  assumes "aligned p" "aligned x" "i < 512" "page_of a \<noteq> page_of p" "page_of a \<noteq> page_of x"
  shows "grow_mem m p i x a = m a"
proof -
  have "4096 \<le> unat (a - p)" "4096 \<le> unat (a - x)"
    using assms in_page_iff by (auto simp: not_less [symmetric])
  then show ?thesis
    using entry_in_page [OF assms(1,3), of a]
    by (auto simp: grow_mem_def store64_def memset_page_far not_less)
qed

lemma vm_ext_grow:
  assumes inv: "vm_inv s tab (x # xs)"
    and p: "tab ps = Some p" "length ps < 2" "i < 512" "tab (ps @ [i]) = None"
  shows "vm_ext s tab (x # xs)
     (s\<lparr>freelist := load64 (phys s) x, phys := grow_mem (phys s) p i x\<rparr>) (tab(ps @ [i] \<mapsto> x)) xs"
proof -
  let ?t = "s\<lparr>freelist := load64 (phys s) x, phys := grow_mem (phys s) p i x\<rparr>"
  have tree: "pt_tree (phys s) tab" and l: "kmem_list s (x # xs)" using inv by (simp_all add: vm_inv_def)
  have x: "kpage s x" "x \<notin> set xs" "x \<notin> ran tab" and xs: "\<forall>y \<in> set xs. kpage s y"
    using inv by (auto simp: vm_inv_def kmem_list_def)
  have al: "aligned x" "x < PHYSTOP" "x \<noteq> 0" "aligned p" using x pt_treeD [OF tree p(1)] by (auto simp: kpage_def)
  have pin: "p \<in> ran tab" using p(1) by (auto simp: ran_def)
  then have pfree: "\<forall>y \<in> set xs. aligned y \<and> y \<noteq> p" "\<forall>y \<in> set xs. aligned y \<and> y \<noteq> x"
    using inv x xs by (auto simp: vm_inv_def kpage_def)
  have "flist (phys s) (load64 (phys s) x) xs" using l by (simp add: kmem_list_def)
  then have "flist (memset (phys s) x 5 4096) (load64 (phys s) x) xs"
    by (rule flist_other_page [OF _ al(1) pfree(2)]) (simp add: memset_page_far)
  then have "flist (memset (memset (phys s) x 5 4096) x 0 4096) (load64 (phys s) x) xs"
    by (rule flist_other_page [OF _ al(1) pfree(2)]) (simp add: memset_page_far)
  then have "flist (grow_mem (phys s) p i x) (load64 (phys s) x) xs"
    unfolding grow_mem_def by (rule flist_store_other [OF _ al(4) p(3) pfree(1)])
  then have list: "kmem_list ?t xs" using l by (simp add: kmem_list_def)
  have ran: "ran (tab(ps @ [i] \<mapsto> x)) = insert x (ran tab)" using p(4) by simp
  have "pt_tree (phys ?t) (tab(ps @ [i] \<mapsto> x))" using pt_tree_grow [OF tree p al(1-3) x(3)] by simp
  then have "vm_inv ?t (tab(ps @ [i] \<mapsto> x)) xs"
    using inv list x by (auto simp: vm_inv_def ran)
  moreover have "tab \<subseteq>\<^sub>m tab(ps @ [i] \<mapsto> x)" using p(4) by (auto simp: map_le_def)
  moreover have "\<exists>m f. ?t = s\<lparr>phys := m, freelist := f\<rparr>"
    by (rule exI [of _ "phys ?t"], rule exI [of _ "freelist ?t"]) (auto intro: kmem.equality)
  moreover have "phys ?t a = phys s a" if "page_of a \<notin> page_of ` vm_pages tab (x # xs)" for a
    using that pin grow_mem_page [OF al(4,1) p(3), of a] by (auto simp: vm_pages_def)
  moreover have "leaf (phys ?t) (tab(ps @ [i] \<mapsto> x)) a b c = leaf (phys s) tab a b c" if "c < 512" for a b c
    using leaf_grow [OF tree p al(1) x(3) that] by simp
  ultimately show ?thesis by (simp add: vm_ext_def vm_pages_def ran)
qed

text \<open>One level of an allocating walk.\<close>

lemma walk_step_tree:
  assumes inv: "vm_inv s tab xs" and p: "tab ps = Some p" "length ps < 2"
  shows "returns (walk_step p level va True s) (\<lambda>r t.
     (r = None \<and> xs = [] \<and> t = s) \<or>
     (\<exists>q tab' xs'. r = Some q \<and> vm_ext s tab xs t tab' xs' \<and> tab' (ps @ [px level va]) = Some q))"
proof -
  let ?i = "px level va"
  have tree: "pt_tree (phys s) tab" using inv by (simp add: vm_inv_def)
  note e = pt_tree_entry [OF tree p PX_less [of level va]]
  show ?thesis
  proof (cases "tab (ps @ [?i])")
    case (Some q)
    then have "aligned q" "q < PHYSTOP" using pt_treeD [OF tree] by blast+
    with e(2) [OF Some] have "walk_step p level va True s = Ret (Some q) s"
      by (simp add: walk_step_def pte_addr_entry Let_def PTE2PA_table)
    then show ?thesis using vm_ext_refl [OF inv] Some by auto
  next
    case None
    show ?thesis
    proof (cases xs)
      case Nil
      with inv have "kalloc s = Ret 0 s" by (simp add: vm_inv_def kpages.alloc_none)
      with Nil show ?thesis using e(1) [OF None]
        by (simp add: walk_step_def pte_addr_entry Let_def)
    next
      case (Cons x ys)
      with inv have l: "kmem_list s (x # ys)" "kmem_ready s" by (simp_all add: vm_inv_def)
      then have "freelist s = x" "x \<noteq> 0" by (auto simp: kmem_list_def)
      with l have "walk_step p level va True s =
          Ret (Some x) (s\<lparr>freelist := load64 (phys s) x, phys := grow_mem (phys s) p ?i x\<rparr>)"
        using e(1) [OF None]
        by (simp add: walk_step_def pte_addr_entry Let_def kalloc_page grow_mem_def)
      moreover have "vm_ext s tab xs (s\<lparr>freelist := load64 (phys s) x, phys := grow_mem (phys s) p ?i x\<rparr>)
          (tab(ps @ [?i] \<mapsto> x)) ys"
        using vm_ext_grow [OF _ p PX_less None] inv Cons by simp
      ultimately show ?thesis by fastforce
    qed
  qed
qed

text \<open>A walk that allocates ends at the entry of the lowest table, or runs out of pages.\<close>

lemma walk_alloc_tree:
  assumes inv: "vm_inv s tab xs" and root: "tab [] = Some pt" and va: "va < MAXVA"
  shows "returns (walk pt va True s) (\<lambda>r t. \<exists>tab' xs'. vm_ext s tab xs t tab' xs' \<and>
     ((r = 0 \<and> xs' = []) \<or> (\<exists>q. tab' [px 2 va, px 1 va] = Some q \<and> r = entry q (px 0 va))))"
proof -
  let ?P = "\<lambda>r t. \<exists>tab' xs'. vm_ext s tab xs t tab' xs' \<and>
     ((r = 0 \<and> xs' = []) \<or> (\<exists>q. tab' [px 2 va, px 1 va] = Some q \<and> r = entry q (px 0 va)))"
  have second: "returns (kbind (walk_step q1 1 va True t) (\<lambda>r s.
      case r of None \<Rightarrow> Ret 0 s | Some q \<Rightarrow> walk_loop [] q va True s)) ?P"
    if t: "vm_ext s tab xs t tab1 xs1" "tab1 [px 2 va] = Some q1" for t tab1 xs1 q1
  proof -
    have inv1: "vm_inv t tab1 xs1" using t(1) by (simp add: vm_ext_def)
    show ?thesis unfolding returns_simps
      using walk_step_tree [OF inv1 t(2), of 1 va]
    proof (rule returns_mono)
      fix r u
      assume "(r = None \<and> xs1 = [] \<and> u = t) \<or>
        (\<exists>q tab' xs'. r = Some q \<and> vm_ext t tab1 xs1 u tab' xs' \<and> tab' ([px 2 va] @ [px 1 va]) = Some q)"
      then show "returns (case r of None \<Rightarrow> Ret 0 u | Some q \<Rightarrow> walk_loop [] q va True u) ?P"
        using t vm_ext_trans by (fastforce simp: pte_addr_entry)
    qed simp
  qed
  have "walk pt va True s = kbind (walk_step pt 2 va True s) (\<lambda>r s.
      case r of None \<Rightarrow> Ret 0 s | Some q1 \<Rightarrow> kbind (walk_step q1 1 va True s) (\<lambda>r s.
        case r of None \<Rightarrow> Ret 0 s | Some q \<Rightarrow> walk_loop [] q va True s))"
    using va by (simp add: walk_def not_le [symmetric] cong: option.case_cong)
  also have "returns \<dots> ?P"
    unfolding returns_simps using walk_step_tree [OF inv root, of 2 va]
  proof (rule returns_mono)
    fix r t
    assume r: "(r = None \<and> xs = [] \<and> t = s) \<or>
      (\<exists>q tab' xs'. r = Some q \<and> vm_ext s tab xs t tab' xs' \<and> tab' ([] @ [px 2 va]) = Some q)"
    show "returns (case r of None \<Rightarrow> Ret 0 t | Some q1 \<Rightarrow> kbind (walk_step q1 1 va True t) (\<lambda>r s.
        case r of None \<Rightarrow> Ret 0 s | Some q \<Rightarrow> walk_loop [] q va True s)) ?P"
    proof (cases r)
      case None
      with r vm_ext_refl [OF inv] show ?thesis by auto
    next
      case (Some q1)
      with r obtain tab1 xs1 where "vm_ext s tab xs t tab1 xs1" "tab1 [px 2 va] = Some q1" by auto
      with Some show ?thesis using second by simp
    qed
  qed simp
  finally show ?thesis .
qed

text \<open>A walk that does not allocate finds the same entry, or none.\<close>

lemma walk_lookup:
  assumes tree: "pt_tree (phys s) tab" and root: "tab [] = Some pt" and va: "va < MAXVA"
  shows "walk pt va False s = Ret (case tab [px 2 va, px 1 va] of None \<Rightarrow> 0 | Some q \<Rightarrow> entry q (px 0 va)) s"
proof -
  have step: "walk_step p level va False s = Ret (tab (ps @ [px level va])) s"
    if "tab ps = Some p" "length ps < 2" for ps p level
  proof (cases "tab (ps @ [px level va])")
    case None
    then show ?thesis
      using pt_tree_entry(1) [OF tree that PX_less] by (simp add: walk_step_def pte_addr_entry Let_def)
  next
    case (Some q)
    then have "aligned q" "q < PHYSTOP" using pt_treeD [OF tree] by blast+
    then show ?thesis
      using pt_tree_entry(2) [OF tree that PX_less Some] Some
      by (simp add: walk_step_def pte_addr_entry Let_def PTE2PA_table)
  qed
  show ?thesis
  proof (cases "tab [px 2 va]")
    case None
    then have "tab [px 2 va, px 1 va] = None"
      using pt_tree_closed [OF tree, of "[px 2 va]" "px 1 va"] by (cases "tab [px 2 va, px 1 va]") auto
    with None va show ?thesis using step [OF root] by (simp add: walk_def not_le [symmetric])
  next
    case (Some q)
    then show ?thesis using va step [OF root] step [OF Some]
      by (simp add: walk_def not_le [symmetric] pte_addr_entry split: option.split)
  qed
qed

lemma entry_nonzero: "aligned q \<Longrightarrow> q \<noteq> 0 \<Longrightarrow> k < 512 \<Longrightarrow> entry q k \<noteq> 0"
  using unat_entry [of q k] by (auto simp: unat_eq_0)

lemma walkaddr_view:
  assumes tree: "pt_tree (phys s) tab" and root: "tab [] = Some pt" and va: "va < MAXVA"
  shows "walkaddr pt va s = Ret (let e = pte_view (phys s) tab va in
     if e AND PTE_V = 0 \<or> e AND PTE_U = 0 then 0 else PTE2PA e) s"
proof (cases "tab [px 2 va, px 1 va]")
  case None
  then show ?thesis using va
    by (simp add: walkaddr_def not_le [symmetric] walk_lookup [OF assms] pte_view_def leaf_def Let_def)
next
  case (Some q)
  then have "entry q (px 0 va) \<noteq> 0" using pt_treeD [OF tree Some] PX_less by (simp add: entry_nonzero)
  with Some va show ?thesis
    by (simp add: walkaddr_def not_le [symmetric] walk_lookup [OF assms] pte_view_def leaf_def Let_def)
qed

section \<open>Page numbers\<close>

lemma px_div: "px level va = unat va div 2 ^ (12 + 9 * level) mod 512"
proof -
  have "PX level va = take_bit 9 (drop_bit (PXSHIFT level) va)"
    by (simp add: PX_def take_bit_eq_mask mask_eq_exp_minus_1)
  then have "px level va = take_bit 9 (drop_bit (PXSHIFT level) (unat va))"
    by (simp only: unsigned_take_bit_eq unat_drop_bit_eq)
  then show ?thesis by (simp add: take_bit_eq_mod drop_bit_eq_div PXSHIFT_def)
qed

lemma page_of_px:
  assumes "va < MAXVA"
  shows "page_of va = (px 2 va * 512 + px 1 va) * 512 + px 0 va"
proof -
  let ?n = "unat va div 4096"
  have n: "?n div 512 div 512 < 512"
    using assms by (simp add: word_less_nat_alt div_mult2_eq [symmetric] less_mult_imp_div_less)
  have "px 0 va = ?n mod 512" "px 1 va = ?n div 512 mod 512" "px 2 va = ?n div 512 div 512 mod 512"
    by (simp_all add: px_div div_mult2_eq [symmetric])
  with n show ?thesis by (simp add: page_of_def)
qed

lemma same_px_iff:
  assumes "a < MAXVA" "b < MAXVA"
  shows "px 2 a = px 2 b \<and> px 1 a = px 1 b \<and> px 0 a = px 0 b \<longleftrightarrow> page_of a = page_of b"
  (is "?L \<longleftrightarrow> ?R")
proof
  show ?R if ?L using that by (simp add: page_of_px assms)
  show ?L if ?R
  proof -
    have "unat a div 2 ^ (12 + 9 * l) = page_of a div 2 ^ (9 * l)"
      "unat b div 2 ^ (12 + 9 * l) = page_of b div 2 ^ (9 * l)" for l
      by (simp_all add: page_of_def power_add div_mult2_eq [symmetric])
    with that show ?L by (simp only: px_div)
  qed
qed

section \<open>Mapping\<close>

text \<open>Writing an entry of a lowest table changes that mapping only.\<close>

lemma set_leaf:
  assumes inv: "vm_inv s tab xs" and q: "tab [i, j] = Some q" and k: "k < 512"
    and t_def: "t = s\<lparr>phys := store64 (phys s) (entry q k) v\<rparr>"
  shows "vm_inv t tab xs"
    and "c < 512 \<Longrightarrow> leaf (phys t) tab a b c = (if a = i \<and> b = j \<and> c = k then v else leaf (phys s) tab a b c)"
proof -
  have tree: "pt_tree (phys s) tab" using inv by (simp add: vm_inv_def)
  have al: "aligned q" using pt_treeD [OF tree q] by simp
  have ne: "p \<noteq> q" if "tab ps = Some p" "length ps < 2" for ps p
    using pt_tree_inj [OF tree q, of ps] that by auto
  have ld: "load64 (phys t) (entry p l) = load64 (phys s) (entry p l)"
    if "tab ps = Some p" "length ps < 2" "l < 512" for ps p l
    using ne [OF that(1,2)] pt_treeD [OF tree that(1)] al k that by (simp add: t_def load_store_entry)
  have "pt_tree (phys t) tab"
    using tree by (simp add: pt_tree_def ld cong: option.case_cong)
  moreover have "kmem_list t xs"
  proof -
    have "\<forall>x \<in> set xs. aligned x \<and> x \<noteq> q"
      using inv q by (auto simp: vm_inv_def kmem_list_def kpage_def ran_def)
    then show ?thesis
      using inv al k by (auto simp: vm_inv_def kmem_list_def t_def intro: flist_store_other)
  qed
  ultimately show "vm_inv t tab xs" using inv by (simp add: vm_inv_def t_def)
  show "leaf (phys t) tab a b c = (if a = i \<and> b = j \<and> c = k then v else leaf (phys s) tab a b c)" if c: "c < 512"
  proof (cases "tab [a, b]")
    case None
    with q show ?thesis by (auto simp: leaf_def)
  next
    case (Some p)
    have "p = q \<longleftrightarrow> a = i \<and> b = j" using pt_tree_inj [OF tree Some, of "[i, j]"] q Some by auto
    moreover have "aligned p" using pt_treeD [OF tree Some] by simp
    ultimately show ?thesis using Some al k c by (auto simp: leaf_def t_def load_store_entry)
  qed
qed

lemma set_leaf_view:
  assumes inv: "vm_inv s tab xs" and q: "tab [px 2 va, px 1 va] = Some q" and va: "va < MAXVA" "va' < MAXVA"
  shows "pte_view (store64 (phys s) (entry q (px 0 va)) v) tab va' =
     (if page_of va' = page_of va then v else pte_view (phys s) tab va')"
  using set_leaf(2) [OF inv q PX_less refl PX_less, where v = v and a = "px 2 va'" and b = "px 1 va'"] same_px_iff [OF va(2,1)]
  by (simp add: pte_view_def)

lemma vm_ext_view: "vm_ext s tab xs t tab' xs' \<Longrightarrow> pte_view (phys t) tab' va = pte_view (phys s) tab va"
  by (simp add: vm_ext_def pte_view_def PX_less)

lemma aligned_page_add:
  assumes "aligned a" "unat a + 4096 * n < 2 ^ 38"
  shows "unat (a + of_nat n * PGSIZE) = unat a + 4096 * n" "aligned (a + of_nat n * PGSIZE)"
    "page_of (a + of_nat n * PGSIZE) = page_of a + n" "a + of_nat n * PGSIZE < MAXVA"
proof -
  have "unat (of_nat n * PGSIZE :: uint64) = n * 4096"
    using assms(2) by (simp add: unat_word_ariths unat_of_nat)
  then show u: "unat (a + of_nat n * PGSIZE) = unat a + 4096 * n"
    using assms(2) by (simp add: unat_word_ariths)
  with assms show "aligned (a + of_nat n * PGSIZE)" "page_of (a + of_nat n * PGSIZE) = page_of a + n"
    "a + of_nat n * PGSIZE < MAXVA"
    by (simp_all add: aligned_def page_of_def word_less_nat_alt)
qed

text \<open>
  The loop of \<^verbatim>\<open>mappages\<close> over \<open>n + 1\<close> pages whose entries are empty: it maps all of
  them or runs out of table pages, and no mapping outside the range changes.
\<close>

definition maps_to :: "physmem \<Rightarrow> ptab \<Rightarrow> uint64 \<Rightarrow> nat \<Rightarrow> uint64 \<Rightarrow> uint64 \<Rightarrow> bool" where
  "maps_to m tab a n pa perm = (\<forall>k \<le> n. pte_view m tab (a + of_nat k * PGSIZE) =
     PA2PTE (pa + of_nat k * PGSIZE) OR perm OR PTE_V)"

definition same_outside :: "physmem \<Rightarrow> ptab \<Rightarrow> physmem \<Rightarrow> ptab \<Rightarrow> uint64 \<Rightarrow> nat \<Rightarrow> bool" where
  "same_outside m tab m' tab' a n = (\<forall>va < MAXVA. page_of va < page_of a \<or> page_of a + n < page_of va \<longrightarrow>
     pte_view m' tab' va = pte_view m tab va)"

lemma map_one:
  assumes inv: "vm_inv s tab xs" and root: "tab [] = Some pt" and a: "a < MAXVA"
    and free: "pte_view (phys s) tab a AND PTE_V = 0"
  shows "returns (walk pt a True s) (\<lambda>r t. \<exists>tab' xs'. tab' [] = Some pt \<and>
     ((r = 0 \<and> xs' = [] \<and> vm_inv t tab' xs' \<and> (\<forall>va. pte_view (phys t) tab' va = pte_view (phys s) tab va)) \<or>
      (r \<noteq> 0 \<and> load64 (phys t) r AND PTE_V = 0 \<and>
       vm_inv (t\<lparr>phys := store64 (phys t) r v\<rparr>) tab' xs' \<and>
       (\<forall>va < MAXVA. pte_view (store64 (phys t) r v) tab' va =
          (if page_of va = page_of a then v else pte_view (phys s) tab va)))))"
proof (rule returns_mono [OF walk_alloc_tree [OF inv root a]], elim exE conjE)
  fix r t tab' xs'
  assume ext: "vm_ext s tab xs t tab' xs'"
    and r: "(r = 0 \<and> xs' = []) \<or> (\<exists>q. tab' [px 2 a, px 1 a] = Some q \<and> r = entry q (px 0 a))"
  have inv': "vm_inv t tab' xs'" and "tab \<subseteq>\<^sub>m tab'" using ext by (simp_all add: vm_ext_def)
  then have root': "tab' [] = Some pt" using root by (metis domI map_le_def)
  note view = vm_ext_view [OF ext]
  show "\<exists>tab' xs'. tab' [] = Some pt \<and>
     ((r = 0 \<and> xs' = [] \<and> vm_inv t tab' xs' \<and> (\<forall>va. pte_view (phys t) tab' va = pte_view (phys s) tab va)) \<or>
      (r \<noteq> 0 \<and> load64 (phys t) r AND PTE_V = 0 \<and>
       vm_inv (t\<lparr>phys := store64 (phys t) r v\<rparr>) tab' xs' \<and>
       (\<forall>va < MAXVA. pte_view (store64 (phys t) r v) tab' va =
          (if page_of va = page_of a then v else pte_view (phys s) tab va))))"
  proof (cases "r = 0 \<and> xs' = []")
    case True
    with inv' root' view show ?thesis by blast
  next
    case False
    with r obtain q where q: "tab' [px 2 a, px 1 a] = Some q" "r = entry q (px 0 a)" by blast
    have tree: "pt_tree (phys t) tab'" using inv' by (simp add: vm_inv_def)
    have "r \<noteq> 0" using pt_treeD [OF tree q(1)] PX_less q(2) by (simp add: entry_nonzero)
    moreover have "load64 (phys t) r AND PTE_V = 0"
      using free view [of a] q by (simp add: pte_view_def leaf_def)
    moreover have "vm_inv (t\<lparr>phys := store64 (phys t) r v\<rparr>) tab' xs'"
      using set_leaf(1) [OF inv' q(1) PX_less refl] q(2) by simp
    moreover have "\<forall>va < MAXVA. pte_view (store64 (phys t) r v) tab' va =
        (if page_of va = page_of a then v else pte_view (phys s) tab va)"
      using set_leaf_view [OF inv' q(1) a] q(2) view by simp
    ultimately show ?thesis using root' by blast
  qed
qed

lemma mappages_loop_tree:
  fixes s :: "'z kmem_scheme"
  assumes "vm_inv s tab xs" "tab [] = Some pt" "aligned a" "unat a + 4096 * n < 2 ^ 38"
    "\<forall>k \<le> n. pte_view (phys s) tab (a + of_nat k * PGSIZE) AND PTE_V = 0"
  shows "returns (mappages_loop pt a (a + of_nat n * PGSIZE) pa perm s) (\<lambda>r t. \<exists>tab' xs'.
     vm_inv t tab' xs' \<and> tab' [] = Some pt \<and> same_outside (phys s) tab (phys t) tab' a n \<and>
     ((r = 0 \<and> maps_to (phys t) tab' a n pa perm) \<or> (r = - 1 \<and> xs' = [])))"
  using assms
proof (induction n arbitrary: a pa s tab xs)
  case 0
  have a: "a < MAXVA" "pte_view (phys s) tab a AND PTE_V = 0" using 0 by (simp_all add: word_less_nat_alt)
  show ?case
    by (subst mappages_loop.simps, subst returns_simps,
        rule returns_mono [OF map_one [OF 0(1,2) a, of "PA2PTE pa OR perm OR PTE_V"]])
      (use a in \<open>auto simp: Let_def same_outside_def maps_to_def\<close>)
next
  case (Suc n)
  let ?v = "PA2PTE pa OR perm OR PTE_V" and ?last = "a + of_nat (Suc n) * PGSIZE"
  have a: "a < MAXVA" "pte_view (phys s) tab a AND PTE_V = 0"
    using Suc.prems(4) spec [OF Suc.prems(5), of 0] by (simp_all add: word_less_nat_alt)
  have ne: "a \<noteq> ?last"
    using aligned_page_add(1) [OF Suc.prems(3,4)] by auto
  have al: "aligned (a + PGSIZE)" and ua: "unat (a + PGSIZE) = unat a + 4096" and pg: "page_of (a + PGSIZE) = page_of a + 1"
    using aligned_page_add [of a 1] Suc.prems(3,4) by auto
  have last: "?last = (a + PGSIZE) + of_nat n * PGSIZE" by (simp add: algebra_simps)
  show ?case
  proof (subst mappages_loop.simps, subst returns_simps,
      rule returns_mono [OF map_one [OF Suc.prems(1,2) a, of ?v]], elim exE conjE disjE)
    fix r :: uint64 and t :: "'z kmem_scheme" and tab' xs'
    assume "tab' [] = Some pt" "r = 0" "xs' = []" "vm_inv t tab' xs'"
      "\<forall>va. pte_view (phys t) tab' va = pte_view (phys s) tab va"
    then show "returns (if r = 0 then Ret (- 1) t else if load64 (phys t) r AND PTE_V \<noteq> 0 then Panic ''mappages: remap''
       else let s = t\<lparr>phys := store64 (phys t) r ?v\<rparr>
         in if a = ?last then Ret 0 s else mappages_loop pt (a + PGSIZE) ?last (pa + PGSIZE) perm s)
      (\<lambda>r t. \<exists>tab' xs'. vm_inv t tab' xs' \<and> tab' [] = Some pt \<and> same_outside (phys s) tab (phys t) tab' a (Suc n) \<and>
        ((r = 0 \<and> maps_to (phys t) tab' a (Suc n) pa perm) \<or> (r = - 1 \<and> xs' = [])))"
      by (auto simp: same_outside_def)
  next
    fix r :: uint64 and t :: "'z kmem_scheme" and tab' xs'
    assume t: "tab' [] = Some pt" "r \<noteq> 0" "load64 (phys t) r AND PTE_V = 0"
      "vm_inv (t\<lparr>phys := store64 (phys t) r ?v\<rparr>) tab' xs'"
      "\<forall>va < MAXVA. pte_view (store64 (phys t) r ?v) tab' va =
          (if page_of va = page_of a then ?v else pte_view (phys s) tab va)"
    let ?u = "t\<lparr>phys := store64 (phys t) r ?v\<rparr>"
    have later: "pte_view (phys ?u) tab' (a + PGSIZE + of_nat k * PGSIZE) =
        pte_view (phys s) tab (a + PGSIZE + of_nat k * PGSIZE)" if "k \<le> n" for k
      using t(5) aligned_page_add [of "a + PGSIZE" k] al ua pg Suc.prems(4) that by simp
    have "returns (mappages_loop pt (a + PGSIZE) ?last (pa + PGSIZE) perm ?u) (\<lambda>r t. \<exists>tab'' xs''.
        vm_inv t tab'' xs'' \<and> tab'' [] = Some pt \<and> same_outside (phys ?u) tab' (phys t) tab'' (a + PGSIZE) n \<and>
        ((r = 0 \<and> maps_to (phys t) tab'' (a + PGSIZE) n (pa + PGSIZE) perm) \<or> (r = - 1 \<and> xs'' = [])))"
      unfolding last
    proof (rule Suc.IH [OF t(4,1) al])
      show "unat (a + PGSIZE) + 4096 * n < 2 ^ 38" using ua Suc.prems(4) by simp
      show "\<forall>k \<le> n. pte_view (phys ?u) tab' (a + PGSIZE + of_nat k * PGSIZE) AND PTE_V = 0"
      proof (intro allI impI)
        fix k assume k: "k \<le> n"
        have eq: "a + PGSIZE + of_nat k * PGSIZE = a + of_nat (Suc k) * PGSIZE" by (simp add: algebra_simps)
        have "pte_view (phys s) tab (a + of_nat (Suc k) * PGSIZE) AND PTE_V = 0"
          using Suc.prems(5) k by blast
        then show "pte_view (phys ?u) tab' (a + PGSIZE + of_nat k * PGSIZE) AND PTE_V = 0"
          by (subst later [OF k]) (simp only: eq)
      qed
    qed
    then have "returns (mappages_loop pt (a + PGSIZE) ?last (pa + PGSIZE) perm ?u)
      (\<lambda>r t. \<exists>tab' xs'. vm_inv t tab' xs' \<and> tab' [] = Some pt \<and> same_outside (phys s) tab (phys t) tab' a (Suc n) \<and>
        ((r = 0 \<and> maps_to (phys t) tab' a (Suc n) pa perm) \<or> (r = - 1 \<and> xs' = [])))"
    proof (rule returns_mono, elim exE conjE)
      fix r' w tab'' xs''
      assume w: "vm_inv w tab'' xs''" "tab'' [] = Some pt"
        and out: "same_outside (phys ?u) tab' (phys w) tab'' (a + PGSIZE) n"
        and res: "(r' = 0 \<and> maps_to (phys w) tab'' (a + PGSIZE) n (pa + PGSIZE) perm) \<or> (r' = - 1 \<and> xs'' = [])"
      have "same_outside (phys s) tab (phys w) tab'' a (Suc n)"
        using out t(5) pg unfolding same_outside_def by auto
      moreover have "maps_to (phys w) tab'' a (Suc n) pa perm"
        if m: "maps_to (phys w) tab'' (a + PGSIZE) n (pa + PGSIZE) perm"
        unfolding maps_to_def
      proof (intro allI impI)
        fix k assume k: "k \<le> Suc n"
        show "pte_view (phys w) tab'' (a + of_nat k * PGSIZE) = PA2PTE (pa + of_nat k * PGSIZE) OR perm OR PTE_V"
        proof (cases k)
          case 0
          have "pte_view (phys w) tab'' a = pte_view (phys ?u) tab' a"
            using out a(1) pg unfolding same_outside_def by auto
          also have "\<dots> = ?v" using t(5) a(1) by simp
          finally show ?thesis using 0 by simp
        next
          case (Suc k')
          with m k show ?thesis by (auto simp: maps_to_def algebra_simps)
        qed
      qed
      ultimately show "\<exists>tab' xs'. vm_inv w tab' xs' \<and> tab' [] = Some pt \<and> same_outside (phys s) tab (phys w) tab' a (Suc n) \<and>
        ((r' = 0 \<and> maps_to (phys w) tab' a (Suc n) pa perm) \<or> (r' = - 1 \<and> xs' = []))"
        using w res by blast
    qed
    with t(2,3) ne show "returns (if r = 0 then Ret (- 1) t else if load64 (phys t) r AND PTE_V \<noteq> 0 then Panic ''mappages: remap''
       else let s = t\<lparr>phys := store64 (phys t) r ?v\<rparr>
         in if a = ?last then Ret 0 s else mappages_loop pt (a + PGSIZE) ?last (pa + PGSIZE) perm s)
      (\<lambda>r t. \<exists>tab' xs'. vm_inv t tab' xs' \<and> tab' [] = Some pt \<and> same_outside (phys s) tab (phys t) tab' a (Suc n) \<and>
        ((r = 0 \<and> maps_to (phys t) tab' a (Suc n) pa perm) \<or> (r = - 1 \<and> xs' = [])))"
      by (simp add: Let_def)
  qed
qed

lemma mappages_tree:
  assumes "vm_inv s tab xs" "tab [] = Some pt" "aligned va" "unat va + 4096 * n < 2 ^ 38"
    "\<forall>k \<le> n. pte_view (phys s) tab (va + of_nat k * PGSIZE) AND PTE_V = 0"
  shows "returns (mappages pt va (of_nat (Suc n) * PGSIZE) pa perm s) (\<lambda>r t. \<exists>tab' xs'.
     vm_inv t tab' xs' \<and> tab' [] = Some pt \<and> same_outside (phys s) tab (phys t) tab' va n \<and>
     ((r = 0 \<and> maps_to (phys t) tab' va n pa perm) \<or> (r = - 1 \<and> xs' = [])))"
proof -
  let ?sz = "of_nat (Suc n) * PGSIZE :: uint64"
  have u: "unat ?sz = 4096 * Suc n"
    using assms(4) by (simp only: unat_word_ariths unat_of_nat PGSIZE_unat) simp
  have "unat (va mod PGSIZE) = 0" using assms(3) by (simp add: unat_mod_distrib aligned_def)
  moreover have "unat (?sz mod PGSIZE) = 0" by (simp only: unat_mod_distrib u PGSIZE_unat) simp
  moreover have "?sz \<noteq> 0" using u by (metis mult_eq_0_iff nat.distinct(1) unat_0 zero_neq_numeral)
  moreover have "va + ?sz - PGSIZE = va + of_nat n * PGSIZE" by (simp add: algebra_simps)
  ultimately have "mappages pt va ?sz pa perm s = mappages_loop pt va (va + of_nat n * PGSIZE) pa perm s"
    by (simp only: mappages_def unat_eq_0) simp
  then show ?thesis using mappages_loop_tree [OF assms] by simp
qed

lemma mappages_remap:
  assumes inv: "vm_inv s tab xs" and root: "tab [] = Some pt" and va: "aligned va" "va < MAXVA"
    and old: "pte_view (phys s) tab va AND PTE_V \<noteq> 0"
  shows "mappages pt va PGSIZE pa perm s = Panic ''mappages: remap''"
proof -
  have tree: "pt_tree (phys s) tab" using inv by (simp add: vm_inv_def)
  obtain q where q: "tab [px 2 va, px 1 va] = Some q"
    using old by (cases "tab [px 2 va, px 1 va]") (auto simp: pte_view_def leaf_def)
  obtain r where r: "tab [px 2 va] = Some r" using pt_tree_closed [OF tree, of "[px 2 va]"] q by auto
  have step: "walk_step p level va True s = Ret (Some x) s"
    if "tab ps = Some p" "length ps < 2" "tab (ps @ [px level va]) = Some x" for ps p x level
    using pt_tree_entry(2) [OF tree that(1,2) PX_less that(3)] pt_treeD [OF tree that(3)]
    by (simp add: walk_step_def pte_addr_entry Let_def PTE2PA_table)
  have "walk pt va True s = Ret (entry q (px 0 va)) s"
    using step [OF root, of 2 r] step [OF r, of 1 q] r q va
    by (simp add: walk_def not_le [symmetric] pte_addr_entry)
  moreover have "entry q (px 0 va) \<noteq> 0" using pt_treeD [OF tree q] PX_less by (simp add: entry_nonzero)
  moreover have "load64 (phys s) (entry q (px 0 va)) AND PTE_V \<noteq> 0"
    using old q by (simp add: pte_view_def leaf_def)
  moreover have "va mod PGSIZE = 0"
    using va(1) by (simp add: aligned_def unat_eq_0 [symmetric] unat_mod_distrib)
  ultimately show ?thesis
    by (simp add: mappages_def) (subst mappages_loop.simps, simp add: PGSIZE_def)
qed

text \<open>A concrete machine: a root table with nothing in it and three free pages.\<close>

definition demo_root :: uint64 where "demo_root = 0x87000000"
definition demo_pages :: "uint64 list" where "demo_pages = [0x87001000, 0x87002000, 0x87003000]"
definition demo_tab :: ptab where "demo_tab = [[] \<mapsto> demo_root]"

definition demo_mem :: kmem where
  "demo_mem = \<lparr>hart = 0, sie = (\<lambda>_. False), cpus = (\<lambda>_. \<lparr>cproc = None, noff = 0, intena = False\<rparr>),
     locks = (\<lambda>_. \<lparr>locked = False, lname = [], lcpu = None\<rparr>),
     phys = store64 (store64 (\<lambda>_. 0) (entry 0x87001000 0) 0x87002000) (entry 0x87002000 0) 0x87003000,
     freelist = 0x87001000, kend = KERNBASE,
     syms = \<lparr>etext = 0, trampoline = 0, uservec = 0, userret = 0, kernelvec = 0, forkret_addr = 0, usertrap_addr = 0\<rparr>\<rparr>"

lemma entry_0: "entry p 0 = p"
  by (simp add: entry_def)

lemma demo_vm: "vm_inv demo_mem demo_tab demo_pages" "demo_tab [] = Some demo_root"
proof -
  have al: "aligned (0x87000000 :: uint64)" "aligned (0x87001000 :: uint64)" "aligned (0x87002000 :: uint64)"
    "aligned (0x87003000 :: uint64)"
    by (simp_all add: aligned_def)
  have ready: "kmem_ready demo_mem"
    by (simp add: kmem_ready_def demo_mem_def lock_free_def intr_ok_def mach_defs)
  note ld = load_store_entry load64_zero
  have "load64 (phys demo_mem) (entry 0x87001000 0) = 0x87002000" "load64 (phys demo_mem) (entry 0x87002000 0) = 0x87003000"
    "load64 (phys demo_mem) (entry 0x87003000 0) = 0"
    using al by (simp_all add: demo_mem_def ld del: load64_store64_same)
  then have list: "kmem_list demo_mem demo_pages"
    using al by (simp add: kmem_list_def demo_pages_def entry_0 kpage_def PHYSTOP_def KERNBASE_def)
      (simp add: demo_mem_def KERNBASE_def)
  have "pt_tree (phys demo_mem) demo_tab"
    using al by (auto simp: pt_tree_def demo_tab_def demo_root_def demo_mem_def ld PHYSTOP_def KERNBASE_def split: if_splits)
  with ready list al show "vm_inv demo_mem demo_tab demo_pages"
    by (auto simp: vm_inv_def demo_tab_def demo_root_def demo_pages_def kpage_def PHYSTOP_def KERNBASE_def demo_mem_def)
  show "demo_tab [] = Some demo_root" by (simp add: demo_tab_def)
qed

lemma demo_view: "pte_view (phys demo_mem) demo_tab va = 0"
  by (simp add: pte_view_def leaf_def demo_tab_def)

section \<open>Properties\<close>

text \<open>
  C9. \<^verbatim>\<open>mappages\<close> maps exactly the pages it is asked for: on a well-formed page table whose
  entries for the range are empty it returns 0 and every page of the range has the entry for its
  physical page and permissions, or it returns -1 with the free list empty; in both cases the
  table stays well-formed and no mapping outside the range changes.
\<close>

theorem mappages_correct:
  assumes "vm_inv s tab xs" "tab [] = Some pt" "aligned va" "unat va + 4096 * n < 2 ^ 38"
    "\<forall>k \<le> n. pte_view (phys s) tab (va + of_nat k * PGSIZE) AND PTE_V = 0"
  shows "returns (mappages pt va (of_nat (Suc n) * PGSIZE) pa perm s) (\<lambda>r t. \<exists>tab' xs'.
     vm_inv t tab' xs' \<and> tab' [] = Some pt \<and> same_outside (phys s) tab (phys t) tab' va n \<and>
     ((r = 0 \<and> maps_to (phys t) tab' va n pa perm) \<or> (r = - 1 \<and> xs' = [])))"
  by (rule mappages_tree [OF assms])

theorem mappages_correct_witness:
  "returns (mappages demo_root 0x1000 (of_nat (Suc 1) * PGSIZE) 0x87003000 PTE_R demo_mem) (\<lambda>r t. \<exists>tab' xs'.
     vm_inv t tab' xs' \<and> tab' [] = Some demo_root \<and>
     same_outside (phys demo_mem) demo_tab (phys t) tab' 0x1000 1 \<and>
     ((r = 0 \<and> maps_to (phys t) tab' 0x1000 1 0x87003000 PTE_R) \<or> (r = - 1 \<and> xs' = [])))"
  by (rule mappages_correct [OF demo_vm]) (simp_all add: demo_view aligned_def)

text \<open>
  C10. Looking up a mapped address: after \<^verbatim>\<open>mappages\<close> has mapped a range for user access,
  \<^verbatim>\<open>walkaddr\<close> translates each address of the range to its physical page.
\<close>

theorem mappages_walkaddr:
  assumes "vm_inv s tab xs" "tab [] = Some pt" "aligned va" "unat va + 4096 * n < 2 ^ 38"
    "\<forall>k \<le> n. pte_view (phys s) tab (va + of_nat k * PGSIZE) AND PTE_V = 0"
    "k \<le> n" "aligned (pa + of_nat k * PGSIZE)" "pa + of_nat k * PGSIZE < 2 ^ 56" "perm < 2 ^ 10" "perm AND PTE_U \<noteq> 0"
  shows "returns (mappages pt va (of_nat (Suc n) * PGSIZE) pa perm s) (\<lambda>r t.
     r = 0 \<longrightarrow> walkaddr pt (va + of_nat k * PGSIZE) t = Ret (pa + of_nat k * PGSIZE) t)"
proof (rule returns_mono [OF mappages_tree [OF assms(1-5)]], elim exE conjE, intro impI)
  fix r :: int and t tab' xs'
  let ?a = "va + of_nat k * PGSIZE" and ?p = "pa + of_nat k * PGSIZE"
  assume inv: "vm_inv t tab' xs'" and root: "tab' [] = Some pt" and r: "r = 0"
    and m: "(r = 0 \<and> maps_to (phys t) tab' va n pa perm) \<or> (r = - 1 \<and> xs' = [])"
  have e: "pte_view (phys t) tab' ?a = PA2PTE ?p OR (perm OR PTE_V)"
    using m r assms(6) by (auto simp: maps_to_def or.assoc)
  have lt: "perm OR PTE_V < 2 ^ 10"
  proof -
    have "uint (perm OR PTE_V) < 2 ^ 10"
      unfolding unsigned_or_eq by (rule OR_upper) (use assms(9) in \<open>simp_all add: word_less_def PTE_V_def\<close>)
    then show ?thesis by (simp add: word_less_def)
  qed
  note pa = PTE2PA_PA2PTE [OF assms(7,8) lt]
  have "(PA2PTE ?p OR (perm OR PTE_V)) AND PTE_U \<noteq> 0"
    using assms(10) by (metis and_zero_eq bit.conj_disj_distrib2 or_eq_0_iff)
  moreover have "(PA2PTE ?p OR (perm OR PTE_V)) AND PTE_V \<noteq> 0" by (simp add: or.assoc [symmetric])
  moreover have "?a < MAXVA" using aligned_page_add(4) [OF assms(3), of k] assms(4,6) by simp
  moreover have "pt_tree (phys t) tab'" using inv by (simp add: vm_inv_def)
  ultimately show "walkaddr pt ?a t = Ret ?p t"
    using walkaddr_view [of t tab' pt ?a] root pa by (simp add: e Let_def)
qed

theorem mappages_walkaddr_witness:
  "returns (mappages demo_root 0x1000 (of_nat (Suc 1) * PGSIZE) 0x87003000 (PTE_R OR PTE_U) demo_mem) (\<lambda>r t.
     r = 0 \<longrightarrow> walkaddr demo_root (0x1000 + of_nat 1 * PGSIZE) t = Ret (0x87003000 + of_nat 1 * PGSIZE) t)"
  by (rule mappages_walkaddr [OF demo_vm])
    (simp_all add: demo_view aligned_def PGSIZE_def PTE_R_def PTE_U_def)

end
