(* ===== verification/UserMem.thy ===== *)
theory UserMem
  imports VmTree
begin

text \<open>
  What the copies of \<^verbatim>\<open>kernel/vm.c\<close> between user memory and the kernel do: user memory is the
  function from virtual addresses to bytes that the page table makes of physical memory, and
  \<^verbatim>\<open>copyin\<close>, \<^verbatim>\<open>copyinstr\<close> and \<^verbatim>\<open>copyout\<close> read and update that function.
\<close>

section \<open>User memory\<close>

definition uaddr :: "uint64 \<Rightarrow> uint64 \<Rightarrow> 'z kmem_scheme \<Rightarrow> uint64" where
  "uaddr pt va s = (case walkaddr pt va s of Ret pa _ \<Rightarrow> pa | _ \<Rightarrow> 0)"

definition upa :: "uint64 \<Rightarrow> uint64 \<Rightarrow> 'z kmem_scheme \<Rightarrow> uint64" where
  "upa pt va s = uaddr pt (PGROUNDDOWN va) s + (va - PGROUNDDOWN va)"

definition ubyte :: "uint64 \<Rightarrow> uint64 \<Rightarrow> 'z kmem_scheme \<Rightarrow> uint8" where
  "ubyte pt va s = phys s (upa pt va s)"

definition umapped :: "uint64 \<Rightarrow> uint64 \<Rightarrow> nat \<Rightarrow> 'z kmem_scheme \<Rightarrow> bool" where
  "umapped pt va n s = (\<forall>i < n. uaddr pt (PGROUNDDOWN (va + of_nat i)) s \<noteq> 0)"

lemma walk_step_pure: "walk_step pt level va False s =
    Ret (let e = load64 (phys s) (pte_addr pt level va) in if e AND PTE_V \<noteq> 0 then Some (PTE2PA e) else None) s"
  by (simp add: walk_step_def Let_def)

lemma walk_loop_pure: "\<exists>r. walk_loop levels pt va False s = Ret r s"
  by (induction levels arbitrary: pt) (auto simp: walk_step_pure split: option.split)

lemma walk_pure:
  assumes "va < MAXVA"
  obtains r where "walk pt va False s = Ret r s"
  using assms walk_loop_pure [of "[2, 1]" pt va s] by (auto simp: walk_def not_le [symmetric])

lemma walkaddr_ret: "walkaddr pt va s = Ret (uaddr pt va s) s"
proof -
  have "\<exists>r. walkaddr pt va s = Ret r s"
  proof (cases "va < MAXVA")
    case True
    then obtain e where "walk pt va False s = Ret e s" by (rule walk_pure)
    then show ?thesis by (simp add: walkaddr_def)
  qed (simp add: walkaddr_def not_less)
  then show ?thesis by (auto simp: uaddr_def)
qed

lemma umapped_0: "umapped pt va n s \<Longrightarrow> 0 < n \<Longrightarrow> uaddr pt (PGROUNDDOWN va) s \<noteq> 0"
  unfolding umapped_def by (drule spec [of _ 0]) simp

text \<open>User memory depends on physical memory only.\<close>

lemma uaddr_cong: "phys s = phys t \<Longrightarrow> uaddr pt va s = uaddr pt va t"
proof -
  assume eq: "phys s = phys t"
  have loop: "walk_loop ls p va False s = Ret r s \<Longrightarrow> walk_loop ls p va False t = Ret r t" for ls p r
    by (induction ls arbitrary: p) (auto simp: walk_step_pure eq split: option.splits)
  show ?thesis
  proof (cases "va < MAXVA")
    case True
    then obtain r where r: "walk pt va False s = Ret r s" by (rule walk_pure)
    then have "walk pt va False t = Ret r t" using True loop by (auto simp: walk_def simp del: walk_loop.simps split: if_splits)
    with r show ?thesis by (simp add: uaddr_def walkaddr_def eq)
  qed (simp add: uaddr_def walkaddr_def not_less)
qed

lemma ubyte_cong: "phys s = phys t \<Longrightarrow> ubyte pt va s = ubyte pt va t"
  by (simp add: ubyte_def upa_def uaddr_cong [of s t])

lemma umapped_cong: "phys s = phys t \<Longrightarrow> umapped pt va n s = umapped pt va n t"
  by (simp add: umapped_def uaddr_cong [of s t])

section \<open>Addresses within a page\<close>

lemma PGROUNDDOWN_same:
  assumes "i < 4096 - unat a mod 4096"
  shows "PGROUNDDOWN (a + of_nat i) = PGROUNDDOWN a"
    and "a + of_nat i - PGROUNDDOWN (a + of_nat i) = (a - PGROUNDDOWN a) + of_nat i"
proof -
  have "unat a div 4096 * 4096 + unat a mod 4096 = unat a" by simp
  moreover have "unat a div 4096 * 4096 \<le> 18446744073709547520"
    using aligned_unat_le [OF aligned_PGROUNDDOWN, of a] by (simp add: unat_PGROUNDDOWN)
  ultimately have "unat a + i < 18446744073709551616" using assms by linarith
  then have u: "unat (a + of_nat i) = unat a + i" using assms by (simp add: unat_word_ariths unat_of_nat)
  have "(unat a + i) div 4096 = unat a div 4096"
  proof -
    have "unat a + i = unat a div 4096 * 4096 + (unat a mod 4096 + i)" by simp
    then have "(unat a + i) div 4096 = unat a div 4096 + (unat a mod 4096 + i) div 4096"
      by (metis add.commute div_mult_self1 zero_neq_numeral)
    with assms show ?thesis by simp
  qed
  then have "unat (PGROUNDDOWN (a + of_nat i)) = unat (PGROUNDDOWN a)"
    by (simp only: unat_PGROUNDDOWN u)
  then show eq: "PGROUNDDOWN (a + of_nat i) = PGROUNDDOWN a" by (simp only: word_unat_eq_iff)
  show "a + of_nat i - PGROUNDDOWN (a + of_nat i) = (a - PGROUNDDOWN a) + of_nat i"
    by (simp only: eq) (simp add: algebra_simps)
qed

lemma upa_same:
  assumes "i < 4096 - unat a mod 4096"
  shows "upa pt (a + of_nat i) s = uaddr pt (PGROUNDDOWN a) s + (a - PGROUNDDOWN a) + of_nat i"
  using PGROUNDDOWN_same [OF assms] by (simp add: upa_def)

text \<open>After a chunk that is not the last, the copy goes on at the next page.\<close>

lemma next_page:
  assumes "page_chunk a len < len"
  shows "PGROUNDDOWN a + PGSIZE = a + page_chunk a len"
proof -
  have "page_chunk a len = PGSIZE - (a - PGROUNDDOWN a)"
    using assms by (auto simp: page_chunk_def Let_def split: if_splits)
  then show ?thesis by simp
qed

lemma chunk_le: "unat (page_chunk a len) \<le> unat len" "unat (page_chunk a len) \<le> 4096 - unat a mod 4096"
  by (simp_all add: unat_page_chunk)

lemma chunk_rest: "unat (len - page_chunk a len) = unat len - unat (page_chunk a len)"
  using chunk_le(1) [of a len] by (simp add: unat_sub_if')

lemma umapped_drop: "umapped pt va n s \<Longrightarrow> umapped pt (va + of_nat m) (n - m) s"
  unfolding umapped_def by (metis (no_types) add.assoc add.commute less_diff_conv of_nat_add)

lemma umapped_rest:
  assumes "umapped pt va n s" "n \<le> unat len"
  shows "umapped pt (PGROUNDDOWN va + PGSIZE) (n - unat (page_chunk va len)) s"
proof (cases "page_chunk va len < len")
  case True
  then show ?thesis
    using umapped_drop [OF assms(1), of "unat (page_chunk va len)"] by (simp add: next_page)
next
  case False
  then have "page_chunk va len = len"
    using chunk_le(1) [of va len] by (simp add: word_less_nat_alt word_unat_eq_iff)
  with assms(2) show ?thesis by (simp add: umapped_def)
qed

section \<open>copyin\<close>

lemma copyin_mapped:
  "umapped pt va (unat len) s \<Longrightarrow>
   copyin pt dst off va len s =
     Ret (0, \<lambda>i. if off \<le> i \<and> i < off + unat len then ubyte pt (va + of_nat (i - off)) s else dst i) s"
proof (induction "unat len" arbitrary: len va dst off rule: less_induct)
  case less
  show ?case
  proof (cases "len = 0")
    case True
    then show ?thesis by (subst copyin.simps) (auto simp: fun_eq_iff)
  next
    case False
    then have pos: "0 < len" by (simp add: word_gt_0)
    define n where "n = page_chunk va len"
    define va' where "va' = PGROUNDDOWN va + PGSIZE"
    define pa where "pa = uaddr pt (PGROUNDDOWN va) s"
    define d where "d = load_bytes dst off (phys s) (pa + (va - PGROUNDDOWN va)) (unat n)"
    have pa: "pa \<noteq> 0" unfolding pa_def using umapped_0 [OF less.prems] pos by (simp add: word_less_nat_alt)
    have rest: "unat (len - n) = unat len - unat n" by (simp add: n_def chunk_rest)
    have le: "unat n \<le> unat len" by (simp add: n_def chunk_le)
    have "copyin pt dst off va len s = copyin pt d (off + unat n) va' (len - n) s"
      using pos pa by (subst copyin.simps) (simp add: walkaddr_ret Let_def n_def va'_def pa_def d_def)
    also have "\<dots> = Ret (0, \<lambda>i. if off + unat n \<le> i \<and> i < off + unat n + unat (len - n)
        then ubyte pt (va' + of_nat (i - (off + unat n))) s else d i) s"
      unfolding n_def va'_def
      by (rule less.hyps [OF page_chunk_less [OF pos]]) (simp add: chunk_rest umapped_rest [OF less.prems])
    also have "(\<lambda>i. if off + unat n \<le> i \<and> i < off + unat n + unat (len - n)
        then ubyte pt (va' + of_nat (i - (off + unat n))) s else d i) =
      (\<lambda>i. if off \<le> i \<and> i < off + unat len then ubyte pt (va + of_nat (i - off)) s else dst i)"
    proof
      fix i
      consider "i < off" | "off \<le> i" "i < off + unat n" | "off + unat n \<le> i" "i < off + unat len"
        | "off + unat len \<le> i" by linarith
      then show "(if off + unat n \<le> i \<and> i < off + unat n + unat (len - n)
          then ubyte pt (va' + of_nat (i - (off + unat n))) s else d i) =
        (if off \<le> i \<and> i < off + unat len then ubyte pt (va + of_nat (i - off)) s else dst i)"
      proof cases
        case 2
        then have "i - off < 4096 - unat va mod 4096" using chunk_le(2) [of va len] by (simp add: n_def)
        then have "upa pt (va + of_nat (i - off)) s = pa + (va - PGROUNDDOWN va) + of_nat (i - off)"
          by (simp only: upa_same pa_def)
        with 2 le show ?thesis by (simp add: d_def load_bytes_def ubyte_def)
      next
        case 3
        then have "n < len" by (simp add: word_less_nat_alt)
        then have "va' + of_nat (i - (off + unat n)) = va + (of_nat (unat n) + of_nat (i - (off + unat n)))"
          unfolding va'_def n_def by (simp add: next_page)
        also have "\<dots> = va + of_nat (unat n + (i - (off + unat n)))" by (simp only: of_nat_add)
        also have "unat n + (i - (off + unat n)) = i - off" using 3 by simp
        finally have "va' + of_nat (i - (off + unat n)) = va + of_nat (i - off)" .
        with 3 rest le show ?thesis by (simp del: of_nat_diff)
      qed (use rest le in \<open>simp_all add: d_def load_bytes_def\<close>)
    qed
    finally show ?thesis .
  qed
qed

section \<open>copyinstr\<close>

lemma copyinstr_page_null:
  "(\<forall>j < k. m (p + of_nat j) \<noteq> 0) \<Longrightarrow> m (p + of_nat k) = 0 \<Longrightarrow> k < n \<Longrightarrow>
   copyinstr_page dst off m p n =
     (\<lambda>i. if off \<le> i \<and> i \<le> off + k then m (p + of_nat (i - off)) else dst i, True)"
proof (induction n arbitrary: dst off p k)
  case (Suc n)
  show ?case
  proof (cases k)
    case 0
    with Suc.prems show ?thesis by (auto simp: fun_eq_iff)
  next
    case (Suc l)
    have p: "p + 1 + of_nat j = p + of_nat (Suc j)" for j by (simp add: algebra_simps)
    have "m p \<noteq> 0" using Suc.prems(1) Suc by auto
    moreover have "copyinstr_page (dst(off := m p)) (Suc off) m (p + 1) n =
      (\<lambda>i. if Suc off \<le> i \<and> i \<le> Suc off + l then m (p + 1 + of_nat (i - Suc off)) else (dst(off := m p)) i, True)"
      by (rule Suc.IH) (use Suc.prems Suc in \<open>auto simp only: p\<close>)
    ultimately show ?thesis using Suc by (auto simp: fun_eq_iff p Suc_diff_Suc)
  qed
qed simp

lemma copyinstr_page_none:
  "(\<forall>j < n. m (p + of_nat j) \<noteq> 0) \<Longrightarrow>
   copyinstr_page dst off m p n =
     (\<lambda>i. if off \<le> i \<and> i < off + n then m (p + of_nat (i - off)) else dst i, False)"
proof (induction n arbitrary: dst off p)
  case (Suc n)
  have p: "p + 1 + of_nat j = p + of_nat (Suc j)" for j by (simp add: algebra_simps)
  have "m p \<noteq> 0" using Suc.prems by auto
  moreover have "copyinstr_page (dst(off := m p)) (Suc off) m (p + 1) n =
    (\<lambda>i. if Suc off \<le> i \<and> i < Suc off + n then m (p + 1 + of_nat (i - Suc off)) else (dst(off := m p)) i, False)"
    by (rule Suc.IH) (use Suc.prems in \<open>auto simp only: p\<close>)
  ultimately show ?case by (auto simp: fun_eq_iff p Suc_diff_Suc)
qed (auto simp: fun_eq_iff)

lemma copyinstr_step:
  assumes "0 < mx" "uaddr pt (PGROUNDDOWN va) s \<noteq> 0"
  shows "copyinstr pt dst off va mx s =
    (case copyinstr_page dst off (phys s) (uaddr pt (PGROUNDDOWN va) s + (va - PGROUNDDOWN va)) (unat (page_chunk va mx)) of
       (dst, got_null) \<Rightarrow>
         if got_null then Ret (0, dst) s
         else copyinstr pt dst (off + unat (page_chunk va mx)) (PGROUNDDOWN va + PGSIZE) (mx - page_chunk va mx) s)"
  using assms by (subst copyinstr.simps) (simp add: walkaddr_ret Let_def)

lemma ubyte_same:
  assumes "i < 4096 - unat va mod 4096"
  shows "phys s (uaddr pt (PGROUNDDOWN va) s + (va - PGROUNDDOWN va) + of_nat i) = ubyte pt (va + of_nat i) s"
  by (simp add: ubyte_def upa_same [OF assms])

lemma ubyte_next:
  assumes "page_chunk va mx < mx"
  shows "ubyte pt (PGROUNDDOWN va + PGSIZE + of_nat i) s = ubyte pt (va + of_nat (unat (page_chunk va mx) + i)) s"
  by (simp add: next_page [OF assms] add.assoc)

text \<open>A string that ends within the limit is copied with its terminating zero.\<close>

lemma copyinstr_found:
  "\<lbrakk>\<forall>j < k. ubyte pt (va + of_nat j) s \<noteq> 0; ubyte pt (va + of_nat k) s = 0; k < unat mx;
    umapped pt va (Suc k) s\<rbrakk> \<Longrightarrow>
   copyinstr pt dst off va mx s =
     Ret (0, \<lambda>i. if off \<le> i \<and> i \<le> off + k then ubyte pt (va + of_nat (i - off)) s else dst i) s"
proof (induction "unat mx" arbitrary: mx va dst off k rule: less_induct)
  case less
  define n where "n = unat (page_chunk va mx)"
  define p where "p = uaddr pt (PGROUNDDOWN va) s + (va - PGROUNDDOWN va)"
  have pos: "0 < mx" using less.prems(3) by (simp add: word_less_nat_alt)
  have "uaddr pt (PGROUNDDOWN va) s \<noteq> 0" using umapped_0 [OF less.prems(4)] by simp
  note step = copyinstr_step [OF pos this, of dst off, folded n_def p_def]
  have in_page: "phys s (p + of_nat i) = ubyte pt (va + of_nat i) s" if "i < n" for i
    unfolding p_def using that chunk_le(2) [of va mx] by (intro ubyte_same) (simp add: n_def)
  show ?case
  proof (cases "k < n")
    case True
    have "copyinstr_page dst off (phys s) p n =
      (\<lambda>i. if off \<le> i \<and> i \<le> off + k then phys s (p + of_nat (i - off)) else dst i, True)"
      by (rule copyinstr_page_null) (use less.prems True in \<open>auto simp: in_page\<close>)
    moreover have "(\<lambda>i. if off \<le> i \<and> i \<le> off + k then phys s (p + of_nat (i - off)) else dst i) =
      (\<lambda>i. if off \<le> i \<and> i \<le> off + k then ubyte pt (va + of_nat (i - off)) s else dst i)"
      using True by (auto simp: fun_eq_iff in_page simp del: of_nat_diff)
    ultimately show ?thesis by (simp add: step)
  next
    case False
    define d where "d = (\<lambda>i. if off \<le> i \<and> i < off + n then phys s (p + of_nat (i - off)) else dst i)"
    have lt: "page_chunk va mx < mx" using False less.prems(3) by (simp add: n_def word_less_nat_alt)
    have "copyinstr_page dst off (phys s) p n = (d, False)" unfolding d_def
      by (rule copyinstr_page_none) (use less.prems False in \<open>auto simp: in_page\<close>)
    then have "copyinstr pt dst off va mx s =
      copyinstr pt d (off + n) (PGROUNDDOWN va + PGSIZE) (mx - page_chunk va mx) s" by (simp add: step)
    also have "\<dots> = Ret (0, \<lambda>i. if off + n \<le> i \<and> i \<le> off + n + (k - n)
        then ubyte pt (PGROUNDDOWN va + PGSIZE + of_nat (i - (off + n))) s else d i) s"
    proof (rule less.hyps)
      show "\<forall>j < k - n. ubyte pt (PGROUNDDOWN va + PGSIZE + of_nat j) s \<noteq> 0"
        using less.prems(1) by (simp only: ubyte_next [OF lt]) (simp add: n_def less_diff_conv add.commute del: of_nat_add)
      show "ubyte pt (PGROUNDDOWN va + PGSIZE + of_nat (k - n)) s = 0"
        using less.prems(2) False by (simp only: ubyte_next [OF lt]) (simp add: n_def del: of_nat_diff of_nat_add)
      show "umapped pt (PGROUNDDOWN va + PGSIZE) (Suc (k - n)) s"
        using umapped_rest [OF less.prems(4), of mx] less.prems(3) False by (simp add: n_def Suc_diff_le)
      show "unat (mx - page_chunk va mx) < unat mx" by (rule page_chunk_less [OF pos])
      show "k - n < unat (mx - page_chunk va mx)" using less.prems(3) False by (simp add: chunk_rest n_def)
    qed
    also have "(\<lambda>i. if off + n \<le> i \<and> i \<le> off + n + (k - n)
        then ubyte pt (PGROUNDDOWN va + PGSIZE + of_nat (i - (off + n))) s else d i) =
      (\<lambda>i. if off \<le> i \<and> i \<le> off + k then ubyte pt (va + of_nat (i - off)) s else dst i)"
    proof
      fix i
      have "n + (i - (off + n)) = i - off" if "off + n \<le> i" using that by simp
      with False show "(if off + n \<le> i \<and> i \<le> off + n + (k - n)
          then ubyte pt (PGROUNDDOWN va + PGSIZE + of_nat (i - (off + n))) s else d i) =
        (if off \<le> i \<and> i \<le> off + k then ubyte pt (va + of_nat (i - off)) s else dst i)"
        by (auto simp: d_def in_page ubyte_next [OF lt] n_def [symmetric] simp del: of_nat_diff of_nat_add)
    qed
    finally show ?thesis .
  qed
qed

text \<open>Without a zero within the limit the copy fails.\<close>

lemma copyinstr_unterminated:
  "\<lbrakk>\<forall>j < unat mx. ubyte pt (va + of_nat j) s \<noteq> 0; umapped pt va (unat mx) s\<rbrakk> \<Longrightarrow>
   \<exists>d. copyinstr pt dst off va mx s = Ret (- 1, d) s"
proof (induction "unat mx" arbitrary: mx va dst off rule: less_induct)
  case less
  show ?case
  proof (cases "mx = 0")
    case True
    then show ?thesis by (subst copyinstr.simps) simp
  next
    case False
    then have pos: "0 < mx" by (simp add: word_gt_0)
    define n where "n = unat (page_chunk va mx)"
    define p where "p = uaddr pt (PGROUNDDOWN va) s + (va - PGROUNDDOWN va)"
    have "uaddr pt (PGROUNDDOWN va) s \<noteq> 0"
      using umapped_0 [OF less.prems(2)] pos by (simp add: word_less_nat_alt)
    note step = copyinstr_step [OF pos this, of dst off, folded n_def p_def]
    have "phys s (p + of_nat i) = ubyte pt (va + of_nat i) s" if "i < n" for i
      unfolding p_def using that chunk_le(2) [of va mx] by (intro ubyte_same) (simp add: n_def)
    then have "\<forall>j < n. phys s (p + of_nat j) \<noteq> 0"
      using less.prems(1) chunk_le(1) [of va mx] by (auto simp: n_def)
    note page = copyinstr_page_none [OF this]
    have "\<forall>j < unat (mx - page_chunk va mx). ubyte pt (PGROUNDDOWN va + PGSIZE + of_nat j) s \<noteq> 0"
    proof (intro allI impI)
      fix j
      assume j: "j < unat (mx - page_chunk va mx)"
      then have "n < unat mx" "n + j < unat mx" by (simp_all add: chunk_rest n_def less_diff_conv2 add.commute)
      then show "ubyte pt (PGROUNDDOWN va + PGSIZE + of_nat j) s \<noteq> 0"
        using less.prems(1) ubyte_next [of va mx pt j s] by (simp add: n_def word_less_nat_alt del: of_nat_add)
    qed
    moreover have "umapped pt (PGROUNDDOWN va + PGSIZE) (unat (mx - page_chunk va mx)) s"
      using umapped_rest [OF less.prems(2), of mx] by (simp add: chunk_rest)
    ultimately show ?thesis
      using less.hyps [OF page_chunk_less [OF pos]] by (simp add: step page)
  qed
qed

section \<open>copyout\<close>

text \<open>The byte of physical memory behind a user address, by the entries of the tree of tables.\<close>

definition tpa :: "physmem \<Rightarrow> ptab \<Rightarrow> uint64 \<Rightarrow> uint64" where
  "tpa m tab va = PTE2PA (pte_view m tab va) + (va - PGROUNDDOWN va)"

definition uw :: "physmem \<Rightarrow> ptab \<Rightarrow> uint64 \<Rightarrow> bool" where
  "uw m tab va = (va < MAXVA \<and>
     (let e = pte_view m tab va in
        e AND PTE_V \<noteq> 0 \<and> e AND PTE_U \<noteq> 0 \<and> e AND PTE_W \<noteq> 0 \<and> PTE2PA e \<noteq> 0 \<and> PTE2PA e \<notin> ran tab))"

definition uwritable :: "physmem \<Rightarrow> ptab \<Rightarrow> uint64 \<Rightarrow> nat \<Rightarrow> bool" where
  "uwritable m tab va n = (\<forall>i < n. uw m tab (va + of_nat i))"

lemma uwritable_0: "uwritable m tab va n \<Longrightarrow> 0 < n \<Longrightarrow> uw m tab va"
  unfolding uwritable_def by (drule spec [of _ 0]) simp

definition tables_kept :: "ptab \<Rightarrow> physmem \<Rightarrow> physmem \<Rightarrow> bool" where
  "tables_kept tab m m' =
     (\<forall>ps p i. tab ps = Some p \<longrightarrow> i < 512 \<longrightarrow> load64 m' (entry p i) = load64 m (entry p i))"

lemma tables_kept_trans: "tables_kept tab m m' \<Longrightarrow> tables_kept tab m' m'' \<Longrightarrow> tables_kept tab m m''"
  unfolding tables_kept_def by metis

lemma pte_view_kept: "tables_kept tab m m' \<Longrightarrow> pte_view m' tab va = pte_view m tab va"
  by (simp add: pte_view_def leaf_def tables_kept_def PX_less split: option.split)

lemma tpa_kept: "tables_kept tab m m' \<Longrightarrow> tpa m' tab va = tpa m tab va"
  by (simp add: tpa_def pte_view_kept)

lemma pt_tree_kept:
  assumes "pt_tree m tab" "tables_kept tab m m'"
  shows "pt_tree m' tab"
  unfolding pt_tree_def
proof (intro conjI allI impI)
  fix ps p and i :: nat
  assume p: "tab ps = Some p" "length ps < 2" "i < 512"
  then have "load64 m' (entry p i) = load64 m (entry p i)" using assms(2) by (simp add: tables_kept_def)
  then show "case tab (ps @ [i]) of None \<Rightarrow> load64 m' (entry p i) AND PTE_V = 0
      | Some q \<Rightarrow> load64 m' (entry p i) = PA2PTE q OR PTE_V"
    using pt_tree_entry [OF assms(1) p] by (simp split: option.split)
qed (use assms(1) in \<open>auto intro: pt_tree_inj dest: pt_treeD pt_tree_closed\<close>)

lemma uwritable_kept: "tables_kept tab m m' \<Longrightarrow> uwritable m' tab va n = uwritable m tab va n"
  by (simp add: uwritable_def uw_def pte_view_kept)

lemma aligned_PTE2PA: "aligned (PTE2PA e)"
proof -
  have "PGROUNDDOWN (PTE2PA e) = PTE2PA e"
    by (rule bit_word_eqI) (auto simp: PGROUNDDOWN_shift PTE2PA_def bit_simps)
  then show ?thesis by (metis aligned_PGROUNDDOWN)
qed

lemma pte_view_page: "page_of va = page_of vb \<Longrightarrow> pte_view m tab va = pte_view m tab vb"
proof -
  assume eq: "page_of va = page_of vb"
  have "px level va = px level vb" for level
  proof -
    have "unat v div 2 ^ (12 + 9 * level) = page_of v div 2 ^ (9 * level)" for v :: uint64
      by (simp add: page_of_def power_add div_mult2_eq)
    then show ?thesis by (simp only: px_div eq)
  qed
  then show ?thesis by (simp add: pte_view_def)
qed

lemma page_of_PGROUNDDOWN: "page_of (PGROUNDDOWN a) = page_of a"
  by (simp add: page_of_def unat_PGROUNDDOWN)

lemma tpa_same:
  assumes "i < 4096 - unat a mod 4096"
  shows "tpa m tab (a + of_nat i) = tpa m tab a + of_nat i"
proof -
  have "page_of (a + of_nat i) = page_of a"
    using PGROUNDDOWN_same(1) [OF assms] by (metis page_of_PGROUNDDOWN)
  then have "pte_view m tab (a + of_nat i) = pte_view m tab a" by (rule pte_view_page)
  then show ?thesis using PGROUNDDOWN_same(2) [OF assms] by (simp add: tpa_def)
qed

text \<open>A store within one frame that is no table of the tree leaves the tables alone.\<close>

lemma store_frame_kept:
  assumes tree: "pt_tree m tab" and f: "aligned f" "f \<notin> ran tab" and len: "k + n \<le> 4096"
  shows "tables_kept tab m (store_bytes m (f + of_nat k) src off n)"
  unfolding tables_kept_def
proof (intro allI impI)
  fix ps p and i :: nat
  assume p: "tab ps = Some p" and i: "i < 512"
  have al: "aligned p" using pt_treeD [OF tree p] by simp
  have "p \<noteq> f" using f(2) p by (auto intro: ranI)
  show "load64 (store_bytes m (f + of_nat k) src off n) (entry p i) = load64 m (entry p i)"
  proof (rule load64_cong)
    fix x
    assume x: "x - entry p i < 8"
    have "page_of x = page_of p" using entry_in_page [OF al i x] in_page_iff [OF al] by simp
    moreover have "page_of p \<noteq> page_of f" using \<open>p \<noteq> f\<close> aligned_page_inj [OF al f(1)] by simp
    ultimately have far: "4096 \<le> unat (x - f)" using in_page_iff [OF f(1), of x] by simp
    have "\<not> unat (x - (f + of_nat k)) < n"
    proof
      assume b: "unat (x - (f + of_nat k)) < n"
      have "x - f = (x - (f + of_nat k)) + of_nat k" by simp
      then have "unat (x - f) = unat ((x - (f + of_nat k)) + of_nat k)" by (rule arg_cong)
      also have "\<dots> \<le> unat (x - (f + of_nat k)) + unat (of_nat k :: uint64)"
        by (simp only: unat_word_ariths) simp
      also have "unat (of_nat k :: uint64) \<le> k" by (simp add: unat_of_nat)
      finally show False using b len far by linarith
    qed
    then show "store_bytes m (f + of_nat k) src off n x = m x" by (simp add: store_bytes_def)
  qed
qed

lemma uwritable_drop: "uwritable m tab va n \<Longrightarrow> uwritable m tab (va + of_nat j) (n - j)"
  unfolding uwritable_def by (metis (no_types) add.assoc add.commute less_diff_conv of_nat_add)

text \<open>The result of a copy: the target bytes hold the source and nothing else has changed.\<close>

definition copied :: "ptab \<Rightarrow> uint64 \<Rightarrow> bytes \<Rightarrow> nat \<Rightarrow> nat \<Rightarrow> physmem \<Rightarrow> physmem \<Rightarrow> bool" where
  "copied tab va src off n m m' =
     ((\<forall>i < n. m' (tpa m tab (va + of_nat i)) = src (off + i)) \<and>
      (\<forall>x. (\<forall>i < n. x \<noteq> tpa m tab (va + of_nat i)) \<longrightarrow> m' x = m x))"

lemma copied_trans:
  assumes first: "m1 = store_bytes m (tpa m tab va) src off k" and rest: "copied tab (va + of_nat k) src (off + k) (n - k) m1 m'"
    and kept: "tables_kept tab m m1" and k: "k \<le> n" "k \<le> 4096 - unat va mod 4096"
    and inj: "inj_on (\<lambda>i. tpa m tab (va + of_nat i)) {..<n}"
  shows "copied tab va src off n m m'"
  unfolding copied_def
proof (intro conjI allI impI)
  have add: "va + of_nat k + of_nat j = va + of_nat (k + j)" for j by simp
  have r1: "m' (tpa m tab (va + of_nat (k + j))) = src (off + k + j)" if "j < n - k" for j
    using rest that unfolding copied_def by (simp only: tpa_kept [OF kept] add)
  have r2: "m' x = m1 x" if "\<forall>j < n - k. x \<noteq> tpa m tab (va + of_nat (k + j))" for x
    using rest that unfolding copied_def by (simp only: tpa_kept [OF kept] add)
  have one: "m1 x = (if unat (x - tpa m tab va) < k then src (off + unat (x - tpa m tab va)) else m x)" for x
    by (simp add: first store_bytes_def)
  {
    fix i
    assume i: "i < n"
    show "m' (tpa m tab (va + of_nat i)) = src (off + i)"
    proof (cases "i < k")
      case True
      have "\<forall>j < n - k. tpa m tab (va + of_nat i) \<noteq> tpa m tab (va + of_nat (k + j))"
        using inj_onD [OF inj, of i] True i by (fastforce simp: simp del: of_nat_add)
      then have "m' (tpa m tab (va + of_nat i)) = m1 (tpa m tab (va + of_nat i))" by (rule r2)
      moreover have "tpa m tab (va + of_nat i) = tpa m tab va + of_nat i" by (rule tpa_same) (use True k(2) in simp)
      moreover have "unat (of_nat i :: uint64) = i" using True k(2) by (intro unat_of_nat_lt) simp
      ultimately show ?thesis using True by (simp add: one)
    next
      case False
      then show ?thesis using r1 [of "i - k"] i by (simp del: of_nat_diff of_nat_add)
    qed
  next
    fix x
    assume x: "\<forall>i < n. x \<noteq> tpa m tab (va + of_nat i)"
    then have "m' x = m1 x" by (intro r2) (simp del: of_nat_add)
    moreover have "\<not> unat (x - tpa m tab va) < k"
    proof
      assume u: "unat (x - tpa m tab va) < k"
      have "x = tpa m tab va + of_nat (unat (x - tpa m tab va))" by simp
      also have "\<dots> = tpa m tab (va + of_nat (unat (x - tpa m tab va)))"
        by (rule tpa_same [symmetric]) (use u k(2) in simp)
      finally show False using x u k(1) by (meson order.strict_trans2)
    qed
    ultimately show "m' x = m x" by (simp add: one)
  }
qed

text \<open>One turn of \<^verbatim>\<open>copyout\<close> on a writable page.\<close>

lemma copyout_step:
  assumes tree: "pt_tree (phys s) tab" "tab [] = Some pt" and w: "uwritable (phys s) tab va (unat len)" and pos: "0 < len"
  shows "copyout pt va src off len s =
    copyout pt (PGROUNDDOWN va + PGSIZE) src (off + unat (page_chunk va len)) (len - page_chunk va len)
      (s\<lparr>phys := store_bytes (phys s) (tpa (phys s) tab va) src off (unat (page_chunk va len))\<rparr>)"
proof -
  let ?e = "pte_view (phys s) tab va" and ?va0 = "PGROUNDDOWN va"
  have "0 < unat len" using pos by (simp add: word_less_nat_alt)
  then have e: "va < MAXVA" "?e AND PTE_V \<noteq> 0" "?e AND PTE_U \<noteq> 0" "?e AND PTE_W \<noteq> 0" "PTE2PA ?e \<noteq> 0"
    using uwritable_0 [OF w] by (simp_all add: uw_def Let_def)
  have "unat ?va0 \<le> unat va" by (simp add: unat_PGROUNDDOWN div_times_less_eq_dividend)
  with e(1) have va0: "?va0 < MAXVA" by (simp add: word_less_nat_alt)
  have view: "pte_view (phys s) tab ?va0 = ?e" by (rule pte_view_page) (simp add: page_of_PGROUNDDOWN)
  have wa: "walkaddr pt ?va0 s = Ret (PTE2PA ?e) s"
    using e by (simp add: walkaddr_view [OF tree va0] view Let_def)
  have "\<exists>q. tab [px 2 ?va0, px 1 ?va0] = Some q"
  proof (rule ccontr)
    assume "\<not> ?thesis"
    then have "?e = 0" using view by (simp add: pte_view_def leaf_def)
    with e show False by simp
  qed
  then obtain q where q: "tab [px 2 ?va0, px 1 ?va0] = Some q" ..
  have wk: "walk pt ?va0 False s = Ret (entry q (px 0 ?va0)) s" by (simp add: walk_lookup [OF tree va0] q del: One_nat_def)
  have ld: "load64 (phys s) (entry q (px 0 ?va0)) = ?e" using view q by (simp add: pte_view_def leaf_def del: One_nat_def)
  have nz: "entry q (px 0 ?va0) \<noteq> 0"
    using pt_treeD [OF tree(1) q] PX_less by (simp add: entry_nonzero)
  show ?thesis
    using pos va0 e by (subst copyout.simps) (simp add: Let_def wa wk ld nz not_le [symmetric] tpa_def)
qed

lemma copyout_writable:
  "\<lbrakk>pt_tree (phys s) tab; tab [] = Some pt; uwritable (phys s) tab va (unat len);
    inj_on (\<lambda>i. tpa (phys s) tab (va + of_nat i)) {..<unat len}\<rbrakk> \<Longrightarrow>
   \<exists>m'. copyout pt va src off len s = Ret 0 (s\<lparr>phys := m'\<rparr>) \<and>
        tables_kept tab (phys s) m' \<and> copied tab va src off (unat len) (phys s) m'"
proof (induction "unat len" arbitrary: len va off s rule: less_induct)
  case less
  show ?case
  proof (cases "len = 0")
    case True
    then show ?thesis
      by (subst copyout.simps) (auto intro!: exI [of _ "phys s"] simp: tables_kept_def copied_def)
  next
    case False
    then have pos: "0 < len" by (simp add: word_gt_0)
    define n where "n = unat (page_chunk va len)"
    define m where "m = phys s"
    define m1 where "m1 = store_bytes m (tpa m tab va) src off n"
    define s1 where "s1 = s\<lparr>phys := m1\<rparr>"
    have n: "n \<le> unat len" "n \<le> 4096 - unat va mod 4096" using chunk_le [of va len] by (simp_all add: n_def)
    have kept: "tables_kept tab m m1"
    proof -
      have "PTE2PA (pte_view m tab va) \<notin> ran tab"
        using uwritable_0 [OF less.prems(3)] pos by (simp add: m_def uw_def Let_def word_less_nat_alt)
      moreover have "va - PGROUNDDOWN va = of_nat (unat va mod 4096)" by (simp flip: unat_page_offset)
      ultimately show ?thesis unfolding m1_def tpa_def
        using store_frame_kept [OF less.prems(1) [folded m_def] aligned_PTE2PA, of "pte_view m tab va" "unat va mod 4096" n] n(2) by simp
    qed
    have step: "copyout pt va src off len s = copyout pt (PGROUNDDOWN va + PGSIZE) src (off + n) (len - page_chunk va len) s1"
      unfolding s1_def m1_def m_def n_def by (rule copyout_step [OF less.prems(1,2,3) pos])
    have addr: "PGROUNDDOWN va + PGSIZE = va + of_nat n" if "n < unat len"
      using that next_page [of va len] by (simp add: n_def word_less_nat_alt)
    have rest: "unat (len - page_chunk va len) = unat len - n" by (simp add: chunk_rest n_def)
    show ?thesis
    proof (cases "n < unat len")
      case True
      have "\<exists>m'. copyout pt (va + of_nat n) src (off + n) (len - page_chunk va len) s1 = Ret 0 (s1\<lparr>phys := m'\<rparr>) \<and>
        tables_kept tab (phys s1) m' \<and> copied tab (va + of_nat n) src (off + n) (unat (len - page_chunk va len)) (phys s1) m'"
      proof (rule less.hyps)
        show "unat (len - page_chunk va len) < unat len" by (rule page_chunk_less [OF pos])
        show "pt_tree (phys s1) tab" using pt_tree_kept [OF less.prems(1)] kept by (simp add: s1_def m_def)
        show "tab [] = Some pt" by (rule less.prems(2))
        show "uwritable (phys s1) tab (va + of_nat n) (unat (len - page_chunk va len))"
          using uwritable_drop [OF less.prems(3), of n] by (simp add: s1_def uwritable_kept [OF kept] m_def rest)
        show "inj_on (\<lambda>i. tpa (phys s1) tab (va + of_nat n + of_nat i)) {..<unat (len - page_chunk va len)}"
        proof (rule inj_onI)
          fix x y
          assume xy: "x \<in> {..<unat (len - page_chunk va len)}" "y \<in> {..<unat (len - page_chunk va len)}"
            "tpa (phys s1) tab (va + of_nat n + of_nat x) = tpa (phys s1) tab (va + of_nat n + of_nat y)"
          then have "tpa m tab (va + of_nat (n + x)) = tpa m tab (va + of_nat (n + y))"
            by (simp add: s1_def tpa_kept [OF kept] add.assoc)
          then have "n + x = n + y"
            by (rule inj_onD [OF less.prems(4) [folded m_def]]) (use xy rest in auto)
          then show "x = y" by simp
        qed
      qed
      then obtain m' where m': "copyout pt (va + of_nat n) src (off + n) (len - page_chunk va len) s1 = Ret 0 (s1\<lparr>phys := m'\<rparr>)"
        "tables_kept tab m1 m'" "copied tab (va + of_nat n) src (off + n) (unat len - n) m1 m'"
        by (auto simp: s1_def rest)
      have "copied tab va src off (unat len) m m'"
        by (rule copied_trans [OF m1_def m'(3) kept n]) (use less.prems(4) in \<open>simp add: m_def\<close>)
      with m' kept step addr [OF True] show ?thesis
        by (auto simp: s1_def m_def intro: tables_kept_trans)
    next
      case False
      with n have nl: "n = unat len" by simp
      then have "len - page_chunk va len = 0" using rest by (simp add: unat_eq_0 [symmetric])
      then have "copyout pt va src off len s = Ret 0 s1" by (simp only: step) (subst copyout.simps, simp)
      moreover have "copied tab va src off (unat len) m m1"
        by (rule copied_trans [OF m1_def _ kept n]) (use less.prems(4) nl in \<open>simp_all add: m_def copied_def\<close>)
      ultimately show ?thesis using kept by (auto simp: s1_def m_def)
    qed
  qed
qed

end
