(* ===== verification/Example.thy ===== *)
theory Example
  imports Csr UserMem
begin

text \<open>
  A concrete machine, on which the theorems of the later theories are applied: hart 0 runs process
  0, no lock is held, nobody sleeps, and the process has one page of memory at address zero.
\<close>

definition ex_root :: uint64 where "ex_root = 0x87000000"
definition ex_tab :: ptab where
  "ex_tab = [[] \<mapsto> ex_root, [0] \<mapsto> 0x87001000, [0, 0] \<mapsto> 0x87002000]"
definition ex_frame :: uint64 where "ex_frame = 0x87003000"
definition ex_pte :: uint64 where "ex_pte = PA2PTE ex_frame OR (PTE_V OR PTE_R OR PTE_W OR PTE_U)"

definition ex_phys :: physmem where
  "ex_phys = store64 (store64 (store64 (\<lambda>_. 0) (entry ex_root 0) (PA2PTE 0x87001000 OR PTE_V))
     (entry 0x87001000 0) (PA2PTE 0x87002000 OR PTE_V)) (entry 0x87002000 0) ex_pte"

definition ex_proc :: "nat \<Rightarrow> proc" where
  "ex_proc p = \<lparr>pstate = (if p = 0 then RUNNING else UNUSED), pchan = NoChan, killed_flag = 0,
     xstate = 0, pid = (if p = 0 then 1 else 0), parent = None, kstack = KSTACK p, sz = (if p = 0 then 4096 else 0),
     pagetable = (if p = 0 then ex_root else 0), trapframe = (if p = 0 then 0x87004000 else 0),
     pcontext = \<lparr>ctx_ra = 0, ctx_sp = 0, ctx_s = (\<lambda>_. 0)\<rparr>,
     ofile = (\<lambda>_. None), cwd = (if p = 0 then Some 0 else None), pname = (\<lambda>_. 0), sched_intena = False\<rparr>"

definition ex_buf :: "nat \<Rightarrow> buf" where
  "ex_buf i = \<lparr>bvalid = False, bdev = 0, blockno = 0, refcnt = 0,
     bprev = (if i = NBUF then 0 else Suc i), bnext = (if i = 0 then NBUF else i - 1), bdata = (\<lambda>_. 0)\<rparr>"

definition ex :: trapst where
  "ex = \<lparr>hart = 0, sie = (\<lambda>_. False), cpus = (\<lambda>_. \<lparr>cproc = Some 0, noff = 0, intena = False\<rparr>),
     locks = (\<lambda>_. \<lparr>locked = False, lname = [], lcpu = None\<rparr>),
     phys = ex_phys, freelist = 0, kend = 0x80021000,
     syms = \<lparr>etext = 0x80008000, trampoline = 0x80007000, uservec = 0x80007000, userret = 0x80007090,
       kernelvec = 0x80005000, forkret_addr = 0x80001000, usertrap_addr = 0x80002000\<rparr>,
     proc = ex_proc, nextpid = 2, initproc = Some 1, ticks = 7, kernel_pagetable = 0x87005000, satp = (\<lambda>_. 0),
     sem_table = (\<lambda>_. \<lparr>sem_count = 0, sem_active = 0, sem_name = (\<lambda>_. 0)\<rparr>),
     sem_event_log = (\<lambda>_. zero_event), sem_event_index = 0,
     sleeplk = (\<lambda>_. \<lparr>sl_locked = False, sl_name = [], sl_pid = 0\<rparr>),
     bufs = ex_buf, disk = (\<lambda>_ _. 0), dtrace = [],
     lg_start = 2, lg_outstanding = 0, lg_committing = False, lg_dev = ROOTDEV, lg_ncommit = 0,
     lh_n = 0, lh_block = (\<lambda>_. 0),
     sb = \<lparr>sb_magic = FSMAGIC, sb_size = 2000, sb_nblocks = 1953, sb_ninodes = 200, sb_nlog = 31, sb_logstart = 2,
       sb_inodestart = 33, sb_bmapstart = 46\<rparr>,
     itab = (\<lambda>_. \<lparr>i_dev = 0, i_inum = 0, i_ref = 0, i_valid = False, i_type = 0, i_major = 0, i_minor = 0,
       i_nlink = 0, i_size = 0, i_addrs = (\<lambda>_. 0)\<rparr>),
     uart_rx = [], uart_out = [], uart_idle = True, uart_ctl = [], tx_busy = False, panicking = False, panicked = False,
     cons_buf = (\<lambda>_. 0), cons_r = 0, cons_w = 0, cons_e = 0, devsw = (\<lambda>_. None),
     ftable = (\<lambda>_. \<lparr>f_type = FD_NONE, f_ref = 0, f_readable = False, f_writable = False, f_pipe = 0, f_ip = 0,
       f_off = 0, f_major = 0\<rparr>),
     pipes = (\<lambda>_. \<lparr>pi_data = (\<lambda>_. 0), nread = 0, nwrite = 0, readopen = True, writeopen = True\<rparr>),
     vd_desc_page = 0, vd_avail_page = 0, vd_used_page = 0, vd_desc = (\<lambda>_. desc_null), avail_idx = 0,
     avail_ring = (\<lambda>_. 0), used_ring_idx = 0, used_ring = (\<lambda>_. 0), vd_free = (\<lambda>i. i < VD_NUM), used_idx = 0,
     info_b = (\<lambda>_. None), info_status = (\<lambda>_. 0), vd_ops = (\<lambda>_. \<lparr>rq_type = 0, rq_reserved = 0, rq_sector = 0\<rparr>),
     b_disk = (\<lambda>_. False), vd_reg = (\<lambda>_. 0), vd_accept = (\<lambda>_ v. v),
     csr = (\<lambda>_. \<lparr>c_mhartid = 0, c_mstatus = 0, c_mepc = 0, c_sstatus = 0, c_sip = 0, c_sie = 0, c_mie = 0, c_sepc = 0x1000,
       c_medeleg = 0, c_mideleg = 0, c_stvec = 0, c_stimecmp = 0, c_menvcfg = 0, c_pmpcfg0 = 0, c_pmpaddr0 = 0,
       c_scause = 0, c_stval = 0, c_mcounteren = 0, c_time = 0\<rparr>),
     plic_reg = (\<lambda>_. 0), plic_irqs = (\<lambda>_. []), started = False, first_run = False, stack_junk = (\<lambda>_. 0)\<rparr>"

lemma ex_fields [simp]:
  "hart ex = 0" "phys ex = ex_phys" "proc ex = ex_proc" "ticks ex = 7" "cpus ex = (\<lambda>_. \<lparr>cproc = Some 0, noff = 0, intena = False\<rparr>)"
  "locks ex = (\<lambda>_. \<lparr>locked = False, lname = [], lcpu = None\<rparr>)" "sie ex = (\<lambda>_. False)"
  by (simp_all add: ex_def)

lemma ex_calm [simp]: "lock_free ex lk" "intr_ok ex" "cproc (mycpu ex) = Some 0" "quiet ex"
  by (simp_all add: lock_free_def intr_ok_def quiet_def mach_defs)

lemma ex_tree: "pt_tree ex_phys ex_tab" "ex_tab [] = Some ex_root"
proof -
  have al: "aligned (0x87000000 :: uint64)" "aligned (0x87001000 :: uint64)" "aligned (0x87002000 :: uint64)"
    by (simp_all add: aligned_def)
  note ld = load_store_entry load64_zero
  have r: "load64 ex_phys (entry ex_root i) = (if i = 0 then PA2PTE 0x87001000 OR PTE_V else 0)" if "i < 512" for i
    using that al by (simp add: ex_phys_def ex_root_def ld del: load64_store64_same)
  have m: "load64 ex_phys (entry 0x87001000 i) = (if i = 0 then PA2PTE 0x87002000 OR PTE_V else 0)" if "i < 512" for i
    using that al by (simp add: ex_phys_def ex_root_def ld del: load64_store64_same)
  show "pt_tree ex_phys ex_tab" unfolding pt_tree_def
  proof (intro conjI allI impI)
    fix ps p and i :: nat
    assume "ex_tab ps = Some p" "length ps < 2" "i < 512"
    then show "case ex_tab (ps @ [i]) of None \<Rightarrow> load64 ex_phys (entry p i) AND PTE_V = 0
        | Some q \<Rightarrow> load64 ex_phys (entry p i) = PA2PTE q OR PTE_V"
      using r [of i] m [of i] by (auto simp: ex_tab_def split: if_splits)
  qed (use al in \<open>auto simp: ex_tab_def ex_root_def PHYSTOP_def KERNBASE_def split: if_splits\<close>)
  show "ex_tab [] = Some ex_root" by (simp add: ex_tab_def)
qed

lemma ex_view: "page_of va = 0 \<Longrightarrow> pte_view ex_phys ex_tab va = ex_pte"
proof -
  assume "page_of va = 0"
  then have z: "px level va = 0" for level
    by (simp only: px_div) (simp add: page_of_def div_mult2_eq power_add)
  have "load64 ex_phys (entry 0x87002000 0) = ex_pte"
    by (simp add: ex_phys_def)
  then show ?thesis by (simp add: pte_view_def leaf_def z ex_tab_def)
qed

lemma ex_pte_bits:
  "ex_pte AND PTE_V \<noteq> 0" "ex_pte AND PTE_U \<noteq> 0" "ex_pte AND PTE_W \<noteq> 0" "PTE2PA ex_pte = ex_frame"
  by (simp_all add: ex_pte_def ex_frame_def PA2PTE_def PTE2PA_def PTE_V_def PTE_U_def PTE_W_def PTE_R_def)

end
