(* ===== verification/CopyTheorems.thy ===== *)
theory CopyTheorems
  imports Example
begin

text \<open>
  The copies between user and kernel memory: a round trip, and strings.
\<close>

lemma ubyte_tpa:
  assumes tree: "pt_tree (phys s) tab" "tab [] = Some pt" and w: "uw (phys s) tab va"
  shows "uaddr pt (PGROUNDDOWN va) s = PTE2PA (pte_view (phys s) tab va)"
    and "ubyte pt va s = phys s (tpa (phys s) tab va)"
proof -
  have e: "va < MAXVA" "pte_view (phys s) tab va AND PTE_V \<noteq> 0" "pte_view (phys s) tab va AND PTE_U \<noteq> 0"
    using w by (simp_all add: uw_def Let_def)
  have "unat (PGROUNDDOWN va) \<le> unat va" by (simp add: unat_PGROUNDDOWN div_times_less_eq_dividend)
  with e(1) have va0: "PGROUNDDOWN va < MAXVA" by (simp add: word_less_nat_alt)
  have "pte_view (phys s) tab (PGROUNDDOWN va) = pte_view (phys s) tab va"
    by (rule pte_view_page) (simp add: page_of_PGROUNDDOWN)
  then show u: "uaddr pt (PGROUNDDOWN va) s = PTE2PA (pte_view (phys s) tab va)"
    using e by (simp add: uaddr_def walkaddr_view [OF tree va0] Let_def)
  show "ubyte pt va s = phys s (tpa (phys s) tab va)" by (simp add: ubyte_def upa_def u tpa_def)
qed

text \<open>
  C17. What \<^verbatim>\<open>copyout\<close> stores in user memory is what \<^verbatim>\<open>copyin\<close> reads there: on a
  well-formed page table that maps every byte of the range for user writes, to distinct bytes
  outside the tables, \<^verbatim>\<open>copyout\<close> returns 0, changes exactly those bytes of physical memory,
  and a following \<^verbatim>\<open>copyin\<close> of the range returns 0 with the bytes that were stored.
\<close>

theorem copy_roundtrip:
  assumes "pt_tree (phys s) tab" "tab [] = Some pt" "uwritable (phys s) tab va (unat len)"
    "inj_on (\<lambda>i. tpa (phys s) tab (va + of_nat i)) {..<unat len}"
  shows "returns (copyout pt va src off len s) (\<lambda>r t. r = 0 \<and>
     t = s\<lparr>phys := phys t\<rparr> \<and>
     (\<forall>x. (\<forall>i < unat len. x \<noteq> tpa (phys s) tab (va + of_nat i)) \<longrightarrow> phys t x = phys s x) \<and>
     copyin pt dst d va len t =
       Ret (0, \<lambda>i. if d \<le> i \<and> i < d + unat len then src (off + (i - d)) else dst i) t)"
proof -
  obtain m where m: "copyout pt va src off len s = Ret 0 (s\<lparr>phys := m\<rparr>)"
    "tables_kept tab (phys s) m" "copied tab va src off (unat len) (phys s) m"
    using copyout_writable [OF assms] by blast
  define t where "t = s\<lparr>phys := m\<rparr>"
  have tree: "pt_tree (phys t) tab" using pt_tree_kept [OF assms(1) m(2)] by (simp add: t_def)
  have w: "uw (phys t) tab (va + of_nat i)" if "i < unat len" for i
    using assms(3) that uwritable_kept [OF m(2)] by (auto simp: t_def uwritable_def)
  note u = ubyte_tpa [OF tree assms(2) w]
  have "umapped pt va (unat len) t"
    unfolding umapped_def using u(1) w by (auto simp: uw_def Let_def)
  then have cp: "copyin pt dst d va len t =
     Ret (0, \<lambda>i. if d \<le> i \<and> i < d + unat len then ubyte pt (va + of_nat (i - d)) t else dst i) t"
    by (rule copyin_mapped)
  have byte: "ubyte pt (va + of_nat j) t = src (off + j)" if "j < unat len" for j
    using m(3) that u(2) [OF that] by (simp add: copied_def t_def tpa_kept [OF m(2)])
  have "(\<lambda>i. if d \<le> i \<and> i < d + unat len then ubyte pt (va + of_nat (i - d)) t else dst i) =
    (\<lambda>i. if d \<le> i \<and> i < d + unat len then src (off + (i - d)) else dst i)"
  proof
    fix i
    have "i - d < unat len" if "d \<le> i" "i < d + unat len" using that by simp
    with byte [of "i - d"] show "(if d \<le> i \<and> i < d + unat len then ubyte pt (va + of_nat (i - d)) t else dst i) =
      (if d \<le> i \<and> i < d + unat len then src (off + (i - d)) else dst i)" by (simp del: of_nat_diff)
  qed
  with cp m show ?thesis by (simp add: t_def copied_def)
qed

lemma ex_uw: "i < 8 \<Longrightarrow> uw ex_phys ex_tab (16 + of_nat i)"
proof -
  assume i: "i < 8"
  then have u: "unat (16 + of_nat i :: uint64) = 16 + i" by (simp add: unat_word_ariths unat_of_nat)
  then have "page_of (16 + of_nat i) = 0" using i by (simp add: page_of_def)
  then have "pte_view ex_phys ex_tab (16 + of_nat i) = ex_pte" by (rule ex_view)
  moreover have "(16 + of_nat i :: uint64) < MAXVA" using u i by (simp add: word_less_nat_alt)
  ultimately show ?thesis
    by (simp add: uw_def Let_def ex_pte_bits ex_frame_def ex_tab_def ex_root_def ran_def)
qed

lemma ex_inj: "inj_on (\<lambda>i. tpa ex_phys ex_tab (16 + of_nat i)) {..<8}"
proof (rule inj_onI)
  fix i j :: nat
  assume ij: "i \<in> {..<8}" "j \<in> {..<8}" "tpa ex_phys ex_tab (16 + of_nat i) = tpa ex_phys ex_tab (16 + of_nat j)"
  have "tpa ex_phys ex_tab (16 + of_nat k) = tpa ex_phys ex_tab 16 + of_nat k" if "k < 8" for k
    by (rule tpa_same) (use that in simp)
  with ij have "(of_nat i :: uint64) = of_nat j" by simp
  then have "unat (of_nat i :: uint64) = unat (of_nat j :: uint64)" by simp
  with ij show "i = j" by (simp add: unat_of_nat)
qed

theorem copy_roundtrip_witness:
  "returns (copyout ex_root 16 (\<lambda>i. of_nat (3 * i)) 2 8 ex) (\<lambda>r t. r = 0 \<and>
     t = ex\<lparr>phys := phys t\<rparr> \<and>
     (\<forall>x. (\<forall>i < unat (8 :: uint64). x \<noteq> tpa (phys ex) ex_tab (16 + of_nat i)) \<longrightarrow> phys t x = phys ex x) \<and>
     copyin ex_root (\<lambda>_. 0) 0 16 8 t =
       Ret (0, \<lambda>i. if 0 \<le> i \<and> i < 0 + unat (8 :: uint64) then of_nat (3 * (2 + (i - 0))) else 0) t)"
  by (rule copy_roundtrip) (use ex_tree ex_inj in \<open>simp_all add: uwritable_def ex_uw\<close>)

text \<open>
  C18. \<^verbatim>\<open>copyinstr\<close> copies a string with its terminating zero and returns 0 when the zero lies
  within the limit, and returns -1 when it does not, provided the pages up to the zero are mapped;
  the machine is not changed.
\<close>

theorem copyinstr_correct:
  assumes "\<forall>j < unat mx. (\<forall>i < j. ubyte pt (va + of_nat i) s \<noteq> 0) \<longrightarrow> uaddr pt (PGROUNDDOWN (va + of_nat j)) s \<noteq> 0"
  shows "returns (copyinstr pt dst off va mx s) (\<lambda>(r, d) t. t = s \<and>
     (case first_idx (\<lambda>j. ubyte pt (va + of_nat j) s = 0) [0..<unat mx] of
        Some k \<Rightarrow> r = 0 \<and> d = (\<lambda>i. if off \<le> i \<and> i \<le> off + k then ubyte pt (va + of_nat (i - off)) s else dst i)
      | None \<Rightarrow> r = - 1))"
proof (cases "first_idx (\<lambda>j. ubyte pt (va + of_nat j) s = 0) [0..<unat mx]")
  case None
  then have nz: "\<forall>j < unat mx. ubyte pt (va + of_nat j) s \<noteq> 0" by (auto simp: first_idx_None)
  with assms have "umapped pt va (unat mx) s" by (auto simp: umapped_def)
  then obtain d where "copyinstr pt dst off va mx s = Ret (- 1, d) s" using copyinstr_unterminated [OF nz] by blast
  with None show ?thesis by simp
next
  case (Some k)
  then have k: "k < unat mx" "ubyte pt (va + of_nat k) s = 0" "\<forall>j < k. ubyte pt (va + of_nat j) s \<noteq> 0"
    by (auto simp: first_idx_upt_Some)
  with assms have "umapped pt va (Suc k) s" by (auto simp: umapped_def)
  with Some show ?thesis using copyinstr_found [OF k(3,2,1)] by simp
qed

theorem copyinstr_correct_witness:
  "returns (copyinstr ex_root (\<lambda>_. 9) 0 16 8 ex) (\<lambda>(r, d) t. t = ex \<and>
     (case first_idx (\<lambda>j. ubyte ex_root (16 + of_nat j) ex = 0) [0..<unat (8 :: uint64)] of
        Some k \<Rightarrow> r = 0 \<and> d = (\<lambda>i. if 0 \<le> i \<and> i \<le> 0 + k then ubyte ex_root (16 + of_nat (i - 0)) ex else 9)
      | None \<Rightarrow> r = - 1))"
proof (rule copyinstr_correct, intro allI impI)
  fix j
  assume "j < unat (8 :: uint64)"
  then have w: "uw (phys ex) ex_tab (16 + of_nat j)" using ex_uw by simp
  have "pt_tree (phys ex) ex_tab" using ex_tree(1) by simp
  then have "uaddr ex_root (PGROUNDDOWN (16 + of_nat j)) ex = PTE2PA (pte_view (phys ex) ex_tab (16 + of_nat j))"
    by (rule ubyte_tpa [OF _ ex_tree(2) w])
  then show "uaddr ex_root (PGROUNDDOWN (16 + of_nat j)) ex \<noteq> 0" using w by (simp add: uw_def Let_def)
qed

end
