(* ===== verification/Ring.thy ===== *)
theory Ring
  imports Cstring
begin

text \<open>
  Ring buffers: an array indexed by free-running 32-bit counters modulo its size, as pipes and the
  console use them. Their contents are a queue, whatever the counters have wrapped to; the locale
  \<open>fifo\<close> states what a client may rely on.
\<close>

section \<open>Queues\<close>

locale fifo =
  fixes items :: "'q \<Rightarrow> 'a list" and ok :: "'q \<Rightarrow> bool" and put :: "'a \<Rightarrow> 'q \<Rightarrow> 'q"
    and front :: "'q \<Rightarrow> 'a" and drop_front :: "'q \<Rightarrow> 'q" and capacity :: nat
  assumes bounded: "ok q \<Longrightarrow> length (items q) \<le> capacity"
    and put_ok: "ok q \<Longrightarrow> length (items q) < capacity \<Longrightarrow> ok (put a q)"
    and put_items: "ok q \<Longrightarrow> length (items q) < capacity \<Longrightarrow> items (put a q) = items q @ [a]"
    and front_items: "ok q \<Longrightarrow> items q \<noteq> [] \<Longrightarrow> front q = hd (items q)"
    and drop_ok: "ok q \<Longrightarrow> items q \<noteq> [] \<Longrightarrow> ok (drop_front q)"
    and drop_items: "ok q \<Longrightarrow> items q \<noteq> [] \<Longrightarrow> items (drop_front q) = tl (items q)"
begin

lemma put_many:
  "ok q \<Longrightarrow> length (items q) + length as \<le> capacity \<Longrightarrow>
     ok (fold put as q) \<and> items (fold put as q) = items q @ as"
proof (induction as arbitrary: q)
  case (Cons a as)
  then have "length (items q) < capacity" by simp
  with Cons show ?case using Cons.IH [of "put a q"] by (simp add: put_ok put_items)
qed simp

lemma drop_many:
  "ok q \<Longrightarrow> n \<le> length (items q) \<Longrightarrow>
     ok ((drop_front ^^ n) q) \<and> items ((drop_front ^^ n) q) = drop n (items q)"
proof (induction n arbitrary: q)
  case (Suc n)
  then have "items q \<noteq> []" by auto
  with Suc have "ok (drop_front q)" "items (drop_front q) = tl (items q)" by (simp_all add: drop_ok drop_items)
  with Suc show ?case
    using Suc.IH [of "drop_front q"] by (simp add: funpow_swap1 drop_Suc)
qed simp

lemma front_many:
  assumes "ok q" "n < length (items q)"
  shows "front ((drop_front ^^ n) q) = items q ! n"
proof -
  have d: "ok ((drop_front ^^ n) q)" "items ((drop_front ^^ n) q) = drop n (items q)"
    using drop_many [OF assms(1), of n] assms(2) by simp_all
  then show ?thesis using assms(2) front_items [OF d(1)] by (simp add: hd_drop_conv_nth)
qed

text \<open>What goes in comes out, in order.\<close>

lemma in_order:
  assumes "ok q" "items q = []" "length as \<le> capacity"
  shows "map (\<lambda>n. front ((drop_front ^^ n) (fold put as q))) [0..<length as] = as"
proof -
  have p: "ok (fold put as q)" "items (fold put as q) = as" using put_many [of q as] assms by simp_all
  then show ?thesis by (intro nth_equalityI) (simp_all add: front_many)
qed

end

section \<open>Rings\<close>

definition ring_items :: "uint32 \<Rightarrow> (nat \<Rightarrow> 'a) \<Rightarrow> uint32 \<Rightarrow> uint32 \<Rightarrow> 'a list" where
  "ring_items sz buf r w = map (\<lambda>i. buf (unat ((r + of_nat i) mod sz))) [0..<unat (w - r)]"

lemma length_ring_items [simp]: "length (ring_items sz buf r w) = unat (w - r)"
  by (simp add: ring_items_def)

text \<open>The size divides the range of the counters, so the index does not jump when they wrap.\<close>

lemma ring_index:
  assumes "unat sz dvd 2 ^ 32"
  shows "unat ((r + of_nat i) mod sz) = (unat r + i) mod unat (sz :: uint32)"
  using assms by (simp add: unat_mod_distrib unat_word_ariths unat_of_nat mod_mod_cancel mod_add_right_eq)

lemma unat_succ_diff:
  assumes "unat (w - r) < 2 ^ 32 - 1"
  shows "unat (w + 1 - r :: uint32) = Suc (unat (w - r))"
proof -
  have "w + 1 - r = (w - r) + 1" by simp
  then have "unat (w + 1 - r) = unat ((w - r) + 1)" by (rule arg_cong)
  also have "\<dots> = Suc (unat (w - r))" using assms by (simp add: unat_word_ariths)
  finally show ?thesis .
qed

lemma ring_put:
  assumes sz: "unat sz dvd 2 ^ 32" and room: "unat (w - r) < unat sz"
  shows "ring_items sz (buf(unat (w mod sz) := a)) r (w + 1) = ring_items sz buf r w @ [a]"
proof -
  define n where "n = unat (w - r)"
  have "unat sz \<le> 2 ^ 32 - 1" using unat_lt_2p [of sz] by simp
  with room have len: "unat (w + 1 - r) = Suc n" unfolding n_def by (intro unat_succ_diff) simp
  have w: "w = r + of_nat n" by (simp add: n_def)
  have last: "unat (w mod sz) = (unat r + n) mod unat sz"
    unfolding w by (rule ring_index [OF sz])
  have other: "unat ((r + of_nat i) mod sz) \<noteq> unat (w mod sz)" if "i < n" for i
  proof
    assume "unat ((r + of_nat i) mod sz) = unat (w mod sz)"
    then have "(unat r + i) mod unat sz = (unat r + n) mod unat sz" by (simp only: ring_index [OF sz] last)
    then have "unat sz dvd (unat r + n) - (unat r + i)" by (intro mod_eq_dvd_iff_nat [THEN iffD1]) (use that in auto)
    then have "unat sz dvd n - i" by simp
    moreover have "n - i < unat sz" "0 < n - i" using that room by (auto simp: n_def)
    ultimately show False by (simp add: nat_dvd_not_less)
  qed
  have "ring_items sz (buf(unat (w mod sz) := a)) r (w + 1) =
      map (\<lambda>i. (buf(unat (w mod sz) := a)) (unat ((r + of_nat i) mod sz))) [0..<n] @
      [(buf(unat (w mod sz) := a)) (unat ((r + of_nat n) mod sz))]"
    by (simp only: ring_items_def len upt_Suc_append [OF le0] map_append list.map)
  also have "(buf(unat (w mod sz) := a)) (unat ((r + of_nat n) mod sz)) = a" by (simp add: w [symmetric])
  also have "map (\<lambda>i. (buf(unat (w mod sz) := a)) (unat ((r + of_nat i) mod sz))) [0..<n] = ring_items sz buf r w"
    by (simp add: ring_items_def n_def [symmetric] other)
  finally show ?thesis .
qed

lemma ring_drop:
  assumes "w \<noteq> r"
  shows "ring_items sz buf r w = buf (unat (r mod sz)) # ring_items sz buf (r + 1) w"
proof -
  have pos: "0 < unat (w - r)" using assms by (simp add: unat_gt_0)
  have "unat (w - (r + 1)) = unat ((w - r) - 1)" by (simp add: algebra_simps)
  also have "\<dots> = unat (w - r) - 1" using pos by (simp add: unat_sub_if' unat_gt_0)
  finally have len: "unat (w - r) = Suc (unat (w - (r + 1)))" using pos by simp
  show ?thesis
    by (simp add: ring_items_def len upt_conv_Cons map_Suc_upt [symmetric] del: upt_Suc) (simp add: algebra_simps)
qed

end
