(* ===== verification/PipeTheorems.thy ===== *)
theory PipeTheorems
  imports CopyTheorems Ring
begin

text \<open>
  Pipes as queues: the ring of \<^verbatim>\<open>kernel/pipe.c\<close> is a bounded queue of bytes whatever its
  counters have wrapped to, \<^verbatim>\<open>pipewrite\<close> appends the writer's bytes to it and
  \<^verbatim>\<open>piperead\<close> moves the oldest bytes to the reader's memory.
\<close>

section \<open>The ring of a pipe\<close>

definition pipe_items :: "pipe \<Rightarrow> uint8 list" where
  "pipe_items x = ring_items PIPESIZE (pi_data x) (nread x) (nwrite x)"

definition pipe_ok :: "pipe \<Rightarrow> bool" where
  "pipe_ok x = (unat (nwrite x - nread x) \<le> 512)"

definition pipe_advance :: "pipe \<Rightarrow> pipe" where
  "pipe_advance x = x\<lparr>nread := nread x + 1\<rparr>"

lemma unat_PIPESIZE: "unat PIPESIZE = 512"
  by (simp add: PIPESIZE_def)

lemma length_pipe_items: "length (pipe_items x) = unat (nwrite x - nread x)"
  by (simp add: pipe_items_def)

lemma pipe_items_empty: "pipe_items x = [] \<longleftrightarrow> nread x = nwrite x"
proof -
  have "pipe_items x = [] \<longleftrightarrow> unat (nwrite x - nread x) = 0" by (metis length_0_conv length_pipe_items)
  then show ?thesis by (auto simp: unat_eq_0)
qed

interpretation pq: fifo pipe_items pipe_ok pipe_put pipe_head pipe_advance 512
proof
  fix x :: pipe and a
  show "pipe_ok x \<Longrightarrow> length (pipe_items x) \<le> 512" by (simp add: pipe_ok_def length_pipe_items)
  assume ok: "pipe_ok x"
  show "pipe_ok (pipe_put a x)" if "length (pipe_items x) < 512"
    using that unat_succ_diff [of "nwrite x" "nread x"] by (simp add: pipe_ok_def pipe_put_def length_pipe_items)
  show "pipe_items (pipe_put a x) = pipe_items x @ [a]" if "length (pipe_items x) < 512"
    using that ring_put [of PIPESIZE "nwrite x" "nread x" "pi_data x" a]
    by (simp add: pipe_put_def pipe_items_def unat_PIPESIZE)
  have d: "pipe_items x = pipe_head x # pipe_items (pipe_advance x)" if "pipe_items x \<noteq> []"
    using that ring_drop [of "nwrite x" "nread x" PIPESIZE "pi_data x"] pipe_items_empty [of x]
    by (auto simp: pipe_items_def pipe_head_def pipe_advance_def)
  show "pipe_head x = hd (pipe_items x)" if "pipe_items x \<noteq> []" using d [OF that] by simp
  show t: "pipe_items (pipe_advance x) = tl (pipe_items x)" if "pipe_items x \<noteq> []" using d [OF that] by simp
  show "pipe_ok (pipe_advance x)" if "pipe_items x \<noteq> []"
    using ok arg_cong [OF t [OF that], of length] by (simp add: pipe_ok_def length_pipe_items)
qed

text \<open>The tests of the code on the counters.\<close>

lemma pipe_full: "nwrite x = nread x + PIPESIZE \<longleftrightarrow> length (pipe_items x) = 512"
proof -
  have "nwrite x = nread x + PIPESIZE \<longleftrightarrow> nwrite x - nread x = PIPESIZE" by (auto simp: algebra_simps)
  also have "\<dots> \<longleftrightarrow> unat (nwrite x - nread x) = unat PIPESIZE" by (simp add: word_unat_eq_iff)
  finally show ?thesis by (simp add: length_pipe_items unat_PIPESIZE)
qed

section \<open>Frames\<close>

lemma pipes_frame [simp]:
  "lock_free (pipes_update f s) lk = lock_free s lk"
  "intr_ok (pipes_update f s) = intr_ok s"
  "mycpu (pipes_update f s) = mycpu s"
  "quiet (pipes_update f s) = quiet s"
  by (simp_all add: lock_free_def intr_ok_def quiet_def mach_defs)

section \<open>Writing\<close>

text \<open>The bytes of the writer's memory that \<^verbatim>\<open>pipewrite\<close> is asked for.\<close>

definition user_bytes :: "uint64 \<Rightarrow> uint64 \<Rightarrow> nat \<Rightarrow> 'z kmem_scheme \<Rightarrow> uint8 list" where
  "user_bytes pt va n s = map (\<lambda>i. ubyte pt (va + of_nat i) s) [0..<n]"

lemma user_bytes_Suc: "user_bytes pt va (Suc n) s = ubyte pt va s # user_bytes pt (va + 1) n s"
  by (simp add: user_bytes_def upt_conv_Cons map_Suc_upt [symmetric] del: upt_Suc) (simp add: algebra_simps)

lemma umapped_Suc:
  assumes "umapped pt va (Suc n) s"
  shows "umapped pt va 1 s" "umapped pt (va + 1) n s"
  using assms umapped_drop [OF assms, of 1] by (auto simp: umapped_def)

lemma set_pipe_compose: "set_pipe q f (set_pipe q g s) = set_pipe q (f \<circ> g) s"
  by (simp add: set_pipe_def)

text \<open>
  The loop inside the critical section \<open>u\<close>: with the read end open, the writer not killed, room
  for all the bytes and the bytes mapped, it puts them in the ring.
\<close>

lemma pipewrite_loop_puts:
  assumes "lock_free u (ProcLk pr)" "quiet u" "killed_flag (proc u pr) = 0"
  shows "\<lbrakk>readopen (pipes u q); pipe_ok (pipes u q); length (pipe_items (pipes u q)) + m \<le> 512;
     umapped (pagetable (proc u pr)) (addr + of_nat i) m u;
     f = fold pipe_put (user_bytes (pagetable (proc u pr)) (addr + of_nat i) m u)\<rbrakk> \<Longrightarrow>
   pipewrite_loop pr q addr i m u =
     kbind (wakeup (ChPipeR q) (set_pipe q f u)) (\<lambda>_ s.
     kbind (release (PipeLk q) s) (\<lambda>_ s. Ret (int (i + m)) s))"
  using assms
proof (induction m arbitrary: i u f)
  case 0
  then show ?case by (simp add: user_bytes_def set_pipe_def)
next
  case (Suc m)
  let ?pt = "pagetable (proc u pr)" and ?x = "pipes u q" and ?b = "ubyte (pagetable (proc u pr)) (addr + of_nat i) u"
  let ?u = "set_pipe q (pipe_put ?b) u"
  have k: "killed pr u = Ret 0 u" using Suc.prems by (simp add: killed_free quiet_def)
  have nf: "nwrite ?x \<noteq> nread ?x + PIPESIZE" using Suc.prems(3) by (simp add: pipe_full)
  have cp: "copyin ?pt (\<lambda>_. 0) 0 (addr + of_nat i) 1 u = Ret (0, \<lambda>j. if j = 0 then ?b else 0) u"
    using copyin_mapped [of ?pt "addr + of_nat i" 1 u "\<lambda>_. 0" 0] umapped_Suc(1) [OF Suc.prems(4)]
    by (simp add: if_distrib cong: if_cong)
  have step: "pipewrite_loop pr q addr i (Suc m) u = pipewrite_loop pr q addr (Suc i) m ?u"
    using Suc.prems(1) by (simp add: k nf cp)
  have ph: "phys ?u = phys u" "proc ?u = proc u" by (simp_all add: set_pipe_def)
  have adr: "addr + of_nat i + 1 = addr + of_nat (Suc i)" by simp
  have put: "pipe_ok (pipe_put ?b ?x)" "pipe_items (pipe_put ?b ?x) = pipe_items ?x @ [?b]"
    using pq.put_ok pq.put_items Suc.prems(2,3) by simp_all
  have "pipewrite_loop pr q addr (Suc i) m ?u =
     kbind (wakeup (ChPipeR q) (set_pipe q (fold pipe_put (user_bytes ?pt (addr + of_nat (Suc i)) m u)) ?u)) (\<lambda>_ s.
     kbind (release (PipeLk q) s) (\<lambda>_ s. Ret (int (Suc i + m)) s))"
  proof (rule Suc.IH)
    show "umapped (pagetable (proc ?u pr)) (addr + of_nat (Suc i)) m ?u"
      using umapped_Suc(2) [OF Suc.prems(4)] umapped_cong [OF ph(1)] by (simp add: ph adr del: of_nat_Suc)
    show "fold pipe_put (user_bytes ?pt (addr + of_nat (Suc i)) m u) =
      fold pipe_put (user_bytes (pagetable (proc ?u pr)) (addr + of_nat (Suc i)) m ?u)"
      by (simp add: user_bytes_def ubyte_cong [OF ph(1)] ph)
  qed (use Suc.prems put in \<open>simp_all add: set_pipe_def pipe_put_def\<close>)
  also have "set_pipe q (fold pipe_put (user_bytes ?pt (addr + of_nat (Suc i)) m u)) ?u = set_pipe q f u"
    using Suc.prems(5) by (simp add: set_pipe_compose user_bytes_Suc adr comp_def del: of_nat_Suc)
  finally show ?case using step by simp
qed

text \<open>Entering and leaving the critical section of a pipe.\<close>

lemma quiet_acq_pipe: "quiet s \<Longrightarrow> quiet (acq (PipeLk q) s)"
  by (auto simp: quiet_def intr_ok_acq lock_free_acq)

lemma acq_pipe_fields [simp]:
  "pipes (acq lk s) = pipes s" "proc (acq lk s) = proc s" "phys (acq lk s) = phys s"
  by (simp_all add: acq_explicit)

lemma mycpu_acq: "cproc (mycpu (acq lk s)) = cproc (mycpu s)"
  by (simp add: acq_explicit mach_defs)

lemma pipe_section:
  assumes "lock_free s (PipeLk q)" "intr_ok s"
  shows "release (PipeLk q) ((acq (PipeLk q) s)\<lparr>pipes := P, proc := Q\<rparr>) = Ret () (s\<lparr>pipes := P, proc := Q\<rparr>)"
  by (subst release_after [OF assms]) (auto simp: acq_explicit)

lemma pipewrite_puts:
  assumes lk: "lock_free s (PipeLk q)" "lock_free s (ProcLk pr)" "quiet s" and me: "cproc (mycpu s) = Some pr"
    and live: "killed_flag (proc s pr) = 0" "readopen (pipes s q)"
    and room: "pipe_ok (pipes s q)" "length (pipe_items (pipes s q)) + nat n \<le> 512"
    and mem: "umapped (pagetable (proc s pr)) addr (nat n) s"
  shows "pipewrite q addr n s = Ret (int (nat n))
     (s\<lparr>pipes := (pipes s)(q := fold pipe_put (user_bytes (pagetable (proc s pr)) addr (nat n) s) (pipes s q)),
        proc := woken (Some pr) (ChPipeR q) NPROC (proc s)\<rparr>)"
proof -
  let ?u = "acq (PipeLk q) s"
  define f where "f = fold pipe_put (user_bytes (pagetable (proc s pr)) addr (nat n) s)"
  have i: "intr_ok s" using lk(3) by (simp add: quiet_def)
  have q: "quiet ?u" using lk(3) by (rule quiet_acq_pipe)
  have "pipewrite_loop pr q addr 0 (nat n) ?u =
    kbind (wakeup (ChPipeR q) (set_pipe q f ?u)) (\<lambda>_ s. kbind (release (PipeLk q) s) (\<lambda>_ s. Ret (int (0 + nat n)) s))"
  proof (rule pipewrite_loop_puts)
    show "umapped (pagetable (proc ?u pr)) (addr + of_nat 0) (nat n) ?u"
      using mem umapped_cong [of ?u s] by simp
    show "f = fold pipe_put (user_bytes (pagetable (proc ?u pr)) (addr + of_nat 0) (nat n) ?u)"
      by (simp add: f_def user_bytes_def ubyte_cong [of ?u s])
  qed (use lk q live room in \<open>simp_all add: lock_free_acq\<close>)
  moreover have "wakeup (ChPipeR q) (set_pipe q f ?u) =
    Ret () (?u\<lparr>pipes := (pipes s)(q := f (pipes s q)), proc := woken (Some pr) (ChPipeR q) NPROC (proc s)\<rparr>)"
    using q me by (subst wakeup_quiet) (simp_all add: set_pipe_def mycpu_acq)
  ultimately show ?thesis
    using i me lk by (simp add: pipewrite_def curproc_ok acquire_free pipe_section f_def)
qed

section \<open>Reading\<close>

lemma copied_one:
  assumes "copied tab va (\<lambda>_. b) 0 1 m m'"
  shows "m' (tpa m tab va) = b" "x \<noteq> tpa m tab va \<Longrightarrow> m' x = m x"
  using assms by (auto simp: copied_def)

lemma copied_cons:
  assumes one: "copied tab va (\<lambda>_. src 0) 0 1 m m1" "tables_kept tab m m1"
    and rest: "copied tab (va + 1) (\<lambda>i. src (Suc i)) 0 k m1 m2"
    and inj: "inj_on (\<lambda>i. tpa m tab (va + of_nat i)) {..<Suc k}"
  shows "copied tab va src 0 (Suc k) m m2"
proof -
  note h = copied_one [OF one(1)]
  have adr: "va + 1 + of_nat i = va + of_nat (Suc i)" for i by simp
  have r: "\<forall>i < k. m2 (tpa m tab (va + of_nat (Suc i))) = src (Suc i)"
    "\<forall>x. (\<forall>i < k. x \<noteq> tpa m tab (va + of_nat (Suc i))) \<longrightarrow> m2 x = m1 x"
    using rest unfolding copied_def tpa_kept [OF one(2)] adr by simp_all
  have "tpa m tab va \<noteq> tpa m tab (va + of_nat (Suc i))" if "i < k" for i
    using inj_onD [OF inj, of 0 "Suc i"] that by auto
  then have zero: "m2 (tpa m tab va) = src 0" using r(2) h(1) by auto
  show ?thesis unfolding copied_def
  proof (intro conjI allI impI)
    fix i
    assume "i < Suc k"
    with r(1) zero show "m2 (tpa m tab (va + of_nat i)) = src (0 + i)" by (cases i) (simp_all del: of_nat_Suc)
  next
    fix x
    assume x: "\<forall>i < Suc k. x \<noteq> tpa m tab (va + of_nat i)"
    then have "x \<noteq> tpa m tab va" "\<forall>i < k. x \<noteq> tpa m tab (va + of_nat (Suc i))"
      by (auto dest: spec [of _ 0] simp del: of_nat_Suc)
    with r(2) h(2) show "m2 x = m x" by simp
  qed
qed

lemma uwritable_Suc:
  assumes "uwritable m tab va (Suc n)"
  shows "uwritable m tab va 1" "uwritable m tab (va + 1) n"
  using assms uwritable_drop [OF assms, of 1] by (auto simp: uwritable_def)

lemma inj_Suc:
  assumes "inj_on (\<lambda>i. tpa m tab (va + of_nat i)) {..<Suc n}"
  shows "inj_on (\<lambda>i. tpa m tab (va + 1 + of_nat i)) {..<n}"
proof (rule inj_onI)
  fix i j
  assume "i \<in> {..<n}" "j \<in> {..<n}" "tpa m tab (va + 1 + of_nat i) = tpa m tab (va + 1 + of_nat j)"
  then show "i = j" using inj_onD [OF assms, of "Suc i" "Suc j"] by (simp add: add.assoc)
qed

text \<open>The copying loop moves as many of the oldest bytes as there are, up to the number asked for.\<close>

lemma piperead_copy_gets:
  "\<lbrakk>pt_tree (phys v) tab; tab [] = Some (pagetable (proc v pr)); uwritable (phys v) tab (addr + of_nat i) m;
    inj_on (\<lambda>j. tpa (phys v) tab (addr + of_nat i + of_nat j)) {..<m}; pipe_ok (pipes v q);
    k = min m (length (pipe_items (pipes v q)))\<rbrakk> \<Longrightarrow>
   \<exists>m'. piperead_copy pr q addr i m v =
       Ret (int (i + k)) (v\<lparr>phys := m', pipes := (pipes v)(q := (pipe_advance ^^ k) (pipes v q))\<rparr>) \<and>
     tables_kept tab (phys v) m' \<and> copied tab (addr + of_nat i) (\<lambda>j. pipe_items (pipes v q) ! j) 0 k (phys v) m'"
proof (induction m arbitrary: i v k)
  case 0
  then show ?case by (auto intro!: exI [of _ "phys v"] simp: tables_kept_def copied_def)
next
  case (Suc m)
  let ?x = "pipes v q" and ?va = "addr + of_nat i" and ?pt = "pagetable (proc v pr)"
  let ?xs = "pipe_items (pipes v q)"
  show ?case
  proof (cases "?xs = []")
    case True
    then have "nread ?x = nwrite ?x" by (simp add: pipe_items_empty)
    with True Suc.prems(6) show ?thesis by (auto intro!: exI [of _ "phys v"] simp: tables_kept_def copied_def)
  next
    case False
    then have ne: "nread ?x \<noteq> nwrite ?x" by (simp add: pipe_items_empty)
    have h: "pipe_head ?x = ?xs ! 0" using pq.front_items [OF Suc.prems(5) False] False by (simp add: hd_conv_nth)
    have "\<exists>m'. copyout ?pt ?va (\<lambda>_. ?xs ! 0) 0 1 v = Ret 0 (v\<lparr>phys := m'\<rparr>) \<and>
        tables_kept tab (phys v) m' \<and> copied tab ?va (\<lambda>_. ?xs ! 0) 0 (unat (1 :: uint64)) (phys v) m'"
      by (rule copyout_writable) (use Suc.prems uwritable_Suc(1) in \<open>auto intro: inj_on_subset\<close>)
    then obtain m1 where m1: "copyout ?pt ?va (\<lambda>_. ?xs ! 0) 0 1 v = Ret 0 (v\<lparr>phys := m1\<rparr>)"
      "tables_kept tab (phys v) m1" "copied tab ?va (\<lambda>_. ?xs ! 0) 0 1 (phys v) m1" by auto
    define w where "w = v\<lparr>phys := m1, pipes := (pipes v)(q := pipe_advance ?x)\<rparr>"
    have step: "piperead_copy pr q addr i (Suc m) v = piperead_copy pr q addr (Suc i) m w"
      using ne h m1(1) by (simp add: Let_def set_pipe_def w_def pipe_advance_def)
    have adr: "addr + of_nat (Suc i) = ?va + 1" by simp
    have tl: "pipe_items (pipe_advance ?x) = tl ?xs" "pipe_ok (pipe_advance ?x)"
      using pq.drop_items pq.drop_ok Suc.prems(5) False by simp_all
    define l where "l = min m (length ?xs - 1)"
    have k: "k = Suc l" using Suc.prems(6) False by (cases ?xs) (simp_all add: l_def)
    have ih: "\<exists>m'. piperead_copy pr q addr (Suc i) m w =
        Ret (int (Suc i + l)) (w\<lparr>phys := m', pipes := (pipes w)(q := (pipe_advance ^^ l) (pipes w q))\<rparr>) \<and>
      tables_kept tab (phys w) m' \<and> copied tab (addr + of_nat (Suc i)) (\<lambda>j. pipe_items (pipes w q) ! j) 0 l (phys w) m'"
    proof (rule Suc.IH)
      show "pt_tree (phys w) tab" using pt_tree_kept [OF Suc.prems(1) m1(2)] by (simp add: w_def)
      show "uwritable (phys w) tab (addr + of_nat (Suc i)) m"
        using uwritable_Suc(2) [OF Suc.prems(3)] uwritable_kept [OF m1(2)] by (simp add: w_def adr del: of_nat_Suc)
      show "inj_on (\<lambda>j. tpa (phys w) tab (addr + of_nat (Suc i) + of_nat j)) {..<m}"
        using inj_Suc [OF Suc.prems(4)] by (simp add: w_def tpa_kept [OF m1(2)] adr del: of_nat_Suc)
    qed (use Suc.prems(2) tl in \<open>simp_all add: w_def l_def\<close>)
    have wf: "phys w = m1" "pipe_items (pipes w q) = tl ?xs" "Suc i + l = i + k"
      using tl by (simp_all add: w_def k)
    obtain m2 where m2: "piperead_copy pr q addr (Suc i) m w =
        Ret (int (i + k)) (w\<lparr>phys := m2, pipes := (pipes w)(q := (pipe_advance ^^ l) (pipes w q))\<rparr>)"
      "tables_kept tab m1 m2" "copied tab (?va + 1) (\<lambda>j. tl ?xs ! j) 0 l m1 m2"
      using ih unfolding wf adr by blast
    have weq: "w\<lparr>phys := m2, pipes := (pipes w)(q := (pipe_advance ^^ l) (pipes w q))\<rparr> =
      v\<lparr>phys := m2, pipes := (pipes v)(q := (pipe_advance ^^ k) ?x)\<rparr>"
      by (simp add: w_def k funpow_swap1)
    have "copied tab ?va (\<lambda>j. ?xs ! j) 0 k (phys v) m2" unfolding k
    proof (rule copied_cons [where src = "\<lambda>j. ?xs ! j", OF m1(3,2)])
      have "copied tab (?va + 1) (\<lambda>j. ?xs ! Suc j) 0 l m1 m2 = copied tab (?va + 1) (\<lambda>j. tl ?xs ! j) 0 l m1 m2"
        using False by (auto simp: copied_def nth_tl l_def)
      with m2(3) show "copied tab (?va + 1) (\<lambda>j. ?xs ! Suc j) 0 l m1 m2" by simp
      show "inj_on (\<lambda>j. tpa (phys v) tab (?va + of_nat j)) {..<Suc l}"
        using Suc.prems(4) by (rule inj_on_subset) (auto simp: l_def)
    qed
    with tables_kept_trans [OF m1(2) m2(2)] show ?thesis unfolding step m2(1) weq by blast
  qed
qed

lemma pipe_section_phys:
  assumes "lock_free s (PipeLk q)" "intr_ok s"
  shows "release (PipeLk q) ((acq (PipeLk q) s)\<lparr>phys := m, pipes := P, proc := Q\<rparr>) = Ret () (s\<lparr>phys := m, pipes := P, proc := Q\<rparr>)"
  by (subst release_after [OF assms]) (auto simp: acq_explicit)

lemma piperead_gets:
  assumes lk: "lock_free s (PipeLk q)" "quiet s" and me: "cproc (mycpu s) = Some pr"
    and some: "pipe_items (pipes s q) \<noteq> [] \<or> \<not> writeopen (pipes s q)" and ok: "pipe_ok (pipes s q)"
    and mem: "pt_tree (phys s) tab" "tab [] = Some (pagetable (proc s pr))" "uwritable (phys s) tab addr (nat n)"
      "inj_on (\<lambda>j. tpa (phys s) tab (addr + of_nat j)) {..<nat n}"
    and k: "k = min (nat n) (length (pipe_items (pipes s q)))"
  shows "\<exists>m'. piperead q addr n s = Ret (int k)
       (s\<lparr>phys := m', pipes := (pipes s)(q := (pipe_advance ^^ k) (pipes s q)),
          proc := woken (Some pr) (ChPipeW q) NPROC (proc s)\<rparr>) \<and>
     tables_kept tab (phys s) m' \<and> copied tab addr (\<lambda>j. pipe_items (pipes s q) ! j) 0 k (phys s) m'"
proof -
  let ?u = "acq (PipeLk q) s"
  have i: "intr_ok s" using lk(2) by (simp add: quiet_def)
  have q: "quiet ?u" using lk(2) by (rule quiet_acq_pipe)
  have "\<exists>m'. piperead_copy pr q addr 0 (nat n) ?u =
       Ret (int (0 + k)) (?u\<lparr>phys := m', pipes := (pipes ?u)(q := (pipe_advance ^^ k) (pipes ?u q))\<rparr>) \<and>
     tables_kept tab (phys ?u) m' \<and> copied tab (addr + of_nat 0) (\<lambda>j. pipe_items (pipes ?u q) ! j) 0 k (phys ?u) m'"
    by (rule piperead_copy_gets) (use mem ok k in simp_all)
  then obtain m' where m': "piperead_copy pr q addr 0 (nat n) ?u =
       Ret (int k) (?u\<lparr>phys := m', pipes := (pipes s)(q := (pipe_advance ^^ k) (pipes s q))\<rparr>)"
     "tables_kept tab (phys s) m'" "copied tab addr (\<lambda>j. pipe_items (pipes s q) ! j) 0 k (phys s) m'"
    by auto
  let ?v = "?u\<lparr>phys := m', pipes := (pipes s)(q := (pipe_advance ^^ k) (pipes s q))\<rparr>"
  have "wakeup (ChPipeW q) ?v = Ret () (?v\<lparr>proc := woken (Some pr) (ChPipeW q) NPROC (proc s)\<rparr>)"
  proof -
    have "quiet ?v" using q by (simp add: quiet_def mach_defs)
    then show ?thesis using me by (subst wakeup_quiet) (simp_all add: mycpu_acq mach_defs acq_explicit)
  qed
  moreover have "\<not> (nread (pipes ?u q) = nwrite (pipes ?u q) \<and> writeopen (pipes ?u q))"
    using some by (auto simp: pipe_items_empty)
  ultimately have "piperead q addr n s = Ret (int k) (s\<lparr>phys := m', pipes := (pipes s)(q := (pipe_advance ^^ k) (pipes s q)),
      proc := woken (Some pr) (ChPipeW q) NPROC (proc s)\<rparr>)"
    using m'(1) i me lk by (simp add: piperead_def piperead_loop_def curproc_ok acquire_free pipe_section_phys) blast
  with m' show ?thesis by blast
qed

section \<open>What the two ends do to the queue\<close>

lemma ex_pipes [simp]:
  "pipes ex = (\<lambda>_. \<lparr>pi_data = (\<lambda>_. 0), nread = 0, nwrite = 0, readopen = True, writeopen = True\<rparr>)"
  by (simp add: ex_def)

text \<open>
  C19. \<^verbatim>\<open>pipewrite\<close> appends the writer's bytes to the pipe in order: when the read end is open, the
  writer is not killed, the bytes are mapped and there is room for them, it returns their number,
  the queue of the pipe grows by exactly those bytes even when the 32-bit counters wrap, every
  reader asleep on the pipe is woken, and nothing else changes.
\<close>

theorem pipewrite_appends:
  assumes "lock_free s (PipeLk q)" "lock_free s (ProcLk pr)" "quiet s" "cproc (mycpu s) = Some pr"
    "killed_flag (proc s pr) = 0" "readopen (pipes s q)"
    "pipe_ok (pipes s q)" "length (pipe_items (pipes s q)) + nat n \<le> 512"
    "umapped (pagetable (proc s pr)) addr (nat n) s"
  shows "returns (pipewrite q addr n s) (\<lambda>r t. r = int (nat n) \<and> pipe_ok (pipes t q) \<and>
     pipe_items (pipes t q) = pipe_items (pipes s q) @ user_bytes (pagetable (proc s pr)) addr (nat n) s \<and>
     t = s\<lparr>pipes := (pipes s)(q := pipes t q), proc := woken (Some pr) (ChPipeR q) NPROC (proc s)\<rparr>)"
  using pipewrite_puts [OF assms] pq.put_many [OF assms(7)] assms(8) by (simp add: user_bytes_def)

theorem pipewrite_appends_witness:
  "returns (pipewrite 5 16 8 ex) (\<lambda>r t. r = int (nat 8) \<and> pipe_ok (pipes t 5) \<and>
     pipe_items (pipes t 5) = pipe_items (pipes ex 5) @ user_bytes (pagetable (proc ex 0)) 16 (nat 8) ex \<and>
     t = ex\<lparr>pipes := (pipes ex)(5 := pipes t 5), proc := woken (Some 0) (ChPipeR 5) NPROC (proc ex)\<rparr>)"
proof (rule pipewrite_appends)
  show "umapped (pagetable (proc ex 0)) 16 (nat 8) ex" unfolding umapped_def
  proof (intro allI impI)
    fix j
    assume "j < nat 8"
    then have w: "uw (phys ex) ex_tab (16 + of_nat j)" using ex_uw by simp
    have "pt_tree (phys ex) ex_tab" using ex_tree(1) by simp
    then have "uaddr ex_root (PGROUNDDOWN (16 + of_nat j)) ex = PTE2PA (pte_view (phys ex) ex_tab (16 + of_nat j))"
      by (rule ubyte_tpa [OF _ ex_tree(2) w])
    then show "uaddr (pagetable (proc ex 0)) (PGROUNDDOWN (16 + of_nat j)) ex \<noteq> 0"
      using w by (simp add: uw_def Let_def ex_proc_def)
  qed
qed (simp_all add: ex_proc_def pipe_ok_def length_pipe_items)

text \<open>
  C20. \<^verbatim>\<open>piperead\<close> takes the oldest bytes: when the pipe is not empty, or its write end is closed, it
  returns the smaller of the count asked for and the bytes present, stores exactly those bytes in
  order at the reader's address, leaves the younger ones in the queue and wakes the writers. With
  the write end closed and the pipe empty this is the end of file, 0.
\<close>

theorem piperead_takes:
  assumes "lock_free s (PipeLk q)" "quiet s" "cproc (mycpu s) = Some pr"
    "pipe_items (pipes s q) \<noteq> [] \<or> \<not> writeopen (pipes s q)" "pipe_ok (pipes s q)"
    "pt_tree (phys s) tab" "tab [] = Some (pagetable (proc s pr))" "uwritable (phys s) tab addr (nat n)"
    "inj_on (\<lambda>j. tpa (phys s) tab (addr + of_nat j)) {..<nat n}"
  shows "returns (piperead q addr n s) (\<lambda>r t. r = int (min (nat n) (length (pipe_items (pipes s q)))) \<and>
     pipe_ok (pipes t q) \<and> pipe_items (pipes t q) = drop (nat r) (pipe_items (pipes s q)) \<and>
     user_bytes (pagetable (proc s pr)) addr (nat r) t = take (nat r) (pipe_items (pipes s q)) \<and>
     (\<forall>x. (\<forall>i < nat r. x \<noteq> tpa (phys s) tab (addr + of_nat i)) \<longrightarrow> phys t x = phys s x) \<and>
     t = s\<lparr>phys := phys t, pipes := (pipes s)(q := pipes t q), proc := woken (Some pr) (ChPipeW q) NPROC (proc s)\<rparr>)"
proof -
  define k where "k = min (nat n) (length (pipe_items (pipes s q)))"
  obtain m where m: "piperead q addr n s = Ret (int k) (s\<lparr>phys := m, pipes := (pipes s)(q := (pipe_advance ^^ k) (pipes s q)),
          proc := woken (Some pr) (ChPipeW q) NPROC (proc s)\<rparr>)"
     "tables_kept tab (phys s) m" "copied tab addr (\<lambda>j. pipe_items (pipes s q) ! j) 0 k (phys s) m"
    using piperead_gets [OF assms k_def] by blast
  define t where "t = s\<lparr>phys := m, pipes := (pipes s)(q := (pipe_advance ^^ k) (pipes s q)),
          proc := woken (Some pr) (ChPipeW q) NPROC (proc s)\<rparr>"
  have ok: "pipe_ok (pipes t q)" "pipe_items (pipes t q) = drop k (pipe_items (pipes s q))"
    using pq.drop_many [OF assms(5), of k] by (simp_all add: t_def k_def)
  have tree: "pt_tree (phys t) tab" using pt_tree_kept [OF assms(6) m(2)] by (simp add: t_def)
  have "ubyte (pagetable (proc s pr)) (addr + of_nat j) t = pipe_items (pipes s q) ! j" if "j < k" for j
  proof -
    have "uw (phys t) tab (addr + of_nat j)"
      using assms(8) that uwritable_kept [OF m(2)] by (auto simp: t_def uwritable_def k_def)
    from ubyte_tpa(2) [OF tree assms(7) this] show ?thesis
      using m(3) that by (simp add: copied_def t_def tpa_kept [OF m(2)])
  qed
  then have "user_bytes (pagetable (proc s pr)) addr k t = take k (pipe_items (pipes s q))"
    by (intro nth_equalityI) (auto simp: user_bytes_def k_def)
  with ok show ?thesis unfolding m(1) t_def [symmetric] using m(3) by (simp add: copied_def k_def [symmetric]) (simp add: t_def)
qed

text \<open>The example machine with two bytes in pipe 5, written across the wrap of the counters.\<close>

definition ex_pipe :: "pipe" where
  "ex_pipe = \<lparr>pi_data = (\<lambda>i. of_nat i), nread = - 1, nwrite = 1, readopen = True, writeopen = True\<rparr>"

lemma ex_pipe_items: "pipe_items ex_pipe = [255, 0]" "pipe_ok ex_pipe"
  by (simp_all add: pipe_items_def ring_items_def ex_pipe_def PIPESIZE_def pipe_ok_def upt_rec)

theorem piperead_takes_witness:
  "let s = ex\<lparr>pipes := (pipes ex)(5 := ex_pipe)\<rparr> in
   returns (piperead 5 16 8 s) (\<lambda>r t. r = int (min (nat 8) (length (pipe_items (pipes s 5)))) \<and>
     pipe_ok (pipes t 5) \<and> pipe_items (pipes t 5) = drop (nat r) (pipe_items (pipes s 5)) \<and>
     user_bytes (pagetable (proc s 0)) 16 (nat r) t = take (nat r) (pipe_items (pipes s 5)) \<and>
     (\<forall>x. (\<forall>i < nat r. x \<noteq> tpa (phys s) ex_tab (16 + of_nat i)) \<longrightarrow> phys t x = phys s x) \<and>
     t = s\<lparr>phys := phys t, pipes := (pipes s)(5 := pipes t 5), proc := woken (Some 0) (ChPipeW 5) NPROC (proc s)\<rparr>)"
  unfolding Let_def
  by (rule piperead_takes) (use ex_tree ex_inj in \<open>simp_all add: uwritable_def ex_uw ex_pipe_items ex_proc_def\<close>)

end
