(* ===== verification/MemTheorems.thy ===== *)
theory MemTheorems
  imports Example
begin

text \<open>
  What the page allocator and the memory routines promise: no page is ever in two hands, boot
  leaves every page of memory free, \<^verbatim>\<open>memmove\<close> is a simultaneous copy, and
  \<^verbatim>\<open>safestrcpy\<close> stays inside its buffer.
\<close>

section \<open>Runs of the allocator\<close>

text \<open>
  A run of \<^verbatim>\<open>kalloc\<close> and \<^verbatim>\<open>kfree\<close> with the set of pages that are in use. Users
  may change the pages they hold in any way between the calls, and free only those.
\<close>

inductive kmem_run :: "kmem \<Rightarrow> kmem \<Rightarrow> uint64 set \<Rightarrow> bool" where
  start: "kmem_run s s {}"
| alloc: "kmem_run s t own \<Longrightarrow> kalloc t = Ret r u \<Longrightarrow> kmem_run s u (if r = 0 then own else insert r own)"
| free: "kmem_run s t own \<Longrightarrow> pa \<in> own \<Longrightarrow> kfree pa t = Ret () u \<Longrightarrow> kmem_run s u (own - {pa})"
| use: "kmem_run s t own \<Longrightarrow> (\<forall>a. PGROUNDDOWN a \<notin> own \<longrightarrow> m a = phys t a) \<Longrightarrow> kmem_run s (t\<lparr>phys := m\<rparr>) own"

lemma kmem_list_use:
  assumes "kmem_list t xs" "set xs \<inter> own = {}" "\<forall>a. PGROUNDDOWN a \<notin> own \<longrightarrow> m a = phys t a"
  shows "kmem_list (t\<lparr>phys := m\<rparr>) xs"
proof -
  have al: "\<forall>x \<in> set xs. aligned x" and fl: "flist (phys t) (freelist t) xs" "distinct xs" "\<forall>x \<in> set xs. kpage t x"
    using assms(1) by (auto simp: kmem_list_def kpage_def)
  have "m a = phys t a" if "x \<in> set xs" "unat (a - x) < 8" for x a
  proof -
    have x: "aligned x" using al that(1) by blast
    have "page_of a = page_of x" using in_page_iff [OF x, of a] that(2) by simp
    then have "PGROUNDDOWN a = x" using x by (metis aligned_page_inj aligned_PGROUNDDOWN page_of_PGROUNDDOWN)
    with that(1) assms(2,3) show ?thesis by blast
  qed
  with fl(1) have "flist m (freelist t) xs" by (rule flist_frame)
  with fl show ?thesis by (simp add: kmem_list_def)
qed

lemma kmem_run_inv:
  assumes "kmem_run s t own" "kmem_ready s" "kmem_list s xs"
  shows "\<exists>ys. kmem_list t ys \<and> kmem_ready t \<and> kpage t = kpage s \<and> set ys \<inter> own = {} \<and> set ys \<union> own = set xs"
  using assms
proof (induction rule: kmem_run.induct)
  case (start s)
  then show ?case by auto
next
  case (alloc s t own r u)
  then obtain ys where ys: "kmem_list t ys" "kmem_ready t" "kpage t = kpage s" "set ys \<inter> own = {}" "set ys \<union> own = set xs"
    by blast
  show ?case
  proof (cases ys)
    case Nil
    then have "r = 0" "u = t" using kpages.alloc_none [of t] ys alloc.hyps(2) by auto
    then show ?thesis using ys by auto
  next
    case (Cons y zs)
    then obtain u' where "kalloc t = Ret y u'" "kmem_ready u'" "kmem_list u' zs" "kpage u' = kpage t"
      using kpages.alloc_some [of t y zs] ys by blast
    then have u: "r = y" "kmem_ready u" "kmem_list u zs" "kpage u = kpage t" using alloc.hyps(2) by auto
    have "y \<noteq> 0" "distinct ys" using kpages.pages_ok [OF ys(1)] kpages.usable_nonzero Cons by auto
    then show ?thesis using u ys Cons by (intro exI [of _ zs]) auto
  qed
next
  case (free s t own pa u)
  then obtain ys where ys: "kmem_list t ys" "kmem_ready t" "kpage t = kpage s" "set ys \<inter> own = {}" "set ys \<union> own = set xs"
    by blast
  then have "kpage t pa" "pa \<notin> set ys" using free.hyps(2) kpages.pages_ok [OF free.prems(2)] by auto
  then obtain u' where "kfree pa t = Ret () u'" "kmem_ready u'" "kmem_list u' (pa # ys)" "kpage u' = kpage t"
    using kpages.free_page [of t ys pa] ys by blast
  then show ?case using free.hyps(2,3) ys by (intro exI [of _ "pa # ys"]) auto
next
  case (use s t own m)
  then obtain ys where ys: "kmem_list t ys" "kmem_ready t" "kpage t = kpage s" "set ys \<inter> own = {}" "set ys \<union> own = set xs"
    by blast
  then show ?case using kmem_list_use [OF ys(1,4) use.hyps(2)] by (intro exI [of _ ys]) auto
qed

text \<open>
  C21. In every run of \<^verbatim>\<open>kalloc\<close>, \<^verbatim>\<open>kfree\<close> and arbitrary writes by the holders of pages to
  their pages, the free list stays a well-formed list of distinct pages, disjoint from the pages in
  use, and the free and used pages together are those of the start: no page is handed out twice
  and none is lost. \<^verbatim>\<open>kalloc\<close> returns a null pointer exactly when all are in use.
\<close>

theorem kmem_no_double_allocation:
  assumes "kmem_run s t own" "kmem_ready s" "kmem_list s xs"
  shows "\<exists>ys. kmem_list t ys \<and> set ys \<inter> own = {} \<and> set ys \<union> own = set xs \<and>
    returns (kalloc t) (\<lambda>r u. if own = set xs then r = 0 else r \<in> set xs - own)"
proof -
  obtain ys where ys: "kmem_list t ys" "kmem_ready t" "set ys \<inter> own = {}" "set ys \<union> own = set xs"
    using kmem_run_inv [OF assms] by blast
  have "returns (kalloc t) (\<lambda>r u. if own = set xs then r = 0 else r \<in> set xs - own)"
  proof (cases ys)
    case Nil
    then show ?thesis using kpages.alloc_none [of t] ys by auto
  next
    case (Cons y zs)
    then obtain u where "kalloc t = Ret y u" using kpages.alloc_some [of t y zs] ys by blast
    with ys Cons show ?thesis by auto
  qed
  with ys show ?thesis by blast
qed

definition ex_kmem :: kmem where
  "ex_kmem = \<lparr>hart = 0, sie = (\<lambda>_. False), cpus = (\<lambda>_. \<lparr>cproc = None, noff = 0, intena = False\<rparr>),
     locks = (\<lambda>_. \<lparr>locked = False, lname = [], lcpu = None\<rparr>),
     phys = store64 (\<lambda>_. 0) 0x87000000 0x87001000, freelist = 0x87000000, kend = 0x80021000,
     syms = \<lparr>etext = 0, trampoline = 0, uservec = 0, userret = 0, kernelvec = 0, forkret_addr = 0, usertrap_addr = 0\<rparr>\<rparr>"

lemma ex_kmem_list: "kmem_ready ex_kmem" "kmem_list ex_kmem [0x87000000, 0x87001000]"
proof -
  have "load64 (store64 (\<lambda>_. 0) 0x87000000 0x87001000) (0x87001000 :: uint64) = 0"
    by (subst load64_store64_apart) (simp_all add: apart_unat load64_zero)
  then show "kmem_list ex_kmem [0x87000000, 0x87001000]"
    by (simp add: kmem_list_def ex_kmem_def kpage_def aligned_def PHYSTOP_def KERNBASE_def)
  show "kmem_ready ex_kmem"
    by (simp add: kmem_ready_def lock_free_def intr_ok_def mach_defs ex_kmem_def)
qed

theorem kmem_no_double_allocation_witness:
  "let t = ex_kmem\<lparr>freelist := 0x87001000, phys := memset (phys ex_kmem) 0x87000000 5 4096\<rparr>; xs = [0x87000000, 0x87001000] in
   \<exists>ys. kmem_list t ys \<and> set ys \<inter> {0x87000000} = {} \<and> set ys \<union> {0x87000000} = set xs \<and>
    returns (kalloc t) (\<lambda>r u. if {0x87000000} = set xs then r = 0 else r \<in> set xs - {0x87000000})"
proof -
  have "kalloc ex_kmem = Ret 0x87000000 (ex_kmem\<lparr>freelist := 0x87001000, phys := memset (phys ex_kmem) 0x87000000 5 4096\<rparr>)"
    using kalloc_page [OF ex_kmem_list(1) refl] by (simp add: ex_kmem_def)
  then have "kmem_run ex_kmem (ex_kmem\<lparr>freelist := 0x87001000, phys := memset (phys ex_kmem) 0x87000000 5 4096\<rparr>)
      (if (0x87000000 :: uint64) = 0 then {} else insert 0x87000000 {})"
    by (rule kmem_run.alloc [OF kmem_run.start])
  from kmem_no_double_allocation [OF this ex_kmem_list] show ?thesis by (simp add: Let_def)
qed

text \<open>
  C22. Boot frees every page: \<^verbatim>\<open>kinit\<close> returns, its loop over memory included, with the lock of
  the allocator free and on the free list exactly the page-aligned addresses from the end of the
  kernel image up to \<^verbatim>\<open>PHYSTOP\<close>, each once.
\<close>

theorem kinit_frees_memory:
  assumes "intr_ok s" "freelist s = 0" "0 < kend s" "kend s \<le> PHYSTOP"
  shows "returns (kinit s) (\<lambda>_ t. lock_free t KmemLk \<and>
    (\<exists>ys. flist (phys t) (freelist t) ys \<and> distinct ys \<and> set ys = {a. aligned a \<and> kend s \<le> a \<and> a < PHYSTOP}))"
  using kinit_pages [OF assms] by (rule returns_mono) (auto simp: kmem_ready_def kmem_list_def)

theorem kinit_frees_memory_witness:
  "returns (kinit (ex_kmem\<lparr>freelist := 0\<rparr>)) (\<lambda>_ t. lock_free t KmemLk \<and>
    (\<exists>ys. flist (phys t) (freelist t) ys \<and> distinct ys \<and>
       set ys = {a. aligned a \<and> kend (ex_kmem\<lparr>freelist := 0\<rparr>) \<le> a \<and> a < PHYSTOP}))"
  by (rule kinit_frees_memory)
    (simp_all add: intr_ok_def mach_defs ex_kmem_def PHYSTOP_def KERNBASE_def)

section \<open>Copying\<close>

text \<open>
  C23. \<^verbatim>\<open>memmove\<close> copies the source as it was before the call, whether or not the regions overlap
  and in whichever order it runs: every byte of the destination gets the old byte of the source
  and every other byte is kept.
\<close>

theorem memmove_simultaneous:
  assumes "unat src + unat n < 2 ^ 64"
  shows "memmove m dst src n = (\<lambda>x. if unat (x - dst) < unat n then m (src + (x - dst)) else m x)"
  using memmove_moved [OF assms] by (simp add: moved_def)

theorem memmove_simultaneous_witness:
  "memmove (\<lambda>a. ucast a) 0x1003 0x1000 8 =
     (\<lambda>x. if unat (x - 0x1003) < unat (8 :: uint32) then ucast (0x1000 + (x - 0x1003) :: uint64) else ucast x)"
  by (rule memmove_simultaneous) simp

text \<open>
  C24. \<^verbatim>\<open>safestrcpy\<close> with a positive size writes only inside the buffer and leaves a terminated
  string there: the source up to its end, or cut to one byte less than the size.
\<close>

theorem safestrcpy_bounded:
  assumes "0 < n"
  shows "\<exists>k < nat n. is_cstr (safestrcpy s t n) k \<and> (\<forall>i < k. safestrcpy s t n i = t i) \<and>
     (k = nat n - 1 \<or> is_cstr t k) \<and> (\<forall>i. n \<le> int i \<longrightarrow> safestrcpy s t n i = s i)"
  using safestrcpy_cstr [OF assms, of s t] safestrcpy_frame [of n _ s t] by blast

theorem safestrcpy_bounded_witness:
  "\<exists>k < nat 16. is_cstr (safestrcpy (\<lambda>_. 7) (\<lambda>i. of_nat (20 - i)) 16) k \<and>
     (\<forall>i < k. safestrcpy (\<lambda>_. 7) (\<lambda>i. of_nat (20 - i)) 16 i = of_nat (20 - i)) \<and>
     (k = nat 16 - 1 \<or> is_cstr (\<lambda>i. of_nat (20 - i)) k) \<and>
     (\<forall>i. 16 \<le> int i \<longrightarrow> safestrcpy (\<lambda>_. 7) (\<lambda>i. of_nat (20 - i)) 16 i = 7)"
  by (rule safestrcpy_bounded) simp

end
