(* ===== verification/PathTheorems.thy ===== *)
theory PathTheorems
  imports FsDir
begin

text \<open>
  Path names: \<^verbatim>\<open>skipelem\<close> against a definition on lists, and \<^verbatim>\<open>namex\<close> against a walk
  along the list of the elements of the path.
\<close>

section \<open>Scans along a string\<close>

text \<open>The part of a terminated string from position \<open>i\<close> to its end at \<open>n\<close>.\<close>

definition rest_of :: "bytes \<Rightarrow> nat \<Rightarrow> nat \<Rightarrow> uint8 list" where
  "rest_of p n i = map p [i..<n]"

lemma rest_of_step: "i < n \<Longrightarrow> rest_of p n i = p i # rest_of p n (Suc i)"
  by (simp add: rest_of_def upt_conv_Cons)

lemma rest_of_end [simp]: "rest_of p n n = []"
  by (simp add: rest_of_def)

lemma length_rest_of [simp]: "length (rest_of p n i) = n - i"
  by (simp add: rest_of_def)

lemma rest_of_drop: "drop k (rest_of p n i) = rest_of p n (i + k)"
  by (simp add: rest_of_def drop_map)

lemma rest_of_nth: "k < n - i \<Longrightarrow> rest_of p n i ! k = p (i + k)"
  by (simp add: rest_of_def)

lemma scan_while_list:
  assumes "\<not> P (p n)"
  shows "i \<le> n \<Longrightarrow> scan_while P p i = Some (i + length (takeWhile P (rest_of p n i)))"
proof (induction "n - i" arbitrary: i)
  case 0
  then have "i = n" by simp
  then show ?case using assms by (subst scan_while.simps) simp
next
  case (Suc k)
  then have lt: "i < n" by simp
  show ?case
  proof (cases "P (p i)")
    case True
    then show ?thesis using Suc.hyps(1) [of "Suc i"] Suc.hyps(2) lt by (subst scan_while.simps) (simp add: rest_of_step [OF lt])
  next
    case False
    then show ?thesis by (subst scan_while.simps) (simp add: rest_of_step [OF lt])
  qed
qed

lemma rest_after:
  "rest_of p n (i + length (takeWhile P (rest_of p n i))) = dropWhile P (rest_of p n i)"
  by (metis rest_of_drop dropWhile_eq_drop)

lemma takeWhile_bound: "i \<le> n \<Longrightarrow> i + length (takeWhile P (rest_of p n i)) \<le> n"
  using length_takeWhile_le [of P "rest_of p n i"] by simp

section \<open>Elements of a path\<close>

text \<open>The first element of a path, and what is left after it and the slashes that follow it.\<close>

definition first_elem :: "uint8 list \<Rightarrow> (uint8 list \<times> uint8 list) option" where
  "first_elem cs =
     (case dropWhile (\<lambda>c. c = SLASH) cs of
        [] \<Rightarrow> None
      | ds \<Rightarrow> Some (takeWhile (\<lambda>c. c \<noteq> SLASH) ds, dropWhile (\<lambda>c. c = SLASH) (dropWhile (\<lambda>c. c \<noteq> SLASH) ds)))"

text \<open>An element in an array of \<^verbatim>\<open>DIRSIZ\<close> bytes: cut to its size, terminated when shorter.\<close>

definition put_name :: "bytes \<Rightarrow> uint8 list \<Rightarrow> bytes" where
  "put_name name e = (\<lambda>i. if i < min (length e) DIRSIZ then e ! i else if i = length e \<and> i < DIRSIZ then 0 else name i)"

lemma takeWhile_no_zero:
  assumes "is_cstr p n"
  shows "takeWhile (\<lambda>c. c \<noteq> SLASH \<and> c \<noteq> 0) (rest_of p n i) = takeWhile (\<lambda>c. c \<noteq> SLASH) (rest_of p n i)"
  by (rule takeWhile_cong [OF refl]) (use assms in \<open>auto simp: rest_of_def is_cstr_def\<close>)

lemma skipelem_eq:
  assumes p: "is_cstr path n" and i: "i \<le> n"
  shows "skipelem path i name =
    Some (case first_elem (rest_of path n i) of
            None \<Rightarrow> None
          | Some (e, r) \<Rightarrow> Some (n - length r, put_name name e))"
proof -
  let ?S = "\<lambda>c. c = SLASH" and ?N = "\<lambda>c. c \<noteq> SLASH \<and> c \<noteq> 0"
  have end0: "path n = 0" using p by (simp add: is_cstr_def)
  have S: "\<not> ?S (path n)" and N: "\<not> ?N (path n)" using end0 by (simp_all add: SLASH_def)
  define j where "j = i + length (takeWhile ?S (rest_of path n i))"
  have j: "scan_while ?S path i = Some j" "j \<le> n" "rest_of path n j = dropWhile ?S (rest_of path n i)"
    using scan_while_list [of ?S path n, OF S i] takeWhile_bound [OF i, of ?S] rest_after [of path n i ?S] by (simp_all add: j_def)
  show ?thesis
  proof (cases "j = n")
    case True
    then have "first_elem (rest_of path n i) = None" using j(3) by (simp add: first_elem_def)
    then show ?thesis using j(1) True end0 by (simp add: skipelem_def)
  next
    case False
    then have lt: "j < n" using j(2) by simp
    have nz: "path j \<noteq> 0" using p lt by (simp add: is_cstr_def)
    define e where "e = takeWhile ?N (rest_of path n j)"
    define k where "k = j + length e"
    have k: "scan_while ?N path j = Some k" "k \<le> n" "rest_of path n k = dropWhile ?N (rest_of path n j)"
      using scan_while_list [of ?N path n, OF N j(2)] takeWhile_bound [OF j(2), of ?N] rest_after [of path n j ?N] by (simp_all add: k_def e_def)
    define l where "l = k + length (takeWhile ?S (rest_of path n k))"
    have l: "scan_while ?S path k = Some l" "l \<le> n" "rest_of path n l = dropWhile ?S (rest_of path n k)"
      using scan_while_list [of ?S path n, OF S k(2)] takeWhile_bound [OF k(2), of ?S] rest_after [of path n k ?S] by (simp_all add: l_def)
    have dn: "dropWhile ?N (rest_of path n j) = dropWhile (\<lambda>c. c \<noteq> SLASH) (rest_of path n j)"
      by (simp only: dropWhile_eq_drop takeWhile_no_zero [OF p])
    have fe: "first_elem (rest_of path n i) = Some (e, rest_of path n l)"
      unfolding first_elem_def j(3) [symmetric] l(3) k(3) dn e_def takeWhile_no_zero [OF p]
      using rest_of_step [OF lt] by (simp split: list.split)
    have ek: "e ! m = path (j + m)" if "m < length e" for m
      using that takeWhile_nth [of m ?N "rest_of path n j"] length_takeWhile_le [of ?N "rest_of path n j"]
      by (simp add: e_def rest_of_nth)
    have "(if DIRSIZ \<le> k - j then copy_bytes name 0 path j DIRSIZ else (copy_bytes name 0 path j (k - j))(k - j := 0)) = put_name name e"
      by (auto simp: put_name_def copy_bytes_def k_def ek fun_eq_iff)
    moreover have "n - length (rest_of path n l) = l" using l(2) by simp
    ultimately show ?thesis using fe j(1) k(1) l(1) nz by (simp add: skipelem_def Let_def)
  qed
qed

text \<open>
  C30. \<^verbatim>\<open>skipelem\<close> agrees with the splitting of the rest of the path on lists: it skips slashes,
  returns nothing when the path is exhausted, and otherwise stores the bytes up to the next slash,
  cut to \<^verbatim>\<open>DIRSIZ\<close> and terminated when there is room, and moves past the slashes that follow.
\<close>

theorem skipelem_splits:
  assumes "is_cstr path n" "i \<le> n"
  shows "skipelem path i name =
    Some (case first_elem (map path [i..<n]) of
            None \<Rightarrow> None
          | Some (e, r) \<Rightarrow> Some (n - length r, put_name name e))"
  using skipelem_eq [OF assms] by (simp add: rest_of_def)

definition ex_path :: bytes where
  "ex_path = (\<lambda>i. if i < 9 then [47, 47, 97, 47, 47, 98, 99, 47, 100] ! i else 0)"

lemma ex_path_cstr: "is_cstr ex_path 9"
proof -
  have "ex_path i \<noteq> 0" if "i < 9" for i
    using that by (simp add: ex_path_def less_Suc_eq numeral_eq_Suc) auto
  then show ?thesis by (simp add: is_cstr_def ex_path_def)
qed

theorem skipelem_splits_witness:
  "skipelem ex_path 0 (\<lambda>_. 0) =
    Some (case first_elem (map ex_path [0..<9]) of
            None \<Rightarrow> None
          | Some (e, r) \<Rightarrow> Some (9 - length r, put_name (\<lambda>_. 0) e)) \<and>
   first_elem (map ex_path [0..<9]) = Some ([97], [98, 99, 47, 100])"
  using skipelem_splits [OF ex_path_cstr, of 0 "\<lambda>_. 0"]
  by (simp add: first_elem_def ex_path_def upt_conv_Cons SLASH_def)

section \<open>The walk of namex\<close>

text \<open>The elements of a path: the pieces between slashes that are not empty.\<close>

fun slash_split :: "uint8 list \<Rightarrow> uint8 list list" where
  "slash_split [] = [[]]"
| "slash_split (c # cs) = (if c = SLASH then [] # slash_split cs else (c # hd (slash_split cs)) # tl (slash_split cs))"

definition path_elems :: "uint8 list \<Rightarrow> uint8 list list" where
  "path_elems cs = filter (\<lambda>e. e \<noteq> []) (slash_split cs)"

text \<open>
  One step into a directory: lock it, check that it is one, look the name up, unlock and drop it. A
  walk follows names from an inode; the inode returned carries a reference.
\<close>

definition enter_dir :: "nat \<Rightarrow> bytes \<Rightarrow> 'z fsst_scheme \<Rightarrow> (nat option, 'z fsst_scheme) outcome" where
  "enter_dir dp name s =
     kbind (ilock (Some dp) s) (\<lambda>_ s.
     kbind (if i_type (itab s dp) = T_DIR then kbind (dirlookup dp name (\<lambda>_. 0) s) (\<lambda>r s. Ret (map_option fst r) s)
            else Ret None s) (\<lambda>r s.
     kbind (iunlockput (Some dp) s) (\<lambda>_ s. Ret r s)))"

fun follow :: "nat \<Rightarrow> uint8 list list \<Rightarrow> bytes \<Rightarrow> 'z fsst_scheme \<Rightarrow> (nat option \<times> bytes, 'z fsst_scheme) outcome" where
  "follow ip [] name s = Ret (Some ip, name) s"
| "follow ip (e # es) name s =
     kbind (enter_dir ip (put_name name e) s) (\<lambda>r s.
       case r of None \<Rightarrow> Ret (None, put_name name e) s | Some nxt \<Rightarrow> follow nxt es (put_name name e) s)"

text \<open>
  The parent of a path: follow all elements but the last, check that this leads to a directory, and
  leave the last element in the array. A path without elements has no parent.
\<close>

definition check_dir :: "nat \<Rightarrow> bytes \<Rightarrow> 'z fsst_scheme \<Rightarrow> (nat option \<times> bytes, 'z fsst_scheme) outcome" where
  "check_dir dp name s =
     kbind (ilock (Some dp) s) (\<lambda>_ s.
       if i_type (itab s dp) = T_DIR then kbind (iunlock (Some dp) s) (\<lambda>_ s. Ret (Some dp, name) s)
       else kbind (iunlockput (Some dp) s) (\<lambda>_ s. Ret (None, name) s))"

definition follow_parent :: "nat \<Rightarrow> uint8 list list \<Rightarrow> bytes \<Rightarrow> 'z fsst_scheme \<Rightarrow> (nat option \<times> bytes, 'z fsst_scheme) outcome" where
  "follow_parent ip es name s =
     (if es = [] then kbind (iput ip s) (\<lambda>_ s. Ret (None, name) s)
      else kbind (follow ip (butlast es) name s) (\<lambda>(r, name) s.
             case r of None \<Rightarrow> Ret (None, name) s | Some dp \<Rightarrow> check_dir dp (put_name name (last es)) s))"

lemma slash_split_nonempty [simp]: "slash_split cs \<noteq> []"
  by (cases cs) auto

lemma elems_skip_slashes: "path_elems (dropWhile (\<lambda>c. c = SLASH) cs) = path_elems cs"
  by (induction cs) (auto simp: path_elems_def)

lemma slash_split_word:
  "slash_split cs = takeWhile (\<lambda>c. c \<noteq> SLASH) cs # (case dropWhile (\<lambda>c. c \<noteq> SLASH) cs of [] \<Rightarrow> [] | _ # ds \<Rightarrow> slash_split ds)"
  by (induction cs) auto

lemma elems_word:
  assumes "d \<noteq> SLASH"
  shows "path_elems (d # ds) = takeWhile (\<lambda>c. c \<noteq> SLASH) (d # ds) # path_elems (dropWhile (\<lambda>c. c \<noteq> SLASH) (d # ds))"
proof -
  define w t where "w = takeWhile (\<lambda>c. c \<noteq> SLASH) (d # ds)" and "t = dropWhile (\<lambda>c. c \<noteq> SLASH) (d # ds)"
  have w: "w \<noteq> []" using assms by (simp add: w_def)
  have sp: "slash_split (d # ds) = w # (case t of [] \<Rightarrow> [] | _ # xs \<Rightarrow> slash_split xs)"
    unfolding w_def t_def by (rule slash_split_word)
  have "x = SLASH" if "t = x # xs" for x xs
    using that hd_dropWhile [of "\<lambda>c. c \<noteq> SLASH" "d # ds"] by (simp add: t_def)
  then have "path_elems t = filter (\<lambda>e. e \<noteq> []) (case t of [] \<Rightarrow> [] | _ # xs \<Rightarrow> slash_split xs)"
    by (cases t) (auto simp: path_elems_def)
  then show ?thesis unfolding w_def [symmetric] t_def [symmetric] path_elems_def sp using w by simp
qed

lemma first_elem_elems:
  "first_elem cs = None \<Longrightarrow> path_elems cs = []"
  "first_elem cs = Some (e, r) \<Longrightarrow> path_elems cs = e # path_elems r \<and> (path_elems r = [] \<longleftrightarrow> r = []) \<and> length r < length cs"
proof -
  let ?ds = "dropWhile (\<lambda>c. c = SLASH) cs"
  show "path_elems cs = []" if "first_elem cs = None"
  proof -
    have "?ds = []" using that by (auto simp: first_elem_def split: list.splits)
    then have "path_elems cs = path_elems []" using elems_skip_slashes [of cs] by (simp only:)
    then show ?thesis by (simp add: path_elems_def)
  qed
  assume fe: "first_elem cs = Some (e, r)"
  then obtain d ds where d: "?ds = d # ds" "d \<noteq> SLASH" and e: "e = takeWhile (\<lambda>c. c \<noteq> SLASH) (d # ds)"
      and r: "r = dropWhile (\<lambda>c. c = SLASH) (dropWhile (\<lambda>c. c \<noteq> SLASH) (d # ds))"
    by (auto simp: first_elem_def dropWhile_eq_Cons_conv split: list.splits)
  have "path_elems cs = path_elems (d # ds)" using elems_skip_slashes [of cs] d(1) by simp
  also have "\<dots> = e # path_elems r" unfolding elems_word [OF d(2)] e r elems_skip_slashes ..
  finally have 1: "path_elems cs = e # path_elems r" .
  have "path_elems r \<noteq> []" if ne: "r \<noteq> []"
  proof -
    obtain x xs where x: "r = x # xs" using ne by (cases r) auto
    then have "x \<noteq> SLASH" using hd_dropWhile [of "\<lambda>c. c = SLASH" "dropWhile (\<lambda>c. c \<noteq> SLASH) (d # ds)"] r by simp
    then show ?thesis unfolding x by (simp add: elems_word)
  qed
  moreover have "length r < length cs"
  proof -
    have "length r \<le> length ds"
      using d(2) length_dropWhile_le [of "\<lambda>c. c = SLASH" "dropWhile (\<lambda>c. c \<noteq> SLASH) (d # ds)"] length_dropWhile_le [of "\<lambda>c. c \<noteq> SLASH" ds]
      by (simp add: r)
    moreover have "length (d # ds) \<le> length cs" using d(1) length_dropWhile_le [of "\<lambda>c. c = SLASH" cs] by simp
    ultimately show ?thesis by simp
  qed
  ultimately show "path_elems cs = e # path_elems r \<and> (path_elems r = [] \<longleftrightarrow> r = []) \<and> length r < length cs"
    using 1 by (auto simp: path_elems_def)
qed

lemma first_elem_rest: "first_elem (rest_of p n i) = Some (e, r) \<Longrightarrow> r = rest_of p n (n - length r)"
proof -
  let ?S = "\<lambda>c. c = SLASH" and ?N = "\<lambda>c. c \<noteq> SLASH"
  assume "first_elem (rest_of p n i) = Some (e, r)"
  then have r: "r = dropWhile ?S (dropWhile ?N (dropWhile ?S (rest_of p n i)))"
    by (auto simp: first_elem_def split: list.splits)
  obtain k where k: "r = rest_of p n (i + k)"
    unfolding r by (simp only: dropWhile_eq_drop [of _ "rest_of p n _"] rest_of_drop add.assoc)
  then show ?thesis by (cases "i + k \<le> n") (simp_all add: rest_of_def)
qed

lemma obind_Some_eq: "(\<And>x t. m = Ret x t \<Longrightarrow> f x t = Some (g x t)) \<Longrightarrow> obind m f = Some (kbind m g)"
  by (cases m) (simp_all add: obind_def)

lemma obind_simps: "obind (Ret x s) f = f x s" "obind (kbind m k) f = obind m (\<lambda>x s. obind (k x s) f)"
  by (simp add: obind_def) (cases m; simp add: obind_def)

lemma obind_cong_Ret: "(\<And>x t. f x t = g x t) \<Longrightarrow> obind m f = obind m g"
  by (cases m) (simp_all add: obind_def)

text \<open>One turn of the loop, on a terminated path.\<close>

lemma namex_loop_turn:
  fixes s :: "'a fsst_scheme"
  assumes p: "is_cstr path n" "i \<le> n"
  shows "namex_loop ip path i par name s =
    (case first_elem (rest_of path n i) of
       None \<Rightarrow> Some (if par then kbind (iput ip s) (\<lambda>_ s. Ret (None, name) s) else Ret (Some ip, name) s)
     | Some (e, r) \<Rightarrow>
         if par \<and> r = [] then Some (check_dir ip (put_name name e) s)
         else obind (enter_dir ip (put_name name e) s) (\<lambda>x s.
           case x of None \<Rightarrow> Some (Ret (None, put_name name e) s)
                   | Some nxt \<Rightarrow> namex_loop nxt path (n - length r) par (put_name name e) s))"
proof (cases "first_elem (rest_of path n i)")
  case None
  then show ?thesis by (subst namex_loop.simps) (simp add: skipelem_eq [OF p])
next
  case (Some er)
  obtain e r where er: "er = (e, r)" by (cases er)
  have "r = rest_of path n (n - length r)" using first_elem_rest Some er by blast
  then have len: "length r \<le> n" by (metis length_rest_of diff_le_self)
  have z: "path (n - length r) = 0 \<longleftrightarrow> r = []"
    using p(1) len by (cases r) (auto simp: is_cstr_def)
  let ?nm = "put_name name e"
  have turn: "namex_loop ip path i par name s =
      obind (ilock (Some ip) s) (\<lambda>_ s.
        if i_type (itab s ip) \<noteq> T_DIR then Some (kbind (iunlockput (Some ip) s) (\<lambda>_ s. Ret (None, ?nm) s))
        else if par \<and> r = [] then Some (kbind (iunlock (Some ip) s) (\<lambda>_ s. Ret (Some ip, ?nm) s))
        else obind (dirlookup ip ?nm (\<lambda>_. 0) s) (\<lambda>x s.
          case x of None \<Rightarrow> Some (kbind (iunlockput (Some ip) s) (\<lambda>_ s. Ret (None, ?nm) s))
          | Some (nxt, _) \<Rightarrow> obind (iunlockput (Some ip) s) (\<lambda>_ s. namex_loop nxt path (n - length r) par ?nm s)))"
    by (subst namex_loop.simps) (simp only: skipelem_eq [OF p] Some er z option.case prod.case)
  show ?thesis
  proof (cases "par \<and> r = []")
    case True
    then show ?thesis unfolding turn Some er option.case prod.case if_P [OF True] check_dir_def
      by (intro obind_Some_eq) simp
  next
    case False
    have step: "obind (if i_type (itab t ip) = T_DIR then kbind (dirlookup ip ?nm (\<lambda>_. 0) t) (\<lambda>r s. Ret (map_option fst r) s) else Ret None t)
          (\<lambda>r s. obind (iunlockput (Some ip) s) (\<lambda>_ s. case r of None \<Rightarrow> Some (Ret (None, ?nm) s) | Some nxt \<Rightarrow> L nxt s)) =
        (if i_type (itab t ip) \<noteq> T_DIR then Some (kbind (iunlockput (Some ip) t) (\<lambda>_ s. Ret (None, ?nm) s))
         else obind (dirlookup ip ?nm (\<lambda>_. 0) t) (\<lambda>x s.
           case x of None \<Rightarrow> Some (kbind (iunlockput (Some ip) s) (\<lambda>_ s. Ret (None, ?nm) s))
           | Some (nxt, _) \<Rightarrow> obind (iunlockput (Some ip) s) (\<lambda>_ s. L nxt s)))" for t and L :: "nat \<Rightarrow> 'a fsst_scheme \<Rightarrow> _"
      by (auto simp: obind_simps obind_Some intro!: obind_cong_Ret split: option.split)
    show ?thesis unfolding turn Some er option.case prod.case if_not_P [OF False] enter_dir_def obind_simps
      by (intro obind_cong_Ret) (rule step [of _ "\<lambda>nxt s. namex_loop nxt path (n - length r) par ?nm s", symmetric])
  qed
qed

lemma namex_loop_follow:
  fixes s :: "'a fsst_scheme"
  assumes p: "is_cstr path n"
  shows "i \<le> n \<Longrightarrow> namex_loop ip path i par name s =
    Some (if par then follow_parent ip (path_elems (rest_of path n i)) name s else follow ip (path_elems (rest_of path n i)) name s)"
proof (induction "n - i" arbitrary: i ip name s rule: less_induct)
  case less
  note turn = namex_loop_turn [OF p less.prems, of ip par name s]
  show ?case
  proof (cases "first_elem (rest_of path n i)")
    case None
    then show ?thesis using turn first_elem_elems(1) [OF None] by (simp add: follow_parent_def)
  next
    case (Some er)
    obtain e r where er: "er = (e, r)" by (cases er)
    note fe = first_elem_elems(2) [OF Some [unfolded er]]
    have r: "r = rest_of path n (n - length r)" using first_elem_rest Some er by blast
    have lt: "n - (n - length r) < n - i" using fe by auto
    have IH: "namex_loop ip' path (n - length r) par nm u =
        Some (if par then follow_parent ip' (path_elems r) nm u else follow ip' (path_elems r) nm u)" for ip' nm and u :: "'a fsst_scheme"
      using less.hyps [OF lt diff_le_self, of ip' nm u] r by simp
    show ?thesis
    proof (cases "par \<and> r = []")
      case True
      then have "path_elems (rest_of path n i) = [e]" using fe by simp
      then show ?thesis using turn Some er True by (simp add: follow_parent_def)
    next
      case False
      have "namex_loop ip path i par name s = Some (kbind (enter_dir ip (put_name name e) s) (\<lambda>x s.
          case x of None \<Rightarrow> Ret (None, put_name name e) s
                  | Some nxt \<Rightarrow> if par then follow_parent nxt (path_elems r) (put_name name e) s else follow nxt (path_elems r) (put_name name e) s))"
        unfolding turn Some er option.case prod.case if_not_P [OF False]
        by (rule obind_Some_eq) (simp add: IH split: option.split)
      moreover have "follow_parent ip (e # path_elems r) name s = kbind (enter_dir ip (put_name name e) s) (\<lambda>x s.
          case x of None \<Rightarrow> Ret (None, put_name name e) s | Some nxt \<Rightarrow> follow_parent nxt (path_elems r) (put_name name e) s)" if par
        using that False fe
        by (auto simp: follow_parent_def kbind_assoc intro!: kbind_cong split: option.split)
      ultimately show ?thesis using fe by (cases par) (simp_all cong: option.case_cong)
    qed
  qed
qed

text \<open>
  C31. \<^verbatim>\<open>namex\<close> returns on every terminated path, and does what its name says. Its loop ends,
  however long the path. Without \<^verbatim>\<open>nameiparent\<close> it follows the elements of the path, the pieces
  between its slashes, from the root or the current directory: at each it locks the inode, checks that
  it is a directory, looks the element up, and unlocks and drops the inode, whether or not the
  look-up succeeds. With \<^verbatim>\<open>nameiparent\<close> it follows all elements but the last, checks that
  they lead to a directory, and leaves the last element in \<^verbatim>\<open>name\<close>; a path without elements
  has no parent.
\<close>

theorem namex_follows_path:
  assumes "is_cstr path n"
  shows "namex_loop ip path 0 par name s \<noteq> None \<and>
    namex path par name s =
      kbind (if path 0 = SLASH then iget ROOTDEV ROOTINO s
             else kbind (curproc s) (\<lambda>p s. case cwd (proc s p) of None \<Rightarrow> Panic ''kerneltrap'' | Some ip \<Rightarrow> idup ip s)) (\<lambda>ip s.
        if par then follow_parent ip (path_elems (map path [0..<n])) name s else follow ip (path_elems (map path [0..<n])) name s)"
  unfolding namex_def namex_loop_follow [OF assms le0] rest_of_def option.case by simp

theorem namex_follows_path_witness:
  "path_elems (map ex_path [0..<9]) = [[97], [98, 99], [100]] \<and>
   (\<forall>s :: fsst. namex ex_path True (\<lambda>_. 0) s =
      kbind (iget ROOTDEV ROOTINO s) (\<lambda>ip s.
      kbind (follow ip [[97], [98, 99]] (\<lambda>_. 0) s) (\<lambda>(r, name) s.
        case r of None \<Rightarrow> Ret (None, name) s | Some dp \<Rightarrow> check_dir dp (put_name name [100]) s)))"
proof -
  have e: "path_elems (map ex_path [0..<9]) = [[97], [98, 99], [100]]"
    by (simp add: path_elems_def ex_path_def upt_conv_Cons SLASH_def)
  have l: "last [[97], [98, 99], [100 :: uint8]] = [100]" "butlast [[97], [98, 99], [100 :: uint8]] = [[97], [98, 99]]"
    "[[97], [98, 99], [100 :: uint8]] \<noteq> []" by simp_all
  have "ex_path 0 = SLASH" by (simp add: ex_path_def SLASH_def)
  then have "namex ex_path True (\<lambda>_. 0) s =
      kbind (iget ROOTDEV ROOTINO s) (\<lambda>ip s. follow_parent ip [[97], [98, 99], [100]] (\<lambda>_. 0) s)" for s :: fsst
    using namex_follows_path [OF ex_path_cstr, THEN conjunct2, of True "\<lambda>_. 0" s] e by simp
  then show ?thesis using e unfolding follow_parent_def l(1,2) if_not_P [OF l(3)] by blast
qed

end
