(* ===== verification/Trans.thy ===== *)
theory Trans
  imports Fs LogTheorems
begin

text \<open>
  The file system inside a transaction: the pattern in which \<^verbatim>\<open>kernel/fs.c\<close> changes a block
  (read it, change it, \<^verbatim>\<open>log_write\<close>, release) is one update of the map from block numbers to
  contents, and what \<^verbatim>\<open>bzero\<close>, \<^verbatim>\<open>balloc\<close>, \<^verbatim>\<open>bfree\<close>, \<^verbatim>\<open>iupdate\<close> and
  \<^verbatim>\<open>ialloc\<close> do follows from it.
\<close>

section \<open>Inside a transaction\<close>

text \<open>
  The file system at rest as far as its blocks go: the references to blocks are those of the header
  of the log and of the buffers that are locked.
\<close>

definition fs_ready :: "nat \<Rightarrow> 'z logst_scheme \<Rightarrow> bool" where
  "fs_ready p s = (bio_inv p s \<and> log_ok s \<and>
     (\<forall>b. brefs (blocks_of s) b = (if b \<in> home_blocks s then 1 else 0) + (if b \<in> blocked (blocks_of s) then 1 else 0)) \<and>
     (\<forall>b. sized (bcontents (blocks_of s) b)))"

definition trans_frame :: "'z logst_scheme \<Rightarrow> 'z logst_scheme \<Rightarrow> bool" where
  "trans_frame s t = (\<exists>L B X n. t = s\<lparr>sleeplk := L, bufs := B, lh_block := X, lh_n := n\<rparr>)"

lemma trans_frame_refl [simp]: "trans_frame s s"
  unfolding trans_frame_def
  by (rule exI [of _ "sleeplk s"], rule exI [of _ "bufs s"], rule exI [of _ "lh_block s"], rule exI [of _ "lh_n s"]) simp

lemma trans_frame_trans: "trans_frame s t \<Longrightarrow> trans_frame t u \<Longrightarrow> trans_frame s u"
  by (auto simp: trans_frame_def) blast

lemma trans_frame_cache:
  assumes "cache_frame s t" "bdisk (blocks_of t) = bdisk (blocks_of s)" "bwrites (blocks_of t) = bwrites (blocks_of s)"
  shows "trans_frame s t"
proof -
  obtain L B D T where t: "t = s\<lparr>sleeplk := L, bufs := B, disk := D, dtrace := T\<rparr>"
    using assms(1) by (auto simp: cache_frame_def)
  then have "D = disk s" "T = dtrace s" using assms(2,3) by (simp_all add: blocks_of_def)
  then have "t = s\<lparr>sleeplk := L, bufs := B, lh_block := lh_block s, lh_n := lh_n s\<rparr>" using t by simp
  then show ?thesis unfolding trans_frame_def by blast
qed

lemma trans_frame_fields:
  assumes "trans_frame s t"
  shows "lg_start t = lg_start s" "lg_outstanding t = lg_outstanding s" "lg_dev t = lg_dev s" "proc t = proc s"
    "log_area t = log_area s" "disk t = disk s" "lg_committing t = lg_committing s" "phys t = phys s" "cpus t = cpus s"
  using assms by (auto simp: trans_frame_def log_area_def log_blk_def image_def)

lemma trans_frame_fs:
  assumes "trans_frame s (t :: 'z fsst_scheme)"
  shows "sb t = sb s" "itab t = itab s"
  using assms by (auto simp: trans_frame_def)

lemma home_blocks_cache: "cache_frame s t \<Longrightarrow> home_blocks t = home_blocks s"
  by (simp add: home_blocks_def cache_frame_log)

lemma home_card:
  assumes "log_ok s"
  shows "card (home_blocks s) = nat (lh_n s)" "finite (home_blocks s)"
  using assms by (simp_all add: log_ok_def home_blocks_def card_image)

text \<open>A buffer for one more block: it is already cached, or not every buffer is in use.\<close>

definition has_room :: "'z logst_scheme \<Rightarrow> uint32 \<Rightarrow> bool" where
  "has_room s b = (b \<in> home_blocks s \<or> nat (lh_n s) + card (blocked (blocks_of s)) < NBUF)"

lemma trans_in_use:
  assumes "fs_ready p s"
  shows "in_use (blocks_of s) = home_blocks s \<union> blocked (blocks_of s)"
  using assms by (auto simp: in_use_def fs_ready_def)

definition may_read :: "'z logst_scheme \<Rightarrow> uint32 \<Rightarrow> bool" where
  "may_read s b = (b \<notin> blocked (blocks_of s) \<and> has_room s b)"

lemma trans_readable:
  assumes "fs_ready p s" "may_read s b"
  shows "readable (blocks_of s) b"
proof -
  have ok: "log_ok s" and r: "brefs (blocks_of s) b = (if b \<in> home_blocks s then 1 else 0)"
    using assms(1,2) by (simp_all add: fs_ready_def may_read_def)
  have "card (in_use (blocks_of s)) \<le> nat (lh_n s) + card (blocked (blocks_of s))"
    using card_Un_le [of "home_blocks s" "blocked (blocks_of s)"] home_card [OF ok] by (simp add: trans_in_use [OF assms(1)])
  then show ?thesis using assms(2) r by (auto simp: readable_def has_room_def may_read_def)
qed

lemma fs_ready_same:
  assumes "fs_ready p s" "bio_inv p t" "cache_frame s t" "blocks_of t = blocks_of s"
  shows "fs_ready p t"
  using assms by (simp add: fs_ready_def log_ok_frame(1) [OF assms(3)] home_blocks_cache [OF assms(3)] cache_frame_log [OF assms(3)])

text \<open>Looking at a block.\<close>

lemma trans_read:
  assumes "fs_ready p s" "may_read s b"
  shows "\<exists>i t u. bread ROOTDEV b s = Ret i t \<and> bdata (bufs t i) = bcontents (blocks_of s) b \<and> trans_frame s t \<and>
     brelse i t = Ret () u \<and> fs_ready p u \<and> trans_frame s u \<and> blocks_of u = blocks_of s \<and> home_blocks u = home_blocks s \<and> lh_n u = lh_n s"
proof -
  have inv: "bio_inv p s" using assms(1) by (simp add: fs_ready_def)
  note rd = trans_readable [OF assms]
  obtain i t where t: "bread ROOTDEV b s = Ret i t" "bio_inv p t" "cache_frame s t" "blocks_of t = a_read b (blocks_of s)" "held t i b"
    using bc.read_ok [OF inv rd] by blast
  obtain i' t' u where "bread ROOTDEV b s = Ret i' t'" and u: "bdata (bufs t' i') = bcontents (blocks_of s) b"
      "brelse i' t' = Ret () u" "bio_inv p u" "cache_frame s u" "blocks_of u = blocks_of s"
    using bc.read_block [OF inv rd] by blast
  then have eq: "i' = i" "t' = t" using t(1) by simp_all
  have "trans_frame s t" by (rule trans_frame_cache [OF t(3)]) (simp_all add: t(4) a_read_def)
  moreover have "trans_frame s u" by (rule trans_frame_cache [OF u(4)]) (simp_all add: u(5))
  moreover have "fs_ready p u" by (rule fs_ready_same [OF assms(1) u(3,4,5)])
  ultimately show ?thesis
    using t(1) u eq home_blocks_cache [OF u(4)] cache_frame_log [OF u(4)] by (intro exI [of _ i] exI [of _ t] exI [of _ u]) simp
qed

text \<open>Changing a block: read, change, record in the log, release.\<close>

lemma trans_update:
  assumes tr: "fs_ready p s" and b: "b \<notin> blocked (blocks_of s)" "b \<notin> log_area s" and room: "has_room s b" "lh_n s < LOGBLOCKS"
    and out: "1 \<le> lg_outstanding s" and sz: "sized d"
  shows "\<exists>i t u v. bread ROOTDEV b s = Ret i t \<and> bdata (bufs t i) = bcontents (blocks_of s) b \<and> trans_frame s t \<and>
     log_write i (put_data i d t) = Ret () u \<and> brelse i u = Ret () v \<and> fs_ready p v \<and> trans_frame s v \<and>
     bcontents (blocks_of v) = (bcontents (blocks_of s))(b := d) \<and> bdisk (blocks_of v) = bdisk (blocks_of s) \<and>
     blocked (blocks_of v) = blocked (blocks_of s) \<and> home_blocks v = insert b (home_blocks s) \<and>
     lh_n v = lh_n s + (if b \<in> home_blocks s then 0 else 1)"
proof -
  have inv: "bio_inv p s" and ok: "log_ok s"
    and rf: "\<And>b. brefs (blocks_of s) b = (if b \<in> home_blocks s then 1 else 0) + (if b \<in> blocked (blocks_of s) then 1 else 0)"
    and szs: "\<And>b. sized (bcontents (blocks_of s) b)"
    using tr by (simp_all add: fs_ready_def)
  obtain i t where t: "bread ROOTDEV b s = Ret i t" "bio_inv p t" "cache_frame s t" "blocks_of t = a_read b (blocks_of s)" "held t i b"
    using bc.read_ok [OF inv trans_readable [OF tr, of b]] b(1) room(1) by (auto simp: may_read_def)
  have ft: "trans_frame s t" by (rule trans_frame_cache [OF t(3)]) (simp_all add: t(4) a_read_def)
  have dt: "bdata (bufs t i) = bcontents (blocks_of s) b" using bc.dat_hold [OF t(2,5)] t(4) by (simp add: a_read_def)
  define w where "w = put_data i d t"
  have w: "bio_inv p w" "cache_frame t w" "blocks_of w = a_modify b d (blocks_of t)" "held w i b"
    using modify_refines [OF t(2,5), where d = d] t(5) by (simp_all add: w_def)
  have sw: "cache_frame s w" using t(3) w(2) by (rule cache_frame_trans)
  note fw = cache_frame_log [OF sw] log_ok_frame [OF sw]
  have hw: "home_blocks w = home_blocks s" by (rule home_blocks_cache [OF sw])
  have fsw: "trans_frame s w" by (rule trans_frame_cache [OF sw]) (simp_all add: w(3) t(4) a_defs)
  have okw: "log_ok w" "b \<notin> log_area w" "lh_n w = lh_n s" "1 \<le> lg_outstanding w" "lh_n w < LOGBLOCKS"
    using ok b room out by (simp_all add: fw)
  have rw: "brefs (blocks_of w) b + 1 \<noteq> 0" using b(1) rf [of b] by (simp add: w(3) t(4) a_defs)
  have "\<exists>u. log_write i w = Ret () u \<and> bio_inv p u \<and> log_ok u \<and> home_blocks u = insert b (home_blocks s) \<and>
     lh_n u = lh_n s + (if b \<in> home_blocks s then 0 else 1) \<and>
     blocks_of u = (if b \<in> home_blocks s then blocks_of w else a_pin b (blocks_of w)) \<and> trans_frame w u \<and> held u i b"
  proof (cases "b \<in> home_blocks s")
    case True
    then have "log_write i w = Ret () w" using log_write_again [OF w(1,4) _ okw(5,4)] hw by simp
    with True w okw hw show ?thesis by (auto simp: insert_absorb)
  next
    case False
    then obtain u B X where u: "log_write i w = Ret () u" "bio_inv p u" "log_ok u" "home_blocks u = insert b (home_blocks w)"
      "lh_n u = lh_n w + 1" "blocks_of u = a_pin b (blocks_of w)" "held u i b"
      "u = w\<lparr>bufs := B, lh_block := X, lh_n := lh_n w + 1\<rparr>"
      using log_write_new [OF w(1,4) okw(1,2) _ okw(5,4) rw] hw w(4) by blast
    have "u = w\<lparr>sleeplk := sleeplk w, bufs := B, lh_block := X, lh_n := lh_n w + 1\<rparr>" by (simp add: u(8))
    then have "trans_frame w u" unfolding trans_frame_def by blast
    with u False hw okw(3) show ?thesis by auto
  qed
  then obtain u where u: "log_write i w = Ret () u" "bio_inv p u" "log_ok u" "home_blocks u = insert b (home_blocks s)"
     "lh_n u = lh_n s + (if b \<in> home_blocks s then 0 else 1)"
     "blocks_of u = (if b \<in> home_blocks s then blocks_of w else a_pin b (blocks_of w))" "trans_frame w u" "held u i b" by blast
  have "brefs (blocks_of u) b = 2" using b(1) rf [of b] by (simp add: u(6) w(3) t(4) a_defs)
  then have "brefs (blocks_of u) b = 1 \<Longrightarrow> bcontents (blocks_of u) b = bdisk (blocks_of u) b" by simp
  then obtain v where v: "brelse i u = Ret () v" "bio_inv p v" "cache_frame u v" "blocks_of v = a_release b (blocks_of u)"
    using bc.release_ok [OF u(2,8)] by blast
  have fv: "trans_frame u v" by (rule trans_frame_cache [OF v(3)]) (simp_all add: v(4) a_defs)
  have sv: "trans_frame s v" using fsw u(7) fv trans_frame_trans by blast
  have hv: "home_blocks v = insert b (home_blocks s)" "lh_n v = lh_n u" "log_ok v"
    using home_blocks_cache [OF v(3)] cache_frame_log [OF v(3)] log_ok_frame [OF v(3)] u(3,4) by simp_all
  have bl: "bcontents (blocks_of v) = (bcontents (blocks_of s))(b := d)" "bdisk (blocks_of v) = bdisk (blocks_of s)"
      "blocked (blocks_of v) = blocked (blocks_of s)"
      "brefs (blocks_of v) c = (if c \<in> home_blocks v then 1 else 0) + (if c \<in> blocked (blocks_of v) then 1 else 0)" for c
    using b(1) rf [of c] rf [of b] by (auto simp: v(4) u(6) w(3) t(4) a_defs hv(1))
  have "fs_ready p v"
    using v(2) hv(3) sz szs bl by (simp add: fs_ready_def)
  then show ?thesis
    using t(1) dt ft u(1) v(1) sv bl(1-3) hv u(5) unfolding w_def
    by (intro exI [of _ i] exI [of _ t] exI [of _ u] exI [of _ v]) simp
qed

section \<open>Effects of operations\<close>

text \<open>From \<open>s\<close> to \<open>v\<close> the transaction went on: the contents became \<open>f\<close> and the blocks \<open>bs\<close> joined it.\<close>

definition advanced :: "nat \<Rightarrow> 'z logst_scheme \<Rightarrow> (uint32 \<Rightarrow> bytes) \<Rightarrow> uint32 set \<Rightarrow> 'z logst_scheme \<Rightarrow> bool" where
  "advanced p s f bs v = (fs_ready p v \<and> trans_frame s v \<and> bcontents (blocks_of v) = f \<and>
     blocked (blocks_of v) = blocked (blocks_of s) \<and> home_blocks v = home_blocks s \<union> bs)"

lemma trans_lh_n: "fs_ready p s \<Longrightarrow> nat (lh_n s) = card (home_blocks s)" "fs_ready p s \<Longrightarrow> lh_n s = int (card (home_blocks s))"
  using home_card [of s] by (auto simp: fs_ready_def log_ok_def)

lemma advanced_refl: "fs_ready p s \<Longrightarrow> advanced p s (bcontents (blocks_of s)) {} s"
  by (simp add: advanced_def)

lemma advanced_trans:
  "advanced p s f bs t \<Longrightarrow> advanced p t g cs u \<Longrightarrow> advanced p s g (bs \<union> cs) u"
  by (auto simp: advanced_def dest: trans_frame_trans)

lemma advancedD:
  assumes "advanced p s f bs v"
  shows "fs_ready p v" "trans_frame s v" "bcontents (blocks_of v) = f" "blocked (blocks_of v) = blocked (blocks_of s)"
    "home_blocks v = home_blocks s \<union> bs" "log_area v = log_area s"
  using assms trans_frame_fields [of s v] by (simp_all add: advanced_def)

text \<open>
  Room for the blocks of a set: a transaction is open, they are not locked and not in the log area,
  the header takes them, and so does the cache.
\<close>

definition may_log :: "'z logst_scheme \<Rightarrow> uint32 set \<Rightarrow> bool" where
  "may_log s bs = (1 \<le> lg_outstanding s \<and> finite bs \<and> bs \<inter> blocked (blocks_of s) = {} \<and> bs \<inter> log_area s = {} \<and>
     card (home_blocks s \<union> bs) < nat LOGBLOCKS \<and> card (home_blocks s \<union> bs) + card (blocked (blocks_of s)) < NBUF)"

lemma may_log_one:
  assumes "fs_ready p s" "may_log s bs" "b \<in> bs"
  shows "b \<notin> blocked (blocks_of s)" "b \<notin> log_area s" "has_room s b" "lh_n s < LOGBLOCKS"
    "1 \<le> lg_outstanding s" "may_read s b"
proof -
  have "card (home_blocks s) \<le> card (home_blocks s \<union> bs)"
    using assms by (intro card_mono) (auto simp: may_log_def fs_ready_def home_card)
  then show "b \<notin> blocked (blocks_of s)" "b \<notin> log_area s" "has_room s b" "lh_n s < LOGBLOCKS"
    "1 \<le> lg_outstanding s" "may_read s b"
    using assms trans_lh_n [OF assms(1)] by (auto simp: may_log_def has_room_def may_read_def)
qed

lemma may_log_advanced:
  assumes "may_log s bs" "advanced p s f cs v" "cs \<subseteq> bs"
  shows "may_log v bs"
proof -
  have "home_blocks v \<union> bs = home_blocks s \<union> bs" using assms(3) advancedD(5) [OF assms(2)] by auto
  then show ?thesis using assms(1) advancedD(4,6) [OF assms(2)] trans_frame_fields(2) [OF advancedD(2) [OF assms(2)]]
    by (simp add: may_log_def)
qed

lemma may_log_mono: "may_log s bs \<Longrightarrow> fs_ready p s \<Longrightarrow> cs \<subseteq> bs \<Longrightarrow> may_log s cs"
proof -
  assume a: "may_log s bs" "fs_ready p s" "cs \<subseteq> bs"
  then have "card (home_blocks s \<union> cs) \<le> card (home_blocks s \<union> bs)"
    by (intro card_mono) (auto simp: may_log_def fs_ready_def home_card)
  with a show "may_log s cs" by (auto simp: may_log_def intro: finite_subset)
qed

lemma read_effect:
  assumes "fs_ready p s" "may_read s b"
  shows "\<exists>i t u. bread ROOTDEV b s = Ret i t \<and> bdata (bufs t i) = bcontents (blocks_of s) b \<and> trans_frame s t \<and>
     brelse i t = Ret () u \<and> advanced p s (bcontents (blocks_of s)) {} u"
proof -
  obtain i t u where "bread ROOTDEV b s = Ret i t" "bdata (bufs t i) = bcontents (blocks_of s) b" "trans_frame s t"
     "brelse i t = Ret () u" "fs_ready p u" "trans_frame s u" "blocks_of u = blocks_of s" "home_blocks u = home_blocks s"
    using trans_read [OF assms] by blast
  then show ?thesis by (intro exI [of _ i] exI [of _ t] exI [of _ u]) (simp add: advanced_def)
qed

lemma update_effect:
  assumes "fs_ready p s" "may_log s bs" "b \<in> bs" "sized d"
  shows "\<exists>i t u v. bread ROOTDEV b s = Ret i t \<and> bdata (bufs t i) = bcontents (blocks_of s) b \<and> trans_frame s t \<and>
     log_write i (put_data i d t) = Ret () u \<and> brelse i u = Ret () v \<and>
     advanced p s ((bcontents (blocks_of s))(b := d)) {b} v"
proof -
  obtain i t u v where "bread ROOTDEV b s = Ret i t" "bdata (bufs t i) = bcontents (blocks_of s) b" "trans_frame s t"
     "log_write i (put_data i d t) = Ret () u" "brelse i u = Ret () v" "fs_ready p v" "trans_frame s v"
     "bcontents (blocks_of v) = (bcontents (blocks_of s))(b := d)"
     "blocked (blocks_of v) = blocked (blocks_of s)" "home_blocks v = insert b (home_blocks s)"
    using trans_update [OF assms(1) may_log_one(1-5) [OF assms(1-3)] assms(4)] by blast
  then show ?thesis by (intro exI [of _ i] exI [of _ t] exI [of _ u] exI [of _ v]) (simp add: advanced_def)
qed

section \<open>Blocks\<close>

lemma bzero_effect:
  assumes "fs_ready p s" "may_log s bs" "b \<in> bs"
  shows "\<exists>v. bzero ROOTDEV b s = Ret () v \<and> advanced p s ((bcontents (blocks_of s))(b := (\<lambda>_. 0))) {b} v"
proof -
  have "sized (bcontents (blocks_of s) b)" using assms(1) by (simp add: fs_ready_def)
  then have "memset (bcontents (blocks_of s) b) 0 0 BSIZE = (\<lambda>_. 0)"
    by (auto simp: memset_bytes sized_def fun_eq_iff)
  then show ?thesis
    using update_effect [OF assms, of "\<lambda>_. 0"] by (auto simp: bzero_def sized_def)
qed

text \<open>The bitmap: a block is in use when its bit is set in the block of the bitmap that covers it.\<close>

definition block_used :: "'z fsst_scheme \<Rightarrow> nat \<Rightarrow> bool" where
  "block_used s b = (\<not> bit_clear (bcontents (blocks_of s) (BBLOCK (of_nat b) s)) (b mod BPB))"

lemma BPB_word: "unat (of_nat BPB :: uint32) = 8192"
  by (simp add: BPB_def)

lemma BBLOCK_group:
  assumes "b < 2 ^ 32"
  shows "BBLOCK (of_nat b) s = of_nat (b div BPB) + sb_bmapstart (sb s)"
proof -
  have "unat ((of_nat b :: uint32) div of_nat BPB) = b div BPB"
    using assms by (simp add: unat_div BPB_word unat_of_nat_lt) (simp add: BPB_def)
  then have "(of_nat b :: uint32) div of_nat BPB = of_nat (b div BPB)" by (metis word_of_nat_unat)
  then show ?thesis by (simp add: BBLOCK_def)
qed

lemma word_test_bit: "(x :: 'a::len word) AND push_bit n 1 \<noteq> 0 \<longleftrightarrow> bit x n"
proof -
  have "x AND push_bit n 1 \<noteq> 0 \<longleftrightarrow> (\<exists>k. bit (x AND push_bit n 1) k)"
    by (metis bit_0_eq bit_eqI bot_apply bot_bool_def)
  also have "\<dots> \<longleftrightarrow> bit x n" using bit_imp_le_length [of x n] by (auto simp: bit_simps)
  finally show ?thesis .
qed

lemma bit_clear_bit: "bit_clear d k = (\<not> bit (d (k div 8)) (k mod 8))"
  using word_test_bit [of "d (k div 8)" "k mod 8"] by (auto simp: bit_clear_def)

lemma mark_bits:
  assumes "sized d" "bi < BPB"
  shows "sized (mark_used d bi)" "sized (mark_free d bi)"
    and "bit_clear (mark_used d bi) k = (k \<noteq> bi \<and> bit_clear d k)"
    and "bit_clear (mark_free d bi) k = (k = bi \<or> bit_clear d k)"
proof -
  show "sized (mark_used d bi)" "sized (mark_free d bi)"
    using assms by (auto simp: sized_def mark_used_def mark_free_def BSIZE_def BPB_def)
  have eq: "k div 8 = bi div 8 \<and> k mod 8 = bi mod 8 \<longleftrightarrow> k = bi" by (metis div_mult_mod_eq)
  show "bit_clear (mark_used d bi) k = (k \<noteq> bi \<and> bit_clear d k)"
    "bit_clear (mark_free d bi) k = (k = bi \<or> bit_clear d k)"
    using eq by (auto simp: bit_clear_bit mark_used_def mark_free_def bit_simps)
qed

text \<open>One turn of the loop of \<^verbatim>\<open>balloc\<close>.\<close>

definition group_first :: "'z fsst_scheme \<Rightarrow> nat \<Rightarrow> nat option" where
  "group_first s b = first_idx (bit_clear (bcontents (blocks_of s) (BBLOCK (of_nat b) s))) [0..<min BPB (unat (sb_size (sb s)) - b)]"

lemma balloc_group_effect:
  fixes s :: "'z fsst_scheme"
  assumes tr: "fs_ready p s" and bs: "may_log s bs" "BBLOCK (of_nat b) s \<in> bs"
    and new: "\<And>bi. group_first s b = Some bi \<Longrightarrow> of_nat (b + bi) \<in> bs"
  shows "\<exists>v. balloc_group ROOTDEV b s =
      Ret (case group_first s b of None \<Rightarrow> None | Some bi \<Rightarrow> Some (of_nat (b + bi))) v \<and>
    (case group_first s b of
       None \<Rightarrow> advanced p s (bcontents (blocks_of s)) {} v
     | Some bi \<Rightarrow> advanced p s ((bcontents (blocks_of s))
         (BBLOCK (of_nat b) s := mark_used (bcontents (blocks_of s) (BBLOCK (of_nat b) s)) bi, of_nat (b + bi) := (\<lambda>_. 0)))
         {BBLOCK (of_nat b) s, of_nat (b + bi)} v)"
proof -
  let ?bb = "BBLOCK (of_nat b) s" and ?d = "bcontents (blocks_of s) (BBLOCK (of_nat b) s)"
  have sz: "sized ?d" using tr by (simp add: fs_ready_def)
  show ?thesis
  proof (cases "group_first s b")
    case None
    obtain i t u where r: "bread ROOTDEV ?bb s = Ret i t" "bdata (bufs t i) = ?d" "trans_frame s t"
      "brelse i t = Ret () u" "advanced p s (bcontents (blocks_of s)) {} u"
      using read_effect [OF tr may_log_one(6) [OF tr bs]] by blast
    have "balloc_group ROOTDEV b s = Ret None u"
      using None r trans_frame_fs [OF r(3)] by (simp add: balloc_group_def group_first_def)
    with None r(5) show ?thesis by simp
  next
    case (Some bi)
    then have bi: "bi < BPB" by (simp add: group_first_def first_idx_upt_Some)
    obtain i t u v where r: "bread ROOTDEV ?bb s = Ret i t" "bdata (bufs t i) = ?d" "trans_frame s t"
      "log_write i (put_data i (mark_used ?d bi) t) = Ret () u" "brelse i u = Ret () v"
      "advanced p s ((bcontents (blocks_of s))(?bb := mark_used ?d bi)) {?bb} v"
      using update_effect [OF tr bs mark_bits(1) [OF sz bi]] by blast
    have "may_log v bs" using may_log_advanced [OF bs(1) r(6)] bs(2) by simp
    then obtain w where w: "bzero ROOTDEV (of_nat (b + bi)) v = Ret () w"
      "advanced p v ((bcontents (blocks_of v))(of_nat (b + bi) := (\<lambda>_. 0))) {of_nat (b + bi)} w"
      using bzero_effect [OF advancedD(1) [OF r(6)] _ new [OF Some]] by blast
    have "balloc_group ROOTDEV b s = Ret (Some (of_nat (b + bi))) w"
      using Some r w(1) trans_frame_fs [OF r(3)] by (simp add: balloc_group_def group_first_def)
    moreover have "advanced p s ((bcontents (blocks_of s))(?bb := mark_used ?d bi, of_nat (b + bi) := (\<lambda>_. 0)))
        {?bb, of_nat (b + bi)} w"
      using advanced_trans [OF r(6) w(2)] advancedD(3) [OF r(6)] by (simp add: insert_commute)
    ultimately show ?thesis using Some by simp
  qed
qed

section \<open>Allocating a block\<close>

abbreviation fs_size :: "'z fsst_scheme \<Rightarrow> nat" where
  "fs_size s \<equiv> unat (sb_size (sb s))"

definition bitmap_blocks :: "'z fsst_scheme \<Rightarrow> uint32 set" where
  "bitmap_blocks s = (\<lambda>b. BBLOCK (of_nat b) s) ` {..<fs_size s}"

text \<open>The bitmap can be read, and marks its own blocks as used.\<close>

definition bitmap_ok :: "'z fsst_scheme \<Rightarrow> bool" where
  "bitmap_ok s = (\<forall>m \<in> bitmap_blocks s. may_log s {m} \<and> block_used s (unat m))"

lemma fs_size_bound: "b < fs_size s \<Longrightarrow> b < 2 ^ 32"
  using unat_lt_2p [of "sb_size (sb s)"] by simp

lemma group_block:
  assumes "k * BPB + bi < fs_size s" "bi < BPB"
  shows "BBLOCK (of_nat (k * BPB + bi)) s = BBLOCK (of_nat (k * BPB)) s" "(k * BPB + bi) mod BPB = bi"
    "block_used s (k * BPB + bi) = (\<not> bit_clear (bcontents (blocks_of s) (BBLOCK (of_nat (k * BPB)) s)) bi)"
proof -
  have b: "k * BPB + bi < 2 ^ 32" "k * BPB < 2 ^ 32" using fs_size_bound [OF assms(1)] by simp_all
  show d: "BBLOCK (of_nat (k * BPB + bi)) s = BBLOCK (of_nat (k * BPB)) s"
    using assms(2) by (simp only: BBLOCK_group [OF b(1)] BBLOCK_group [OF b(2)]) (simp add: BPB_def)
  show m: "(k * BPB + bi) mod BPB = bi" using assms(2) by simp
  show "block_used s (k * BPB + bi) = (\<not> bit_clear (bcontents (blocks_of s) (BBLOCK (of_nat (k * BPB)) s)) bi)"
    unfolding block_used_def d m ..
qed

lemma group_first_None:
  assumes "\<forall>b < fs_size s. k * BPB \<le> b \<and> b < Suc k * BPB \<longrightarrow> block_used s b"
  shows "group_first s (k * BPB) = None"
  unfolding group_first_def first_idx_None
proof
  fix bi
  assume "bi \<in> set [0..<min BPB (fs_size s - k * BPB)]"
  then have bi: "bi < BPB" "k * BPB + bi < fs_size s" by auto
  then have "block_used s (k * BPB + bi)" using assms by simp
  with bi show "\<not> bit_clear (bcontents (blocks_of s) (BBLOCK (of_nat (k * BPB)) s)) bi" by (simp add: group_block)
qed

lemma group_first_Some:
  assumes "b < fs_size s" "\<not> block_used s b" "\<forall>c < b. block_used s c"
  shows "group_first s (b div BPB * BPB) = Some (b mod BPB)"
proof -
  have B: "0 < BPB" by (simp add: BPB_def)
  have eq: "b div BPB * BPB + b mod BPB = b" by simp
  have m: "b mod BPB < BPB" using B by simp
  have "\<not> bit_clear (bcontents (blocks_of s) (BBLOCK (of_nat (b div BPB * BPB)) s)) bi" if "bi < b mod BPB" for bi
  proof -
    have lt: "bi < BPB" "b div BPB * BPB + bi < b" using that m eq by linarith+
    then show ?thesis using group_block(3) [of "b div BPB" bi s] assms(1,3) by simp
  qed
  moreover have "bit_clear (bcontents (blocks_of s) (BBLOCK (of_nat (b div BPB * BPB)) s)) (b mod BPB)"
    using group_block(3) [of "b div BPB" "b mod BPB" s] assms(1,2) m by simp
  moreover have "b mod BPB < fs_size s - b div BPB * BPB" using assms(1) eq by linarith
  ultimately show ?thesis using m by (simp add: group_first_def first_idx_upt_Some)
qed

lemma advanced_fs:
  assumes "advanced p s f bs (v :: 'z fsst_scheme)"
  shows "sb v = sb s" "itab v = itab s" "BBLOCK b v = BBLOCK b s"
  using trans_frame_fs [OF advancedD(2) [OF assms]] by (simp_all add: BBLOCK_def)

lemma advanced_id:
  assumes "advanced p s (bcontents (blocks_of s)) {} v"
  shows "may_log v bs = may_log s bs"
  using advancedD [OF assms] trans_frame_fields(2) [OF advancedD(2) [OF assms]] by (simp add: may_log_def)

lemma advanced_same:
  assumes "advanced p s (bcontents (blocks_of s)) {} (v :: 'z fsst_scheme)"
  shows "block_used v b = block_used s b" "group_first v b = group_first s b"
  using advancedD(3) [OF assms] advanced_fs [OF assms] by (simp_all add: block_used_def group_first_def)

lemma balloc_skip:
  fixes s :: "'z fsst_scheme"
  assumes tr: "fs_ready p s" and bm: "bitmap_ok s"
  shows "\<lbrakk>\<forall>b < fs_size s. b < n * BPB \<longrightarrow> block_used s b; n \<le> (fs_size s + BPB - 1) div BPB\<rbrakk> \<Longrightarrow>
     \<exists>v. kfirst (\<lambda>k. balloc_group ROOTDEV (k * BPB)) [0..<n] s = Ret None v \<and> advanced p s (bcontents (blocks_of s)) {} v"
proof (induction n)
  case 0
  then show ?case using advanced_refl [OF tr] by simp
next
  case (Suc n)
  have pre: "\<forall>b < fs_size s. b < n * BPB \<longrightarrow> block_used s b" using Suc.prems(1) by (simp add: BPB_def)
  have n: "n \<le> (fs_size s + BPB - 1) div BPB" using Suc.prems(2) by simp
  obtain v where v: "kfirst (\<lambda>k. balloc_group ROOTDEV (k * BPB)) [0..<n] s = Ret None v" "advanced p s (bcontents (blocks_of s)) {} v"
    using Suc.IH [OF pre n] by blast
  have lt: "n * BPB < fs_size s" using Suc.prems(2) by (simp add: BPB_def)
  have "group_first s (n * BPB) = None" by (rule group_first_None) (use Suc.prems(1) in simp)
  then have g: "group_first v (n * BPB) = None" by (simp add: advanced_same [OF v(2)])
  have "BBLOCK (of_nat (n * BPB)) s \<in> bitmap_blocks s" unfolding bitmap_blocks_def by (rule image_eqI [OF refl]) (use lt in simp)
  then have "may_log s {BBLOCK (of_nat (n * BPB)) s}" using bm unfolding bitmap_ok_def by blast
  then have ml: "may_log v {BBLOCK (of_nat (n * BPB)) v}" by (simp only: advanced_id [OF v(2)] advanced_fs [OF v(2)])
  obtain w where w: "balloc_group ROOTDEV (n * BPB) v = Ret None w" "advanced p v (bcontents (blocks_of v)) {} w"
    using balloc_group_effect [OF advancedD(1) [OF v(2)] ml, of "n * BPB"] g by (auto simp del: of_nat_mult)
  have "advanced p s (bcontents (blocks_of s)) {} w" using advanced_trans [OF v(2) w(2)] advancedD(3) [OF v(2)] by simp
  then show ?case using v(1) w(1) by (simp add: kfirst_append)
qed

lemma balloc_full:
  assumes "fs_ready p s" "bitmap_ok s" "\<forall>b < fs_size s. block_used s b"
  shows "\<exists>v. balloc ROOTDEV s = Ret 0 v \<and> advanced p s (bcontents (blocks_of s)) {} v"
  using balloc_skip [OF assms(1,2), of "(fs_size s + BPB - 1) div BPB"] assms(3) by (auto simp: balloc_def)

lemma balloc_found:
  fixes s :: "'z fsst_scheme"
  assumes tr: "fs_ready p s" and bm: "bitmap_ok s" and b: "b < fs_size s" "\<not> block_used s b" "\<forall>c < b. block_used s c"
    and ml: "may_log s {BBLOCK (of_nat b) s, of_nat b}"
  shows "\<exists>v. balloc ROOTDEV s = Ret (of_nat b) v \<and>
     advanced p s ((bcontents (blocks_of s))(BBLOCK (of_nat b) s := mark_used (bcontents (blocks_of s) (BBLOCK (of_nat b) s)) (b mod BPB),
       of_nat b := (\<lambda>_. 0))) {BBLOCK (of_nat b) s, of_nat b} v"
proof -
  define k where "k = b div BPB"
  have B: "0 < BPB" by (simp add: BPB_def)
  have eq: "k * BPB + b mod BPB = b" by (simp add: k_def)
  have kb: "k * BPB \<le> b" using eq by linarith
  have m: "b mod BPB < BPB" using B by simp
  have kn: "k < (fs_size s + BPB - 1) div BPB"
    using b(1) kb m eq by (simp add: BPB_def)
  have bb: "BBLOCK (of_nat (k * BPB)) s = BBLOCK (of_nat b) s" using group_block(1) [of k "b mod BPB" s] m eq b(1) by simp
  obtain v where v: "kfirst (\<lambda>k. balloc_group ROOTDEV (k * BPB)) [0..<k] s = Ret None v" "advanced p s (bcontents (blocks_of s)) {} v"
    using balloc_skip [OF tr bm, of k] b(3) kb kn by auto
  have g: "group_first v (k * BPB) = Some (b mod BPB)"
    using group_first_Some [OF b] by (simp add: advanced_same [OF v(2)] k_def)
  have mlv: "may_log v {BBLOCK (of_nat b) s, of_nat b}" using ml by (simp only: advanced_id [OF v(2)])
  obtain w where w: "balloc_group ROOTDEV (k * BPB) v = Ret (Some (of_nat b)) w"
    "advanced p v ((bcontents (blocks_of v))(BBLOCK (of_nat b) s := mark_used (bcontents (blocks_of v) (BBLOCK (of_nat b) s)) (b mod BPB),
       of_nat b := (\<lambda>_. 0))) {BBLOCK (of_nat b) s, of_nat b} w"
    using balloc_group_effect [OF advancedD(1) [OF v(2)] mlv, of "k * BPB"] g eq advanced_fs(3) [OF v(2)] bb
    by (auto simp del: of_nat_add of_nat_mult)
  have "kfirst (\<lambda>k. balloc_group ROOTDEV (k * BPB)) [0..<(fs_size s + BPB - 1) div BPB] s = Ret (Some (of_nat b)) w"
    unfolding upt_split3 [OF kn] kfirst_append v(1) by (simp add: w(1))
  then have "balloc ROOTDEV s = Ret (of_nat b) w" by (simp add: balloc_def)
  then show ?thesis using advanced_trans [OF v(2) w(2)] advancedD(3) [OF v(2)] by auto
qed

end
