(* ===== verification/Inodes.thy ===== *)
theory Inodes
  imports Trans FsDir
begin

text \<open>
  Inodes and the contents of files inside a transaction: the copy of an inode on disk, the map from
  the blocks of a file to blocks of the disk, and reading and writing through it.
\<close>

section \<open>Inodes on disk\<close>

lemma put_beyond:
  "k + 2 \<le> i \<Longrightarrow> put16 d k v i = d i" "k + 4 \<le> i \<Longrightarrow> put32 d k w i = d i"
  "i < k \<Longrightarrow> put16 d k v i = d i" "i < k \<Longrightarrow> put32 d k w i = d i"
  by (simp_all add: put16_def put32_def)

lemma put_addrs:
  "fold (\<lambda>i d. put32 d (k + 4 * i) (f i)) [0..<n] d x = (if k \<le> x \<and> x < k + 4 * n
     then le_byte (f ((x - k) div 4)) ((x - k) mod 4) else d x)"
proof (induction n)
  case 0
  then show ?case by auto
next
  case (Suc n)
  show ?case
  proof (cases "k + 4 * n \<le> x \<and> x < k + 4 * n + 4")
    case True
    then obtain r where r: "x = k + 4 * n + r" "r < 4" by (metis le_add_diff_inverse nat_add_left_cancel_less)
    then show ?thesis by (simp add: put32_def)
  next
    case False
    then show ?thesis using Suc by (auto simp: put32_def)
  qed
qed

lemma get_addrs:
  assumes "i < n"
  shows "get32 (fold (\<lambda>i d. put32 d (k + 4 * i) (f i)) [0..<n] d) (k + 4 * i) = f i"
proof -
  have "fold (\<lambda>i d. put32 d (k + 4 * i) (f i)) [0..<n] d (k + 4 * i + j) = le_byte (f i) j" if "j < 4" for j
    using assms that by (simp add: put_addrs)
  then have "get32 (fold (\<lambda>i d. put32 d (k + 4 * i) (f i)) [0..<n] d) (k + 4 * i) = le_load 4 (le_byte (f i))"
    unfolding get32_def by (intro le_load_cong) auto
  then show ?thesis by (simp add: le_load_byte)
qed

lemma get_addrs_below:
  assumes "j + 4 \<le> k"
  shows "get32 (fold (\<lambda>i d. put32 d (k + 4 * i) (f i)) [0..<n] d) j = get32 d j"
    "get16 (fold (\<lambda>i d. put32 d (k + 4 * i) (f i)) [0..<n] d) j = get16 d j"
  using assms unfolding get32_def get16_def by (auto intro!: le_load_cong simp: put_addrs)

text \<open>The fields of a \<^verbatim>\<open>short\<close> fit 16 bits.\<close>

definition shorts_ok :: "inode \<Rightarrow> bool" where
  "shorts_ok ip = (\<forall>x \<in> {i_type ip, i_major ip, i_minor ip, i_nlink ip}. - 32768 \<le> x \<and> x < 32768)"

lemma sint_short: "- 32768 \<le> x \<Longrightarrow> x < 32768 \<Longrightarrow> sint (word_of_int x :: uint16) = x"
  by (simp add: signed_of_int signed_take_bit_int_eq_self)

lemma dinode_get_put:
  assumes "shorts_ok ip"
  shows "get_dinode (put_dinode ip inum d) inum x =
    x\<lparr>i_type := i_type ip, i_major := i_major ip, i_minor := i_minor ip, i_nlink := i_nlink ip, i_size := i_size ip,
      i_addrs := (\<lambda>i. if i \<le> NDIRECT then i_addrs ip i else i_addrs x i)\<rparr>"
proof -
  define k where "k = dinode_off inum"
  have "get32 (put_dinode ip inum d) (k + 12 + 4 * i) = i_addrs ip i" if "i \<le> NDIRECT" for i
    using that by (simp add: put_dinode_def Let_def k_def [symmetric] get_addrs del: upt_Suc)
  moreover have "get32 (put_dinode ip inum d) (k + 8) = i_size ip"
    by (simp add: put_dinode_def Let_def k_def [symmetric] get_addrs_below del: upt_Suc)
  moreover have "get16 (put_dinode ip inum d) k = word_of_int (i_type ip)" "get16 (put_dinode ip inum d) (k + 2) = word_of_int (i_major ip)"
    "get16 (put_dinode ip inum d) (k + 4) = word_of_int (i_minor ip)" "get16 (put_dinode ip inum d) (k + 6) = word_of_int (i_nlink ip)"
    by (simp_all add: put_dinode_def Let_def k_def [symmetric] get_addrs_below get_put_apart del: upt_Suc)
  ultimately show ?thesis using assms
    by (simp add: get_dinode_def Let_def k_def [symmetric] shorts_ok_def sint_short cong: if_cong)
qed

lemma put_dinode_outside:
  assumes "i < dinode_off inum \<or> dinode_off inum + 64 \<le> i"
  shows "put_dinode ip inum d i = d i"
  using assms by (auto simp: put_dinode_def Let_def put_addrs NDIRECT_def put_beyond)

lemma dinode_off_bound: "dinode_off inum + 64 \<le> BSIZE"
proof -
  have "unat (inum mod IPB) < 16" by (simp add: unat_mod IPB_def)
  then show ?thesis by (simp add: dinode_off_def BSIZE_def)
qed

lemma put_dinode_sized: "sized d \<Longrightarrow> sized (put_dinode ip inum d)"
  using dinode_off_bound [of inum] by (auto simp: sized_def put_dinode_outside)

text \<open>The other inodes of the block are not touched.\<close>

lemma dinode_other:
  assumes "inum' mod IPB \<noteq> inum mod IPB"
  shows "get_dinode (put_dinode ip inum d) inum' x = get_dinode d inum' x"
proof -
  have "unat (inum' mod IPB) \<noteq> unat (inum mod IPB)" using assms by (simp add: word_unat_eq_iff)
  then have ap: "dinode_off inum' + 64 \<le> dinode_off inum \<or> dinode_off inum + 64 \<le> dinode_off inum'"
    by (simp add: dinode_off_def) linarith
  have at: "put_dinode ip inum d (dinode_off inum' + j) = d (dinode_off inum' + j)" if "j < 64" for j
    by (rule put_dinode_outside) (use ap that in linarith)
  have g16: "get16 (put_dinode ip inum d) (dinode_off inum' + j) = get16 d (dinode_off inum' + j)" if "j + 2 \<le> 64" for j
    unfolding get16_def using that by (intro le_load_cong) (simp add: add.assoc at)
  have g32: "get32 (put_dinode ip inum d) (dinode_off inum' + j) = get32 d (dinode_off inum' + j)" if "j + 4 \<le> 64" for j
    unfolding get32_def using that by (intro le_load_cong) (simp add: add.assoc at)
  show ?thesis
    using g16 [of 0] g16 [of 2] by (simp add: get_dinode_def Let_def NDIRECT_def add.assoc g16 g32 cong: if_cong)
qed

section \<open>The inode layer in a transaction\<close>

text \<open>The predicates of a transaction do not look at the inode table.\<close>

lemma fsst_frame [simp]:
  "blocks_of (itab_update f s) = blocks_of s" "bio_inv p (itab_update f s) = bio_inv p s"
  "home_blocks (itab_update f s) = home_blocks s" "log_ok (itab_update f s) = log_ok s"
  "log_area (itab_update f s) = log_area s"
proof -
  show "blocks_of (itab_update f s) = blocks_of s"
    by (simp add: blocks_of_def view_def held_def holds_def buf_locked_def fun_eq_iff split: option.split)
  show "log_area (itab_update f s) = log_area s" "home_blocks (itab_update f s) = home_blocks s"
    by (simp_all add: log_area_def log_blk_def home_blocks_def image_def)
  then show "log_ok (itab_update f s) = log_ok s" by (simp add: log_ok_def home_blocks_def)
  show "bio_inv p (itab_update f s) = bio_inv p s"
    by (simp add: bio_inv_def calm_def lock_free_def intr_ok_def mach_defs no_waiters_def)
qed

lemma fs_ready_itab [simp]: "fs_ready p (itab_update f s) = fs_ready p s" "may_log (itab_update f s) bs = may_log s bs"
  by (simp_all add: fs_ready_def may_log_def)

lemma iupdate_effect:
  fixes s :: "'z fsst_scheme"
  assumes "fs_ready p s" "may_log s bs" "IBLOCK (i_inum (itab s ip)) s \<in> bs" "i_dev (itab s ip) = ROOTDEV"
  shows "\<exists>v. iupdate ip s = Ret () v \<and> advanced p s ((bcontents (blocks_of s))
     (IBLOCK (i_inum (itab s ip)) s := put_dinode (itab s ip) (i_inum (itab s ip)) (bcontents (blocks_of s) (IBLOCK (i_inum (itab s ip)) s))))
     {IBLOCK (i_inum (itab s ip)) s} v"
proof -
  let ?ib = "IBLOCK (i_inum (itab s ip)) s"
  let ?d = "put_dinode (itab s ip) (i_inum (itab s ip)) (bcontents (blocks_of s) ?ib)"
  have "sized ?d" using assms(1) by (simp add: fs_ready_def put_dinode_sized)
  then obtain i t u v where r: "bread ROOTDEV ?ib s = Ret i t" "bdata (bufs t i) = bcontents (blocks_of s) ?ib" "trans_frame s t"
     "log_write i (put_data i ?d t) = Ret () u" "brelse i u = Ret () v"
     "advanced p s ((bcontents (blocks_of s))(?ib := ?d)) {?ib} v"
    using update_effect [OF assms(1-3)] by blast
  have "iupdate ip s = Ret () v"
    using r(1,2,4,5) trans_frame_fs [OF r(3)] assms(4) by (simp add: iupdate_def)
  with r(6) show ?thesis by blast
qed

lemma bfree_effect:
  fixes s :: "'z fsst_scheme"
  assumes "fs_ready p s" "may_log s bs" "BBLOCK b s \<in> bs" "block_used s (unat b)"
  shows "\<exists>v. bfree ROOTDEV b s = Ret () v \<and> advanced p s ((bcontents (blocks_of s))
     (BBLOCK b s := mark_free (bcontents (blocks_of s) (BBLOCK b s)) (unat b mod BPB))) {BBLOCK b s} v"
proof -
  let ?bb = "BBLOCK b s" and ?d = "mark_free (bcontents (blocks_of s) (BBLOCK b s)) (unat b mod BPB)"
  have sz: "sized (bcontents (blocks_of s) ?bb)" using assms(1) by (simp add: fs_ready_def)
  have "unat b mod BPB < BPB" by (simp add: BPB_def)
  then have "sized ?d" by (rule mark_bits(2) [OF sz])
  then obtain i t u v where r: "bread ROOTDEV ?bb s = Ret i t" "bdata (bufs t i) = bcontents (blocks_of s) ?bb" "trans_frame s t"
     "log_write i (put_data i ?d t) = Ret () u" "brelse i u = Ret () v"
     "advanced p s ((bcontents (blocks_of s))(?bb := ?d)) {?bb} v"
    using update_effect [OF assms(1-3)] by blast
  have "bfree ROOTDEV b s = Ret () v"
    using r(1,2,4,5) assms(4) by (simp add: bfree_def Let_def block_used_def)
  with r(6) show ?thesis by blast
qed

lemma bfree_twice:
  fixes s :: "'z fsst_scheme"
  assumes "fs_ready p s" "may_log s bs" "BBLOCK b s \<in> bs" "\<not> block_used s (unat b)"
  shows "bfree ROOTDEV b s = Panic ''freeing free block''"
proof -
  obtain i t where "bread ROOTDEV (BBLOCK b s) s = Ret i t" "bdata (bufs t i) = bcontents (blocks_of s) (BBLOCK b s)"
    using read_effect [OF assms(1) may_log_one(6) [OF assms(1-3)]] by blast
  then show ?thesis using assms(4) by (simp add: bfree_def Let_def block_used_def)
qed

section \<open>The blocks of a file\<close>

text \<open>The block of the disk that holds block \<open>bn\<close> of a file, zero when there is none.\<close>

definition iaddr :: "'z fsst_scheme \<Rightarrow> nat \<Rightarrow> nat \<Rightarrow> uint32" where
  "iaddr s ip bn =
     (if bn < NDIRECT then i_addrs (itab s ip) bn
      else if bn < MAXFILE \<and> i_addrs (itab s ip) NDIRECT \<noteq> 0
      then get32 (bcontents (blocks_of s) (i_addrs (itab s ip) NDIRECT)) (4 * (bn - NDIRECT))
      else 0)"

definition ibyte :: "'z fsst_scheme \<Rightarrow> nat \<Rightarrow> nat \<Rightarrow> uint8" where
  "ibyte s ip k = bcontents (blocks_of s) (iaddr s ip (k div BSIZE)) (k mod BSIZE)"

text \<open>Block \<open>bn\<close> of the file is there, and what leads to it can be read.\<close>

definition imapped :: "'z fsst_scheme \<Rightarrow> nat \<Rightarrow> nat \<Rightarrow> bool" where
  "imapped s ip bn = (iaddr s ip bn \<noteq> 0 \<and> may_read s (iaddr s ip bn) \<and>
     (NDIRECT \<le> bn \<longrightarrow> may_read s (i_addrs (itab s ip) NDIRECT)))"

lemma unchanged_reads:
  fixes s :: "'z fsst_scheme"
  assumes "fs_ready p s" "advanced p s (bcontents (blocks_of s)) {} v"
  shows "may_read v b = may_read s b" "iaddr v ip bn = iaddr s ip bn" "ibyte v ip k = ibyte s ip k" "imapped v ip bn = imapped s ip bn"
proof -
  note a = advancedD [OF assms(2)] advanced_fs [OF assms(2)]
  have "nat (lh_n v) = nat (lh_n s)" using trans_lh_n(1) [OF assms(1)] trans_lh_n(1) [OF a(1)] a(5) by simp
  then show m: "may_read v b = may_read s b" for b using a(4,5) by (simp add: may_read_def has_room_def)
  show i: "iaddr v ip bn = iaddr s ip bn" for bn using a by (simp add: iaddr_def)
  show "ibyte v ip k = ibyte s ip k" using a i by (simp add: ibyte_def)
  show "imapped v ip bn = imapped s ip bn" using a i m by (simp add: imapped_def)
qed

lemma trans_frame_intr:
  assumes "trans_frame s t"
  shows "intr_ok t = intr_ok s" "mycpu t = mycpu s"
  using assms by (auto simp: trans_frame_def intr_ok_def mach_defs)

lemma fs_ready_intr: "fs_ready p s \<Longrightarrow> intr_ok s"
  by (simp add: fs_ready_def bio_inv_def calm_def)

lemma bmap_mapped:
  fixes s :: "'z fsst_scheme"
  assumes tr: "fs_ready p s" and m: "imapped s ip (unat bn)" and dev: "i_dev (itab s ip) = ROOTDEV"
  shows "\<exists>u. bmap ip bn s = Ret (iaddr s ip (unat bn)) u \<and> advanced p s (bcontents (blocks_of s)) {} u"
proof (cases "unat bn < NDIRECT")
  case True
  with m show ?thesis using advanced_refl [OF tr] by (simp add: bmap_def imapped_def iaddr_def)
next
  case False
  let ?ib = "i_addrs (itab s ip) NDIRECT"
  have ia: "unat bn < MAXFILE" "?ib \<noteq> 0" "get32 (bcontents (blocks_of s) ?ib) (4 * (unat bn - NDIRECT)) \<noteq> 0" "may_read s ?ib"
    and eq: "iaddr s ip (unat bn) = get32 (bcontents (blocks_of s) ?ib) (4 * (unat bn - NDIRECT))"
    using m False by (auto simp: imapped_def iaddr_def split: if_splits)
  obtain i t u where r: "bread ROOTDEV ?ib s = Ret i t" "bdata (bufs t i) = bcontents (blocks_of s) ?ib" "trans_frame s t"
     "brelse i t = Ret () u" "advanced p s (bcontents (blocks_of s)) {} u"
    using read_effect [OF tr ia(4)] by blast
  have "unat (bn - of_nat NDIRECT) = unat bn - NDIRECT"
    using False by (simp add: NDIRECT_def unat_sub word_le_nat_alt)
  moreover have "unat bn - NDIRECT < NINDIRECT" using ia(1) False by (simp add: MAXFILE_def)
  ultimately have "bmap ip bn s = Ret (iaddr s ip (unat bn)) u"
    using False ia(2,3) dev r(1,2,4) by (simp add: bmap_def Let_def eq)
  with r(5) show ?thesis by blast
qed

section \<open>Reading\<close>

lemma unat_chunk:
  "unat (chunk left off) = min (unat left) (1024 - unat off mod 1024)"
proof -
  have "unat (of_nat BSIZE - off mod of_nat BSIZE) = 1024 - unat off mod 1024"
    by (simp add: BSIZE_def unat_sub word_le_nat_alt unat_mod)
  then show ?thesis by (simp add: chunk_def min_def word_le_nat_alt)
qed

lemma chunk_add:
  assumes "tot < n" "unat off + unat (n - tot) < 2 ^ 32"
  defines "m \<equiv> chunk (n - tot) off"
  shows "unat (off + m) = unat off + unat m" "unat (tot + m) = unat tot + unat m" "unat (n - (tot + m)) = unat (n - tot) - unat m"
    "unat m \<le> unat (n - tot)" "0 < unat m" "unat (ucast m :: uint64) = unat m" "\<not> n < tot + m" "unat off mod 1024 + unat m \<le> 1024"
proof -
  have d: "unat (n - tot) = unat n - unat tot" "unat tot < unat n"
    using assms(1) by (simp_all add: unat_sub word_le_nat_alt word_less_nat_alt)
  show le: "unat m \<le> unat (n - tot)" and pos: "0 < unat m" using d by (simp_all add: m_def unat_chunk)
  show "unat off mod 1024 + unat m \<le> 1024" by (simp add: m_def unat_chunk)
  show "unat (off + m) = unat off + unat m" using le assms(2) by (simp add: unat_word_ariths)
  have n: "unat n < 2 ^ 32" using unat_lt_2p [of n] by simp
  show t: "unat (tot + m) = unat tot + unat m" using le d n by (simp add: unat_word_ariths)
  then show "\<not> n < tot + m" using le d by (simp add: word_less_nat_alt)
  have "tot + m \<le> n" using t le d by (simp add: word_le_nat_alt)
  then show "unat (n - (tot + m)) = unat (n - tot) - unat m" using t d by (simp add: unat_sub)
  show "unat (ucast m :: uint64) = unat m" by (simp add: unat_ucast_up)
qed

text \<open>The bytes of one chunk lie in one block.\<close>

lemma chunk_block:
  assumes "unat off mod 1024 + c \<le> 1024" "j < c"
  shows "(unat (off :: uint32) + j) div BSIZE = unat off div BSIZE" "(unat off + j) mod BSIZE = unat off mod BSIZE + j"
proof -
  have "unat off + j = unat off div 1024 * 1024 + (unat off mod 1024 + j)" by simp
  moreover have "unat off mod 1024 + j < 1024" using assms by simp
  ultimately show "(unat off + j) div BSIZE = unat off div BSIZE" "(unat off + j) mod BSIZE = unat off mod BSIZE + j"
    by (metis BSIZE_def div_less div_mult_self3 add.commute add_0 zero_neq_numeral, metis BSIZE_def mod_less mod_mult_self3)
qed

lemma readi_loop_reads:
  fixes s :: "'z fsst_scheme"
  assumes "fs_ready p s" "i_dev (itab s ip) = ROOTDEV" "unat off + unat (n - tot) < 2 ^ 32" "tot \<le> n"
    "\<forall>k. unat off \<le> k \<and> k < unat off + unat (n - tot) \<longrightarrow> imapped s ip (k div BSIZE)"
  shows "\<exists>v. readi_loop ip (KObj d) off n tot obj s =
      Ret (n, \<lambda>i. if d \<le> i \<and> i < d + unat (n - tot) then ibyte s ip (unat off + (i - d)) else obj i) v \<and>
     advanced p s (bcontents (blocks_of s)) {} v"
  using assms
proof (induction "unat (n - tot)" arbitrary: d off tot obj s rule: less_induct)
  case less
  show ?case
  proof (cases "tot < n")
    case False
    then have "tot = n" using less.prems(4) by simp
    then show ?thesis using advanced_refl [OF less.prems(1)] by (subst readi_loop.simps) (auto simp: fun_eq_iff)
  next
    case True
    define m where "m = chunk (n - tot) off"
    note ch = chunk_add [OF True less.prems(3), folded m_def]
    let ?a = "iaddr s ip (unat off div BSIZE)"
    have bn: "unat (off div of_nat BSIZE) = unat off div BSIZE" by (simp add: unat_div BSIZE_def)
    have mp: "imapped s ip (unat (off div of_nat BSIZE))"
      using less.prems(5) ch(4,5) unfolding bn by auto
    obtain u where u: "bmap ip (off div of_nat BSIZE) s = Ret ?a u" "advanced p s (bcontents (blocks_of s)) {} u"
      using bmap_mapped [OF less.prems(1) mp less.prems(2)] unfolding bn by blast
    note su = unchanged_reads [OF less.prems(1) u(2)] advancedD [OF u(2)] advanced_fs [OF u(2)]
    have ra: "?a \<noteq> 0" "may_read u ?a" using mp by (simp_all add: imapped_def bn su)
    obtain i t w where r: "bread ROOTDEV ?a u = Ret i t" "bdata (bufs t i) = bcontents (blocks_of u) ?a" "trans_frame u t"
       "brelse i t = Ret () w" "advanced p u (bcontents (blocks_of u)) {} w"
      using read_effect [OF su(5) ra(2)] by blast
    have sw: "advanced p s (bcontents (blocks_of s)) {} w" using advanced_trans [OF u(2) r(5)] su(7) by simp
    note w = unchanged_reads [OF less.prems(1) sw] advancedD [OF sw] advanced_fs [OF sw]
    have my: "myproc t = Ret (cproc (mycpu t)) t"
      using fs_ready_intr [OF su(5)] trans_frame_intr(1) [OF r(3)] by (simp add: myproc_ok)
    define obj' where "obj' = (\<lambda>i. if d \<le> i \<and> i < d + unat m then bcontents (blocks_of s) ?a (unat (off mod of_nat BSIZE) + (i - d)) else obj i)"
    have step: "readi_loop ip (KObj d) off n tot obj s = readi_loop ip (KObj (d + unat m)) (off + m) n (tot + m) obj' w"
      using True u(1) ra(1) r(1,2,4) less.prems(2)
      by (subst readi_loop.simps) (simp add: su(7,12) either_copyout_def my Let_def m_def [symmetric] ch(6) xadvance_def obj'_def cong: if_cong)
    have "\<exists>v. readi_loop ip (KObj (d + unat m)) (off + m) n (tot + m) obj' w =
        Ret (n, \<lambda>i. if d + unat m \<le> i \<and> i < d + unat m + unat (n - (tot + m)) then ibyte w ip (unat (off + m) + (i - (d + unat m))) else obj' i) v \<and>
       advanced p w (bcontents (blocks_of w)) {} v"
    proof (rule less.hyps)
      show "unat (n - (tot + m)) < unat (n - tot)" using ch(3,4,5) by simp
      show "unat (off + m) + unat (n - (tot + m)) < 2 ^ 32" using ch(1,3,4) less.prems(3) by simp
      show "tot + m \<le> n" using ch(7) by simp
      show "\<forall>k. unat (off + m) \<le> k \<and> k < unat (off + m) + unat (n - (tot + m)) \<longrightarrow> imapped w ip (k div BSIZE)"
        using less.prems(5) ch(1,3,4) by (simp add: w)
    qed (use less.prems(2) w in simp_all)
    then obtain v where v: "readi_loop ip (KObj (d + unat m)) (off + m) n (tot + m) obj' w =
        Ret (n, \<lambda>i. if d + unat m \<le> i \<and> i < d + unat m + unat (n - (tot + m)) then ibyte w ip (unat (off + m) + (i - (d + unat m))) else obj' i) v"
       "advanced p w (bcontents (blocks_of w)) {} v" by blast
    have om: "unat (off mod of_nat BSIZE) = unat off mod BSIZE" by (simp add: unat_mod BSIZE_def)
    have "(if d + unat m \<le> i \<and> i < d + unat m + unat (n - (tot + m)) then ibyte w ip (unat (off + m) + (i - (d + unat m))) else obj' i) =
        (if d \<le> i \<and> i < d + unat (n - tot) then ibyte s ip (unat off + (i - d)) else obj i)" for i
    proof (cases "d \<le> i \<and> i < d + unat m")
      case c: True
      then have j: "i - d < unat m" by auto
      have "ibyte s ip (unat off + (i - d)) = bcontents (blocks_of s) ?a (unat off mod BSIZE + (i - d))"
        unfolding ibyte_def chunk_block [OF ch(8) j] ..
      with c ch(4) show ?thesis by (simp add: obj'_def om)
    next
      case False
      then show ?thesis using ch(1,3,4) by (auto simp: obj'_def w)
    qed
    then show ?thesis
      using v advanced_trans [OF sw v(2)] w(7) by (intro exI [of _ v]) (simp add: step)
  qed
qed

lemma sint_small: "unat (x :: uint32) < 2 ^ 31 \<Longrightarrow> sint x = int (unat x)"
proof -
  assume "unat x < 2 ^ 31"
  then have "int (unat x) < int (2 ^ 31)" by (simp only: of_nat_less_iff)
  then have u: "uint x < 2147483648" by simp
  have "0 \<le> uint x" by simp
  then have "- 2147483648 \<le> uint x" by linarith
  with u show ?thesis by (simp add: sint_uint signed_take_bit_int_eq_self)
qed

lemma readi_reads:
  fixes s :: "'z fsst_scheme"
  assumes "fs_ready p s" "i_dev (itab s ip) = ROOTDEV" "i_size (itab s ip) \<le> of_nat (MAXFILE * BSIZE)"
    "off \<le> i_size (itab s ip)" "unat off + unat n < 2 ^ 32"
    "\<forall>k. unat off \<le> k \<and> k < unat off + unat n \<and> k < unat (i_size (itab s ip)) \<longrightarrow> imapped s ip (k div BSIZE)"
  defines "m \<equiv> min (unat n) (unat (i_size (itab s ip)) - unat off)"
  shows "\<exists>v. readi ip (KObj d) off n obj s = Ret (int m, \<lambda>i. if d \<le> i \<and> i < d + m then ibyte s ip (unat off + (i - d)) else obj i) v \<and>
     advanced p s (bcontents (blocks_of s)) {} v"
proof -
  let ?sz = "i_size (itab s ip)"
  define n' where "n' = (if ?sz < off + n then ?sz - off else n)"
  have sum: "unat (off + n) = unat off + unat n" using assms(5) by (simp add: unat_word_ariths)
  then have ov: "\<not> off + n < off" by (simp add: word_less_nat_alt)
  have le: "unat off \<le> unat ?sz" using assms(4) by (simp add: word_le_nat_alt)
  have n': "unat n' = m"
    using sum le assms(4) by (auto simp: n'_def m_def word_less_nat_alt unat_sub)
  have big: "unat ?sz \<le> 274432" using assms(3) by (simp add: word_le_nat_alt MAXFILE_def NDIRECT_def NINDIRECT_def BSIZE_def)
  have "\<exists>v. readi_loop ip (KObj d) off n' 0 obj s =
      Ret (n', \<lambda>i. if d \<le> i \<and> i < d + unat (n' - 0) then ibyte s ip (unat off + (i - d)) else obj i) v \<and>
     advanced p s (bcontents (blocks_of s)) {} v"
  proof (rule readi_loop_reads [OF assms(1,2)])
    show "unat off + unat (n' - 0) < 2 ^ 32" using n' assms(5) by (simp add: m_def)
    show "\<forall>k. unat off \<le> k \<and> k < unat off + unat (n' - 0) \<longrightarrow> imapped s ip (k div BSIZE)"
      using assms(6) n' by (auto simp: m_def)
  qed simp
  then obtain v where v: "readi_loop ip (KObj d) off n' 0 obj s =
      Ret (n', \<lambda>i. if d \<le> i \<and> i < d + unat n' then ibyte s ip (unat off + (i - d)) else obj i) v"
     "advanced p s (bcontents (blocks_of s)) {} v" by auto
  have "unat n' < 2 ^ 31" using n' big by (simp add: m_def)
  then have "sint n' = int m" using n' sint_small [of n'] by simp
  then have "readi ip (KObj d) off n obj s = Ret (int m, \<lambda>i. if d \<le> i \<and> i < d + m then ibyte s ip (unat off + (i - d)) else obj i) v"
    using v(1) ov assms(4) n' by (simp add: readi_def n'_def [symmetric] Let_def not_less [symmetric] cong: if_cong)
  with v(2) show ?thesis by blast
qed

section \<open>Writing\<close>

text \<open>
  The blocks of a file that are there are distinct, and none of them is a block with another role:
  the block of the inode or the indirect block.
\<close>

definition file_ok :: "'z fsst_scheme \<Rightarrow> nat \<Rightarrow> bool" where
  "file_ok s ip = (i_dev (itab s ip) = ROOTDEV \<and>
     (\<forall>i j. iaddr s ip i \<noteq> 0 \<and> iaddr s ip i = iaddr s ip j \<longrightarrow> i = j) \<and>
     (\<forall>i. iaddr s ip i \<noteq> 0 \<longrightarrow> iaddr s ip i \<noteq> IBLOCK (i_inum (itab s ip)) s \<and> iaddr s ip i \<noteq> i_addrs (itab s ip) NDIRECT) \<and>
     IBLOCK (i_inum (itab s ip)) s \<noteq> 0 \<and> i_addrs (itab s ip) NDIRECT \<noteq> IBLOCK (i_inum (itab s ip)) s \<and>
     i_addrs (itab s ip) NDIRECT \<notin> blocked (blocks_of s))"

lemma may_log_room:
  assumes "fs_ready p s" "may_log s bs" "b \<notin> blocked (blocks_of s)"
  shows "may_read s b"
proof -
  have "card (home_blocks s) \<le> card (home_blocks s \<union> bs)"
    using assms by (intro card_mono) (auto simp: may_log_def fs_ready_def home_card)
  then show ?thesis using assms trans_lh_n(1) [OF assms(1)] by (simp add: may_log_def may_read_def has_room_def)
qed

text \<open>Changing a data block of the file.\<close>

lemma file_block_changed:
  fixes s :: "'z fsst_scheme"
  assumes ok: "file_ok s ip" and a: "iaddr s ip bn \<noteq> 0"
    and v: "advanced p s ((bcontents (blocks_of s))(iaddr s ip bn := e)) cs v"
  shows "iaddr v ip j = iaddr s ip j" "file_ok v ip"
    "ibyte v ip k = (if k div BSIZE = bn then e (k mod BSIZE) else ibyte s ip k)"
proof -
  note f = advancedD [OF v] advanced_fs [OF v]
  have ib: "iaddr s ip bn \<noteq> i_addrs (itab s ip) NDIRECT" using ok a by (simp add: file_ok_def)
  show i: "iaddr v ip j = iaddr s ip j" for j using ib by (simp add: iaddr_def [of v] f) (simp add: iaddr_def)
  have ibl: "IBLOCK x v = IBLOCK x s" for x by (simp add: IBLOCK_def f)
  show "file_ok v ip" using ok unfolding file_ok_def i f ibl .
  have "iaddr s ip (k div BSIZE) = iaddr s ip bn \<longleftrightarrow> k div BSIZE = bn" using ok a by (auto simp: file_ok_def)
  then show "ibyte v ip k = (if k div BSIZE = bn then e (k mod BSIZE) else ibyte s ip k)"
    by (simp add: ibyte_def i f)
qed

definition wblocks :: "'z fsst_scheme \<Rightarrow> nat \<Rightarrow> nat \<Rightarrow> nat \<Rightarrow> uint32 set" where
  "wblocks s ip off n = (\<lambda>k. iaddr s ip (k div BSIZE)) ` {off..<off + n}"

lemma wblocks_chunk:
  assumes "unat off mod 1024 + c \<le> 1024" "0 < c" "c \<le> n"
  shows "wblocks s ip (unat (off :: uint32)) n = insert (iaddr s ip (unat off div BSIZE)) (wblocks s ip (unat off + c) (n - c))"
proof -
  have "{unat off..<unat off + n} = {unat off..<unat off + c} \<union> {unat off + c..<unat off + c + (n - c)}"
    using assms by auto
  moreover have "(\<lambda>k. iaddr s ip (k div BSIZE)) ` {unat off..<unat off + c} = {iaddr s ip (unat off div BSIZE)}"
  proof -
    have "iaddr s ip (k div BSIZE) = iaddr s ip (unat off div BSIZE)" if "k \<in> {unat off..<unat off + c}" for k
      using that chunk_block(1) [OF assms(1), of "k - unat off"] by auto
    then have "(\<lambda>k. iaddr s ip (k div BSIZE)) ` {unat off..<unat off + c} = (\<lambda>_. iaddr s ip (unat off div BSIZE)) ` {unat off..<unat off + c}"
      by (rule image_cong [OF refl])
    with assms(2) show ?thesis by (simp add: image_constant_conv)
  qed
  ultimately show ?thesis by (simp add: wblocks_def image_Un)
qed

text \<open>One turn of the loop of \<^verbatim>\<open>writei\<close>: a chunk of the source replaces the bytes of one block.\<close>

definition patched :: "bytes \<Rightarrow> nat \<Rightarrow> nat \<Rightarrow> bytes \<Rightarrow> nat \<Rightarrow> bytes" where
  "patched old pos len obj d = (\<lambda>i. if pos \<le> i \<and> i < pos + len then obj (d + (i - pos)) else old i)"

lemma writei_turn:
  fixes s :: "'z fsst_scheme"
  assumes tr: "fs_ready p s" and ok: "file_ok s ip" and lt: "tot < n" and bound: "unat off + unat (n - tot) < 2 ^ 32"
    and a0: "iaddr s ip (unat off div BSIZE) \<noteq> 0" and ml: "may_log s bs" and ab: "iaddr s ip (unat off div BSIZE) \<in> bs"
  defines "m \<equiv> chunk (n - tot) off" and "a \<equiv> iaddr s ip (unat off div BSIZE)"
  shows "\<exists>w. writei_loop ip (KObj d) off n tot obj s = writei_loop ip (KObj (d + unat m)) (off + m) n (tot + m) obj w \<and>
     advanced p s ((bcontents (blocks_of s))(a := patched (bcontents (blocks_of s) a) (unat off mod BSIZE) (unat m) obj d)) {a} w"
proof -
  note ch = chunk_add [OF lt bound, folded m_def]
  let ?e = "patched (bcontents (blocks_of s) a) (unat off mod BSIZE) (unat m) obj d"
  have bn: "unat (off div of_nat BSIZE) = unat off div BSIZE" and om: "unat (off mod of_nat BSIZE) = unat off mod BSIZE"
    by (simp_all add: unat_div unat_mod BSIZE_def)
  have dev: "i_dev (itab s ip) = ROOTDEV" "i_addrs (itab s ip) NDIRECT \<notin> blocked (blocks_of s)"
    using ok by (simp_all add: file_ok_def)
  have mp: "imapped s ip (unat (off div of_nat BSIZE))"
    using a0 may_log_one(6) [OF tr ml ab] may_log_room [OF tr ml dev(2)] by (simp add: imapped_def bn)
  obtain u where u: "bmap ip (off div of_nat BSIZE) s = Ret a u" "advanced p s (bcontents (blocks_of s)) {} u"
    using bmap_mapped [OF tr mp dev(1)] unfolding bn a_def by blast
  note su = advancedD [OF u(2)] advanced_fs [OF u(2)]
  have mu: "may_log u bs" using ml by (simp only: advanced_id [OF u(2)])
  have "sized (bcontents (blocks_of s) a)" using tr by (simp add: fs_ready_def)
  then have "sized ?e" using ch(8) by (auto simp: patched_def sized_def BSIZE_def)
  then obtain i t x w where r: "bread ROOTDEV a u = Ret i t" "bdata (bufs t i) = bcontents (blocks_of u) a" "trans_frame u t"
      "log_write i (put_data i ?e t) = Ret () x" "brelse i x = Ret () w"
      "advanced p u ((bcontents (blocks_of u))(a := ?e)) {a} w"
    using update_effect [OF su(1) mu, of a] ab unfolding a_def by blast
  have my: "myproc t = Ret (cproc (mycpu t)) t"
    using fs_ready_intr [OF su(1)] trans_frame_intr(1) [OF r(3)] by (simp add: myproc_ok)
  have "writei_loop ip (KObj d) off n tot obj s = writei_loop ip (KObj (d + unat m)) (off + m) n (tot + m) obj w"
    using lt u(1) a0 r(1,2,4,5) dev(1)
    by (subst writei_loop.simps)
      (simp add: su(3,8) either_copyin_def my Let_def m_def [symmetric] a_def [symmetric] ch(6) om xadvance_def patched_def cong: if_cong)
  then show ?thesis using advanced_trans [OF u(2) r(6)] su(3) by auto
qed

text \<open>The bytes of a file after one block of it has been patched.\<close>

lemma patched_bytes:
  assumes "unat (off :: uint32) mod 1024 + c \<le> 1024"
  shows "(if k div BSIZE = unat off div BSIZE
      then patched (bcontents (blocks_of s) (iaddr s ip (unat off div BSIZE))) (unat off mod BSIZE) c obj d (k mod BSIZE) else ibyte s ip k) =
    (if unat off \<le> k \<and> k < unat off + c then obj (d + (k - unat off)) else ibyte s ip k)"
proof (cases "unat off \<le> k \<and> k < unat off + c")
  case True
  then obtain j where j: "k = unat off + j" "j < c" by (metis le_add_diff_inverse nat_add_left_cancel_less)
  then show ?thesis using chunk_block [OF assms j(2)] by (simp add: patched_def)
next
  case False
  have "\<not> (unat off mod BSIZE \<le> k mod BSIZE \<and> k mod BSIZE < unat off mod BSIZE + c)" if "k div BSIZE = unat off div BSIZE"
  proof -
    have "unat off = k div BSIZE * BSIZE + unat off mod BSIZE" "k = k div BSIZE * BSIZE + k mod BSIZE" unfolding that [symmetric]
      by (metis div_mult_mod_eq that) simp
    with False show ?thesis by linarith
  qed
  then have p: "patched old (unat off mod BSIZE) c obj d (k mod BSIZE) = old (k mod BSIZE)" if "k div BSIZE = unat off div BSIZE" for old
    using that unfolding patched_def by (simp only: if_False)
  show ?thesis
  proof (cases "k div BSIZE = unat off div BSIZE")
    case True
    then show ?thesis unfolding p [OF True] ibyte_def using False by auto
  next
    case out: False
    with False show ?thesis by (simp only: if_False simp_thms)
  qed
qed

lemma writei_loop_writes:
  fixes s :: "'z fsst_scheme"
  assumes "fs_ready p s" "file_ok s ip" "unat off + unat (n - tot) < 2 ^ 32" "tot \<le> n"
    "\<forall>k. unat off \<le> k \<and> k < unat off + unat (n - tot) \<longrightarrow> iaddr s ip (k div BSIZE) \<noteq> 0"
    "may_log s bs" "wblocks s ip (unat off) (unat (n - tot)) \<subseteq> bs"
  shows "\<exists>v f. writei_loop ip (KObj d) off n tot obj s = Ret (n, off + (n - tot)) v \<and>
     advanced p s f (wblocks s ip (unat off) (unat (n - tot))) v \<and> file_ok v ip \<and> (\<forall>j. iaddr v ip j = iaddr s ip j) \<and>
     (\<forall>k. ibyte v ip k = (if unat off \<le> k \<and> k < unat off + unat (n - tot) then obj (d + (k - unat off)) else ibyte s ip k)) \<and>
     (\<forall>b. b \<notin> wblocks s ip (unat off) (unat (n - tot)) \<longrightarrow> f b = bcontents (blocks_of s) b)"
  using assms
proof (induction "unat (n - tot)" arbitrary: d off tot s rule: less_induct)
  case less
  show ?case
  proof (cases "tot < n")
    case False
    then have "tot = n" using less.prems(4) by simp
    then show ?thesis using advanced_refl [OF less.prems(1)] less.prems(2)
      by (subst writei_loop.simps) (auto simp: wblocks_def intro!: exI [of _ s] exI [of _ "bcontents (blocks_of s)"])
  next
    case True
    define m where "m = chunk (n - tot) off"
    note ch = chunk_add [OF True less.prems(3), folded m_def]
    let ?a = "iaddr s ip (unat off div BSIZE)"
    have a0: "?a \<noteq> 0" using less.prems(5) ch(4,5) by auto
    have W: "wblocks s ip (unat off) (unat (n - tot)) = insert ?a (wblocks s ip (unat off + unat m) (unat (n - tot) - unat m))"
      by (rule wblocks_chunk [OF ch(8,5,4)])
    then have ab: "?a \<in> bs" using less.prems(7) by blast
    obtain w where step: "writei_loop ip (KObj d) off n tot obj s = writei_loop ip (KObj (d + unat m)) (off + m) n (tot + m) obj w"
      and sw: "advanced p s ((bcontents (blocks_of s))(?a := patched (bcontents (blocks_of s) ?a) (unat off mod BSIZE) (unat m) obj d)) {?a} w"
      using writei_turn [OF less.prems(1,2) True less.prems(3) a0 less.prems(6) ab] unfolding m_def by blast
    note w = file_block_changed [OF less.prems(2) a0 sw, unfolded patched_bytes [OF ch(8)]] advancedD [OF sw]
    have wb: "wblocks w ip k j = wblocks s ip k j" for k j by (simp add: wblocks_def w)
    have "\<exists>v f. writei_loop ip (KObj (d + unat m)) (off + m) n (tot + m) obj w = Ret (n, off + m + (n - (tot + m))) v \<and>
       advanced p w f (wblocks w ip (unat (off + m)) (unat (n - (tot + m)))) v \<and> file_ok v ip \<and> (\<forall>j. iaddr v ip j = iaddr w ip j) \<and>
       (\<forall>k. ibyte v ip k = (if unat (off + m) \<le> k \<and> k < unat (off + m) + unat (n - (tot + m)) then obj (d + unat m + (k - unat (off + m))) else ibyte w ip k)) \<and>
       (\<forall>b. b \<notin> wblocks w ip (unat (off + m)) (unat (n - (tot + m))) \<longrightarrow> f b = bcontents (blocks_of w) b)"
    proof (rule less.hyps)
      show "unat (n - (tot + m)) < unat (n - tot)" using ch(3,4,5) by simp
      show "unat (off + m) + unat (n - (tot + m)) < 2 ^ 32" using ch(1,3,4) less.prems(3) by simp
      show "\<forall>k. unat (off + m) \<le> k \<and> k < unat (off + m) + unat (n - (tot + m)) \<longrightarrow> iaddr w ip (k div BSIZE) \<noteq> 0"
        using less.prems(5) ch(1,3,4) by (simp add: w)
      show "may_log w bs" using may_log_advanced [OF less.prems(6) sw] ab by simp
      show "wblocks w ip (unat (off + m)) (unat (n - (tot + m))) \<subseteq> bs" using W less.prems(7) by (auto simp: wb ch)
    qed (use w ch(7) in simp_all)
    then obtain v f where v: "writei_loop ip (KObj (d + unat m)) (off + m) n (tot + m) obj w = Ret (n, off + m + (n - (tot + m))) v"
       "advanced p w f (wblocks s ip (unat off + unat m) (unat (n - tot) - unat m)) v" "file_ok v ip" "\<forall>j. iaddr v ip j = iaddr w ip j"
       "\<forall>k. ibyte v ip k = (if unat off + unat m \<le> k \<and> k < unat off + unat m + (unat (n - tot) - unat m)
          then obj (d + unat m + (k - (unat off + unat m))) else ibyte w ip k)"
       "\<forall>b. b \<notin> wblocks s ip (unat off + unat m) (unat (n - tot) - unat m) \<longrightarrow> f b = bcontents (blocks_of w) b"
      unfolding ch(1,3) wb by blast
    have "ibyte v ip k = (if unat off \<le> k \<and> k < unat off + unat (n - tot) then obj (d + (k - unat off)) else ibyte s ip k)" for k
      using v(5) ch(4) by (auto simp: w(3))
    moreover have "advanced p s f (wblocks s ip (unat off) (unat (n - tot))) v"
      using advanced_trans [OF sw v(2)] W by simp
    moreover have "f b = bcontents (blocks_of s) b" if "b \<notin> wblocks s ip (unat off) (unat (n - tot))" for b
      using v(6) that W w(6) by simp
    ultimately show ?thesis
      using v(1,3,4) w(1) step by (intro exI [of _ v] exI [of _ f]) simp
  qed
qed

text \<open>A change of the inode's own block or of its size does not touch the contents of the file.\<close>

lemma file_inode_changed:
  fixes s :: "'z fsst_scheme"
  assumes ok: "file_ok s ip" and T: "T ip = (itab s ip)\<lparr>i_size := z\<rparr>"
    and v: "advanced p (s\<lparr>itab := T\<rparr>) ((bcontents (blocks_of s))(IBLOCK (i_inum (itab s ip)) s := e)) cs v"
  shows "iaddr v ip j = iaddr s ip j" "file_ok v ip" "ibyte v ip k = ibyte s ip k"
proof -
  note f = advancedD [OF v, simplified] advanced_fs [OF v, simplified]
  let ?ib = "IBLOCK (i_inum (itab s ip)) s"
  have o: "?ib \<noteq> 0" "i_addrs (itab s ip) NDIRECT \<noteq> ?ib" "\<And>i. iaddr s ip i \<noteq> 0 \<Longrightarrow> iaddr s ip i \<noteq> ?ib"
    using ok by (auto simp: file_ok_def)
  have itv: "i_addrs (itab v ip) = i_addrs (itab s ip)" "i_inum (itab v ip) = i_inum (itab s ip)" "i_dev (itab v ip) = i_dev (itab s ip)"
    by (simp_all add: f T)
  show i: "iaddr v ip j = iaddr s ip j" for j unfolding iaddr_def itv f(3) using o(2) by simp
  have ibl: "IBLOCK x v = IBLOCK x s" for x by (simp add: IBLOCK_def f)
  show "file_ok v ip" using ok unfolding file_ok_def i ibl itv f(4) .
  have "iaddr s ip (k div BSIZE) \<noteq> ?ib" using o(1,3) by metis
  then show "ibyte v ip k = ibyte s ip k" by (simp add: ibyte_def i f)
qed

lemma trans_frame_itab:
  assumes "trans_frame s (u :: 'z fsst_scheme)"
  shows "trans_frame (s\<lparr>itab := T\<rparr>) (u\<lparr>itab := T\<rparr>)"
proof -
  obtain L B X k where "u = s\<lparr>sleeplk := L, bufs := B, lh_block := X, lh_n := k\<rparr>"
    using assms by (auto simp: trans_frame_def)
  then have "u\<lparr>itab := T\<rparr> = (s\<lparr>itab := T\<rparr>)\<lparr>sleeplk := L, bufs := B, lh_block := X, lh_n := k\<rparr>" by simp
  then show ?thesis unfolding trans_frame_def by blast
qed

lemma writei_writes:
  fixes s :: "'z fsst_scheme"
  assumes tr: "fs_ready p s" and ok: "file_ok s ip" and off: "off \<le> i_size (itab s ip)" "unat off + unat n \<le> MAXFILE * BSIZE"
    and there: "\<forall>k. unat off \<le> k \<and> k < unat off + unat n \<longrightarrow> iaddr s ip (k div BSIZE) \<noteq> 0"
    and ml: "may_log s (insert (IBLOCK (i_inum (itab s ip)) s) (wblocks s ip (unat off) (unat n)))"
  defines "ib \<equiv> IBLOCK (i_inum (itab s ip)) s" and "x \<equiv> (itab s ip)\<lparr>i_size := max (i_size (itab s ip)) (off + n)\<rparr>"
  shows "\<exists>v. writei ip (KObj d) off n obj s = Ret (int (unat n)) v \<and> fs_ready p v \<and> trans_frame (s\<lparr>itab := (itab s)(ip := x)\<rparr>) v \<and>
     file_ok v ip \<and> (\<forall>j. iaddr v ip j = iaddr s ip j) \<and>
     (\<forall>k. ibyte v ip k = (if unat off \<le> k \<and> k < unat off + unat n then obj (d + (k - unat off)) else ibyte s ip k)) \<and>
     bcontents (blocks_of v) ib = put_dinode x (i_inum x) (bcontents (blocks_of s) ib) \<and>
     (\<forall>b. b \<notin> insert ib (wblocks s ip (unat off) (unat n)) \<longrightarrow> bcontents (blocks_of v) b = bcontents (blocks_of s) b) \<and>
     blocked (blocks_of v) = blocked (blocks_of s) \<and> home_blocks v = home_blocks s \<union> insert ib (wblocks s ip (unat off) (unat n))"
proof -
  let ?W = "wblocks s ip (unat off) (unat n)"
  have big: "unat off + unat n \<le> 274432" using off(2) by (simp add: MAXFILE_def NDIRECT_def NINDIRECT_def BSIZE_def)
  then have sum: "unat (off + n) = unat off + unat n" by (simp add: unat_word_ariths)
  then have ov: "\<not> off + n < off" "\<not> MAXFILE * BSIZE < unat (off + n)" using off(2) by (simp_all add: word_less_nat_alt)
  have "\<exists>v f. writei_loop ip (KObj d) off n 0 obj s = Ret (n, off + (n - 0)) v \<and>
     advanced p s f (wblocks s ip (unat off) (unat (n - 0))) v \<and> file_ok v ip \<and> (\<forall>j. iaddr v ip j = iaddr s ip j) \<and>
     (\<forall>k. ibyte v ip k = (if unat off \<le> k \<and> k < unat off + unat (n - 0) then obj (d + (k - unat off)) else ibyte s ip k)) \<and>
     (\<forall>b. b \<notin> wblocks s ip (unat off) (unat (n - 0)) \<longrightarrow> f b = bcontents (blocks_of s) b)"
    by (rule writei_loop_writes [OF tr ok _ _ _ ml]) (use big there in auto)
  then obtain u f where u: "writei_loop ip (KObj d) off n 0 obj s = Ret (n, off + n) u" "advanced p s f ?W u" "file_ok u ip"
     "\<And>j. iaddr u ip j = iaddr s ip j"
     "\<And>k. ibyte u ip k = (if unat off \<le> k \<and> k < unat off + unat n then obj (d + (k - unat off)) else ibyte s ip k)"
     "\<And>b. b \<notin> ?W \<Longrightarrow> f b = bcontents (blocks_of s) b" by auto
  note au = advancedD [OF u(2)] advanced_fs [OF u(2)]
  have IBu: "IBLOCK y u = IBLOCK y s" for y by (simp add: IBLOCK_def au)
  define T where "T = (itab s)(ip := x)"
  define w where "w = u\<lparr>itab := T\<rparr>"
  have eqw: "(if i_size (itab u ip) < off + n then set_inode ip (\<lambda>y. y\<lparr>i_size := off + n\<rparr>) u else u) = w"
    by (auto simp: w_def T_def x_def set_inode_def au max_def fun_upd_idem not_less intro!: fun_upd_idem [symmetric])
  have ib: "IBLOCK (i_inum (itab w ip)) w = ib" "i_dev (itab w ip) = ROOTDEV" "itab w ip = x" "blocks_of w = blocks_of u"
    using ok IBu by (simp_all add: w_def T_def x_def ib_def IBLOCK_def file_ok_def)
  have mlw: "may_log w (insert ib ?W)" using may_log_advanced [OF ml u(2)] by (simp add: w_def ib_def subset_insertI)
  have rw: "fs_ready p w" using au(1) by (simp add: w_def)
  obtain v where v: "iupdate ip w = Ret () v"
    "advanced p w ((bcontents (blocks_of u))(ib := put_dinode x (i_inum x) (bcontents (blocks_of u) ib))) {ib} v"
    using iupdate_effect [OF rw mlw, of ip] ib by auto
  have "iaddr s ip i \<noteq> ib" if "iaddr s ip i \<noteq> 0" for i using ok that by (simp add: file_ok_def ib_def)
  then have nib: "ib \<notin> ?W" using there by (fastforce simp: wblocks_def)
  have v2: "advanced p (u\<lparr>itab := T\<rparr>) ((bcontents (blocks_of u))(IBLOCK (i_inum (itab u ip)) u := put_dinode x (i_inum x) (bcontents (blocks_of u) ib))) {ib} v"
    using v(2) by (simp add: w_def IBu au ib_def)
  have Tu: "T ip = (itab u ip)\<lparr>i_size := i_size x\<rparr>" by (simp add: T_def x_def au)
  note fv = file_inode_changed [OF u(3) Tu v2]
  note av = advancedD [OF v(2)]
  have "trans_frame (s\<lparr>itab := T\<rparr>) w" unfolding w_def by (rule trans_frame_itab [OF au(2)])
  then have fr: "trans_frame (s\<lparr>itab := T\<rparr>) v" using av(2) trans_frame_trans by blast
  have "unat n < 2 ^ 31" using big by simp
  then have "writei ip (KObj d) off n obj s = Ret (int (unat n)) v"
    using u(1) ov off(1) v(1) by (simp add: writei_def eqw sint_small not_less [symmetric] del: of_nat_unat)
  then show ?thesis
    using fr fv u(4,5) av nib u(6) au by (intro exI [of _ v]) (auto simp: T_def ib w_def)
qed

section \<open>Locking an inode\<close>

text \<open>The sleep locks of inodes are apart from those of the buffers.\<close>

lemma inode_lock_frame [simp]:
  "blocks_of (set_slk (InodeLk j) f s) = blocks_of s" "fs_ready p (set_slk (InodeLk j) f s) = fs_ready p s"
  "home_blocks (set_slk (InodeLk j) f s) = home_blocks s" "may_read (set_slk (InodeLk j) f s) b = may_read s b"
  "itab (set_slk (InodeLk j) f t) = itab t" "IBLOCK n (set_slk (InodeLk j) f t) = IBLOCK n t"
proof -
  show b: "blocks_of (set_slk (InodeLk j) f s) = blocks_of s"
    by (simp add: set_slk_def blocks_of_def view_def held_def holds_def buf_locked_def fun_eq_iff split: option.split)
  show h: "home_blocks (set_slk (InodeLk j) f s) = home_blocks s"
    by (simp add: home_blocks_def set_slk_def)
  have "log_ok (set_slk (InodeLk j) f s) = log_ok s"
    by (simp add: log_ok_def log_area_def log_blk_def set_slk_def image_def)
  moreover have "bio_inv p (set_slk (InodeLk j) f s) = bio_inv p s"
    by (simp add: bio_inv_def set_slk_def bufs_ok_def)
  ultimately show "fs_ready p (set_slk (InodeLk j) f s) = fs_ready p s" by (simp add: fs_ready_def b h)
  show "may_read (set_slk (InodeLk j) f s) b = may_read s b"
    using b h by (simp add: may_read_def has_room_def) (simp add: set_slk_def)
qed (simp_all add: set_slk_def IBLOCK_def)

lemma ilock_loads:
  fixes s :: "'z fsst_scheme"
  assumes tr: "fs_ready p s" and rd: "may_read s (IBLOCK (i_inum (itab s j)) s)"
    and ip: "1 \<le> i_ref (itab s j)" "\<not> i_valid (itab s j)" "i_dev (itab s j) = ROOTDEV" "\<not> sl_locked (sleeplk s (InodeLk j))"
    and ty: "dinode_type (bcontents (blocks_of s) (IBLOCK (i_inum (itab s j)) s)) (i_inum (itab s j)) \<noteq> 0"
  shows "\<exists>v. ilock (Some j) s = Ret () v \<and> fs_ready p v \<and> bcontents (blocks_of v) = bcontents (blocks_of s) \<and>
     itab v = (itab s)(j := (get_dinode (bcontents (blocks_of s) (IBLOCK (i_inum (itab s j)) s)) (i_inum (itab s j)) (itab s j))\<lparr>i_valid := True\<rparr>)"
proof -
  let ?ib = "IBLOCK (i_inum (itab s j)) s" and ?inum = "i_inum (itab s j)"
  have calm: "calm p s" using tr by (simp add: fs_ready_def bio_inv_def)
  define u where "u = set_slk (InodeLk j) (\<lambda>k. k\<lparr>sl_locked := True, sl_pid := pid (proc s p)\<rparr>) s"
  have acq: "acquiresleep (InodeLk j) s = Ret () u" unfolding u_def by (rule acquiresleep_free [OF calm ip(4)])
  have u: "fs_ready p u" "may_read u ?ib" "blocks_of u = blocks_of s" "itab u = itab s" "IBLOCK ?inum u = ?ib"
    using tr rd by (simp_all add: u_def)
  let ?x = "get_dinode (bcontents (blocks_of s) ?ib) ?inum (itab s j)"
  have x: "i_type ?x = dinode_type (bcontents (blocks_of s) ?ib) ?inum" by (simp add: get_dinode_def Let_def dinode_type_def)
  have inv: "bio_inv p u" using u(1) by (simp add: fs_ready_def)
  note rdb = trans_readable [OF u(1,2)]
  obtain i t where t: "bread ROOTDEV ?ib u = Ret i t" "bio_inv p t" "cache_frame u t" "blocks_of t = a_read ?ib (blocks_of u)" "held t i ?ib"
    using bc.read_ok [OF inv rdb] by blast
  have dt: "bdata (bufs t i) = bcontents (blocks_of s) ?ib" using bc.dat_hold [OF t(2,5)] t(4) u(3) by (simp add: a_read_def)
  have it: "itab t = itab s" using t(3) u(4) by (auto simp: cache_frame_def)
  define w where "w = t\<lparr>itab := (itab s)(j := ?x)\<rparr>"
  have w: "bio_inv p w" "held w i ?ib" "blocks_of w = a_read ?ib (blocks_of s)"
    using t u(3) by (simp_all add: w_def held_def holds_def buf_locked_def)
  have "bcontents (blocks_of w) ?ib = bdisk (blocks_of w) ?ib" if "brefs (blocks_of w) ?ib = 1"
    using that blocks_clean [OF inv, of ?ib] u(3) by (simp add: w(3) a_read_def)
  then obtain z where z: "brelse i w = Ret () z" "bio_inv p z" "cache_frame w z" "blocks_of z = a_release ?ib (blocks_of w)"
    using bc.release_ok [OF w(1,2)] by blast
  have bz: "blocks_of z = blocks_of s" using z(4) w(3) rdb u(3) by (simp add: a_read_def a_release_def readable_def)
  have iz: "itab z = (itab s)(j := ?x)" using z(3) by (auto simp: cache_frame_def w_def)
  define v where "v = z\<lparr>itab := (itab s)(j := ?x\<lparr>i_valid := True\<rparr>)\<rparr>"
  have "ilock (Some j) s = Ret () v"
    using acq t(1) ip u(4,5) dt z(1) ty it x iz
    by (simp add: ilock_def set_inode_def w_def [symmetric] v_def)
  moreover have "fs_ready p v"
  proof -
    have cf: "cache_frame u (z\<lparr>itab := itab u\<rparr>)"
      using t(3) z(3) by (auto simp: cache_frame_def w_def) blast
    have "fs_ready p (z\<lparr>itab := itab u\<rparr>)"
      by (rule fs_ready_same [OF u(1) _ cf]) (use z(2) bz u(3) in simp_all)
    then show ?thesis by (simp add: v_def)
  qed
  ultimately show ?thesis using bz by (intro exI [of _ v]) (simp add: v_def)
qed

end
