(* ===== verification/FsTheorems.thy ===== *)
theory FsTheorems
  imports Inodes Example
begin

text \<open>
  The theorems about blocks, inodes and the contents of files, and a small file system on which
  they are applied.
\<close>

section \<open>A small file system\<close>

text \<open>Blocks 0 to 46 are in use, 46 is the bitmap; inode 5 is in slot 0 of the table with one block, 60.\<close>

definition ex_bitmap :: bytes where
  "ex_bitmap = (\<lambda>i. if i < 5 then 255 else if i = 5 then 127 else 0)"

definition ex_inode :: inode where
  "ex_inode = \<lparr>i_dev = ROOTDEV, i_inum = 5, i_ref = 1, i_valid = True, i_type = T_FILE, i_major = 0, i_minor = 0,
     i_nlink = 1, i_size = 100, i_addrs = (\<lambda>_. 0)(0 := 60)\<rparr>"

definition ex_fs :: trapst where
  "ex_fs = ex\<lparr>lg_outstanding := 1, disk := (\<lambda>_ _. 0)(46 := ex_bitmap), itab := (itab ex)(0 := ex_inode)\<rparr>"

lemma ex_buf_demo: "ex_buf = demo_bufs 0"
  by (rule ext) (simp add: ex_buf_def demo_bufs_def)

lemma ex_fs_fields [simp]:
  "sb ex_fs = \<lparr>sb_magic = FSMAGIC, sb_size = 2000, sb_nblocks = 1953, sb_ninodes = 200, sb_nlog = 31, sb_logstart = 2,
       sb_inodestart = 33, sb_bmapstart = 46\<rparr>"
  "itab ex_fs 0 = ex_inode" "lg_outstanding ex_fs = 1" "lh_n ex_fs = 0" "lg_start ex_fs = 2" "lg_dev ex_fs = ROOTDEV"
  "disk ex_fs = (\<lambda>_ _. 0)(46 := ex_bitmap)" "bufs ex_fs = demo_bufs 0" "proc ex_fs = ex_proc"
  "sleeplk ex_fs = (\<lambda>_. \<lparr>sl_locked = False, sl_name = [], sl_pid = 0\<rparr>)" "dtrace ex_fs = []"
  by (simp_all add: ex_fs_def ex_def ex_buf_demo)

lemma ex_fs_calm: "calm 0 ex_fs" "no_waiters l ex_fs"
  by (auto simp: calm_def lock_free_def intr_ok_def mach_defs no_waiters_def ex_proc_def) (simp_all add: ex_fs_def ex_def)

lemma ex_fs_blocks:
  "bcontents (blocks_of ex_fs) = (\<lambda>_ _. 0)(46 := ex_bitmap)" "brefs (blocks_of ex_fs) = (\<lambda>_. 0)" "blocked (blocks_of ex_fs) = {}"
  "home_blocks ex_fs = {}"
proof -
  have none: "cached (demo_bufs 0) b = None" for b using demo_cached [of 0 b] by (cases "cached (demo_bufs 0) b") auto
  then show "bcontents (blocks_of ex_fs) = (\<lambda>_ _. 0)(46 := ex_bitmap)" "brefs (blocks_of ex_fs) = (\<lambda>_. 0)"
    by (simp_all add: blocks_of_def view_def refs_def fun_eq_iff)
  show "blocked (blocks_of ex_fs) = {}" by (simp add: blocks_of_def held_def buf_locked_def)
  show "home_blocks ex_fs = {}" by (simp add: home_blocks_def)
qed

lemma ex_fs_ready: "fs_ready 0 ex_fs"
proof -
  have "bio_inv 0 ex_fs" using ex_fs_calm demo_bufs_ok [of 0] by (simp add: bio_inv_def)
  moreover have "log_ok ex_fs" by (simp add: log_ok_def LOGBLOCKS_def MAXOPBLOCKS_def)
  ultimately show ?thesis by (auto simp: fs_ready_def ex_fs_blocks sized_def ex_bitmap_def BSIZE_def)
qed

lemma ex_log_area: "b \<in> log_area ex_fs \<Longrightarrow> unat b < 33"
  by (auto simp: log_area_def log_blk_def LOGBLOCKS_def MAXOPBLOCKS_def unat_word_ariths unat_of_nat)

lemma ex_may_log:
  assumes "\<forall>b \<in> bs. 33 \<le> unat b" "finite bs" "card bs < 30"
  shows "may_log ex_fs bs"
proof -
  have "bs \<inter> log_area ex_fs = {}" using assms(1) ex_log_area by fastforce
  then show ?thesis using assms by (simp add: may_log_def ex_fs_blocks LOGBLOCKS_def MAXOPBLOCKS_def NBUF_def)
qed

lemma ex_BBLOCK: "b < 2000 \<Longrightarrow> BBLOCK (of_nat b) ex_fs = 46"
  by (subst BBLOCK_group) (simp_all add: BPB_def)

lemma ex_used: "b < 2000 \<Longrightarrow> block_used ex_fs b \<longleftrightarrow> b < 47"
proof -
  assume b: "b < 2000"
  have "bit (ex_bitmap (b div 8)) (b mod 8) \<longleftrightarrow> b < 47"
  proof -
    have e: "b = b div 8 * 8 + b mod 8" "b mod 8 < 8" by simp_all
    consider "b div 8 < 5" | "b div 8 = 5" | "5 < b div 8" by linarith
    then show ?thesis
    proof cases
      case 1
      then have "b < 47" using e by linarith
      moreover have "bit (255 :: uint8) n" if "n < 8" for n using that by (simp add: less_Suc_eq numeral_eq_Suc) auto
      ultimately show ?thesis using 1 by (simp add: ex_bitmap_def)
    next
      case 2
      moreover have "bit (127 :: uint8) n \<longleftrightarrow> n < 7" if "n < 8" for n using that by (simp add: less_Suc_eq numeral_eq_Suc) auto
      ultimately show ?thesis using e by (simp add: ex_bitmap_def) linarith
    next
      case 3
      then have "\<not> b < 47" by linarith
      with 3 show ?thesis by (simp add: ex_bitmap_def)
    qed
  qed
  then show ?thesis using b by (simp add: block_used_def ex_BBLOCK ex_fs_blocks bit_clear_bit BPB_def)
qed

section \<open>Blocks\<close>

text \<open>Two blocks with the same bit in the same block of the bitmap are the same block.\<close>

lemma same_bit:
  assumes c: "c < fs_size s" and b: "b < fs_size s" and eq: "BBLOCK (of_nat c) s = BBLOCK (of_nat b) s" and m: "c mod BPB = b mod BPB"
  shows "c = b"
proof -
  have lt: "c div BPB < 2 ^ LENGTH(32)" "b div BPB < 2 ^ LENGTH(32)"
    using fs_size_bound [OF c] fs_size_bound [OF b] by (simp_all add: BPB_def)
  have "of_nat (c div BPB) + sb_bmapstart (sb s) = of_nat (b div BPB) + sb_bmapstart (sb s)"
    using eq unfolding BBLOCK_group [OF fs_size_bound [OF c]] BBLOCK_group [OF fs_size_bound [OF b]] .
  then have "(of_nat (c div BPB) :: uint32) = of_nat (b div BPB)" by simp
  then have "unat (of_nat (c div BPB) :: uint32) = unat (of_nat (b div BPB) :: uint32)" by simp
  then have "c div BPB = b div BPB" by (simp only: unat_of_nat_lt [OF lt(1)] unat_of_nat_lt [OF lt(2)])
  with m show ?thesis by (metis div_mult_mod_eq)
qed

text \<open>
  C25. \<^verbatim>\<open>balloc\<close> inside a transaction returns the first block the bitmap has free, marks exactly
  that block as used, fills it with zeroes and changes no other block; the two blocks it wrote are
  part of the transaction. With no free block it returns 0 and changes nothing.
\<close>

theorem balloc_allocates:
  fixes s :: "'z fsst_scheme"
  assumes "fs_ready p s" "bitmap_ok s"
    "\<forall>b < fs_size s. \<not> block_used s b \<longrightarrow> may_log s {BBLOCK (of_nat b) s, of_nat b}"
  shows "returns (balloc ROOTDEV s) (\<lambda>r v. fs_ready p v \<and> trans_frame s v \<and>
     (case first_idx (\<lambda>b. \<not> block_used s b) [0..<fs_size s] of
        None \<Rightarrow> r = 0 \<and> bcontents (blocks_of v) = bcontents (blocks_of s)
      | Some b \<Rightarrow> r = of_nat b \<and> block_used v b \<and> bcontents (blocks_of v) (of_nat b) = (\<lambda>_. 0) \<and>
          (\<forall>c < fs_size s. c \<noteq> b \<longrightarrow> block_used v c = block_used s c) \<and>
          (\<forall>c. c \<noteq> of_nat b \<and> c \<noteq> BBLOCK (of_nat b) s \<longrightarrow> bcontents (blocks_of v) c = bcontents (blocks_of s) c) \<and>
          {BBLOCK (of_nat b) s, of_nat b} \<subseteq> home_blocks v))"
proof (cases "first_idx (\<lambda>b. \<not> block_used s b) [0..<fs_size s]")
  case None
  then have "\<forall>b < fs_size s. block_used s b" by (simp add: first_idx_None)
  then obtain v where "balloc ROOTDEV s = Ret 0 v" "advanced p s (bcontents (blocks_of s)) {} v"
    using balloc_full [OF assms(1,2)] by blast
  with None show ?thesis by (simp add: advanced_def)
next
  case (Some b)
  then have b: "b < fs_size s" "\<not> block_used s b" "\<forall>c < b. block_used s c" by (auto simp: first_idx_upt_Some)
  let ?bb = "BBLOCK (of_nat b) s" and ?f = "bcontents (blocks_of s)"
  obtain v where v: "balloc ROOTDEV s = Ret (of_nat b) v"
    "advanced p s (?f(?bb := mark_used (?f ?bb) (b mod BPB), of_nat b := (\<lambda>_. 0))) {?bb, of_nat b} v"
    using balloc_found [OF assms(1,2) b] assms(3) b by blast
  note a = advancedD [OF v(2)] advanced_fs [OF v(2)]
  have nb: "BBLOCK (of_nat c) s \<noteq> of_nat b" if "c < fs_size s" for c
  proof
    assume eq: "BBLOCK (of_nat c) s = of_nat b"
    have "BBLOCK (of_nat c) s \<in> bitmap_blocks s" unfolding bitmap_blocks_def using that by blast
    then have "block_used s (unat (BBLOCK (of_nat c) s))" using assms(2) by (simp add: bitmap_ok_def)
    moreover have "unat (of_nat b :: uint32) = b" using fs_size_bound [OF b(1)] by (simp add: unat_of_nat_lt)
    ultimately show False using eq b(2) by simp
  qed
  have sz: "sized (?f ?bb)" using assms(1) by (simp add: fs_ready_def)
  have m: "b mod BPB < BPB" by (simp add: BPB_def)
  have used: "block_used v c = (c = b \<or> block_used s c)" if c: "c < fs_size s" for c
  proof (cases "BBLOCK (of_nat c) s = ?bb")
    case True
    have "c mod BPB = b mod BPB \<longleftrightarrow> c = b" using same_bit [OF c b(1) True] by auto
    with True nb [OF c] show ?thesis by (simp add: block_used_def a mark_bits [OF sz m])
  next
    case False
    then have "c \<noteq> b" by auto
    with False nb [OF c] show ?thesis by (simp add: block_used_def a)
  qed
  then show ?thesis using v(1) Some a b(1) by simp
qed

lemma ex_range: "(\<lambda>b. BBLOCK (of_nat b) ex_fs) ` {..<fs_size ex_fs} = {46}"
proof -
  have "(\<lambda>b. BBLOCK (of_nat b) ex_fs) ` {..<fs_size ex_fs} = (\<lambda>_. 46) ` {..<fs_size ex_fs}"
    by (rule image_cong) (simp_all add: ex_BBLOCK)
  then show ?thesis by (simp add: image_constant_conv lessThan_empty_iff)
qed

lemma ex_bitmap_ok: "bitmap_ok ex_fs"
proof -
  have "bitmap_blocks ex_fs = {46}" unfolding bitmap_blocks_def by (rule ex_range)
  then show ?thesis using ex_used [of 46] by (simp add: bitmap_ok_def ex_may_log)
qed

theorem balloc_allocates_witness:
  "returns (balloc ROOTDEV ex_fs) (\<lambda>r v. fs_ready 0 v \<and> trans_frame ex_fs v \<and>
     (case first_idx (\<lambda>b. \<not> block_used ex_fs b) [0..<fs_size ex_fs] of
        None \<Rightarrow> r = 0 \<and> bcontents (blocks_of v) = bcontents (blocks_of ex_fs)
      | Some b \<Rightarrow> r = of_nat b \<and> block_used v b \<and> bcontents (blocks_of v) (of_nat b) = (\<lambda>_. 0) \<and>
          (\<forall>c < fs_size ex_fs. c \<noteq> b \<longrightarrow> block_used v c = block_used ex_fs c) \<and>
          (\<forall>c. c \<noteq> of_nat b \<and> c \<noteq> BBLOCK (of_nat b) ex_fs \<longrightarrow> bcontents (blocks_of v) c = bcontents (blocks_of ex_fs) c) \<and>
          {BBLOCK (of_nat b) ex_fs, of_nat b} \<subseteq> home_blocks v)) \<and>
   first_idx (\<lambda>b. \<not> block_used ex_fs b) [0..<fs_size ex_fs] = Some 47"
proof (rule conjI)
  show "first_idx (\<lambda>b. \<not> block_used ex_fs b) [0..<fs_size ex_fs] = Some 47" by (simp add: first_idx_upt_Some ex_used)
qed (rule balloc_allocates, use ex_fs_ready ex_bitmap_ok in \<open>auto simp: ex_used ex_BBLOCK not_less unat_of_nat card_insert_if intro!: ex_may_log\<close>)

text \<open>
  C26. \<^verbatim>\<open>bfree\<close> of a block in use marks exactly that block as free and changes nothing but its
  block of the bitmap; freeing a block that is free already is a panic.
\<close>

theorem bfree_frees:
  fixes s :: "'z fsst_scheme"
  assumes "fs_ready p s" "may_log s {BBLOCK b s}" "unat b < fs_size s"
  shows "if block_used s (unat b)
    then returns (bfree ROOTDEV b s) (\<lambda>_ v. fs_ready p v \<and> trans_frame s v \<and> \<not> block_used v (unat b) \<and>
       (\<forall>c < fs_size s. c \<noteq> unat b \<longrightarrow> block_used v c = block_used s c) \<and>
       (\<forall>c. c \<noteq> BBLOCK b s \<longrightarrow> bcontents (blocks_of v) c = bcontents (blocks_of s) c))
    else bfree ROOTDEV b s = Panic ''freeing free block''"
proof (cases "block_used s (unat b)")
  case True
  let ?f = "bcontents (blocks_of s)"
  obtain v where v: "bfree ROOTDEV b s = Ret () v"
    "advanced p s (?f(BBLOCK b s := mark_free (?f (BBLOCK b s)) (unat b mod BPB))) {BBLOCK b s} v"
    using bfree_effect [OF assms(1,2) _ True] by blast
  note a = advancedD [OF v(2)] advanced_fs [OF v(2)]
  have sz: "sized (?f (BBLOCK b s))" using assms(1) by (simp add: fs_ready_def)
  have m: "unat b mod BPB < BPB" by (simp add: BPB_def)
  have "block_used v c = (c \<noteq> unat b \<and> block_used s c)" if c: "c < fs_size s" for c
  proof (cases "BBLOCK (of_nat c) s = BBLOCK b s")
    case True
    then have "c mod BPB = unat b mod BPB \<longleftrightarrow> c = unat b" using same_bit [OF c assms(3)] by auto
    with True show ?thesis by (simp add: block_used_def a mark_bits [OF sz m])
  next
    case False
    then have "c \<noteq> unat b" by auto
    with False show ?thesis by (simp add: block_used_def a)
  qed
  then show ?thesis using True v(1) a assms(3) by simp
next
  case False
  then show ?thesis using bfree_twice [OF assms(1,2)] by simp
qed

theorem bfree_frees_witness:
  "(if block_used ex_fs (unat (40 :: uint32))
    then returns (bfree ROOTDEV 40 ex_fs) (\<lambda>_ v. fs_ready 0 v \<and> trans_frame ex_fs v \<and> \<not> block_used v (unat (40 :: uint32)) \<and>
       (\<forall>c < fs_size ex_fs. c \<noteq> unat (40 :: uint32) \<longrightarrow> block_used v c = block_used ex_fs c) \<and>
       (\<forall>c. c \<noteq> BBLOCK 40 ex_fs \<longrightarrow> bcontents (blocks_of v) c = bcontents (blocks_of ex_fs) c))
    else bfree ROOTDEV 40 ex_fs = Panic ''freeing free block'') \<and> block_used ex_fs 40"
proof (rule conjI)
  show "block_used ex_fs 40" by (simp add: ex_used)
  have "BBLOCK 40 ex_fs = 46" using ex_BBLOCK [of 40] by simp
  then have "may_log ex_fs {BBLOCK 40 ex_fs}" by (simp add: ex_may_log)
  then show "if block_used ex_fs (unat (40 :: uint32))
    then returns (bfree ROOTDEV 40 ex_fs) (\<lambda>_ v. fs_ready 0 v \<and> trans_frame ex_fs v \<and> \<not> block_used v (unat (40 :: uint32)) \<and>
       (\<forall>c < fs_size ex_fs. c \<noteq> unat (40 :: uint32) \<longrightarrow> block_used v c = block_used ex_fs c) \<and>
       (\<forall>c. c \<noteq> BBLOCK 40 ex_fs \<longrightarrow> bcontents (blocks_of v) c = bcontents (blocks_of ex_fs) c))
    else bfree ROOTDEV 40 ex_fs = Panic ''freeing free block''"
    by (rule bfree_frees [OF ex_fs_ready]) simp
qed

section \<open>Sleep locks the buffer cache leaves alone\<close>

definition other_slk :: "'z slocks_scheme \<Rightarrow> 'z slocks_scheme \<Rightarrow> bool" where
  "other_slk s t = (\<forall>j. sleeplk t (InodeLk j) = sleeplk s (InodeLk j))"

lemma other_slk_refl [simp]: "other_slk s s"
  by (simp add: other_slk_def)

lemma other_slk_trans: "other_slk s t \<Longrightarrow> other_slk t u \<Longrightarrow> other_slk s u"
  by (simp add: other_slk_def)

lemma set_proc_slk [simp]: "sleeplk (set_proc i f s) = sleeplk s"
  by (simp add: set_proc_def)

lemma lock_slk:
  fixes s :: "'z slocks_scheme"
  shows "acquire lk s = Ret x t \<Longrightarrow> sleeplk t = sleeplk s" "release lk s = Ret x t \<Longrightarrow> sleeplk t = sleeplk s"
    "myproc s = Ret q t \<Longrightarrow> sleeplk t = sleeplk s" "curproc s = Ret i t \<Longrightarrow> sleeplk t = sleeplk s"
  by (auto simp: acquire_def release_def acquire_enter_def lock_exchange_def acquire_note_def release_note_def release_store_def
      myproc_def curproc_def push_off_def pop_off_def mach_defs Let_def kbind_eq_Ret
      split: if_splits option.splits)

lemma wakeup_slk:
  fixes s :: "'z slocks_scheme"
  assumes "wakeup ch s = Ret x t"
  shows "sleeplk t = sleeplk s"
proof -
  have body: "wakeup_body ch i u = Ret y v \<Longrightarrow> sleeplk v = sleeplk u" for i y and u v :: "'z slocks_scheme"
    by (auto simp: wakeup_body_def kbind_eq_Ret Let_def dest!: lock_slk split: if_splits)
  have "kfor (wakeup_body ch) is u = Ret y v \<Longrightarrow> sleeplk v = sleeplk u" for "is" y and u v :: "'z slocks_scheme"
    by (induction "is" arbitrary: u) (auto simp: kbind_eq_Ret dest!: body)
  with assms show ?thesis by (simp add: wakeup_def)
qed

lemma sleeplock_other:
  fixes s :: "'z slocks_scheme"
  shows "acquiresleep (BufLk b) s = Ret x t \<Longrightarrow> other_slk s t" "releasesleep (BufLk b) s = Ret x t \<Longrightarrow> other_slk s t"
    "holdingsleep l s = Ret h t \<Longrightarrow> other_slk s t"
  by (auto simp: acquiresleep_def acquiresleep_loop_def releasesleep_def holdingsleep_def set_slk_def other_slk_def kbind_eq_Ret
      Let_def sleep_not_Ret dest!: lock_slk wakeup_slk split: if_splits)

lemma set_buf_slk [simp]: "sleeplk (set_buf i f s) = sleeplk s" "sleeplk (move_front i s) = sleeplk s" "sleeplk (put_data i d s) = sleeplk s"
  "sleeplk (disk_rw i wr s) = sleeplk s"
  by (simp_all add: set_buf_def move_front_def put_data_def disk_rw_def Let_def)

lemma other_slk_set [simp]:
  "other_slk (set_buf i f s) t = other_slk s t" "other_slk s (set_buf i f t) = other_slk s t"
  "other_slk s (put_data i d t) = other_slk s t" "other_slk s (disk_rw i wr t) = other_slk s t"
  by (simp_all add: other_slk_def)

lemma scan_cases:
  "(case x of None \<Rightarrow> Spin | Some None \<Rightarrow> A | Some (Some b) \<Rightarrow> F b) = Ret j v \<Longrightarrow> A = Ret j v \<or> (\<exists>b. F b = Ret j v)"
  by (auto split: option.splits)

lemma block_other:
  fixes s :: "'z logst_scheme"
  shows "bread dev b s = Ret i t \<Longrightarrow> other_slk s t" "brelse i s = Ret x t \<Longrightarrow> other_slk s t" "log_write i s = Ret x t \<Longrightarrow> other_slk s t"
proof -
  have take: "bget_take j u = Ret y v \<Longrightarrow> other_slk u v" for j y and u v :: "'z logst_scheme"
    by (auto simp: bget_take_def kbind_eq_Ret other_slk_def dest!: lock_slk sleeplock_other)
  have get: "other_slk u v" if a: "bget dev b u = Ret j v" for j and u v :: "'z logst_scheme"
  proof -
    obtain w k f where w: "acquire BcacheLk u = Ret () w" "bget_take k (set_buf k f w) = Ret j v"
      using a unfolding bget_def kbind_eq_Ret by (auto dest!: scan_cases)
    from w(2) have "other_slk (set_buf k f w) v" by (rule take)
    with lock_slk(1) [OF w(1)] show ?thesis by (simp add: other_slk_def)
  qed
  show "bread dev b s = Ret i t \<Longrightarrow> other_slk s t"
    by (auto simp: bread_def kbind_eq_Ret Let_def dest!: get split: if_splits)
  show "brelse i s = Ret x t \<Longrightarrow> other_slk s t"
    by (auto simp: brelse_def kbind_eq_Ret Let_def other_slk_def dest!: lock_slk sleeplock_other split: if_splits)
  show "log_write i s = Ret x t \<Longrightarrow> other_slk s t"
    by (auto simp: log_write_def bpin_def kbind_eq_Ret Let_def other_slk_def dest!: lock_slk split: if_splits)
qed

lemma iupdate_other:
  fixes s :: "'z fsst_scheme"
  assumes "iupdate ip s = Ret x t"
  shows "other_slk s t"
proof -
  obtain i u v where "bread (i_dev (itab s ip)) (IBLOCK (i_inum (itab s ip)) s) s = Ret i u"
      "log_write i (put_data i (put_dinode (itab u ip) (i_inum (itab u ip)) (bdata (bufs u i))) u) = Ret () v" "brelse i v = Ret x t"
    using assms by (auto simp: iupdate_def kbind_eq_Ret Let_def)
  then have "other_slk s u" "other_slk (put_data i (put_dinode (itab u ip) (i_inum (itab u ip)) (bdata (bufs u i))) u) v" "other_slk v t"
    by (auto dest: block_other)
  then show ?thesis by (simp add: other_slk_def)
qed

section \<open>Inodes\<close>

text \<open>
  C28. What \<^verbatim>\<open>iupdate\<close> writes is what \<^verbatim>\<open>ilock\<close> reads: after the update of an inode, locking another
  entry of the table for the same inode that has not been read yet loads the same type, device
  numbers, link count, size and addresses, and every other inode in that block of the disk reads
  as before.
\<close>

theorem iupdate_ilock_roundtrip:
  fixes s :: "'z fsst_scheme"
  assumes "fs_ready p s" "may_log s {IBLOCK (i_inum (itab s ip)) s}" "i_dev (itab s ip) = ROOTDEV"
    "shorts_ok (itab s ip)" "i_type (itab s ip) \<noteq> 0"
    "j \<noteq> ip" "i_inum (itab s j) = i_inum (itab s ip)" "i_dev (itab s j) = ROOTDEV" "1 \<le> i_ref (itab s j)" "\<not> i_valid (itab s j)"
    "\<not> sl_locked (sleeplk s (InodeLk j))"
  shows "returns (iupdate ip s) (\<lambda>_ t.
     (\<forall>n x. n mod IPB \<noteq> i_inum (itab s ip) mod IPB \<longrightarrow>
        get_dinode (bcontents (blocks_of t) (IBLOCK (i_inum (itab s ip)) s)) n x = get_dinode (bcontents (blocks_of s) (IBLOCK (i_inum (itab s ip)) s)) n x) \<and>
     returns (ilock (Some j) t) (\<lambda>_ v. let x = itab s ip; y = itab v j in
        i_valid y \<and> i_type y = i_type x \<and> i_major y = i_major x \<and> i_minor y = i_minor x \<and> i_nlink y = i_nlink x \<and>
        i_size y = i_size x \<and> (\<forall>k \<le> NDIRECT. i_addrs y k = i_addrs x k)))"
proof -
  let ?n = "i_inum (itab s ip)" and ?f = "bcontents (blocks_of s)"
  let ?ib = "IBLOCK (i_inum (itab s ip)) s"
  obtain t where t: "iupdate ip s = Ret () t" "advanced p s (?f(?ib := put_dinode (itab s ip) ?n (?f ?ib))) {?ib} t"
    using iupdate_effect [OF assms(1,2) _ assms(3)] by blast
  note a = advancedD [OF t(2)] advanced_fs [OF t(2)]
  have ib: "IBLOCK ?n t = ?ib" by (simp add: IBLOCK_def a)
  have gt: "get_dinode (bcontents (blocks_of t) ?ib) ?n x = x\<lparr>i_type := i_type (itab s ip), i_major := i_major (itab s ip),
      i_minor := i_minor (itab s ip), i_nlink := i_nlink (itab s ip), i_size := i_size (itab s ip),
      i_addrs := (\<lambda>i. if i \<le> NDIRECT then i_addrs (itab s ip) i else i_addrs x i)\<rparr>" for x
    using dinode_get_put [OF assms(4)] by (simp add: a)
  have ml: "may_log t {?ib}" by (rule may_log_advanced [OF assms(2) t(2)]) simp
  have ty: "dinode_type (bcontents (blocks_of t) ?ib) ?n = i_type (itab s ip)"
    using arg_cong [OF gt [of "itab s ip"], of i_type] by (simp add: get_dinode_def Let_def dinode_type_def)
  have sl: "\<not> sl_locked (sleeplk t (InodeLk j))"
    using assms(11) iupdate_other [OF t(1)] by (simp add: other_slk_def)
  obtain v where v: "ilock (Some j) t = Ret () v"
     "itab v = (itab t)(j := (get_dinode (bcontents (blocks_of t) (IBLOCK (i_inum (itab t j)) t)) (i_inum (itab t j)) (itab t j))\<lparr>i_valid := True\<rparr>)"
    using ilock_loads [OF a(1), of j] may_log_one(6) [OF a(1) ml, of ?ib] assms(5-10) a ib ty sl by auto
  show ?thesis using t(1) v assms(7) gt a ib dinode_other by (simp add: Let_def)
qed

text \<open>The example with a second entry for inode 5 that has not been read.\<close>

definition ex_fs2 :: trapst where
  "ex_fs2 = ex_fs\<lparr>itab := (itab ex_fs)(3 := ex_inode\<lparr>i_valid := False\<rparr>)\<rparr>"

lemma ex_IBLOCK: "IBLOCK 5 ex_fs = 33" "IBLOCK 5 ex_fs2 = 33"
proof -
  have "(5 :: uint32) div 16 = 0" by (simp add: word_unat_eq_iff unat_div)
  then show "IBLOCK 5 ex_fs = 33" "IBLOCK 5 ex_fs2 = 33" by (simp_all add: IBLOCK_def IPB_def ex_fs2_def)
qed

theorem iupdate_ilock_roundtrip_witness:
  "returns (iupdate 0 ex_fs2) (\<lambda>_ t.
     (\<forall>n x. n mod IPB \<noteq> i_inum (itab ex_fs2 0) mod IPB \<longrightarrow>
        get_dinode (bcontents (blocks_of t) (IBLOCK (i_inum (itab ex_fs2 0)) ex_fs2)) n x =
        get_dinode (bcontents (blocks_of ex_fs2) (IBLOCK (i_inum (itab ex_fs2 0)) ex_fs2)) n x) \<and>
     returns (ilock (Some 3) t) (\<lambda>_ v. let x = itab ex_fs2 0; y = itab v 3 in
        i_valid y \<and> i_type y = i_type x \<and> i_major y = i_major x \<and> i_minor y = i_minor x \<and> i_nlink y = i_nlink x \<and>
        i_size y = i_size x \<and> (\<forall>k \<le> NDIRECT. i_addrs y k = i_addrs x k)))"
proof (rule iupdate_ilock_roundtrip)
  show "fs_ready 0 ex_fs2" using ex_fs_ready by (simp add: ex_fs2_def)
  have "may_log ex_fs {33}" by (rule ex_may_log) simp_all
  moreover have "i_inum (itab ex_fs2 0) = 5" by (simp add: ex_fs2_def ex_inode_def)
  ultimately show "may_log ex_fs2 {IBLOCK (i_inum (itab ex_fs2 0)) ex_fs2}" by (simp add: ex_IBLOCK) (simp add: ex_fs2_def)
qed (simp_all add: ex_fs2_def ex_inode_def shorts_ok_def T_FILE_def)

section \<open>Contents of files\<close>

text \<open>
  C27. What \<^verbatim>\<open>writei\<close> writes into blocks a file has is what \<^verbatim>\<open>readi\<close> reads: the write returns its
  count, replaces exactly the bytes of the range, direct or indirect, extends the size when the
  range ends beyond it, writes the inode back and touches no block but the file's data blocks of
  the range and the block of the inode; a read of the range afterwards returns the count and the
  bytes written.
\<close>

theorem writei_readi_roundtrip:
  fixes s :: "'z fsst_scheme"
  assumes "fs_ready p s" "file_ok s ip" "off \<le> i_size (itab s ip)" "unat off + unat n \<le> MAXFILE * BSIZE"
    "i_size (itab s ip) \<le> of_nat (MAXFILE * BSIZE)"
    "\<forall>k. unat off \<le> k \<and> k < unat off + unat n \<longrightarrow> iaddr s ip (k div BSIZE) \<noteq> 0"
    "may_log s (insert (IBLOCK (i_inum (itab s ip)) s) (wblocks s ip (unat off) (unat n)))"
  shows "returns (writei ip (KObj d) off n obj s) (\<lambda>r v. r = int (unat n) \<and> fs_ready p v \<and>
     (\<forall>k. ibyte v ip k = (if unat off \<le> k \<and> k < unat off + unat n then obj (d + (k - unat off)) else ibyte s ip k)) \<and>
     i_size (itab v ip) = max (i_size (itab s ip)) (off + n) \<and>
     (\<forall>b. b \<notin> insert (IBLOCK (i_inum (itab s ip)) s) (wblocks s ip (unat off) (unat n)) \<longrightarrow>
        bcontents (blocks_of v) b = bcontents (blocks_of s) b) \<and>
     returns (readi ip (KObj e) off n buf v) (\<lambda>(q, out) w. q = int (unat n) \<and> (\<forall>i < unat n. out (e + i) = obj (d + i))))"
proof -
  let ?ib = "IBLOCK (i_inum (itab s ip)) s"
  let ?bs = "insert ?ib (wblocks s ip (unat off) (unat n))"
  let ?x = "(itab s ip)\<lparr>i_size := max (i_size (itab s ip)) (off + n)\<rparr>"
  obtain v where v: "writei ip (KObj d) off n obj s = Ret (int (unat n)) v" "fs_ready p v"
     "trans_frame (s\<lparr>itab := (itab s)(ip := ?x)\<rparr>) v" "file_ok v ip" "\<forall>j. iaddr v ip j = iaddr s ip j"
     "\<forall>k. ibyte v ip k = (if unat off \<le> k \<and> k < unat off + unat n then obj (d + (k - unat off)) else ibyte s ip k)"
     "\<forall>b. b \<notin> ?bs \<longrightarrow> bcontents (blocks_of v) b = bcontents (blocks_of s) b"
     "blocked (blocks_of v) = blocked (blocks_of s)" "home_blocks v = home_blocks s \<union> ?bs"
    using writei_writes [OF assms(1-4,6,7), of d obj] by blast
  have iv: "itab v ip = ?x" using trans_frame_fs(2) [OF v(3)] by simp
  have big: "unat off + unat n \<le> 274432" using assms(4) by (simp add: MAXFILE_def NDIRECT_def NINDIRECT_def BSIZE_def)
  have sum: "unat (off + n) = unat off + unat n" using big by (simp add: unat_word_ariths)
  have ml: "may_log v ?bs"
    using assms(7) trans_frame_fields(2,5) [OF v(3)] by (simp add: may_log_def v(8,9) Un_assoc)
  have sz: "i_size (itab v ip) \<le> of_nat (MAXFILE * BSIZE)" "off \<le> i_size (itab v ip)" "unat off + unat n \<le> unat (i_size (itab v ip))"
    using assms(3,5) sum big by (auto simp: iv max_def word_le_nat_alt MAXFILE_def NDIRECT_def NINDIRECT_def BSIZE_def)
  have dev: "i_dev (itab v ip) = ROOTDEV" "i_addrs (itab v ip) NDIRECT \<notin> blocked (blocks_of v)" using v(4) by (simp_all add: file_ok_def)
  have mp: "imapped v ip (k div BSIZE)" if "unat off \<le> k" "k < unat off + unat n" for k
  proof -
    have "iaddr s ip (k div BSIZE) \<in> ?bs" using that by (auto simp: wblocks_def)
    then show ?thesis using that assms(6) v(5) may_log_one(6) [OF v(2) ml] may_log_room [OF v(2) ml dev(2)] by (simp add: imapped_def)
  qed
  have "\<exists>w. readi ip (KObj e) off n buf v = Ret (int (unat n), \<lambda>i. if e \<le> i \<and> i < e + unat n then ibyte v ip (unat off + (i - e)) else buf i) w"
    using readi_reads [OF v(2) dev(1) sz(1,2), of n e buf] sz(3) mp big by (auto simp: min_def)
  then obtain w where w: "readi ip (KObj e) off n buf v =
      Ret (int (unat n), \<lambda>i. if e \<le> i \<and> i < e + unat n then ibyte v ip (unat off + (i - e)) else buf i) w" by blast
  show ?thesis using v(1,2,6,7) iv w by simp
qed

lemma ex_iaddr: "iaddr ex_fs 0 k = (if k = 0 then 60 else 0)"
  by (auto simp: iaddr_def ex_inode_def NDIRECT_def)

lemma ex_file_ok: "file_ok ex_fs 0"
  by (auto simp: file_ok_def ex_iaddr ex_IBLOCK ex_fs_blocks ex_inode_def NDIRECT_def split: if_splits)

theorem writei_readi_roundtrip_witness:
  "returns (writei 0 (KObj 0) 60 50 (\<lambda>i. of_nat i) ex_fs) (\<lambda>r v. r = int (unat (50 :: uint32)) \<and> fs_ready 0 v \<and>
     (\<forall>k. ibyte v 0 k = (if unat (60 :: uint32) \<le> k \<and> k < unat (60 :: uint32) + unat (50 :: uint32) then of_nat (0 + (k - unat (60 :: uint32))) else ibyte ex_fs 0 k)) \<and>
     i_size (itab v 0) = max (i_size (itab ex_fs 0)) (60 + 50) \<and>
     (\<forall>b. b \<notin> insert (IBLOCK (i_inum (itab ex_fs 0)) ex_fs) (wblocks ex_fs 0 (unat (60 :: uint32)) (unat (50 :: uint32))) \<longrightarrow>
        bcontents (blocks_of v) b = bcontents (blocks_of ex_fs) b) \<and>
     returns (readi 0 (KObj 0) 60 50 (\<lambda>_. 0) v) (\<lambda>(q, out) w. q = int (unat (50 :: uint32)) \<and> (\<forall>i < unat (50 :: uint32). out (0 + i) = of_nat (0 + i))))"
proof (rule writei_readi_roundtrip [OF ex_fs_ready ex_file_ok])
  have "wblocks ex_fs 0 60 50 = {60}"
  proof -
    have "wblocks ex_fs 0 60 50 = (\<lambda>_. 60) ` {60..<60 + 50 :: nat}"
      unfolding wblocks_def by (rule image_cong) (simp_all add: ex_iaddr BSIZE_def)
    then show ?thesis by (simp add: image_constant_conv)
  qed
  moreover have "may_log ex_fs {33, 60}" by (rule ex_may_log) simp_all
  moreover have "i_inum ex_inode = 5" by (simp add: ex_inode_def)
  ultimately show "may_log ex_fs (insert (IBLOCK (i_inum (itab ex_fs 0)) ex_fs) (wblocks ex_fs 0 (unat (60 :: uint32)) (unat (50 :: uint32))))"
    by (simp add: ex_IBLOCK)
qed (auto simp: ex_iaddr ex_inode_def MAXFILE_def NDIRECT_def NINDIRECT_def BSIZE_def)

section \<open>Directories\<close>

text \<open>Entry \<open>k\<close> of a directory, over what the array \<^verbatim>\<open>de\<close> held before.\<close>

definition dir_entry :: "'z fsst_scheme \<Rightarrow> nat \<Rightarrow> bytes \<Rightarrow> nat \<Rightarrow> bytes" where
  "dir_entry s dp de k = (\<lambda>i. if i < 16 then ibyte s dp (16 * k + i) else de i)"

definition dir_ok :: "nat \<Rightarrow> 'z fsst_scheme \<Rightarrow> nat \<Rightarrow> nat \<Rightarrow> bool" where
  "dir_ok p s dp m = (fs_ready p s \<and> i_dev (itab s dp) = ROOTDEV \<and> unat (i_size (itab s dp)) = 16 * m \<and>
     i_size (itab s dp) \<le> of_nat (MAXFILE * BSIZE) \<and> (\<forall>k < 16 * m. imapped s dp (k div BSIZE)))"

lemma dir_ok_same:
  fixes s :: "'z fsst_scheme"
  assumes "dir_ok p s dp m" "advanced p s (bcontents (blocks_of s)) {} v"
  shows "dir_ok p v dp m" "dir_entry v dp de k = dir_entry s dp de k" "i_size (itab v dp) = i_size (itab s dp)"
  using assms(1) unchanged_reads [OF _ assms(2)] advancedD(1) [OF assms(2)] advanced_fs [OF assms(2)]
  by (simp_all add: dir_ok_def dir_entry_def cong: if_cong)

lemma read_entry:
  fixes s :: "'z fsst_scheme"
  assumes "dir_ok p s dp m" "k < m"
  shows "\<exists>v. readi dp (KObj 0) (of_nat (16 * k)) 16 de s = Ret (16, dir_entry s dp de k) v \<and> advanced p s (bcontents (blocks_of s)) {} v"
proof -
  have d: "fs_ready p s" "i_dev (itab s dp) = ROOTDEV" "unat (i_size (itab s dp)) = 16 * m" "i_size (itab s dp) \<le> of_nat (MAXFILE * BSIZE)"
    "\<And>k. k < 16 * m \<Longrightarrow> imapped s dp (k div BSIZE)" using assms(1) by (auto simp: dir_ok_def)
  have big: "16 * m \<le> 274432" using d(3,4) by (simp add: word_le_nat_alt MAXFILE_def NDIRECT_def NINDIRECT_def BSIZE_def)
  have u: "unat (of_nat (16 * k) :: uint32) = 16 * k" using assms(2) big by (intro unat_of_nat_lt) simp
  have le: "of_nat (16 * k) \<le> i_size (itab s dp)" using u d(3) assms(2) by (simp only: word_le_nat_alt)
  have m16: "min (unat (16 :: uint32)) (unat (i_size (itab s dp)) - unat (of_nat (16 * k) :: uint32)) = 16"
    unfolding u d(3) using assms(2) by simp
  have "\<exists>v. readi dp (KObj 0) (of_nat (16 * k)) 16 de s =
      Ret (int 16, \<lambda>i. if 0 \<le> i \<and> i < 0 + 16 then ibyte s dp (16 * k + (i - 0)) else de i) v \<and> advanced p s (bcontents (blocks_of s)) {} v"
    using readi_reads [OF d(1,2,4) le, of 16 0 de] d(3,5) assms(2) big unfolding m16 u by simp
  then show ?thesis by (simp add: dir_entry_def cong: if_cong)
qed

lemma dir_scan_finds:
  fixes s :: "'z fsst_scheme"
  assumes "dir_ok p s dp m" "k \<le> m"
  shows "\<exists>v e. advanced p s (bcontents (blocks_of s)) {} v \<and>
     dir_scan msg P dp (of_nat (16 * k)) de s = (case first_idx (\<lambda>j. P (dir_entry s dp de j)) [k..<m] of
         Some j \<Rightarrow> Ret (True, of_nat (16 * j), dir_entry s dp de j) v
       | None \<Rightarrow> Ret (False, of_nat (16 * m), e) v)"
  using assms
proof (induction "m - k" arbitrary: k s de)
  case 0
  then have "k = m" by simp
  moreover have "\<not> of_nat (16 * m) < i_size (itab s dp)"
    using 0(2) unat_of_nat_lt [of "16 * m", where 'a = 32] unat_lt_2p [of "i_size (itab s dp)"] by (simp add: dir_ok_def word_less_nat_alt del: of_nat_mult)
  ultimately show ?case using advanced_refl [of p s] 0(2) by (subst dir_scan.simps) (auto simp: dir_ok_def simp del: of_nat_mult)
next
  case (Suc d)
  then have k: "k < m" by simp
  have big: "16 * m < 2 ^ 32" using Suc.prems(1) unat_lt_2p [of "i_size (itab s dp)"] by (simp add: dir_ok_def)
  have u: "unat (of_nat (16 * k) :: uint32) = 16 * k" using k big by (intro unat_of_nat_lt) simp
  have lt: "of_nat (16 * k) < i_size (itab s dp)" using u k Suc.prems(1) by (simp only: word_less_nat_alt dir_ok_def)
  obtain v where v: "readi dp (KObj 0) (of_nat (16 * k)) 16 de s = Ret (16, dir_entry s dp de k) v" "advanced p s (bcontents (blocks_of s)) {} v"
    using read_entry [OF Suc.prems(1) k] by blast
  show ?case
  proof (cases "P (dir_entry s dp de k)")
    case True
    then show ?thesis using lt v k by (subst dir_scan.simps) (auto simp: upt_conv_Cons simp del: of_nat_mult)
  next
    case False
    let ?de = "dir_entry s dp de k"
    have nx: "of_nat (16 * k) + 16 = (of_nat (16 * Suc k) :: uint32)" by simp
    have step: "dir_scan msg P dp (of_nat (16 * k)) de s = dir_scan msg P dp (of_nat (16 * Suc k)) ?de v"
      using lt v(1) False by (subst dir_scan.simps) (simp add: nx del: of_nat_mult mult_Suc_right)
    note sv = dir_ok_same [OF Suc.prems(1) v(2)]
    have dk: "d = m - Suc k" "Suc k \<le> m" using Suc.hyps(2) by simp_all
    have ent: "dir_entry v dp ?de j = dir_entry s dp de j" for j
      using unchanged_reads(3) [OF _ v(2)] Suc.prems(1) by (auto simp: dir_entry_def dir_ok_def)
    obtain w e where w: "advanced p v (bcontents (blocks_of v)) {} w"
      "dir_scan msg P dp (of_nat (16 * Suc k)) ?de v = (case first_idx (\<lambda>j. P (dir_entry s dp de j)) [Suc k..<m] of
         Some j \<Rightarrow> Ret (True, of_nat (16 * j), dir_entry s dp de j) w
       | None \<Rightarrow> Ret (False, of_nat (16 * m), e) w)"
      using Suc.hyps(1) [OF dk(1) sv(1) dk(2), of ?de] unfolding ent by blast
    have "advanced p s (bcontents (blocks_of s)) {} w" using advanced_trans [OF v(2) w(1)] advancedD(3) [OF v(2)] by simp
    then show ?thesis using step w(2) False k by (auto simp: upt_conv_Cons)
  qed
qed

text \<open>
  C29. \<^verbatim>\<open>dirlookup\<close> returns the inode of the first entry of the directory that is in use and has the
  name, with the offset of that entry, and nothing when there is none; it changes no block and,
  before it takes the reference with \<^verbatim>\<open>iget\<close>, no inode.
\<close>

theorem dirlookup_first_match:
  fixes s :: "'z fsst_scheme"
  assumes "dir_ok p s dp m" "i_type (itab s dp) = T_DIR"
  shows "\<exists>v. fs_ready p v \<and> bcontents (blocks_of v) = bcontents (blocks_of s) \<and> itab v = itab s \<and>
    dirlookup dp name de s =
      (case first_idx (\<lambda>k. de_inum (dir_entry s dp de k) \<noteq> 0 \<and> namecmp name (de_name (dir_entry s dp de k)) = 0) [0..<m] of
         None \<Rightarrow> Ret None v
       | Some k \<Rightarrow> kbind (iget ROOTDEV (ucast (de_inum (dir_entry s dp de k))) v) (\<lambda>i t. Ret (Some (i, of_nat (16 * k))) t))"
proof -
  let ?P = "\<lambda>de. de_inum de \<noteq> 0 \<and> namecmp name (de_name de) = 0"
  obtain v e where v: "advanced p s (bcontents (blocks_of s)) {} v"
     "dir_scan ''dirlookup read'' ?P dp 0 de s = (case first_idx (\<lambda>j. ?P (dir_entry s dp de j)) [0..<m] of
         Some j \<Rightarrow> Ret (True, of_nat (16 * j), dir_entry s dp de j) v
       | None \<Rightarrow> Ret (False, of_nat (16 * m), e) v)"
    using dir_scan_finds [OF assms(1), of 0 "''dirlookup read''" ?P de] by auto
  have "i_dev (itab v dp) = ROOTDEV" using assms(1) advanced_fs [OF v(1)] by (simp add: dir_ok_def)
  then have "dirlookup dp name de s =
      (case first_idx (\<lambda>k. ?P (dir_entry s dp de k)) [0..<m] of
         None \<Rightarrow> Ret None v
       | Some k \<Rightarrow> kbind (iget ROOTDEV (ucast (de_inum (dir_entry s dp de k))) v) (\<lambda>i t. Ret (Some (i, of_nat (16 * k))) t))"
    using v(2) assms(2) by (simp add: dirlookup_def split: option.split)
  then show ?thesis using advancedD [OF v(1)] advanced_fs [OF v(1)] by blast
qed

text \<open>The example file system with a directory of two entries, both in block 60.\<close>

definition ex_dir :: trapst where
  "ex_dir = ex_fs\<lparr>itab := (itab ex_fs)(0 := ex_inode\<lparr>i_type := T_DIR, i_size := 32\<rparr>)\<rparr>"

lemma ex_dir_ok: "dir_ok 0 ex_dir 0 2"
proof -
  have "iaddr ex_dir 0 0 = 60" by (simp add: iaddr_def ex_dir_def ex_inode_def NDIRECT_def)
  moreover have "may_read ex_dir 60"
    by (simp add: may_read_def has_room_def ex_dir_def ex_fs_blocks NBUF_def)
  moreover have "fs_ready 0 ex_dir" using ex_fs_ready by (simp add: ex_dir_def)
  ultimately show ?thesis
    by (simp add: dir_ok_def imapped_def BSIZE_def) (simp add: ex_dir_def ex_inode_def MAXFILE_def NDIRECT_def NINDIRECT_def)
qed

theorem dirlookup_first_match_witness:
  "\<exists>v. fs_ready 0 v \<and> bcontents (blocks_of v) = bcontents (blocks_of ex_dir) \<and> itab v = itab ex_dir \<and>
    dirlookup 0 (\<lambda>_. 97) (\<lambda>_. 0) ex_dir =
      (case first_idx (\<lambda>k. de_inum (dir_entry ex_dir 0 (\<lambda>_. 0) k) \<noteq> 0 \<and> namecmp (\<lambda>_. 97) (de_name (dir_entry ex_dir 0 (\<lambda>_. 0) k)) = 0) [0..<2] of
         None \<Rightarrow> Ret None v
       | Some k \<Rightarrow> kbind (iget ROOTDEV (ucast (de_inum (dir_entry ex_dir 0 (\<lambda>_. 0) k))) v) (\<lambda>i t. Ret (Some (i, of_nat (16 * k))) t))"
  by (rule dirlookup_first_match [OF ex_dir_ok]) (simp add: ex_dir_def)

end
