(* ===== verification/User.thy ===== *)
theory User
  imports Prelude "HOL-Library.Char_ord"
begin

text \<open>
  The interface between a user program and the kernel, \<^verbatim>\<open>user/user.h\<close>. A program is a
  function of the replies the kernel gives to its system calls, one after the other, and it leaves
  the list of the calls it made. Strings are lists of characters without their terminating zero.
\<close>

section \<open>System calls and replies\<close>

datatype ucall =
    Ufork | Uexit int | Uwait | Upipe | Uwrite int string | Uread int nat | Uclose int | Ukill int
  | Uexec string "string list" | Uopen string int | Umknod string int int | Uunlink string
  | Ufstat int | Ulink string string | Umkdir string | Uchdir string | Udup int | Ugetpid
  | Usbrk int int | Upause int | Uuptime | Usync
  | Usem_open int string | Usem_wait int | Usem_signal int | Usem_close int | Usem_gantt int

text \<open>
  A reply is the value the call returns, with the bytes or the numbers it stores through a pointer
  argument when it has one: the data of \<^verbatim>\<open>read\<close>, the two descriptors of \<^verbatim>\<open>pipe\<close>,
  the type, the inode number and the size of \<^verbatim>\<open>fstat\<close>.
\<close>

datatype ureply = RVal int | RData string | RNums int "int list"

fun rval :: "ureply \<Rightarrow> int" where
  "rval (RVal v) = v"
| "rval (RData d) = int (length d)"
| "rval (RNums v ns) = v"

fun rdata :: "ureply \<Rightarrow> string" where
  "rdata (RData d) = d"
| "rdata r = []"

fun rnums :: "ureply \<Rightarrow> int list" where
  "rnums (RNums v ns) = ns"
| "rnums r = []"

record ustate =
  replies :: "ureply list"
  calls :: "ucall list"

section \<open>Runs of a program\<close>

text \<open>
  A run returns, exits with a status, replaces the program by \<^verbatim>\<open>exec\<close>, waits for a reply that
  is not there yet, or does something C leaves undefined.
\<close>

datatype 'a urun =
    Done 'a ustate | Exited int "ucall list" | Execed string "string list" "ucall list"
  | Waiting "ucall list" | Fault

definition ubind :: "'a urun \<Rightarrow> ('a \<Rightarrow> ustate \<Rightarrow> 'b urun) \<Rightarrow> 'b urun" where
  "ubind m f = (case m of Done x s \<Rightarrow> f x s | Exited v cs \<Rightarrow> Exited v cs | Execed p as cs \<Rightarrow> Execed p as cs
     | Waiting cs \<Rightarrow> Waiting cs | Fault \<Rightarrow> Fault)"

lemma ubind_simps [simp]:
  "ubind (Done x s) f = f x s"
  "ubind (Exited v cs) f = Exited v cs"
  "ubind (Execed p as cs) f = Execed p as cs"
  "ubind (Waiting cs) f = Waiting cs"
  "ubind Fault f = Fault"
  by (simp_all add: ubind_def)

lemma ubind_cong [fundef_cong]:
  "m = m' \<Longrightarrow> (\<And>x s. m' = Done x s \<Longrightarrow> f x s = g x s) \<Longrightarrow> ubind m f = ubind m' g"
  by (cases m') auto

lemma ubind_assoc: "ubind (ubind m f) g = ubind m (\<lambda>x s. ubind (f x s) g)"
  by (cases m) auto

lemma ubind_eq_Done: "ubind m f = Done y t \<longleftrightarrow> (\<exists>x s. m = Done x s \<and> f x s = Done y t)"
  by (cases m) auto

text \<open>One system call: it is recorded, and the next reply is its result.\<close>

definition sys :: "ucall \<Rightarrow> ustate \<Rightarrow> ureply urun" where
  "sys c s =
     (case replies s of
        [] \<Rightarrow> Waiting (calls s @ [c])
      | r # rs \<Rightarrow> Done r (s\<lparr>replies := rs, calls := calls s @ [c]\<rparr>))"

text \<open>
  \<^verbatim>\<open>read\<close> stores at most the bytes asked for, and as many as it returns; \<^verbatim>\<open>exit\<close> does not return, and
  \<^verbatim>\<open>exec\<close> returns only when it fails.
\<close>

definition uread :: "int \<Rightarrow> nat \<Rightarrow> ustate \<Rightarrow> ureply urun" where
  "uread fd n s = ubind (sys (Uread fd n) s) (\<lambda>r s. if length (rdata r) \<le> n \<and> rval r \<le> int (length (rdata r)) then Done r s else Fault)"

definition uexit :: "int \<Rightarrow> ustate \<Rightarrow> 'a urun" where
  "uexit v s = Exited v (calls s @ [Uexit v])"

definition uexec :: "string \<Rightarrow> string list \<Rightarrow> ustate \<Rightarrow> int urun" where
  "uexec p as s = ubind (sys (Uexec p as) s) (\<lambda>r s. if rval r < 0 then Done (rval r) s else Execed p as (calls s))"

lemma sys_Done: "sys c s = Done r t \<longleftrightarrow> replies s = r # replies t \<and> t = s\<lparr>replies := replies t, calls := calls s @ [c]\<rparr>"
  by (cases "replies s") (auto simp: sys_def)

lemma sys_consumes: "sys c s = Done r t \<Longrightarrow> length (replies t) < length (replies s)"
  by (simp add: sys_Done)

lemma uread_consumes: "uread fd n s = Done r t \<Longrightarrow> length (replies t) < length (replies s)"
  by (auto simp: uread_def ubind_eq_Done sys_consumes split: if_splits)

text \<open>What a run wrote to a descriptor.\<close>

fun written :: "int \<Rightarrow> ucall list \<Rightarrow> string" where
  "written fd [] = []"
| "written fd (Uwrite k d # cs) = (if k = fd then d @ written fd cs else written fd cs)"
| "written fd (c # cs) = written fd cs"

lemma written_append [simp]: "written fd (as @ bs) = written fd as @ written fd bs"
  by (induction fd as rule: written.induct) simp_all

end
