(* ===== verification/Ulib.thy ===== *)
theory Ulib
  imports User Cstring
begin

text \<open>
  The user library, \<^verbatim>\<open>user/ulib.c\<close>. The string and memory routines work on a memory from
  64-bit addresses to bytes; a loop that runs off an unterminated string has no result. The
  lemmas give their results on strings in memory.
\<close>

section \<open>Strings and memory\<close>

partial_function (option) ustrcpy :: "physmem \<Rightarrow> uint64 \<Rightarrow> uint64 \<Rightarrow> physmem option" where
  "ustrcpy m s t =
     (let m' = m(s := m t) in if m t \<noteq> 0 then ustrcpy m' (s + 1) (t + 1) else Some m')"

partial_function (option) ustrcmp :: "physmem \<Rightarrow> uint64 \<Rightarrow> uint64 \<Rightarrow> int option" where
  "ustrcmp m p q =
     (if m p \<noteq> 0 \<and> m p = m q then ustrcmp m (p + 1) (q + 1) else Some (uint (m p) - uint (m q)))"

text \<open>\<^verbatim>\<open>strlen\<close> counts in an \<^verbatim>\<open>int\<close> and returns a \<^verbatim>\<open>uint\<close>.\<close>

partial_function (option) ustrlen_loop :: "physmem \<Rightarrow> uint64 \<Rightarrow> int \<Rightarrow> int option" where
  "ustrlen_loop m s n = (if m (s + word_of_int n) \<noteq> 0 then ustrlen_loop m s (c_int (n + 1)) else Some n)"

definition ustrlen :: "physmem \<Rightarrow> uint64 \<Rightarrow> uint32 option" where
  "ustrlen m s = map_option word_of_int (ustrlen_loop m s 0)"

definition umemset :: "physmem \<Rightarrow> uint64 \<Rightarrow> int \<Rightarrow> nat \<Rightarrow> physmem" where
  "umemset m dst c n = fold (\<lambda>i m. m(dst + of_nat i := word_of_int c)) [0..<n] m"

text \<open>\<^verbatim>\<open>strchr\<close> returns a null pointer when the character is not in the string.\<close>

partial_function (option) ustrchr :: "physmem \<Rightarrow> uint64 \<Rightarrow> uint8 \<Rightarrow> uint64 option" where
  "ustrchr m s c = (if m s = 0 then Some 0 else if m s = c then Some s else ustrchr m (s + 1) c)"

partial_function (option) atoi_loop :: "physmem \<Rightarrow> uint64 \<Rightarrow> int \<Rightarrow> int option" where
  "atoi_loop m s n =
     (if 48 \<le> m s \<and> m s \<le> 57 then atoi_loop m (s + 1) (c_int (n * 10 + uint (m s) - 48)) else Some n)"

definition atoi :: "physmem \<Rightarrow> uint64 \<Rightarrow> int option" where
  "atoi m s = atoi_loop m s 0"

definition umemmove :: "physmem \<Rightarrow> uint64 \<Rightarrow> uint64 \<Rightarrow> int \<Rightarrow> physmem" where
  "umemmove m vdst vsrc n =
     (if vsrc > vdst then copy_forward m vdst vsrc (nat n)
      else copy_backward m (vdst + word_of_int n) (vsrc + word_of_int n) (nat n))"

fun umemcmp :: "physmem \<Rightarrow> uint64 \<Rightarrow> uint64 \<Rightarrow> nat \<Rightarrow> int" where
  "umemcmp m p1 p2 0 = 0"
| "umemcmp m p1 p2 (Suc n) =
     (if m p1 \<noteq> m p2 then uint (m p1) - uint (m p2) else umemcmp m (p1 + 1) (p2 + 1) n)"

definition umemcpy :: "physmem \<Rightarrow> uint64 \<Rightarrow> uint64 \<Rightarrow> uint32 \<Rightarrow> physmem" where
  "umemcpy m dst src n = umemmove m dst src (sint n)"

section \<open>Wrappers of system calls\<close>

text \<open>
  \<^verbatim>\<open>start\<close>: the entry point exits with the value of \<^verbatim>\<open>main\<close>.
\<close>

definition ustart :: "(ustate \<Rightarrow> int urun) \<Rightarrow> ustate \<Rightarrow> unit urun" where
  "ustart main s = ubind (main s) (\<lambda>r s. uexit r s)"

text \<open>
  \<^verbatim>\<open>gets\<close> reads a character at a time up to the end of a line. The result is what it stores
  in the buffer before the terminating zero.
\<close>

function gets_loop :: "int \<Rightarrow> string \<Rightarrow> ustate \<Rightarrow> string urun" where
  "gets_loop mx buf s =
     (if int (length buf) + 1 < mx then
        ubind (uread 0 1 s) (\<lambda>r s.
          if rval r < 1 then Done buf s
          else
            let c = hd (rdata r); buf = buf @ [c] in
            if c = CHR 0x0A \<or> c = CHR 0x0D then Done buf s else gets_loop mx buf s)
      else Done buf s)"
  by pat_completeness auto
termination
  by (relation "measure (\<lambda>(mx, buf, s). length (replies s))") (auto dest: uread_consumes)

declare gets_loop.simps [simp del]

definition gets :: "int \<Rightarrow> ustate \<Rightarrow> string urun" where
  "gets mx s = gets_loop mx [] s"

definition ustat :: "string \<Rightarrow> ustate \<Rightarrow> ureply urun" where
  "ustat n s =
     ubind (sys (Uopen n 0) s) (\<lambda>f s.
       if rval f < 0 then Done (RVal (- 1)) s
       else
         ubind (sys (Ufstat (rval f)) s) (\<lambda>r s.
         ubind (sys (Uclose (rval f)) s) (\<lambda>_ s.
         Done r s)))"

definition sbrk :: "int \<Rightarrow> ustate \<Rightarrow> int urun" where
  "sbrk n s = ubind (sys (Usbrk n 1) s) (\<lambda>r s. Done (rval r) s)"

definition sbrklazy :: "int \<Rightarrow> ustate \<Rightarrow> int urun" where
  "sbrklazy n s = ubind (sys (Usbrk n 2) s) (\<lambda>r s. Done (rval r) s)"

section \<open>Strings in memory\<close>

primrec str_at :: "physmem \<Rightarrow> uint64 \<Rightarrow> uint8 list \<Rightarrow> bool" where
  "str_at m p [] = (m p = 0)"
| "str_at m p (c # cs) = (m p = c \<and> c \<noteq> 0 \<and> str_at m (p + 1) cs)"

lemma ustrlen_loop_str_at:
  "str_at m (p + of_nat n) cs \<Longrightarrow> n + length cs < 2 ^ 31 \<Longrightarrow> ustrlen_loop m p (int n) = Some (int (n + length cs))"
proof (induction cs arbitrary: n)
  case Nil
  then show ?case by (subst ustrlen_loop.simps) simp
next
  case (Cons c cs)
  have "str_at m (p + of_nat (Suc n)) cs" using Cons.prems(1) by (simp add: ac_simps)
  from Cons.IH [OF this] have "ustrlen_loop m p (int (Suc n)) = Some (int (Suc n + length cs))" using Cons.prems(2) by simp
  moreover have "c_int (int n + 1) = int (Suc n)" using Cons.prems(2) by (subst c_int_id) auto
  ultimately show ?case using Cons.prems(1) by (subst ustrlen_loop.simps) simp
qed

lemma ustrlen_str_at: "str_at m p cs \<Longrightarrow> length cs < 2 ^ 31 \<Longrightarrow> ustrlen m p = Some (of_nat (length cs))"
  using ustrlen_loop_str_at [of m p 0 cs] by (simp add: ustrlen_def)

text \<open>\<^verbatim>\<open>strcmp\<close> returns on two strings, and returns zero exactly when they are equal.\<close>

lemma ustrcmp_str_at:
  "str_at m p cs \<Longrightarrow> str_at m q ds \<Longrightarrow> \<exists>d. ustrcmp m p q = Some d \<and> (d = 0 \<longleftrightarrow> cs = ds)"
proof (induction cs arbitrary: p q ds)
  case Nil
  then show ?case by (cases ds) (simp_all add: ustrcmp.simps [of m p q] uint_0_iff)
next
  case (Cons c cs)
  note IH = Cons.IH and at = Cons.prems
  show ?case
  proof (cases "\<exists>ds'. ds = c # ds'")
    case True
    then obtain ds' where ds: "ds = c # ds'" by blast
    with at have "str_at m (p + 1) cs" "str_at m (q + 1) ds'" "m p = c" "m q = c" "c \<noteq> 0" by simp_all
    with IH [of "p + 1" "q + 1" ds'] ds show ?thesis by (simp add: ustrcmp.simps [of m p q])
  next
    case False
    with at have "m p \<noteq> m q" "m p = c" by (cases ds, auto)+
    with False show ?thesis by (auto simp: ustrcmp.simps [of m p q] word_uint_eq_iff)
  qed
qed

text \<open>\<^verbatim>\<open>strchr\<close> returns the address of the first occurrence.\<close>

lemma ustrchr_str_at:
  assumes "c \<noteq> 0"
  shows "str_at m p cs \<Longrightarrow>
   ustrchr m p c = Some (if c \<in> set cs then p + of_nat (length (takeWhile (\<lambda>x. x \<noteq> c) cs)) else 0)"
proof (induction cs arbitrary: p)
  case Nil
  then show ?case by (simp add: ustrchr.simps [of m p c])
next
  case (Cons d cs)
  then show ?case by (simp add: ustrchr.simps [of m p c] add.assoc add.commute)
qed

end
