(* ===== verification/Uprintf.thy ===== *)
theory Uprintf
  imports Ulib
begin

text \<open>
  Formatted output of user programs, \<^verbatim>\<open>user/printf.c\<close>. Every character is a
  \<^verbatim>\<open>write\<close> of its own, whose result is not looked at. The lemmas show what a number is
  printed as, and that \<^verbatim>\<open>atoi\<close> of the library reads it back.
\<close>

section \<open>Characters and numbers\<close>

definition uputc :: "int \<Rightarrow> char \<Rightarrow> ustate \<Rightarrow> unit urun" where
  "uputc fd c s = ubind (sys (Uwrite fd [c]) s) (\<lambda>_ s. Done () s)"

fun uputs :: "int \<Rightarrow> string \<Rightarrow> ustate \<Rightarrow> unit urun" where
  "uputs fd [] s = Done () s"
| "uputs fd (c # cs) s = ubind (uputc fd c s) (\<lambda>_ s. uputs fd cs s)"

definition udigits :: string where
  "udigits = ''0123456789ABCDEF''"

text \<open>The digits in \<^verbatim>\<open>buf\<close>, least significant first. The base is 10 or 16 in every call.\<close>

function udigit_loop :: "nat \<Rightarrow> nat \<Rightarrow> string" where
  "udigit_loop x base =
     (udigits ! (x mod base)) # (if x div base \<noteq> 0 \<and> 1 < base then udigit_loop (x div base) base else [])"
  by pat_completeness auto
termination
  by (relation "measure fst") (auto intro!: div_less_dividend intro: Nat.gr0I)

declare udigit_loop.simps [simp del]

definition uprintint_buf :: "uint64 \<Rightarrow> nat \<Rightarrow> bool \<Rightarrow> string" where
  "uprintint_buf xx base sg =
     (let neg = (sg \<and> sint xx < 0); x = (if neg then - xx else xx)
      in udigit_loop (unat x) base @ (if neg then ''-'' else []))"

definition uprintint :: "int \<Rightarrow> uint64 \<Rightarrow> nat \<Rightarrow> bool \<Rightarrow> ustate \<Rightarrow> unit urun" where
  "uprintint fd xx base sg s =
     (let buf = uprintint_buf xx base sg in
      if 20 < length buf then Fault else uputs fd (rev buf) s)"

fun uptr_digits :: "nat \<Rightarrow> uint64 \<Rightarrow> string" where
  "uptr_digits 0 x = []"
| "uptr_digits (Suc n) x = (udigits ! unat (drop_bit 60 x)) # uptr_digits n (push_bit 4 x)"

definition uprintptr :: "int \<Rightarrow> uint64 \<Rightarrow> ustate \<Rightarrow> unit urun" where
  "uprintptr fd x s =
     ubind (uputc fd CHR ''0'' s) (\<lambda>_ s.
     ubind (uputc fd CHR ''x'' s) (\<lambda>_ s.
     uputs fd (uptr_digits 16 x) s))"

section \<open>Formats\<close>

text \<open>
  An argument is a register or a string pointer; taking one that is not there, or a number for a
  string, is undefined. A conversion is the letters after the percent sign: what it prints and how
  many letters it takes.
\<close>

datatype uarg = UNum uint64 | UStr "string option"

datatype uconv = UcInt bool | UcUns nat bool | UcPtr | UcChar | UcStr | UcPct | UcOther char

definition uconversion :: "char \<Rightarrow> char \<Rightarrow> char \<Rightarrow> uconv \<times> nat" where
  "uconversion c0 c1 c2 =
     (if c0 = CHR ''d'' then (UcInt False, 1)
      else if c0 = CHR ''l'' \<and> c1 = CHR ''d'' then (UcInt True, 2)
      else if c0 = CHR ''l'' \<and> c1 = CHR ''l'' \<and> c2 = CHR ''d'' then (UcInt True, 3)
      else if c0 = CHR ''u'' then (UcUns 10 False, 1)
      else if c0 = CHR ''l'' \<and> c1 = CHR ''u'' then (UcUns 10 True, 2)
      else if c0 = CHR ''l'' \<and> c1 = CHR ''l'' \<and> c2 = CHR ''u'' then (UcUns 10 True, 3)
      else if c0 = CHR ''x'' then (UcUns 16 False, 1)
      else if c0 = CHR ''l'' \<and> c1 = CHR ''x'' then (UcUns 16 True, 2)
      else if c0 = CHR ''l'' \<and> c1 = CHR ''l'' \<and> c2 = CHR ''x'' then (UcUns 16 True, 3)
      else if c0 = CHR ''p'' then (UcPtr, 1)
      else if c0 = CHR ''c'' then (UcChar, 1)
      else if c0 = CHR ''s'' then (UcStr, 1)
      else if c0 = CHR ''%'' then (UcPct, 1)
      else (UcOther c0, 1))"

text \<open>The output of one conversion, and the arguments left after it.\<close>

fun uconv_out :: "int \<Rightarrow> uconv \<Rightarrow> uarg list \<Rightarrow> ustate \<Rightarrow> uarg list urun" where
  "uconv_out fd (UcInt long) (UNum x # as) s =
     ubind (uprintint fd (if long then x else word_of_int (sint (ucast x :: uint32))) 10 True s) (\<lambda>_ s. Done as s)"
| "uconv_out fd (UcUns base long) (UNum x # as) s =
     ubind (uprintint fd (if long then x else ucast (ucast x :: uint32)) base False s) (\<lambda>_ s. Done as s)"
| "uconv_out fd UcPtr (UNum x # as) s = ubind (uprintptr fd x s) (\<lambda>_ s. Done as s)"
| "uconv_out fd UcChar (UNum x # as) s = ubind (uputc fd (char_of (unat x)) s) (\<lambda>_ s. Done as s)"
| "uconv_out fd UcStr (UStr t # as) s =
     ubind (uputs fd (case t of None \<Rightarrow> ''(null)'' | Some cs \<Rightarrow> cs) s) (\<lambda>_ s. Done as s)"
| "uconv_out fd UcPct as s = ubind (uputc fd CHR ''%'' s) (\<lambda>_ s. Done as s)"
| "uconv_out fd (UcOther c) as s =
     ubind (uputc fd CHR ''%'' s) (\<lambda>_ s. ubind (uputc fd c s) (\<lambda>_ s. Done as s))"
| "uconv_out fd cv as s = Fault"

text \<open>The \<open>i\<close>-th character of a string, which is the terminating zero at its end.\<close>

definition at :: "string \<Rightarrow> nat \<Rightarrow> char" where
  "at cs i = (if i < length cs then cs ! i else CHR 0x00)"

function vprintf :: "int \<Rightarrow> string \<Rightarrow> uarg list \<Rightarrow> ustate \<Rightarrow> unit urun" where
  "vprintf fd [] as s = Done () s"
| "vprintf fd (c # r) as s =
     (if c \<noteq> CHR ''%'' then ubind (uputc fd c s) (\<lambda>_ s. vprintf fd r as s)
      else if r = [] then Done () s
      else case uconversion (at r 0) (at r 1) (at r 2) of (cv, k) \<Rightarrow>
        ubind (uconv_out fd cv as s) (\<lambda>as s. vprintf fd (drop k r) as s))"
  by pat_completeness auto
termination
  by (relation "measure (\<lambda>(fd, f, as, s). length f)") auto

definition fprintf :: "int \<Rightarrow> string \<Rightarrow> uarg list \<Rightarrow> ustate \<Rightarrow> unit urun" where
  "fprintf fd fmt as s = vprintf fd fmt as s"

definition printf :: "string \<Rightarrow> uarg list \<Rightarrow> ustate \<Rightarrow> unit urun" where
  "printf fmt as s = vprintf 1 fmt as s"

section \<open>What is printed\<close>

text \<open>A run that only prints: it returns once every character has had its reply.\<close>

definition prints :: "unit urun \<Rightarrow> int \<Rightarrow> string \<Rightarrow> ustate \<Rightarrow> bool" where
  "prints r fd cs s =
     (r = Done () (s\<lparr>replies := drop (length cs) (replies s), calls := calls s @ map (\<lambda>c. Uwrite fd [c]) cs\<rparr>))"

lemma uputs_prints: "length cs \<le> length (replies s) \<Longrightarrow> prints (uputs fd cs s) fd cs s"
proof (induction cs arbitrary: s)
  case Nil
  then show ?case by (simp add: prints_def)
next
  case (Cons c cs)
  then obtain r rs where rs: "replies s = r # rs" by (cases "replies s") auto
  let ?s = "s\<lparr>replies := rs, calls := calls s @ [Uwrite fd [c]]\<rparr>"
  have "prints (uputs fd cs ?s) fd cs ?s" by (rule Cons.IH) (use Cons.prems rs in simp)
  then show ?case using rs by (simp add: prints_def uputc_def sys_def)
qed

lemma prints_written: "prints r fd cs s \<Longrightarrow> \<exists>t. r = Done () t \<and> written fd (calls t) = written fd (calls s) @ cs"
proof -
  have "written fd (map (\<lambda>c. Uwrite fd [c]) cs) = cs" by (induction cs) simp_all
  then show "prints r fd cs s \<Longrightarrow> ?thesis" by (simp add: prints_def)
qed

subsection \<open>Decimal digits\<close>

definition is_digit :: "char \<Rightarrow> bool" where
  "is_digit c = (48 \<le> (of_char c :: nat) \<and> (of_char c :: nat) \<le> 57)"

definition digit_val :: "char \<Rightarrow> nat" where
  "digit_val c = of_char c - 48"

text \<open>The value of a string of digits, most significant first.\<close>

definition dec_val :: "string \<Rightarrow> nat \<Rightarrow> nat" where
  "dec_val cs n = fold (\<lambda>c n. n * 10 + digit_val c) cs n"

lemma udigits_dec: "d < 10 \<Longrightarrow> is_digit (udigits ! d) \<and> digit_val (udigits ! d) = d"
proof -
  have "\<forall>d < 10. is_digit (udigits ! d) \<and> digit_val (udigits ! d) = d"
    unfolding is_digit_def digit_val_def udigits_def by code_simp
  then show "d < 10 \<Longrightarrow> ?thesis" by blast
qed

lemma udigit_loop_dec:
  "(\<forall>c \<in> set (udigit_loop x 10). is_digit c) \<and> dec_val (rev (udigit_loop x 10)) 0 = x"
proof (induction x rule: less_induct)
  case (less x)
  have d: "x mod 10 < 10" by simp
  show ?case
  proof (cases "x div 10 = 0")
    case True
    then show ?thesis using udigits_dec [OF d] by (simp add: udigit_loop.simps [of x] dec_val_def)
  next
    case False
    then have "x div 10 < x" by simp
    from less [OF this] False udigits_dec [OF d] show ?thesis
      by (simp add: udigit_loop.simps [of x] dec_val_def)
  qed
qed

text \<open>A number below the \<open>k\<close>-th power of the base has at most \<open>k\<close> digits.\<close>

lemma udigit_loop_length:
  assumes "1 < base"
  shows "x < base ^ k \<Longrightarrow> 0 < k \<Longrightarrow> length (udigit_loop x base) \<le> k"
proof (induction k arbitrary: x)
  case 0
  then show ?case by simp
next
  case (Suc k)
  show ?case
  proof (cases "x div base = 0")
    case True
    then show ?thesis by (simp add: udigit_loop.simps [of x])
  next
    case False
    have "x div base < base ^ k" using Suc.prems(1) assms by (simp add: less_mult_imp_div_less mult.commute)
    moreover from this have "0 < k" using False by (cases k) auto
    ultimately show ?thesis using Suc.IH [of "x div base"] False assms by (simp add: udigit_loop.simps [of x])
  qed
qed

lemma pow_mono_base: "10 \<le> (base::nat) \<Longrightarrow> 10 ^ k \<le> base ^ k"
  by (rule power_mono) simp_all

text \<open>The buffer of twenty characters holds every 64-bit number, the sign included.\<close>

lemma uprintint_buf_fits:
  assumes "10 \<le> base"
  shows "length (uprintint_buf xx base sg) \<le> 20"
proof -
  have b: "1 < base" using assms by simp
  have 20: "length (udigit_loop (unat xx) base) \<le> 20"
  proof (rule udigit_loop_length [OF b])
    have "unat xx < 2 ^ 64" using unsigned_less [of xx] by simp
    also have "(2::nat) ^ 64 \<le> 10 ^ 20" by simp
    also have "10 ^ 20 \<le> base ^ 20" by (rule pow_mono_base [OF assms])
    finally show "unat xx < base ^ 20" .
  qed simp
  have 19: "length (udigit_loop (unat (- xx)) base) \<le> 19" if "sint xx < 0"
  proof (rule udigit_loop_length [OF b])
    have ge: "- (2 ^ 63) \<le> sint xx" using sint_ge [of xx] by simp
    have "uint (- xx) = uint (word_of_int (- sint xx) :: uint64)" by simp
    also have "\<dots> = (- sint xx) mod 2 ^ 64" by (simp only: uint_word_of_int) simp
    also have "\<dots> = - sint xx" by (rule mod_pos_pos_trivial) (use ge that in simp_all)
    also have "\<dots> \<le> 2 ^ 63" using ge by (simp only: minus_le_iff)
    finally have "uint (- xx) \<le> 2 ^ 63" .
    then have "unat (- xx) \<le> 2 ^ 63" by (simp only: unat_eq_nat_uint nat_le_iff) simp
    also have "(2::nat) ^ 63 < 10 ^ 19" by simp
    also have "10 ^ 19 \<le> base ^ 19" by (rule pow_mono_base [OF assms])
    finally show "unat (- xx) < base ^ 19" .
  qed simp
  show ?thesis using 20 19 by (auto simp: uprintint_buf_def Let_def)
qed

lemma uprintint_prints:
  assumes "10 \<le> base" and "20 \<le> length (replies s)"
  shows "prints (uprintint fd xx base sg s) fd (rev (uprintint_buf xx base sg)) s"
proof -
  have "length (uprintint_buf xx base sg) \<le> 20" by (rule uprintint_buf_fits [OF assms(1)])
  then show ?thesis using assms(2) uputs_prints [of "rev (uprintint_buf xx base sg)" s fd]
    by (simp add: uprintint_def Let_def)
qed

subsection \<open>Reading numbers back\<close>

lemma uint8_of_char: "unat (of_char c :: uint8) = of_char c"
proof -
  have "(of_char c :: uint8) = of_nat (of_char c)" by (rule of_nat_of_char [symmetric])
  moreover have "(of_char c :: nat) mod 256 < 256" by (rule mod_less_divisor) simp
  then have "(of_char c :: nat) < 2 ^ LENGTH(8)" by simp
  ultimately show ?thesis by (metis unat_of_nat_lt)
qed

lemma digit_byte: "is_digit c \<Longrightarrow> (48::uint8) \<le> of_char c \<and> (of_char c :: uint8) \<le> 57"
  by (simp add: is_digit_def word_le_nat_alt uint8_of_char)

lemma digit_uint: "is_digit c \<Longrightarrow> uint (of_char c :: uint8) - 48 = int (digit_val c)"
proof -
  assume "is_digit c"
  then have "48 \<le> unat (of_char c :: uint8)" by (simp add: is_digit_def uint8_of_char)
  then have "int (unat (of_char c :: uint8) - 48) = uint (of_char c :: uint8) - 48" by simp
  then show "uint (of_char c :: uint8) - 48 = int (digit_val c)" by (simp only: digit_val_def uint8_of_char)
qed

lemma dec_val_ge: "n \<le> dec_val cs n"
proof (induction cs arbitrary: n)
  case Nil
  then show ?case by (simp add: dec_val_def)
next
  case (Cons c cs)
  from Cons.IH [of "n * 10 + digit_val c"] show ?case by (simp add: dec_val_def)
qed

lemma atoi_loop_digits:
  "str_at m p (map of_char cs) \<Longrightarrow> \<forall>c \<in> set cs. is_digit c \<Longrightarrow> dec_val cs n < 2 ^ 31 \<Longrightarrow>
   atoi_loop m p (int n) = Some (int (dec_val cs n))"
proof (induction cs arbitrary: p n)
  case Nil
  then show ?case by (simp add: atoi_loop.simps [of m p] dec_val_def)
next
  case (Cons c cs)
  have dig: "is_digit c" using Cons.prems by simp
  let ?n = "n * 10 + digit_val c"
  have rest: "dec_val cs ?n = dec_val (c # cs) n" by (simp add: dec_val_def)
  have "?n < 2 ^ 31" using dec_val_ge [of ?n cs] rest Cons.prems(3) by simp
  then have "int ?n < 2 ^ 31" by simp
  then have "c_int (int n * 10 + uint (of_char c :: uint8) - 48) = int ?n"
    using digit_uint [OF dig] by (subst c_int_id) (simp_all add: algebra_simps)
  moreover have "m p = of_char c" using Cons.prems(1) by simp
  ultimately show ?case
    using Cons.IH [of "p + 1" ?n] Cons.prems digit_byte [OF dig] rest
    by (simp add: atoi_loop.simps [of m p])
qed

text \<open>
  C32. What \<^verbatim>\<open>printf\<close> prints for a non-negative number with \<^verbatim>\<open>%d\<close> is a
  string of at most twenty characters, one \<^verbatim>\<open>write\<close> for each, and \<^verbatim>\<open>atoi\<close>
  of that string anywhere in memory returns the number.
\<close>

theorem printf_atoi_roundtrip:
  assumes v: "v < 2 ^ 31" and r: "20 \<le> length (replies s)"
  shows "\<exists>ds t. printf ''%d'' [UNum (of_nat v)] s = Done () t \<and>
           calls t = calls s @ map (\<lambda>c. Uwrite 1 [c]) ds \<and> length ds \<le> 20 \<and>
           (\<forall>m p. str_at m p (map of_char ds) \<longrightarrow> atoi m p = Some (int v))"
proof -
  let ?x = "word_of_int (sint (ucast (of_nat v :: uint64) :: uint32)) :: uint64"
  have "(ucast (of_nat v :: uint64) :: uint32) = of_nat v" using v by (simp add: unsigned_of_nat take_bit_nat_eq_self)
  moreover have "sint (of_nat v :: uint32) = int v" using v by (simp add: signed_of_nat signed_take_bit_int_eq_self)
  ultimately have x: "?x = of_nat v" by simp
  have sx: "\<not> sint (of_nat v :: uint64) < 0" using v by (simp add: signed_of_nat signed_take_bit_int_eq_self)
  have ux: "unat (of_nat v :: uint64) = v" using v by (intro unat_of_nat_lt) simp
  define ds where "ds = rev (udigit_loop v 10)"
  have buf: "rev (uprintint_buf ?x 10 True) = ds" unfolding x uprintint_buf_def Let_def using sx ux by (simp add: ds_def)
  have "prints (uprintint 1 ?x 10 True s) 1 ds s" using uprintint_prints [of 10 s 1 ?x True] r unfolding buf by simp
  then have "prints (printf ''%d'' [UNum (of_nat v)] s) 1 ds s"
    by (simp add: prints_def printf_def fprintf_def uconversion_def at_def)
  moreover have "length ds \<le> 20" using uprintint_buf_fits [of 10 ?x True] buf [symmetric] by simp
  moreover have "\<forall>m p. str_at m p (map of_char ds) \<longrightarrow> atoi m p = Some (int v)"
    using atoi_loop_digits [of _ _ ds 0] udigit_loop_dec [of v] v by (simp add: atoi_def ds_def)
  ultimately show ?thesis by (auto simp: prints_def)
qed

theorem printf_atoi_roundtrip_witness:
  "\<exists>ds t. printf ''%d'' [UNum (of_nat 1066)] \<lparr>replies = replicate 20 (RVal 1), calls = []\<rparr> = Done () t \<and>
     calls t = map (\<lambda>c. Uwrite 1 [c]) ds \<and> length ds \<le> 20 \<and>
     (\<forall>m p. str_at m p (map of_char ds) \<longrightarrow> atoi m p = Some (int 1066))"
  using printf_atoi_roundtrip [of 1066 "\<lparr>replies = replicate 20 (RVal 1), calls = []\<rparr>"] by simp

end
