(* ===== verification/Grep.thy ===== *)
theory Grep
  imports Uprintf
begin

text \<open>
  The program \<^verbatim>\<open>user/grep.c\<close>: the matcher for patterns with \<^verbatim>\<open>^\<close>,
  \<^verbatim>\<open>.\<close>, \<^verbatim>\<open>*\<close> and \<^verbatim>\<open>$\<close>, proved equal to the languages of the
  patterns, and the loop that cuts the input into lines, proved independent of how
  \<^verbatim>\<open>read\<close> delivers it.
\<close>

section \<open>The matcher\<close>

function matchhere :: "string \<Rightarrow> string \<Rightarrow> bool"
  and matchstar :: "char \<Rightarrow> string \<Rightarrow> string \<Rightarrow> bool" where
  "matchhere re tx =
     (if re = [] then True
      else if at re 1 = CHR ''*'' then matchstar (at re 0) (drop 2 re) tx
      else if at re 0 = CHR ''$'' \<and> length re = 1 then tx = []
      else if tx \<noteq> [] \<and> (at re 0 = CHR ''.'' \<or> at re 0 = at tx 0) then matchhere (tl re) (tl tx)
      else False)"
| "matchstar c re tx =
     (if matchhere re tx then True
      else if tx \<noteq> [] \<and> (at tx 0 = c \<or> c = CHR ''.'') then matchstar c re (tl tx)
      else False)"
  by pat_completeness auto
termination
  by (relation "measures [\<lambda>x. case x of Inl (re, tx) \<Rightarrow> length re | Inr (c, re, tx) \<Rightarrow> Suc (length re),
                          \<lambda>x. case x of Inl (re, tx) \<Rightarrow> length tx | Inr (c, re, tx) \<Rightarrow> length tx]")
     (auto simp: at_def split: if_splits)

declare matchhere.simps [simp del] matchstar.simps [simp del]

fun match_loop :: "string \<Rightarrow> string \<Rightarrow> bool" where
  "match_loop re tx =
     (if matchhere re tx then True else case tx of [] \<Rightarrow> False | _ # rest \<Rightarrow> match_loop re rest)"

declare match_loop.simps [simp del]

definition match :: "string \<Rightarrow> string \<Rightarrow> bool" where
  "match re tx = (if at re 0 = CHR ''^'' then matchhere (tl re) tx else match_loop re tx)"

section \<open>The loop over the input\<close>

text \<open>
  \<^verbatim>\<open>strchr(p, '\n')\<close> on the bytes of the buffer from \<^verbatim>\<open>p\<close>, which the zero after
  them ends.
\<close>

fun find_newline :: "string \<Rightarrow> nat option" where
  "find_newline [] = None"
| "find_newline (c # cs) =
     (if c = CHR 0x00 then None
      else if c = CHR 0x0A then Some 0
      else map_option Suc (find_newline cs))"

lemma find_newline_less: "find_newline cs = Some k \<Longrightarrow> k < length cs"
  by (induction cs arbitrary: k) (auto split: if_splits)

text \<open>The inner loop prints the lines that match and leaves the bytes after the last one.\<close>

function grep_lines :: "string \<Rightarrow> string \<Rightarrow> ustate \<Rightarrow> string urun" where
  "grep_lines pattern p s =
     (case find_newline p of
        None \<Rightarrow> Done p s
      | Some k \<Rightarrow>
          ubind (if match pattern (take k p)
                 then ubind (sys (Uwrite 1 (take k p @ [CHR 0x0A])) s) (\<lambda>_ s. Done () s)
                 else Done () s) (\<lambda>_ s.
          grep_lines pattern (drop (Suc k) p) s))"
  by pat_completeness auto
termination
  by (relation "measure (\<lambda>(pattern, p, s). length p)") (auto dest: find_newline_less)

declare grep_lines.simps [simp del]

lemma grep_lines_replies:
  "grep_lines pattern p s = Done x t \<Longrightarrow> length (replies t) \<le> length (replies s)"
proof (induction pattern p s rule: grep_lines.induct)
  case (1 pattern p s)
  show ?case
  proof (cases "find_newline p")
    case None
    then show ?thesis using 1(2) by (simp add: grep_lines.simps [of pattern p s])
  next
    case (Some k)
    with 1(2) obtain u where u: "grep_lines pattern (drop (Suc k) p) u = Done x t"
      "(if match pattern (take k p) then ubind (sys (Uwrite 1 (take k p @ [CHR 0x0A])) s) (\<lambda>_ s. Done () s) else Done () s) = Done () u"
      by (auto simp: grep_lines.simps [of pattern p s] ubind_eq_Done)
    then have "length (replies u) \<le> length (replies s)"
      by (auto simp: ubind_eq_Done dest: sys_consumes split: if_splits)
    then show ?thesis using 1(1) [OF Some u(2) u(1)] by simp
  qed
qed

definition GREP_BUF :: nat where "GREP_BUF = 1024"

function grep_loop :: "string \<Rightarrow> int \<Rightarrow> string \<Rightarrow> ustate \<Rightarrow> unit urun" where
  "grep_loop pattern fd buf s =
     ubind (uread fd (GREP_BUF - length buf - 1) s) (\<lambda>r s.
       if rval r > 0 then ubind (grep_lines pattern (buf @ rdata r) s) (\<lambda>rest s. grep_loop pattern fd rest s)
       else Done () s)"
  by pat_completeness auto
termination
  by (relation "measure (\<lambda>(pattern, fd, buf, s). length (replies s))")
     (auto dest!: uread_consumes grep_lines_replies)

declare grep_loop.simps [simp del]

definition grep :: "string \<Rightarrow> int \<Rightarrow> ustate \<Rightarrow> unit urun" where
  "grep pattern fd s = grep_loop pattern fd [] s"

fun grep_files :: "string \<Rightarrow> string list \<Rightarrow> ustate \<Rightarrow> unit urun" where
  "grep_files pattern [] s = uexit 0 s"
| "grep_files pattern (f # fs) s =
     ubind (sys (Uopen f 0) s) (\<lambda>r s.
       if rval r < 0 then ubind (printf (''grep: cannot open %s'' @ [CHR 0x0A]) [UStr (Some f)] s) (\<lambda>_ s. uexit 1 s)
       else
         ubind (grep pattern (rval r) s) (\<lambda>_ s.
         ubind (sys (Uclose (rval r)) s) (\<lambda>_ s.
         grep_files pattern fs s)))"

text \<open>\<^verbatim>\<open>main\<close>, on the arguments after the name of the program.\<close>

definition grep_main :: "string list \<Rightarrow> ustate \<Rightarrow> unit urun" where
  "grep_main args s =
     (case args of
        [] \<Rightarrow> ubind (fprintf 2 (''usage: grep pattern [file ...]'' @ [CHR 0x0A]) [] s) (\<lambda>_ s. uexit 1 s)
      | [pattern] \<Rightarrow> ubind (grep pattern 0 s) (\<lambda>_ s. uexit 0 s)
      | pattern # files \<Rightarrow> grep_files pattern files s)"

section \<open>The language of a pattern\<close>

text \<open>
  A pattern is a sequence of pieces: one character, any number of them, or the end of the line.
\<close>

datatype piece = One char | Star char | EndOfLine

fun pieces :: "string \<Rightarrow> piece list" where
  "pieces [] = []"
| "pieces [c] = (if c = CHR ''$'' then [EndOfLine] else [One c])"
| "pieces (c # d # re) = (if d = CHR ''*'' then Star c # pieces re else One c # pieces (d # re))"

definition stands_for :: "char \<Rightarrow> char \<Rightarrow> bool" where
  "stands_for c x = (c = CHR ''.'' \<or> x = c)"

text \<open>The strings a sequence of pieces stands for.\<close>

fun lang :: "piece list \<Rightarrow> string set" where
  "lang [] = {[]}"
| "lang (One c # ps) = {x # w | x w. stands_for c x \<and> w \<in> lang ps}"
| "lang (Star c # ps) = {u @ w | u w. (\<forall>x \<in> set u. stands_for c x) \<and> w \<in> lang ps}"
| "lang (EndOfLine # ps) = lang ps"

text \<open>A prefix of a text is in the language, all of the text when the pattern ends in a dollar.\<close>

definition starts_with :: "piece list \<Rightarrow> string \<Rightarrow> bool" where
  "starts_with ps tx = (\<exists>m b. tx = m @ b \<and> m \<in> lang ps \<and> (EndOfLine \<in> set ps \<longrightarrow> b = []))"

lemma starts_withI: "m \<in> lang ps \<Longrightarrow> EndOfLine \<in> set ps \<longrightarrow> b = [] \<Longrightarrow> starts_with ps (m @ b)"
  unfolding starts_with_def by blast

lemma starts_withE:
  assumes "starts_with ps tx"
  obtains m b where "tx = m @ b" "m \<in> lang ps" "EndOfLine \<in> set ps \<longrightarrow> b = []"
  using assms unfolding starts_with_def by blast

lemma starts_Nil [simp]: "starts_with [] tx"
  by (simp add: starts_with_def)

lemma starts_End [simp]: "starts_with [EndOfLine] tx \<longleftrightarrow> tx = []"
  by (auto simp: starts_with_def)

lemma starts_One [simp]:
  "starts_with (One c # ps) tx \<longleftrightarrow> (\<exists>x r. tx = x # r \<and> stands_for c x \<and> starts_with ps r)"
  (is "?L = ?R")
proof
  assume ?L
  then obtain m b where m: "tx = m @ b" "m \<in> lang (One c # ps)" and b: "EndOfLine \<in> set (One c # ps) \<longrightarrow> b = []"
    by (rule starts_withE)
  from m(2) obtain x w where "m = x # w" "stands_for c x" "w \<in> lang ps" by auto
  with m(1) b show ?R using starts_withI [of w ps b] by simp
next
  assume ?R
  then obtain x r where x: "tx = x # r" "stands_for c x" "starts_with ps r" by blast
  from x(3) obtain w b where "r = w @ b" "w \<in> lang ps" "EndOfLine \<in> set ps \<longrightarrow> b = []" by (rule starts_withE)
  with x starts_withI [of "x # w" "One c # ps" b] show ?L by simp
qed

lemma starts_Star:
  "starts_with (Star c # ps) tx \<longleftrightarrow>
     starts_with ps tx \<or> (\<exists>x r. tx = x # r \<and> stands_for c x \<and> starts_with (Star c # ps) r)"
  (is "?L = (?A \<or> ?B)")
proof
  assume ?L
  then obtain m b where m: "tx = m @ b" "m \<in> lang (Star c # ps)" and b: "EndOfLine \<in> set (Star c # ps) \<longrightarrow> b = []"
    by (rule starts_withE)
  from m(2) obtain u w where u: "m = u @ w" "\<forall>x \<in> set u. stands_for c x" "w \<in> lang ps" by auto
  show "?A \<or> ?B"
  proof (cases u)
    case Nil
    then show ?thesis using m(1) u b starts_withI [of w ps b] by simp
  next
    case (Cons x v)
    then have "v @ w \<in> lang (Star c # ps)" using u by auto
    from starts_withI [OF this b] have ?B using m(1) u Cons by simp
    then show ?thesis ..
  qed
next
  assume "?A \<or> ?B"
  then show ?L
  proof
    assume ?A
    then obtain w b where w: "tx = w @ b" "w \<in> lang ps" "EndOfLine \<in> set ps \<longrightarrow> b = []" by (rule starts_withE)
    have "[] @ w \<in> lang (Star c # ps)" using w(2) by fastforce
    from starts_withI [OF this, of b] show ?L using w by simp
  next
    assume ?B
    then obtain x r where x: "tx = x # r" "stands_for c x" "starts_with (Star c # ps) r" by blast
    from x(3) obtain m b where m: "r = m @ b" "m \<in> lang (Star c # ps)" "EndOfLine \<in> set (Star c # ps) \<longrightarrow> b = []"
      by (rule starts_withE)
    from m(2) obtain u w where u: "m = u @ w" "\<forall>x \<in> set u. stands_for c x" "w \<in> lang ps" by auto
    have "\<exists>u' w'. (x # u) @ w = u' @ w' \<and> (\<forall>y \<in> set u'. stands_for c y) \<and> w' \<in> lang ps"
      by (rule exI [of _ "x # u"], rule exI [of _ w]) (use x(2) u in simp)
    then have "(x # u) @ w \<in> lang (Star c # ps)" by simp
    from starts_withI [OF this m(3)] show ?L using x(1) m(1) u(1) by simp
  qed
qed

lemma at_Cons [simp]: "at (c # cs) 0 = c" "at (c # cs) (Suc i) = at cs i" "at [] i = CHR 0x00"
  by (simp_all add: at_def)

lemma matchhere_starts: "matchhere re tx = starts_with (pieces re) tx"
  and matchstar_starts: "matchstar c re tx = starts_with (Star c # pieces re) tx"
proof (induction re tx and c re tx rule: matchhere_matchstar.induct)
  case (1 re tx)
  then show ?case
    by (cases re rule: pieces.cases; cases tx) (auto simp: matchhere.simps [of "[]"] matchhere.simps [of "[c]" t for c t] matchhere.simps [of "c # d # r" t for c d r t] stands_for_def split: if_splits)
next
  case (2 c re tx)
  show ?case
  proof (cases tx)
    case Nil
    then show ?thesis using 2(1) by (simp add: matchstar.simps [of c re "[]"] starts_Star [of c "pieces re" "[]"])
  next
    case (Cons x r)
    have "matchstar c re r = starts_with (Star c # pieces re) r"
      if "\<not> matchhere re (x # r)" "x = c \<or> c = CHR ''.''"
      using 2(2) that Cons by simp
    then show ?thesis using 2(1) Cons
      by (auto simp: matchstar.simps [of c re "x # r"] starts_Star [of c "pieces re" "x # r"] stands_for_def)
  qed
qed

lemma match_loop_starts: "match_loop re tx \<longleftrightarrow> (\<exists>a r. tx = a @ r \<and> starts_with (pieces re) r)"
proof (induction tx)
  case Nil
  then show ?case by (simp add: match_loop.simps matchhere_starts)
next
  case (Cons x tx)
  then show ?case by (auto simp: match_loop.simps [of re "x # tx"] matchhere_starts Cons_eq_append_conv)
qed

text \<open>
  C33. The matcher decides the language of the pattern: a line matches exactly when it splits
  into three parts of which the middle one is a string the pattern stands for, the first is empty
  when the pattern begins with \<^verbatim>\<open>^\<close>, and the last is empty when it ends with
  \<^verbatim>\<open>$\<close>. The recursion of the matcher ends on every pattern and line.
\<close>

theorem match_decides_language:
  "match re tx \<longleftrightarrow>
     (let anchored = (at re 0 = CHR ''^''); ps = pieces (if anchored then tl re else re) in
      \<exists>a m b. tx = a @ m @ b \<and> m \<in> lang ps \<and> (a = [] \<or> \<not> anchored) \<and> (b = [] \<or> EndOfLine \<notin> set ps))"
  unfolding match_def Let_def
  by (auto simp: matchhere_starts match_loop_starts starts_with_def)

theorem match_decides_language_witness:
  "match ''^ab*$'' ''abb'' \<and> \<not> match ''^ab*$'' ''abba'' \<and> match ''b.*d'' ''abccde'' \<and>
   (let anchored = (at ''^ab*$'' 0 = CHR ''^''); ps = pieces (if anchored then tl ''^ab*$'' else ''^ab*$'') in
      \<exists>a m b. ''abb'' = a @ m @ b \<and> m \<in> lang ps \<and> (a = [] \<or> \<not> anchored) \<and> (b = [] \<or> EndOfLine \<notin> set ps))"
proof -
  have m: "match ''^ab*$'' ''abb''" "\<not> match ''^ab*$'' ''abba''" "match ''b.*d'' ''abccde''" by code_simp+
  show ?thesis using m match_decides_language [of "''^ab*$''" "''abb''"] by (simp only: simp_thms)
qed


section \<open>Lines of the input\<close>

abbreviation NEWLINE :: char where "NEWLINE \<equiv> CHR 0x0A"

text \<open>The complete lines of a text, and the part after the last one.\<close>

function complete_lines :: "string \<Rightarrow> string list" where
  "complete_lines cs =
     (if NEWLINE \<in> set cs
      then takeWhile (\<lambda>c. c \<noteq> NEWLINE) cs # complete_lines (tl (dropWhile (\<lambda>c. c \<noteq> NEWLINE) cs))
      else [])"
  by pat_completeness auto
termination
proof (relation "measure length", simp)
  fix cs :: string
  assume "NEWLINE \<in> set cs"
  then have "cs \<noteq> []" by auto
  then have "length (dropWhile (\<lambda>c. c \<noteq> NEWLINE) cs) - 1 < length cs"
    using length_dropWhile_le [of "\<lambda>c. c \<noteq> NEWLINE" cs] by (cases cs) auto
  then show "(tl (dropWhile (\<lambda>c. c \<noteq> NEWLINE) cs), cs) \<in> measure length" by simp
qed

declare complete_lines.simps [simp del]

fun last_part :: "string \<Rightarrow> string" where
  "last_part [] = []"
| "last_part (c # cs) = (if NEWLINE \<in> set (c # cs) then last_part cs else c # cs)"

lemma complete_lines_none: "NEWLINE \<notin> set cs \<Longrightarrow> complete_lines cs = []"
  by (simp add: complete_lines.simps)

lemma complete_lines_line: "NEWLINE \<notin> set l \<Longrightarrow> complete_lines (l @ NEWLINE # cs) = l # complete_lines cs"
proof -
  assume "NEWLINE \<notin> set l"
  then have "c \<in> set l \<Longrightarrow> c \<noteq> NEWLINE" for c by auto
  then show ?thesis by (simp add: complete_lines.simps [of "l @ NEWLINE # cs"] takeWhile_append2 dropWhile_append2)
qed

lemma last_part_none: "NEWLINE \<notin> set cs \<Longrightarrow> last_part cs = cs"
  by (cases cs) auto

lemma last_part_line: "last_part (l @ NEWLINE # cs) = last_part cs"
proof (induction l)
  case Nil
  show ?case by simp
next
  case (Cons c l)
  then show ?case by simp
qed

text \<open>Every text is a line followed by a shorter text, or has no newline.\<close>

lemma lines_induct [case_names none line]:
  assumes "\<And>cs. NEWLINE \<notin> set cs \<Longrightarrow> P cs"
    and "\<And>l cs. NEWLINE \<notin> set l \<Longrightarrow> P cs \<Longrightarrow> P (l @ NEWLINE # cs)"
  shows "P cs"
proof (induction "length cs" arbitrary: cs rule: less_induct)
  case less
  show ?case
  proof (cases "NEWLINE \<in> set cs")
    case True
    then obtain l r where "cs = l @ NEWLINE # r" "NEWLINE \<notin> set l" by (metis split_list_first)
    then show ?thesis using assms(2) less by simp
  next
    case False
    then show ?thesis by (rule assms(1))
  qed
qed

lemma complete_lines_append: "complete_lines (a @ b) = complete_lines a @ complete_lines (last_part a @ b)"
  by (induction a rule: lines_induct) (simp_all add: complete_lines_none complete_lines_line last_part_none last_part_line)

lemma last_part_append: "last_part (a @ b) = last_part (last_part a @ b)"
  by (induction a rule: lines_induct) (simp_all add: last_part_none last_part_line)

lemma last_part_no_newline: "NEWLINE \<notin> set (last_part cs)"
  by (induction cs) auto

lemma last_part_set: "set (last_part cs) \<subseteq> set cs"
  by (induction cs) auto

lemma find_newline_none: "NEWLINE \<notin> set cs \<Longrightarrow> find_newline cs = None"
  by (induction cs) auto

lemma find_newline_line: "NEWLINE \<notin> set l \<Longrightarrow> CHR 0x00 \<notin> set l \<Longrightarrow> find_newline (l @ NEWLINE # cs) = Some (length l)"
  by (induction l) auto

text \<open>The lines of a text that match, as \<^verbatim>\<open>grep\<close> writes them.\<close>

definition matching :: "string \<Rightarrow> string \<Rightarrow> string list" where
  "matching pattern cs = map (\<lambda>l. l @ [NEWLINE]) (filter (match pattern) (complete_lines cs))"

lemma grep_lines_writes:
  "CHR 0x00 \<notin> set p \<Longrightarrow> length rs = length (matching pattern p) \<Longrightarrow>
   grep_lines pattern p \<lparr>replies = rs @ rest, calls = cs\<rparr> =
     Done (last_part p) \<lparr>replies = rest, calls = cs @ map (Uwrite 1) (matching pattern p)\<rparr>"
proof (induction p arbitrary: rs cs rule: lines_induct)
  case (none p)
  then show ?case by (simp add: grep_lines.simps [of pattern p] find_newline_none last_part_none matching_def complete_lines_none)
next
  case (line l p)
  have z: "CHR 0x00 \<notin> set l" "CHR 0x00 \<notin> set p" using line.prems(1) by simp_all
  note f = find_newline_line [OF line.hyps(1) z(1), of p]
  show ?case
  proof (cases "match pattern l")
    case True
    then obtain r rs' where rs: "rs = r # rs'" and len: "length rs' = length (matching pattern p)"
      using line.prems(2) by (cases rs) (simp_all add: matching_def complete_lines_line [OF line.hyps(1)])
    show ?thesis using True line.IH [OF z(2) len, of "cs @ [Uwrite 1 (l @ [NEWLINE])]"] rs
      by (simp add: grep_lines.simps [of pattern "l @ NEWLINE # p"] f sys_def matching_def complete_lines_line [OF line.hyps(1)] last_part_line)
  next
    case False
    have len: "length rs = length (matching pattern p)"
      using False line.prems(2) by (simp add: matching_def complete_lines_line [OF line.hyps(1)])
    show ?thesis using False line.IH [OF z(2) len, of cs]
      by (simp add: grep_lines.simps [of pattern "l @ NEWLINE # p"] f matching_def complete_lines_line [OF line.hyps(1)] last_part_line)
  qed
qed

text \<open>
  A run of the kernel that delivers a text in the given parts, ends it, and answers every
  \<^verbatim>\<open>write\<close> with the length written. The parts fit when each is not empty, has no zero byte,
  and leaves room in the buffer beside the unfinished line before it.
\<close>

fun delivery :: "string \<Rightarrow> string \<Rightarrow> string list \<Rightarrow> ureply list" where
  "delivery pattern rest [] = [RData []]"
| "delivery pattern rest (d # ds) =
     RData d # map (\<lambda>l. RVal (int (length l))) (matching pattern (rest @ d)) @ delivery pattern (last_part (rest @ d)) ds"

fun parts_fit :: "string \<Rightarrow> string list \<Rightarrow> bool" where
  "parts_fit rest [] = True"
| "parts_fit rest (d # ds) =
     (d \<noteq> [] \<and> CHR 0x00 \<notin> set d \<and> length rest + length d < GREP_BUF \<and> parts_fit (last_part (rest @ d)) ds)"

lemma matching_append: "matching pattern (a @ b) = matching pattern a @ matching pattern (last_part a @ b)"
  by (simp add: matching_def complete_lines_append [of a b])

lemma written_writes: "written 1 (map (Uwrite 1) ls) = concat ls"
  by (induction ls) simp_all

lemma grep_loop_delivery:
  "CHR 0x00 \<notin> set buf \<Longrightarrow> NEWLINE \<notin> set buf \<Longrightarrow> parts_fit buf ds \<Longrightarrow>
   \<exists>t. grep_loop pattern fd buf \<lparr>replies = delivery pattern buf ds @ rest, calls = cs\<rparr> = Done () t \<and> replies t = rest \<and>
       written 1 (calls t) = written 1 cs @ concat (matching pattern (buf @ concat ds))"
proof (induction ds arbitrary: buf cs)
  case Nil
  then show ?case
    by (simp add: grep_loop.simps [of pattern fd buf] uread_def sys_def matching_def complete_lines_none)
next
  case (Cons d ds)
  let ?p = "buf @ d" and ?q = "last_part (buf @ d)"
  have z: "CHR 0x00 \<notin> set ?p" using Cons.prems by simp
  then have zq: "CHR 0x00 \<notin> set ?q" using last_part_set [of ?p] by blast
  have fit: "parts_fit ?q ds" "length d \<le> GREP_BUF - length buf - 1" "d \<noteq> []" using Cons.prems(3) by auto
  let ?c = "cs @ [Uread fd (GREP_BUF - length buf - 1)]"
  let ?rest = "delivery pattern ?q ds @ rest"
  let ?c' = "?c @ map (Uwrite 1) (matching pattern ?p)"
  have step: "grep_loop pattern fd buf \<lparr>replies = delivery pattern buf (d # ds) @ rest, calls = cs\<rparr> =
      grep_loop pattern fd ?q \<lparr>replies = ?rest, calls = ?c'\<rparr>"
    using grep_lines_writes [OF z, of "map (\<lambda>l. RVal (int (length l))) (matching pattern ?p)" pattern ?rest ?c] fit(2,3)
    by (simp add: grep_loop.simps [of pattern fd buf] uread_def sys_def)
  obtain t where t: "grep_loop pattern fd ?q \<lparr>replies = ?rest, calls = ?c'\<rparr> = Done () t" "replies t = rest"
      "written 1 (calls t) = written 1 ?c' @ concat (matching pattern (?q @ concat ds))"
    using Cons.IH [OF zq last_part_no_newline fit(1), of ?c'] by blast
  have "written 1 (calls t) = written 1 cs @ concat (matching pattern (buf @ concat (d # ds)))"
    unfolding t(3) using matching_append [of pattern ?p "concat ds"] by (simp add: written_writes)
  then show ?case using step t(1,2) by auto
qed

text \<open>
  C34. \<^verbatim>\<open>grep\<close> writes exactly the complete lines of its input that match, in their
  order and unchanged, however the input is cut into the parts that \<^verbatim>\<open>read\<close> delivers, as
  long as no line with its newline fills the buffer and no byte is zero. What follows the last
  newline is not looked at.
\<close>

theorem grep_writes_matching_lines:
  assumes "parts_fit [] ds"
  shows "\<exists>t. grep pattern fd \<lparr>replies = delivery pattern [] ds @ rest, calls = cs\<rparr> = Done () t \<and> replies t = rest \<and>
           written 1 (calls t) = written 1 cs @
             concat (map (\<lambda>l. l @ [NEWLINE]) (filter (match pattern) (complete_lines (concat ds))))"
  using grep_loop_delivery [of "[]" ds pattern fd rest cs] assms by (simp add: grep_def matching_def)

theorem grep_writes_matching_lines_witness:
  "\<exists>t. grep ''^a'' 3 \<lparr>replies = delivery ''^a'' [] [''ab'', ''c'' @ [NEWLINE] @ ''b'' @ [NEWLINE] @ ''ax''], calls = []\<rparr> = Done () t \<and>
     written 1 (calls t) = ''abc'' @ [NEWLINE]"
proof -
  let ?ds = "[''ab'', ''c'' @ [NEWLINE] @ ''b'' @ [NEWLINE] @ ''ax'']"
  have "parts_fit [] ?ds" by (simp add: GREP_BUF_def)
  moreover have "concat (map (\<lambda>l. l @ [NEWLINE]) (filter (match ''^a'') (complete_lines (concat ?ds)))) = ''abc'' @ [NEWLINE]"
    by code_simp
  ultimately show ?thesis using grep_writes_matching_lines [of ?ds "''^a''" 3 "[]" "[]"] by (simp only: append_Nil2 append_Nil written.simps) blast
qed

end
