(* ===== verification/ShParse.thy ===== *)
theory ShParse
  imports Uprintf
begin

text \<open>
  The parser of the shell, \<^verbatim>\<open>user/sh.c\<close>. A command line is a string without zero bytes
  and a pointer into it is a position; the end of the string is the position of its terminating
  zero. Commands are trees, as the parser allocates them, whose words are pairs of positions.
\<close>

section \<open>Tokens\<close>

definition whitespace :: string where
  "whitespace = '' '' @ [CHR 0x09, CHR 0x0D, CHR 0x0A, CHR 0x0B]"

definition symbols :: string where
  "symbols = ''<|>&;()''"

text \<open>The loops of the scanner, which stop at the end of the line.\<close>

function skip_while :: "(char \<Rightarrow> bool) \<Rightarrow> string \<Rightarrow> nat \<Rightarrow> nat" where
  "skip_while P b s = (if s < length b \<and> P (b ! s) then skip_while P b (Suc s) else s)"
  by pat_completeness auto
termination
  by (relation "measure (\<lambda>(P, b, s). length b - s)") auto

declare skip_while.simps [simp del]

definition skip_blanks :: "string \<Rightarrow> nat \<Rightarrow> nat" where
  "skip_blanks b s = skip_while (\<lambda>c. c \<in> set whitespace) b s"

definition word_char :: "char \<Rightarrow> bool" where
  "word_char c = (c \<notin> set whitespace \<and> c \<notin> set symbols)"

text \<open>
  \<^verbatim>\<open>gettoken\<close> returns the kind of the token, its two ends, and the position of the next
  one. The kinds are the symbols themselves, \<^verbatim>\<open>+\<close> for two closing brackets,
  \<^verbatim>\<open>a\<close> for a word, and zero at the end of the line.
\<close>

definition gettoken :: "string \<Rightarrow> nat \<Rightarrow> char \<times> nat \<times> nat \<times> nat" where
  "gettoken b ps =
     (let q = skip_blanks b ps; c = at b q;
          (ret, eq) =
            (if c = CHR 0x00 then (c, q)
             else if c \<in> set ''|();&<'' then (c, Suc q)
             else if c = CHR ''>'' then (if at b (Suc q) = CHR ''>'' then (CHR ''+'', q + 2) else (c, Suc q))
             else (CHR ''a'', skip_while word_char b q))
      in (ret, q, eq, skip_blanks b eq))"

definition peek :: "string \<Rightarrow> nat \<Rightarrow> string \<Rightarrow> nat \<times> bool" where
  "peek b ps toks = (let s = skip_blanks b ps in (s, at b s \<noteq> CHR 0x00 \<and> at b s \<in> set toks))"

subsection \<open>How far they move\<close>

lemma skip_while_bounds: "s \<le> length b \<Longrightarrow> s \<le> skip_while P b s \<and> skip_while P b s \<le> length b"
  by (induction P b s rule: skip_while.induct) (subst (1 2) skip_while.simps, auto)

lemma skip_while_all: "s \<le> i \<Longrightarrow> i < skip_while P b s \<Longrightarrow> i < length b \<and> P (b ! i)"
proof (induction P b s rule: skip_while.induct)
  case (1 P b s)
  then show ?case
    by (cases "s < length b \<and> P (b ! s)"; cases "i = s") (auto simp: skip_while.simps [of P b s])
qed

lemma skip_while_stop: "skip_while P b s < length b \<Longrightarrow> \<not> P (b ! skip_while P b s)"
  by (induction P b s rule: skip_while.induct) (subst (asm) (2) skip_while.simps, subst skip_while.simps, auto split: if_splits)


lemma skip_blanks_bounds: "s \<le> length b \<Longrightarrow> s \<le> skip_blanks b s \<and> skip_blanks b s \<le> length b"
  unfolding skip_blanks_def by (rule skip_while_bounds)

lemma at_end: "at b i \<noteq> CHR 0x00 \<Longrightarrow> i < length b"
  by (auto simp: at_def split: if_splits)

lemma word_progress: "q < length b \<Longrightarrow> word_char (b ! q) \<Longrightarrow> q < skip_while word_char b q"
  using skip_while_bounds [of "Suc q" b word_char] by (subst skip_while.simps) simp

lemma gettoken_moves:
  assumes "gettoken b ps = (tok, q, eq, ps')" and "ps \<le> length b"
  shows "ps \<le> q \<and> q \<le> eq \<and> eq \<le> ps' \<and> ps' \<le> length b \<and> (tok \<noteq> CHR 0x00 \<longrightarrow> q < eq)"
proof -
  let ?q = "skip_blanks b ps" and ?c = "at b (skip_blanks b ps)"
  have q: "ps \<le> ?q" "?q \<le> length b" using skip_blanks_bounds [OF assms(2)] by simp_all
  have eq: "q = ?q" "ps' = skip_blanks b eq" using assms(1) by (auto simp: gettoken_def Let_def split: if_splits prod.splits)
  have "?q \<le> eq \<and> eq \<le> length b \<and> (tok \<noteq> CHR 0x00 \<longrightarrow> ?q < eq)"
  proof (cases "?c = CHR 0x00")
    case True
    then show ?thesis using assms(1) q by (simp add: gettoken_def Let_def)
  next
    case False
    then have lt: "?q < length b" by (rule at_end)
    then have c: "?c = b ! ?q" by (simp add: at_def)
    have two: "at b (Suc ?q) = CHR ''>'' \<Longrightarrow> Suc ?q < length b" by (rule at_end) simp
    have ws: "b ! ?q \<notin> set whitespace" using skip_while_stop [of _ b ps] lt by (simp add: skip_blanks_def)
    have "?c \<notin> set ''|();&<'' \<Longrightarrow> ?c \<noteq> CHR ''>'' \<Longrightarrow> word_char (b ! ?q)"
      using ws c by (simp add: word_char_def symbols_def)
    then show ?thesis
      using assms(1) False lt two word_progress [OF lt] skip_while_bounds [of ?q b word_char] q(2)
      by (auto simp: gettoken_def Let_def split: if_splits)
  qed
  then show ?thesis using q eq skip_blanks_bounds [of eq b] by auto
qed

lemma peek_moves:
  assumes "peek b ps toks = (ps', r)" and "ps \<le> length b"
  shows "ps \<le> ps' \<and> ps' \<le> length b \<and> (r \<longrightarrow> ps' < length b)"
  using assms skip_blanks_bounds [OF assms(2)] at_end by (auto simp: peek_def Let_def)

lemma skip_while_ge: "s \<le> skip_while P b s"
  by (induction P b s rule: skip_while.induct) (subst skip_while.simps, auto)

lemma peek_hit: "peek b ps toks = (ps', True) \<Longrightarrow> ps \<le> length b"
  using skip_while_ge [of ps "\<lambda>c. c \<in> set whitespace" b] at_end [of b "skip_blanks b ps"]
  by (auto simp: peek_def skip_blanks_def Let_def)

lemma gettoken_after_peek:
  assumes "peek b ps toks = (ps', True)" and "gettoken b ps' = (tok, q, eq, ps'')" and "ps \<le> length b"
  shows "ps' < ps'' \<and> ps'' \<le> length b"
proof -
  have p: "ps' = skip_blanks b ps" "at b ps' \<noteq> CHR 0x00" using assms(1) by (auto simp: peek_def Let_def)
  then have "skip_blanks b ps' = ps'"
    using skip_while_stop [of "\<lambda>c. c \<in> set whitespace" b ps] at_end [of b ps'] unfolding skip_blanks_def
    by (subst skip_while.simps) auto
  then have "tok \<noteq> CHR 0x00" using assms(2) p(2) by (auto simp: gettoken_def Let_def split: if_splits)
  then show ?thesis using gettoken_moves [OF assms(2)] peek_moves [OF assms(1,3)] by auto
qed

lemma token_step:
  assumes "(ps1, True) = peek b ps toks" and "(tok, r1) = gettoken b ps1" and "(q1, r2) = r1" and "(e1, ps2) = r2"
  shows "length b - ps2 < length b - ps"
proof -
  have p: "peek b ps toks = (ps1, True)" "gettoken b ps1 = (tok, q1, e1, ps2)" using assms by auto
  have "ps \<le> length b" by (rule peek_hit [OF p(1)])
  with gettoken_after_peek [OF p(1,2)] peek_moves [OF p(1)] show ?thesis by auto
qed

lemma redirection_step:
  assumes "(ps1, True) = peek b ps toks" and "(tok, r1) = gettoken b ps1" and "(q1, r2) = r1" and "(e1, ps2) = r2"
    and "(tok2, r3) = gettoken b ps2" and "(q2, r4) = r3" and "(e2, ps3) = r4"
  shows "length b - ps3 < length b - ps"
proof -
  have p: "peek b ps toks = (ps1, True)" "gettoken b ps1 = (tok, q1, e1, ps2)" "gettoken b ps2 = (tok2, q2, e2, ps3)"
    using assms by auto
  have "ps \<le> length b" by (rule peek_hit [OF p(1)])
  with gettoken_after_peek [OF p(1,2)] gettoken_moves [OF p(3)] peek_moves [OF p(1)] show ?thesis by auto
qed

section \<open>Commands\<close>

text \<open>A word is its first position and the position after it.\<close>

datatype cmd =
    Exec "(nat \<times> nat) list"
  | Redir cmd nat nat int int
  | Pipe cmd cmd
  | Seq cmd cmd
  | Back cmd

text \<open>
  A command that parses gives a value and the position after it; the others end in
  \<^verbatim>\<open>panic\<close> with a message.
\<close>

datatype 'a parse = POk 'a nat | PPanic string

text \<open>
  \<^verbatim>\<open>parseexec\<close> keeps a pointer to the command it allocated while redirections wrap others
  around it: a word goes to the innermost command.
\<close>

fun add_arg :: "nat \<times> nat \<Rightarrow> cmd \<Rightarrow> cmd" where
  "add_arg w (Exec as) = Exec (as @ [w])"
| "add_arg w (Redir c q eq mode fd) = Redir (add_arg w c) q eq mode fd"
| "add_arg w c = c"

definition MAXARGS :: nat where "MAXARGS = 10"

text \<open>The modes of \<^verbatim>\<open>kernel/fcntl.h\<close> that the shell opens files with.\<close>

definition redir_of :: "char \<Rightarrow> cmd \<Rightarrow> nat \<Rightarrow> nat \<Rightarrow> cmd" where
  "redir_of tok c q eq =
     (if tok = CHR ''<'' then Redir c q eq 0 0
      else if tok = CHR ''>'' then Redir c q eq 0x601 1
      else if tok = CHR ''+'' then Redir c q eq 0x201 1
      else c)"

function parseredirs :: "string \<Rightarrow> cmd \<Rightarrow> nat \<Rightarrow> cmd parse" where
  "parseredirs b c ps =
     (case peek b ps ''<>'' of (ps1, hit) \<Rightarrow>
        if \<not> hit then POk c ps1
        else case gettoken b ps1 of (tok, _, _, ps2) \<Rightarrow>
          case gettoken b ps2 of (tok2, q, eq, ps3) \<Rightarrow>
            if tok2 \<noteq> CHR ''a'' then PPanic ''missing file for redirection''
            else parseredirs b (redir_of tok c q eq) ps3)"
  by pat_completeness auto
termination
  by (relation "measure (\<lambda>(b, c, ps). length b - ps)") (auto intro: redirection_step)


declare parseredirs.simps [simp del]

text \<open>The loop of \<^verbatim>\<open>parseline\<close> over the ampersands.\<close>

function back_loop :: "string \<Rightarrow> cmd \<Rightarrow> nat \<Rightarrow> cmd \<times> nat" where
  "back_loop b c ps =
     (case peek b ps ''&'' of (ps1, hit) \<Rightarrow>
        if \<not> hit then (c, ps1)
        else case gettoken b ps1 of (_, _, _, ps2) \<Rightarrow> back_loop b (Back c) ps2)"
  by pat_completeness auto
termination
  by (relation "measure (\<lambda>(b, c, ps). length b - ps)") (auto intro: token_step)

declare back_loop.simps [simp del]

text \<open>The loop of \<^verbatim>\<open>parseexec\<close> over the words and the redirections between them.\<close>

function parse_args :: "string \<Rightarrow> cmd \<Rightarrow> nat \<Rightarrow> nat \<Rightarrow> cmd parse" where
  "parse_args b ret argc ps =
     (case peek b ps ''|)&;'' of (ps1, hit) \<Rightarrow>
        if hit then POk ret ps1
        else case gettoken b ps1 of (tok, q, eq, ps2) \<Rightarrow>
          if tok = CHR 0x00 then POk ret ps2
          else if tok \<noteq> CHR ''a'' then PPanic ''syntax''
          else if argc + 1 \<ge> MAXARGS then PPanic ''too many args''
          else case parseredirs b (add_arg (q, eq) ret) ps2 of
              PPanic e \<Rightarrow> PPanic e
            | POk ret ps3 \<Rightarrow> parse_args b ret (argc + 1) ps3)"
  by pat_completeness auto
termination
  by (relation "measure (\<lambda>(b, ret, argc, ps). MAXARGS - argc)") auto

declare parse_args.simps [simp del]

section \<open>The grammar\<close>

text \<open>
  The four routines that call each other, on a bound on the depth of the calls. Running out of it is
  \<open>None\<close>; the bound that \<^verbatim>\<open>parsecmd\<close> starts with is never reached.
\<close>

definition pbind :: "'a parse option \<Rightarrow> ('a \<Rightarrow> nat \<Rightarrow> 'b parse option) \<Rightarrow> 'b parse option" where
  "pbind m f = (case m of None \<Rightarrow> None | Some (PPanic e) \<Rightarrow> Some (PPanic e) | Some (POk x ps) \<Rightarrow> f x ps)"

lemma pbind_simps [simp]:
  "pbind None f = None" "pbind (Some (PPanic e)) f = Some (PPanic e)" "pbind (Some (POk x ps)) f = f x ps"
  by (simp_all add: pbind_def)

definition next_pos :: "string \<Rightarrow> nat \<Rightarrow> nat" where
  "next_pos b ps = snd (snd (snd (gettoken b ps)))"

fun parseline :: "nat \<Rightarrow> string \<Rightarrow> nat \<Rightarrow> cmd parse option"
  and parsepipe :: "nat \<Rightarrow> string \<Rightarrow> nat \<Rightarrow> cmd parse option"
  and parseblock :: "nat \<Rightarrow> string \<Rightarrow> nat \<Rightarrow> cmd parse option"
  and parseexec :: "nat \<Rightarrow> string \<Rightarrow> nat \<Rightarrow> cmd parse option" where
  "parseline 0 b ps = None"
| "parseline (Suc n) b ps =
     pbind (parsepipe n b ps) (\<lambda>c ps.
       case back_loop b c ps of (c, ps) \<Rightarrow>
       case peek b ps '';'' of (ps, hit) \<Rightarrow>
         if hit then pbind (parseline n b (next_pos b ps)) (\<lambda>r ps. Some (POk (Seq c r) ps))
         else Some (POk c ps))"
| "parsepipe 0 b ps = None"
| "parsepipe (Suc n) b ps =
     pbind (parseexec n b ps) (\<lambda>c ps.
       case peek b ps ''|'' of (ps, hit) \<Rightarrow>
         if hit then pbind (parsepipe n b (next_pos b ps)) (\<lambda>r ps. Some (POk (Pipe c r) ps))
         else Some (POk c ps))"
| "parseblock 0 b ps = None"
| "parseblock (Suc n) b ps =
     (case peek b ps ''('' of (ps, hit) \<Rightarrow>
        if \<not> hit then Some (PPanic ''parseblock'')
        else
          pbind (parseline n b (next_pos b ps)) (\<lambda>c ps.
            case peek b ps '')'' of (ps, hit) \<Rightarrow>
              if \<not> hit then Some (PPanic ''syntax - missing )'')
              else Some (parseredirs b c (next_pos b ps))))"
| "parseexec 0 b ps = None"
| "parseexec (Suc n) b ps =
     (case peek b ps ''('' of (ps, hit) \<Rightarrow>
        if hit then parseblock n b ps
        else
          pbind (Some (parseredirs b (Exec []) ps)) (\<lambda>ret ps.
            Some (parse_args b ret 0 ps)))"

text \<open>
  \<^verbatim>\<open>parsecmd\<close> without the zeros that \<^verbatim>\<open>nulterminate\<close> writes: the command, the
  message of a panic, or the position of what is left over.
\<close>

datatype parse_error = Message string | Leftovers nat

definition parsecmd :: "string \<Rightarrow> (parse_error + cmd) option" where
  "parsecmd b =
     (case parseline (4 * length b + 4) b 0 of
        None \<Rightarrow> None
      | Some (PPanic e) \<Rightarrow> Some (Inl (Message e))
      | Some (POk c ps) \<Rightarrow>
          (case peek b ps '''' of (ps, _) \<Rightarrow>
             if ps \<noteq> length b then Some (Inl (Leftovers ps)) else Some (Inr c)))"

text \<open>
  \<^verbatim>\<open>nulterminate\<close> writes a zero after every word, in the order of the code, into the
  line with its terminating zero.
\<close>

fun nulterminate :: "cmd \<Rightarrow> string \<Rightarrow> string" where
  "nulterminate (Exec as) m = fold (\<lambda>(q, e) m. m[e := CHR 0x00]) as m"
| "nulterminate (Redir c q e mode fd) m = (nulterminate c m)[e := CHR 0x00]"
| "nulterminate (Pipe l r) m = nulterminate r (nulterminate l m)"
| "nulterminate (Seq l r) m = nulterminate r (nulterminate l m)"
| "nulterminate (Back c) m = nulterminate c m"


section \<open>Every line parses or panics\<close>

text \<open>The words of a command, and what the parser promises of each: it is a maximal run of word characters.\<close>

fun cmd_words :: "cmd \<Rightarrow> (nat \<times> nat) list" where
  "cmd_words (Exec as) = as"
| "cmd_words (Redir c q e mode fd) = cmd_words c @ [(q, e)]"
| "cmd_words (Pipe l r) = cmd_words l @ cmd_words r"
| "cmd_words (Seq l r) = cmd_words l @ cmd_words r"
| "cmd_words (Back c) = cmd_words c"

definition word_ok :: "string \<Rightarrow> nat \<times> nat \<Rightarrow> bool" where
  "word_ok b w = (case w of (q, e) \<Rightarrow>
     q < e \<and> e \<le> length b \<and> (\<forall>i. q \<le> i \<and> i < e \<longrightarrow> word_char (b ! i)) \<and> (e < length b \<longrightarrow> \<not> word_char (b ! e)))"

definition cmd_ok :: "string \<Rightarrow> cmd \<Rightarrow> bool" where
  "cmd_ok b c = (\<forall>w \<in> set (cmd_words c). word_ok b w)"

lemma cmd_ok_simps [simp]:
  "cmd_ok b (Exec as) = (\<forall>w \<in> set as. word_ok b w)"
  "cmd_ok b (Redir c q e mode fd) = (cmd_ok b c \<and> word_ok b (q, e))"
  "cmd_ok b (Pipe l r) = (cmd_ok b l \<and> cmd_ok b r)"
  "cmd_ok b (Seq l r) = (cmd_ok b l \<and> cmd_ok b r)"
  "cmd_ok b (Back c) = cmd_ok b c"
  by (auto simp: cmd_ok_def)

lemma cmd_ok_redir_of: "cmd_ok b c \<Longrightarrow> word_ok b (q, e) \<Longrightarrow> cmd_ok b (redir_of tok c q e)"
  by (simp add: redir_of_def)

lemma cmd_ok_add_arg: "cmd_ok b c \<Longrightarrow> word_ok b w \<Longrightarrow> cmd_ok b (add_arg w c)"
  by (induction c) auto

lemma gettoken_word:
  assumes g: "gettoken b ps = (CHR ''a'', q, e, ps')" and "ps \<le> length b"
  shows "word_ok b (q, e)"
proof -
  have q: "q = skip_blanks b ps" "at b q \<noteq> CHR 0x00" "e = skip_while word_char b q"
    using g by (auto simp: gettoken_def Let_def split: if_splits)
  have "q < e" "e \<le> length b" using gettoken_moves [OF assms] by auto
  moreover have "word_char (b ! i)" if "q \<le> i" "i < e" for i using skip_while_all [of q i word_char b] that q(3) by simp
  moreover have "\<not> word_char (b ! e)" if "e < length b" using skip_while_stop [of word_char b q] that q(3) by simp
  ultimately show ?thesis by (auto simp: word_ok_def)
qed

text \<open>
  A routine does well from a position when it gives an answer, and a command it returns is made of
  words of the line and ends at or after that position.
\<close>

definition does_well :: "string \<Rightarrow> nat \<Rightarrow> cmd parse option \<Rightarrow> bool" where
  "does_well b ps r =
     (case r of None \<Rightarrow> False | Some (PPanic e) \<Rightarrow> True | Some (POk c ps') \<Rightarrow> ps \<le> ps' \<and> ps' \<le> length b \<and> cmd_ok b c)"

lemma does_well_simps [simp]:
  "does_well b ps None = False"
  "does_well b ps (Some (PPanic e)) = True"
  "does_well b ps (Some (POk c ps')) = (ps \<le> ps' \<and> ps' \<le> length b \<and> cmd_ok b c)"
  by (simp_all add: does_well_def)

lemma does_well_bind:
  assumes "does_well b ps m"
    and "\<And>c ps1. ps \<le> ps1 \<Longrightarrow> ps1 \<le> length b \<Longrightarrow> cmd_ok b c \<Longrightarrow> does_well b ps1 (f c ps1)"
  shows "does_well b ps (pbind m f)"
proof (cases m)
  case None
  then show ?thesis using assms(1) by simp
next
  case (Some r)
  show ?thesis
  proof (cases r)
    case (POk c ps1)
    then have ok: "ps \<le> ps1" "ps1 \<le> length b" "cmd_ok b c" using assms(1) Some by simp_all
    from assms(2) [OF this] show ?thesis using Some POk ok(1) by (auto simp: does_well_def split: option.splits parse.splits)
  next
    case (PPanic e)
    then show ?thesis using Some by simp
  qed
qed

lemma parseredirs_ok:
  "ps \<le> length b \<Longrightarrow> cmd_ok b c \<Longrightarrow> does_well b ps (Some (parseredirs b c ps))"
proof (induction b c ps rule: parseredirs.induct)
  case (1 b c ps)
  obtain ps1 hit where pk: "peek b ps ''<>'' = (ps1, hit)" by (cases "peek b ps ''<>''")
  note pm = peek_moves [OF pk 1(2)]
  obtain tok q1 e1 ps2 where g1: "gettoken b ps1 = (tok, q1, e1, ps2)" by (cases "gettoken b ps1")
  obtain tok2 q e ps3 where g2: "gettoken b ps2 = (tok2, q, e, ps3)" by (cases "gettoken b ps2")
  have m: "ps1 \<le> ps2" "ps2 \<le> length b" "ps2 \<le> ps3" "ps3 \<le> length b"
    using gettoken_moves [OF g1] gettoken_moves [OF g2] pm by auto
  show ?case
  proof (cases "hit \<and> tok2 = CHR ''a''")
    case True
    then have "word_ok b (q, e)" using gettoken_word [of b ps2 q e ps3] g2 m(2) by simp
    then have ok: "cmd_ok b (redir_of tok c q e)" using 1(3) by (rule cmd_ok_redir_of [rotated])
    have "does_well b ps3 (Some (parseredirs b (redir_of tok c q e) ps3))"
      by (rule 1(1) [OF pk [symmetric] _ g1 [symmetric] refl refl g2 [symmetric] refl refl _ m(4) ok]) (use True in simp_all)
    then show ?thesis using pk True g1 g2 m pm
      by (simp add: parseredirs.simps [of b c ps] does_well_def split: parse.splits)
  next
    case False
    then show ?thesis using pk g1 g2 pm 1(3) by (simp add: parseredirs.simps [of b c ps])
  qed
qed

lemma back_loop_ok:
  "ps \<le> length b \<Longrightarrow> cmd_ok b c \<Longrightarrow> back_loop b c ps = (c', ps') \<Longrightarrow> ps \<le> ps' \<and> ps' \<le> length b \<and> cmd_ok b c'"
proof (induction b c ps rule: back_loop.induct)
  case (1 b c ps)
  obtain ps1 hit where pk: "peek b ps ''&'' = (ps1, hit)" by (cases "peek b ps ''&''")
  note pm = peek_moves [OF pk 1(2)]
  obtain tok q1 e1 ps2 where g: "gettoken b ps1 = (tok, q1, e1, ps2)" by (cases "gettoken b ps1")
  have m: "ps1 \<le> ps2" "ps2 \<le> length b" using gettoken_moves [OF g] pm by auto
  show ?case
  proof (cases hit)
    case True
    have "back_loop b (Back c) ps2 = (c', ps')" using 1(4) pk True g by (simp add: back_loop.simps [of b c ps])
    from 1(1) [OF pk [symmetric] _ g [symmetric] refl refl m(2) _ this] True 1(3) m(1) pm show ?thesis by auto
  next
    case False
    then show ?thesis using 1(3,4) pk pm by (simp add: back_loop.simps [of b c ps])
  qed
qed

lemma parse_args_ok:
  "ps \<le> length b \<Longrightarrow> cmd_ok b c \<Longrightarrow> does_well b ps (Some (parse_args b c argc ps))"
proof (induction b c argc ps rule: parse_args.induct)
  case (1 b c argc ps)
  obtain ps1 hit where pk: "peek b ps ''|)&;'' = (ps1, hit)" by (cases "peek b ps ''|)&;''")
  note pm = peek_moves [OF pk 1(2)]
  obtain tok q e ps2 where g: "gettoken b ps1 = (tok, q, e, ps2)" by (cases "gettoken b ps1")
  have m: "ps1 \<le> ps2" "ps2 \<le> length b" using gettoken_moves [OF g] pm by auto
  show ?case
  proof (cases "\<not> hit \<and> tok = CHR ''a'' \<and> argc + 1 < MAXARGS")
    case True
    then have "word_ok b (q, e)" using gettoken_word [of b ps1 q e ps2] g pm by simp
    then have ok: "cmd_ok b (add_arg (q, e) c)" using 1(3) by (rule cmd_ok_add_arg [rotated])
    note r = parseredirs_ok [OF m(2) ok]
    show ?thesis
    proof (cases "parseredirs b (add_arg (q, e) c) ps2")
      case (POk c3 ps3)
      then have ok3: "ps2 \<le> ps3" "ps3 \<le> length b" "cmd_ok b c3" using r by simp_all
      have "does_well b ps3 (Some (parse_args b c3 (argc + 1) ps3))"
        by (rule 1(1) [OF pk [symmetric] _ g [symmetric] refl refl _ _ _ POk ok3(2,3)]) (use True in simp_all)
      then show ?thesis using pk True g m pm POk ok3
        by (simp add: parse_args.simps [of b c argc ps] does_well_def split: parse.splits)
    next
      case (PPanic e)
      then show ?thesis using pk True g by (simp add: parse_args.simps [of b c argc ps])
    qed
  next
    case False
    then show ?thesis using pk g pm m 1(3) by (auto simp: parse_args.simps [of b c argc ps])
  qed
qed

lemma next_pos_after:
  assumes "peek b ps toks = (ps', True)" and "ps \<le> length b"
  shows "ps' < next_pos b ps' \<and> next_pos b ps' \<le> length b"
  using gettoken_after_peek [OF assms(1) _ assms(2)] by (cases "gettoken b ps'") (simp add: next_pos_def)


text \<open>
  The depth of the calls: an opening bracket costs four calls, a bar or a semicolon one, and each
  takes a character of the line.
\<close>

definition depth_ok :: "string \<Rightarrow> nat \<Rightarrow> bool" where
  "depth_ok b n =
     (\<forall>ps \<le> length b.
        (4 * (length b - ps) + 4 \<le> n \<longrightarrow> does_well b ps (parseline n b ps)) \<and>
        (4 * (length b - ps) + 3 \<le> n \<longrightarrow> does_well b ps (parsepipe n b ps)) \<and>
        (4 * (length b - ps) + 2 \<le> n \<longrightarrow> does_well b ps (parseexec n b ps)) \<and>
        (4 * (length b - ps) + 1 \<le> n \<longrightarrow> does_well b ps (parseblock n b ps)))"

lemma depth_okD:
  assumes "depth_ok b n" and "ps \<le> length b"
  shows "4 * (length b - ps) + 4 \<le> n \<Longrightarrow> does_well b ps (parseline n b ps)"
    and "4 * (length b - ps) + 3 \<le> n \<Longrightarrow> does_well b ps (parsepipe n b ps)"
    and "4 * (length b - ps) + 2 \<le> n \<Longrightarrow> does_well b ps (parseexec n b ps)"
    and "4 * (length b - ps) + 1 \<le> n \<Longrightarrow> does_well b ps (parseblock n b ps)"
  using assms by (simp_all add: depth_ok_def)

lemma does_well_later: "does_well b ps1 r \<Longrightarrow> ps \<le> ps1 \<Longrightarrow> does_well b ps r"
  by (auto simp: does_well_def split: option.splits parse.splits)

lemma parseline_well:
  assumes n: "depth_ok b n" and ps: "ps \<le> length b" and d: "4 * (length b - ps) + 4 \<le> Suc n"
  shows "does_well b ps (parseline (Suc n) b ps)"
  unfolding parseline.simps
proof (rule does_well_bind)
  show "does_well b ps (parsepipe n b ps)" using depth_okD(2) [OF n ps] d by simp
  fix c ps1
  assume 1: "ps \<le> ps1" "ps1 \<le> length b" "cmd_ok b c"
  obtain c2 ps2 where bl: "back_loop b c ps1 = (c2, ps2)" by (cases "back_loop b c ps1")
  note 2 = back_loop_ok [OF 1(2,3) bl]
  obtain ps3 hit where pk: "peek b ps2 '';'' = (ps3, hit)" by (cases "peek b ps2 '';''")
  have 3: "ps2 \<le> ps3" "ps3 \<le> length b" using peek_moves [OF pk] 2 by auto
  let ?p = "next_pos b ps3"
  have "does_well b ps1 (pbind (parseline n b ?p) (\<lambda>r ps. Some (POk (Seq c2 r) ps)))" if hit
  proof -
    have p: "ps3 < ?p" "?p \<le> length b" using next_pos_after [of b ps2 "'';''" ps3] pk that 2 by auto
    have "4 * (length b - ?p) + 4 \<le> n" using d p 1 2 3 by linarith
    then have "does_well b ps1 (parseline n b ?p)" using does_well_later [OF depth_okD(1) [OF n p(2)], of ps1] p 2 3 by simp
    then show ?thesis by (rule does_well_bind) (use 2 in simp)
  qed
  then show "does_well b ps1 (case back_loop b c ps1 of (c, ps) \<Rightarrow> case peek b ps '';'' of (ps, hit) \<Rightarrow>
      if hit then pbind (parseline n b (next_pos b ps)) (\<lambda>r ps. Some (POk (Seq c r) ps)) else Some (POk c ps))"
    using bl pk 2 3 by simp
qed

lemma parsepipe_well:
  assumes n: "depth_ok b n" and ps: "ps \<le> length b" and d: "4 * (length b - ps) + 3 \<le> Suc n"
  shows "does_well b ps (parsepipe (Suc n) b ps)"
  unfolding parsepipe.simps
proof (rule does_well_bind)
  show "does_well b ps (parseexec n b ps)" using depth_okD(3) [OF n ps] d by simp
  fix c ps1
  assume 1: "ps \<le> ps1" "ps1 \<le> length b" "cmd_ok b c"
  obtain ps3 hit where pk: "peek b ps1 ''|'' = (ps3, hit)" by (cases "peek b ps1 ''|''")
  have 3: "ps1 \<le> ps3" "ps3 \<le> length b" using peek_moves [OF pk] 1 by auto
  let ?p = "next_pos b ps3"
  have "does_well b ps1 (pbind (parsepipe n b ?p) (\<lambda>r ps. Some (POk (Pipe c r) ps)))" if hit
  proof -
    have p: "ps3 < ?p" "?p \<le> length b" using next_pos_after [of b ps1 "''|''" ps3] pk that 1 by auto
    have "4 * (length b - ?p) + 3 \<le> n" using d p 1 3 by linarith
    then have "does_well b ps1 (parsepipe n b ?p)" using does_well_later [OF depth_okD(2) [OF n p(2)], of ps1] p 3 by simp
    then show ?thesis by (rule does_well_bind) (use 1 in simp)
  qed
  then show "does_well b ps1 (case peek b ps1 ''|'' of (ps, hit) \<Rightarrow>
      if hit then pbind (parsepipe n b (next_pos b ps)) (\<lambda>r ps. Some (POk (Pipe c r) ps)) else Some (POk c ps))"
    using pk 1 3 by simp
qed

lemma parseblock_well:
  assumes n: "depth_ok b n" and ps: "ps \<le> length b" and d: "4 * (length b - ps) + 1 \<le> Suc n"
  shows "does_well b ps (parseblock (Suc n) b ps)"
proof -
  obtain ps1 hit where pk: "peek b ps ''('' = (ps1, hit)" by (cases "peek b ps ''(''")
  show ?thesis
  proof (cases hit)
    case False
    then show ?thesis using pk by simp
  next
    case True
    let ?p = "next_pos b ps1"
    have p: "ps \<le> ps1" "ps1 < ?p" "?p \<le> length b" using next_pos_after [of b ps "''(''" ps1] peek_moves [OF pk ps] pk True ps by auto
    have "4 * (length b - ?p) + 4 \<le> n" using d p by linarith
    then have line: "does_well b ps (parseline n b ?p)" using does_well_later [OF depth_okD(1) [OF n p(3)], of ps] p by simp
    have rest: "does_well b ps2 (case peek b ps2 '')'' of (ps, hit) \<Rightarrow>
        if \<not> hit then Some (PPanic ''syntax - missing )'') else Some (parseredirs b c (next_pos b ps)))"
      if 2: "ps \<le> ps2" "ps2 \<le> length b" "cmd_ok b c" for c ps2
    proof -
      obtain ps3 hit3 where pk3: "peek b ps2 '')'' = (ps3, hit3)" by (cases "peek b ps2 '')''")
      have "does_well b ps2 (Some (parseredirs b c (next_pos b ps3)))" if hit3
      proof -
        have q: "ps2 \<le> next_pos b ps3" "next_pos b ps3 \<le> length b"
          using next_pos_after [of b ps2 "'')''" ps3] peek_moves [OF pk3 2(2)] pk3 that 2 by auto
        show ?thesis by (rule does_well_later [OF parseredirs_ok [OF q(2) 2(3)] q(1)])
      qed
      then show ?thesis using pk3 by simp
    qed
    from does_well_bind [OF line rest] show ?thesis using pk True by simp
  qed
qed

lemma parseexec_well:
  assumes n: "depth_ok b n" and ps: "ps \<le> length b" and d: "4 * (length b - ps) + 2 \<le> Suc n"
  shows "does_well b ps (parseexec (Suc n) b ps)"
proof -
  obtain ps1 hit where pk: "peek b ps ''('' = (ps1, hit)" by (cases "peek b ps ''(''")
  have p: "ps \<le> ps1" "ps1 \<le> length b" using peek_moves [OF pk ps] by auto
  have "does_well b ps (parseblock n b ps1)"
    using does_well_later [OF depth_okD(4) [OF n p(2)] p(1)] d p by simp
  moreover have "does_well b ps (pbind (Some (parseredirs b (Exec []) ps1)) (\<lambda>ret ps. Some (parse_args b ret 0 ps)))"
    by (rule does_well_later [OF does_well_bind [OF parseredirs_ok [OF p(2)]] p(1)]) (simp_all add: parse_args_ok)
  ultimately show ?thesis using pk by simp
qed

lemma all_depths_ok: "depth_ok b n"
proof (induction n)
  case 0
  then show ?case by (simp add: depth_ok_def)
next
  case (Suc n)
  show ?case
    unfolding depth_ok_def
    by (intro allI impI conjI parseline_well parsepipe_well parseexec_well parseblock_well Suc.IH)
qed

lemma parsecmd_parses: "\<exists>r. parsecmd b = Some r \<and> (\<forall>c. r = Inr c \<longrightarrow> cmd_ok b c)"
proof -
  have well: "does_well b 0 (parseline (4 * length b + 4) b 0)"
    using depth_okD(1) [OF all_depths_ok, of 0 b "4 * length b + 4"] by simp
  then obtain r where r: "parseline (4 * length b + 4) b 0 = Some r" by (cases "parseline (4 * length b + 4) b 0") auto
  show ?thesis
  proof (cases r)
    case (POk c ps)
    then show ?thesis using well r by (cases "peek b ps []") (simp add: parsecmd_def)
  next
    case (PPanic e)
    then show ?thesis using r by (simp add: parsecmd_def)
  qed
qed

text \<open>
  C37. \<^verbatim>\<open>parsecmd\<close> ends on every line, with a command or with a syntax error: the
  recursion of the four routines goes at most four levels deep for each character, and every loop
  takes a token in each turn.
\<close>

theorem parsecmd_terminates: "\<exists>r. parsecmd b = Some r"
  using parsecmd_parses [of b] by blast

section \<open>The words survive the zeros\<close>

text \<open>The string at a position of memory.\<close>

definition cstring_at :: "string \<Rightarrow> nat \<Rightarrow> string" where
  "cstring_at m q = takeWhile (\<lambda>c. c \<noteq> CHR 0x00) (drop q m)"

lemma nulterminate_length [simp]: "length (nulterminate c m) = length m"
proof -
  have "length (fold (\<lambda>(q, e) m. m[e := CHR 0x00]) as m) = length m" for as and m :: string
    by (induction as arbitrary: m) auto
  then show ?thesis by (induction c arbitrary: m) auto
qed

lemma update_nth: "j < length xs \<Longrightarrow> xs[i := x] ! j = (if i = j then x else xs ! j)"
  by simp

lemma nulterminate_nth:
  "i < length m \<Longrightarrow> nulterminate c m ! i = (if \<exists>q. (q, i) \<in> set (cmd_words c) then CHR 0x00 else m ! i)"
proof (induction c arbitrary: m)
  case (Exec as)
  then show ?case by (induction as arbitrary: m) (auto simp: update_nth)
qed (auto simp: update_nth)

lemma takeWhile_upto:
  assumes "k < length xs" and "\<not> P (xs ! k)" and "\<And>i. i < k \<Longrightarrow> P (xs ! i)"
  shows "takeWhile P xs = take k xs"
  using assms by (intro takeWhile_eq_take_P_nth) auto

lemma words_after_zeros:
  assumes ok: "cmd_ok b c" and z: "CHR 0x00 \<notin> set b" and w: "(q, e) \<in> set (cmd_words c)"
  shows "q < e \<and> e \<le> length b \<and>
    cstring_at (nulterminate c (b @ [CHR 0x00])) q = take (e - q) (drop q b) \<and>
    (\<forall>x \<in> set (take (e - q) (drop q b)). word_char x)"
proof -
  have wd: "word_ok b v" if "v \<in> set (cmd_words c)" for v using ok that by (simp add: cmd_ok_def)
  have qe: "q < e" "e \<le> length b" and chars: "\<And>i. q \<le> i \<Longrightarrow> i < e \<Longrightarrow> word_char (b ! i)"
    using wd [OF w] by (auto simp: word_ok_def)
  let ?m = "nulterminate c (b @ [CHR 0x00])"
  have outside: "(q', i) \<notin> set (cmd_words c)" if i: "q \<le> i" "i < e" for q' i
  proof
    assume "(q', i) \<in> set (cmd_words c)"
    from wd [OF this] have "\<not> word_char (b ! i)" using i qe by (simp add: word_ok_def)
    with chars [OF i] show False by simp
  qed
  have m: "?m ! i = b ! i" if "q \<le> i" "i < e" for i
    using outside [OF that] that qe by (simp add: nulterminate_nth nth_append)
  have me: "?m ! e = CHR 0x00" using w qe by (auto simp: nulterminate_nth)
  have nz: "b ! i \<noteq> CHR 0x00" if "i < e" for i using z that qe by (metis nth_mem order_less_le_trans)
  have "takeWhile (\<lambda>c. c \<noteq> CHR 0x00) (drop q ?m) = take (e - q) (drop q ?m)"
    using qe me m nz by (intro takeWhile_upto) simp_all
  also have "take (e - q) (drop q ?m) = take (e - q) (drop q b)"
    using qe m by (intro nth_equalityI) simp_all
  finally have "cstring_at ?m q = take (e - q) (drop q b)" by (simp add: cstring_at_def)
  moreover have "\<forall>x \<in> set (take (e - q) (drop q b)). word_char x"
    using chars qe by (auto simp: set_conv_nth)
  ultimately show ?thesis using qe by simp
qed

text \<open>
  C36. After \<^verbatim>\<open>nulterminate\<close> every argument and every file name of a parsed command,
  read as a string from its position, is exactly the word of the line it was parsed from: no zero
  lands inside another word, and every zero lands inside the line or on its terminating zero.
\<close>

theorem nulterminate_keeps_words:
  assumes p: "parsecmd b = Some (Inr c)" and z: "CHR 0x00 \<notin> set b" and w: "(q, e) \<in> set (cmd_words c)"
  shows "q < e \<and> e \<le> length b \<and>
    cstring_at (nulterminate c (b @ [CHR 0x00])) q = take (e - q) (drop q b) \<and>
    (\<forall>x \<in> set (take (e - q) (drop q b)). word_char x)"
  using words_after_zeros [OF _ z w] parsecmd_parses [of b] p by auto

theorem nulterminate_keeps_words_witness:
  "cstring_at (nulterminate (Pipe (Redir (Exec [(0, 2)]) 6 7 0 0) (Exec [(8, 10)])) (''ls <  f|wc'' @ [CHR 0x00])) 6 = ''f''"
proof -
  let ?b = "''ls <  f|wc''" and ?c = "Pipe (Redir (Exec [(0, 2)]) 6 7 0 0) (Exec [(8, 10)])"
  have "parsecmd ?b = Some (Inr ?c)" by code_simp
  from nulterminate_keeps_words [OF this, of 6 7] show ?thesis by simp
qed

end
