(* ===== verification/ShPrint.thy ===== *)
theory ShPrint
  imports ShParse
begin

text \<open>
  The grammar the shell accepts, as a datatype of command lines with a printer, and the proof that
  the parser reads back what the printer writes.
\<close>

section \<open>Command lines\<close>

datatype redir = From string | To string | Onto string

datatype line = Last pipeline nat | Then pipeline nat line
  and pipeline = Single simple | PipeTo simple pipeline
  and simple = Words "redir list" "(string \<times> redir list) list" | Block line "redir list"

text \<open>The tokens of a line; every token is followed by a space.\<close>

datatype token = TWord string | TSym char | TAppend

fun token_text :: "token \<Rightarrow> string" where
  "token_text (TWord w) = w"
| "token_text (TSym c) = [c]"
| "token_text TAppend = ''>>''"

fun redir_tokens :: "redir \<Rightarrow> token list" where
  "redir_tokens (From f) = [TSym CHR ''<'', TWord f]"
| "redir_tokens (To f) = [TSym CHR ''>'', TWord f]"
| "redir_tokens (Onto f) = [TAppend, TWord f]"

fun word_tokens :: "string \<times> redir list \<Rightarrow> token list" where
  "word_tokens (w, rs) = TWord w # concat (map redir_tokens rs)"

fun line_tokens :: "line \<Rightarrow> token list"
  and pipe_tokens :: "pipeline \<Rightarrow> token list"
  and simple_tokens :: "simple \<Rightarrow> token list" where
  "line_tokens (Last p k) = pipe_tokens p @ replicate k (TSym CHR ''&'')"
| "line_tokens (Then p k l) = pipe_tokens p @ replicate k (TSym CHR ''&'') @ TSym CHR '';'' # line_tokens l"
| "pipe_tokens (Single s) = simple_tokens s"
| "pipe_tokens (PipeTo s p) = simple_tokens s @ TSym CHR ''|'' # pipe_tokens p"
| "simple_tokens (Words rs ws) = concat (map redir_tokens rs) @ concat (map word_tokens ws)"
| "simple_tokens (Block l rs) = TSym CHR ''('' # line_tokens l @ TSym CHR '')'' # concat (map redir_tokens rs)"

definition tokens_text :: "token list \<Rightarrow> string" where
  "tokens_text ts = concat (map (\<lambda>t. token_text t @ '' '') ts)"

definition show_line :: "line \<Rightarrow> string" where
  "show_line l = tokens_text (line_tokens l)"

section \<open>What a line means\<close>

text \<open>A command with its words as strings.\<close>

datatype scmd = SExec "string list" | SRedir scmd string int int | SPipe scmd scmd | SSeq scmd scmd | SBack scmd

fun sadd_arg :: "string \<Rightarrow> scmd \<Rightarrow> scmd" where
  "sadd_arg w (SExec as) = SExec (as @ [w])"
| "sadd_arg w (SRedir c f mode fd) = SRedir (sadd_arg w c) f mode fd"
| "sadd_arg w c = c"

fun apply_redir :: "redir \<Rightarrow> scmd \<Rightarrow> scmd" where
  "apply_redir (From f) c = SRedir c f 0 0"
| "apply_redir (To f) c = SRedir c f 0x601 1"
| "apply_redir (Onto f) c = SRedir c f 0x201 1"

fun apply_word :: "string \<times> redir list \<Rightarrow> scmd \<Rightarrow> scmd" where
  "apply_word (w, rs) c = fold apply_redir rs (sadd_arg w c)"

fun line_meaning :: "line \<Rightarrow> scmd"
  and pipe_meaning :: "pipeline \<Rightarrow> scmd"
  and simple_meaning :: "simple \<Rightarrow> scmd" where
  "line_meaning (Last p k) = (SBack ^^ k) (pipe_meaning p)"
| "line_meaning (Then p k l) = SSeq ((SBack ^^ k) (pipe_meaning p)) (line_meaning l)"
| "pipe_meaning (Single s) = simple_meaning s"
| "pipe_meaning (PipeTo s p) = SPipe (simple_meaning s) (pipe_meaning p)"
| "simple_meaning (Words rs ws) = fold apply_word ws (fold apply_redir rs (SExec []))"
| "simple_meaning (Block l rs) = fold apply_redir rs (line_meaning l)"

text \<open>Words are not empty and have only word characters; a command has fewer than ten of them.\<close>

definition good_word :: "string \<Rightarrow> bool" where
  "good_word w = (w \<noteq> [] \<and> (\<forall>c \<in> set w. word_char c \<and> c \<noteq> CHR 0x00))"

fun good_redir :: "redir \<Rightarrow> bool" where
  "good_redir (From f) = good_word f"
| "good_redir (To f) = good_word f"
| "good_redir (Onto f) = good_word f"

fun good_line :: "line \<Rightarrow> bool"
  and good_pipe :: "pipeline \<Rightarrow> bool"
  and good_simple :: "simple \<Rightarrow> bool" where
  "good_line (Last p k) = good_pipe p"
| "good_line (Then p k l) = (good_pipe p \<and> good_line l)"
| "good_pipe (Single s) = good_simple s"
| "good_pipe (PipeTo s p) = (good_simple s \<and> good_pipe p)"
| "good_simple (Words rs ws) =
     (list_all good_redir rs \<and> list_all (\<lambda>(w, rs). good_word w \<and> list_all good_redir rs) ws \<and> length ws < MAXARGS)"
| "good_simple (Block l rs) = (good_line l \<and> list_all good_redir rs)"

section \<open>The scanner on printed tokens\<close>

fun good_token :: "token \<Rightarrow> bool" where
  "good_token (TWord w) = good_word w"
| "good_token (TSym c) = (c \<in> set ''|();&<>'')"
| "good_token TAppend = True"

fun token_kind :: "token \<Rightarrow> char" where
  "token_kind (TWord w) = CHR ''a''"
| "token_kind (TSym c) = c"
| "token_kind TAppend = CHR ''+''"

definition at_tokens :: "string \<Rightarrow> nat \<Rightarrow> token list \<Rightarrow> bool" where
  "at_tokens b ps ts = (ps \<le> length b \<and> drop ps b = tokens_text ts \<and> list_all good_token ts)"

lemma tokens_text_simps [simp]:
  "tokens_text [] = []" "tokens_text (t # ts) = token_text t @ CHR '' '' # tokens_text ts"
  by (simp_all add: tokens_text_def)

lemma good_token_text: "good_token t \<Longrightarrow> \<exists>c w. token_text t = c # w \<and> c \<notin> set whitespace \<and> c \<noteq> CHR 0x00"
proof (cases t)
  case (TWord w)
  moreover assume "good_token t"
  ultimately show ?thesis by (cases w) (auto simp: good_word_def word_char_def)
next
  case (TSym c)
  moreover assume "good_token t"
  ultimately show ?thesis by (auto simp: whitespace_def)
next
  case TAppend
  then show ?thesis by (simp add: whitespace_def)
qed

lemma drop_at:
  assumes "drop ps b = xs @ ys" and "ps \<le> length b" and "i < length xs"
  shows "ps + i < length b \<and> b ! (ps + i) = xs ! i"
proof -
  have "i < length (drop ps b)" using assms by simp
  then have "ps + i < length b" by simp
  moreover have "b ! (ps + i) = drop ps b ! i" using assms(2) by simp
  ultimately show ?thesis using assms(1,3) by (simp add: nth_append)
qed

lemma drop_next:
  assumes "drop ps b = xs @ ys" and "ps \<le> length b"
  shows "ps + length xs \<le> length b \<and> drop (ps + length xs) b = ys"
proof -
  have "drop (length xs) (drop ps b) = ys" using assms(1) by simp
  moreover have "length xs \<le> length (drop ps b)" using assms(1) by simp
  ultimately show ?thesis using assms(2) by (simp add: add.commute)
qed

lemma skip_while_run:
  "drop ps b = xs @ ys \<Longrightarrow> ps \<le> length b \<Longrightarrow> \<forall>c \<in> set xs. P c \<Longrightarrow> ys = [] \<or> \<not> P (hd ys) \<Longrightarrow>
   skip_while P b ps = ps + length xs"
proof (induction xs arbitrary: ps)
  case Nil
  show ?case
  proof (cases ys)
    case Nil
    then show ?thesis using Nil.prems by (simp add: skip_while.simps [of P b ps])
  next
    case (Cons y zs)
    then have "b ! ps = y" using drop_at [of ps b "[y]" zs 0] Nil.prems by simp
    then show ?thesis using Nil.prems Cons by (simp add: skip_while.simps [of P b ps])
  qed
next
  case (Cons x xs)
  have n: "drop (Suc ps) b = xs @ ys" "Suc ps \<le> length b" using drop_next [of ps b "[x]" "xs @ ys"] Cons.prems by simp_all
  have "b ! ps = x" "ps < length b" using drop_at [of ps b "x # xs" ys 0] Cons.prems by simp_all
  then show ?case using Cons.IH [OF n] Cons.prems by (simp add: skip_while.simps [of P b ps])
qed

lemma at_tokens_first:
  assumes "at_tokens b ps (t # ts)"
  shows "at b ps = hd (token_text t) \<and> hd (token_text t) \<noteq> CHR 0x00 \<and> hd (token_text t) \<notin> set whitespace"
proof -
  obtain c w where cw: "token_text t = c # w" "c \<notin> set whitespace" "c \<noteq> CHR 0x00"
    using good_token_text [of t] assms by (auto simp: at_tokens_def)
  then have "ps < length b \<and> b ! ps = c" using drop_at [of ps b "[c]" "w @ CHR '' '' # tokens_text ts" 0] assms by (simp add: at_tokens_def)
  then show ?thesis using cw by (simp add: at_def)
qed

lemma at_tokens_end: "at_tokens b ps [] \<longleftrightarrow> ps = length b"
  by (auto simp: at_tokens_def)

lemma skip_blanks_token:
  assumes at: "at_tokens b ps ts"
  shows "skip_blanks b ps = ps"
proof (cases ts)
  case Nil
  then show ?thesis using at by (simp add: at_tokens_end skip_blanks_def skip_while.simps [of _ b "length b"])
next
  case (Cons t us)
  then have f: "at b ps \<noteq> CHR 0x00" "at b ps \<notin> set whitespace" using at_tokens_first [of b ps t us] at by simp_all
  have "ps < length b" using f(1) by (rule at_end)
  then have "b ! ps \<notin> set whitespace" using f(2) by (simp add: at_def)
  then show ?thesis by (simp add: skip_blanks_def skip_while.simps [of _ b ps])
qed

text \<open>\<^verbatim>\<open>peek\<close> looks at the first character of the next token.\<close>

definition next_is :: "token list \<Rightarrow> string \<Rightarrow> bool" where
  "next_is ts toks = (case ts of [] \<Rightarrow> False | t # _ \<Rightarrow> hd (token_text t) \<in> set toks)"

lemma peek_token:
  assumes at: "at_tokens b ps ts"
  shows "peek b ps toks = (ps, next_is ts toks)"
proof (cases ts)
  case Nil
  then have "at b ps = CHR 0x00" using at by (simp add: at_tokens_end at_def)
  then show ?thesis using Nil by (simp add: peek_def skip_blanks_token [OF at] next_is_def)
next
  case (Cons t us)
  then show ?thesis using at_tokens_first [of b ps t us] at by (simp add: peek_def skip_blanks_token [OF at] next_is_def)
qed

lemma at_tokens_next:
  assumes "at_tokens b ps (t # ts)"
  shows "at_tokens b (ps + length (token_text t) + 1) ts"
proof -
  have "drop ps b = (token_text t @ '' '') @ tokens_text ts" "ps \<le> length b" using assms by (simp_all add: at_tokens_def)
  from drop_next [OF this] show ?thesis using assms by (simp add: at_tokens_def)
qed

text \<open>\<^verbatim>\<open>gettoken\<close> returns the next token and moves past the space after it.\<close>

lemma gettoken_token:
  assumes at: "at_tokens b ps (t # ts)"
  shows "gettoken b ps = (token_kind t, ps, ps + length (token_text t), ps + length (token_text t) + 1)"
proof -
  let ?e = "ps + length (token_text t)"
  have d: "drop ps b = token_text t @ '' '' @ tokens_text ts" "ps \<le> length b" using at by (simp_all add: at_tokens_def)
  have "drop ?e b = '' '' @ tokens_text ts" "?e \<le> length b" using drop_next [OF d] by simp_all
  moreover have "tokens_text ts = [] \<or> \<not> hd (tokens_text ts) \<in> set whitespace"
    using good_token_text at by (cases ts) (fastforce simp: at_tokens_def)+
  ultimately have nx: "skip_blanks b ?e = ?e + 1"
    unfolding skip_blanks_def by (subst skip_while_run [of ?e b "'' ''"]) (simp_all add: whitespace_def)
  note q = skip_blanks_token [OF at] and f = at_tokens_first [OF at]
  show ?thesis
  proof (cases t)
    case (TWord w)
    have w: "good_word w" using at TWord by (simp add: at_tokens_def)
    then have h: "word_char (hd w)" by (simp add: good_word_def)
    have "skip_while word_char b ps = ?e"
      using skip_while_run [OF d] w TWord by (simp add: good_word_def word_char_def whitespace_def)
    moreover have "hd w \<notin> set ''|();&<''" "hd w \<noteq> CHR ''>''" using h by (auto simp: word_char_def symbols_def)
    ultimately show ?thesis using q f nx TWord by (simp add: gettoken_def Let_def)
  next
    case (TSym c)
    have "at b (Suc ps) \<noteq> CHR ''>''" using drop_at [OF d(1)[folded append_assoc] d(2), of 1] TSym by (simp add: at_def)
    moreover have "c \<in> set ''|();&<>''" using at TSym by (simp add: at_tokens_def)
    ultimately show ?thesis using q f nx TSym by (auto simp: gettoken_def Let_def)
  next
    case TAppend
    have "at b (Suc ps) = CHR ''>''" using drop_at [OF d, of 1] TAppend by (simp add: at_def)
    then show ?thesis using q f nx TAppend by (simp add: gettoken_def Let_def)
  qed
qed


section \<open>The parser on printed tokens\<close>

text \<open>A command with its words read from the line.\<close>

definition substr :: "string \<Rightarrow> nat \<Rightarrow> nat \<Rightarrow> string" where
  "substr b q e = take (e - q) (drop q b)"

fun strings_of :: "string \<Rightarrow> cmd \<Rightarrow> scmd" where
  "strings_of b (Exec as) = SExec (map (\<lambda>(q, e). substr b q e) as)"
| "strings_of b (Redir c q e mode fd) = SRedir (strings_of b c) (substr b q e) mode fd"
| "strings_of b (Pipe l r) = SPipe (strings_of b l) (strings_of b r)"
| "strings_of b (Seq l r) = SSeq (strings_of b l) (strings_of b r)"
| "strings_of b (Back c) = SBack (strings_of b c)"

lemma strings_of_add_arg: "strings_of b (add_arg (q, e) c) = sadd_arg (substr b q e) (strings_of b c)"
  by (induction c) simp_all

lemma at_tokens_word: "at_tokens b ps (TWord w # ts) \<Longrightarrow> substr b ps (ps + length w) = w"
  by (simp add: at_tokens_def substr_def)

text \<open>A routine parses a part of the tokens: it returns at the rest, with the given meaning.\<close>

definition parses :: "string \<Rightarrow> cmd parse option \<Rightarrow> nat \<Rightarrow> token list \<Rightarrow> scmd \<Rightarrow> bool" where
  "parses b r ps rest m = (\<exists>c ps'. r = Some (POk c ps') \<and> ps \<le> ps' \<and> at_tokens b ps' rest \<and> strings_of b c = m)"

lemma parsesE:
  assumes "parses b r ps rest m"
  obtains c ps' where "r = Some (POk c ps')" "ps \<le> ps'" "at_tokens b ps' rest" "strings_of b c = m"
  using assms unfolding parses_def by blast

lemma parsesI: "r = Some (POk c ps') \<Longrightarrow> ps \<le> ps' \<Longrightarrow> at_tokens b ps' rest \<Longrightarrow> strings_of b c = m \<Longrightarrow> parses b r ps rest m"
  unfolding parses_def by blast

lemma parses_later: "parses b r ps1 rest m \<Longrightarrow> ps \<le> ps1 \<Longrightarrow> parses b r ps rest m"
  by (auto elim!: parsesE intro: parsesI)

lemma redir_tokens_shape:
  "\<exists>t f. redir_tokens r = [t, TWord f] \<and> next_is [t] ''<>'' \<and>
     (\<forall>b c q e. substr b q e = f \<longrightarrow> strings_of b (redir_of (token_kind t) c q e) = apply_redir r (strings_of b c))"
  by (cases r) (simp_all add: next_is_def redir_of_def)

lemma parseredirs_parses:
  "at_tokens b ps (concat (map redir_tokens rs) @ rest) \<Longrightarrow> \<not> next_is rest ''<>'' \<Longrightarrow>
   parses b (Some (parseredirs b c ps)) ps rest (fold apply_redir rs (strings_of b c))"
proof (induction rs arbitrary: c ps)
  case Nil
  then have "parseredirs b c ps = POk c ps" using peek_token [of b ps rest "''<>''"] by (simp add: parseredirs.simps [of b c ps])
  then show ?case using Nil by (intro parsesI) simp_all
next
  case (Cons r rs)
  obtain t f where t: "redir_tokens r = [t, TWord f]" "next_is [t] ''<>''"
    and m: "\<And>b c q e. substr b q e = f \<Longrightarrow> strings_of b (redir_of (token_kind t) c q e) = apply_redir r (strings_of b c)"
    using redir_tokens_shape [of r] by blast
  let ?rest = "concat (map redir_tokens rs) @ rest"
  have 1: "at_tokens b ps (t # TWord f # ?rest)" using Cons.prems(1) t(1) by simp
  note g1 = gettoken_token [OF 1] and 2 = at_tokens_next [OF 1]
  let ?p = "ps + length (token_text t) + 1"
  note g2 = gettoken_token [OF 2] and 3 = at_tokens_next [OF 2]
  let ?q = "?p + length f + 1" and ?c = "redir_of (token_kind t) c ?p (?p + length f)"
  have "strings_of b ?c = apply_redir r (strings_of b c)" by (rule m) (rule at_tokens_word [OF 2])
  moreover have "parseredirs b c ps = parseredirs b ?c ?q"
    using peek_token [OF 1, of "''<>''"] t(2) g1 g2 by (simp add: parseredirs.simps [of b c ps] next_is_def)
  moreover have "parses b (Some (parseredirs b ?c ?q)) ?q rest (fold apply_redir rs (strings_of b ?c))"
    by (rule Cons.IH) (use 3 Cons.prems(2) in simp_all)
  ultimately show ?case using parses_later [of b _ ?q rest _ ps] by simp
qed

lemma back_loop_parses:
  "at_tokens b ps (replicate k (TSym CHR ''&'') @ rest) \<Longrightarrow> \<not> next_is rest ''&'' \<Longrightarrow>
   \<exists>c' ps'. back_loop b c ps = (c', ps') \<and> ps \<le> ps' \<and> at_tokens b ps' rest \<and> strings_of b c' = (SBack ^^ k) (strings_of b c)"
proof (induction k arbitrary: c ps)
  case 0
  then show ?case using peek_token [of b ps rest "''&''"] by (simp add: back_loop.simps [of b c ps])
next
  case (Suc k)
  have 1: "at_tokens b ps (TSym CHR ''&'' # replicate k (TSym CHR ''&'') @ rest)" using Suc.prems(1) by simp
  note g = gettoken_token [OF 1] and 2 = at_tokens_next [OF 1]
  have "back_loop b c ps = back_loop b (Back c) (ps + 2)"
    using peek_token [OF 1, of "''&''"] g by (simp add: back_loop.simps [of b c ps] next_is_def)
  moreover have "at_tokens b (ps + 2) (replicate k (TSym CHR ''&'') @ rest)" using 2 by simp
  ultimately show ?case using Suc.IH [of "ps + 2" "Back c"] Suc.prems(2) by (auto simp: funpow_swap1)
qed

lemma word_not_next: "good_word w \<Longrightarrow> set toks \<subseteq> set symbols \<Longrightarrow> \<not> next_is (TWord w # ts) toks"
  by (cases w) (auto simp: next_is_def good_word_def word_char_def)

lemma next_is_disjoint: "next_is ts toks \<Longrightarrow> set toks \<inter> set toks' = {} \<Longrightarrow> \<not> next_is ts toks'"
  by (cases ts) (auto simp: next_is_def)

lemma parse_args_parses:
  "at_tokens b ps (concat (map word_tokens ws) @ rest) \<Longrightarrow> argc + length ws < MAXARGS \<Longrightarrow>
   rest = [] \<or> next_is rest ''|)&;'' \<Longrightarrow>
   parses b (Some (parse_args b c argc ps)) ps rest (fold apply_word ws (strings_of b c))"
proof (induction ws arbitrary: c ps argc)
  case Nil
  have "gettoken b ps = (CHR 0x00, ps, ps, ps)" if "rest = []"
  proof -
    have fin: "at_tokens b ps []" using Nil.prems(1) that by simp
    then have "at b ps = CHR 0x00" by (simp add: at_tokens_end at_def)
    then show ?thesis by (simp add: gettoken_def Let_def skip_blanks_token [OF fin])
  qed
  then have "parse_args b c argc ps = POk c ps"
    using peek_token [of b ps rest "''|)&;''"] Nil.prems by (auto simp: parse_args.simps [of b c argc ps])
  then show ?case using Nil.prems by (intro parsesI) simp_all
next
  case (Cons wr ws)
  obtain w rs where wr: "wr = (w, rs)" by (cases wr)
  let ?rest = "concat (map word_tokens ws) @ rest"
  have 1: "at_tokens b ps (TWord w # concat (map redir_tokens rs) @ ?rest)" using Cons.prems(1) wr by simp
  note g = gettoken_token [OF 1] and 2 = at_tokens_next [OF 1]
  let ?p = "ps + length w + 1" and ?c = "add_arg (ps, ps + length w) c"
  have gw: "good_word w" using 1 by (simp add: at_tokens_def)
  have "\<not> next_is ?rest ''<>''"
  proof (cases ws)
    case Nil
    then show ?thesis using Cons.prems(3) next_is_disjoint [of rest "''|)&;''" "''<>''"] by (auto simp: next_is_def)
  next
    case (Cons v vs)
    then obtain w2 rs2 where "v = (w2, rs2)" by (cases v)
    then have "good_word w2" using 1 Cons by (auto simp: at_tokens_def)
    then show ?thesis using word_not_next [of w2 "''<>''"] Cons \<open>v = (w2, rs2)\<close> by (simp add: symbols_def)
  qed
  with 2 have "parses b (Some (parseredirs b ?c ?p)) ?p ?rest (fold apply_redir rs (strings_of b ?c))"
    by (intro parseredirs_parses) simp_all
  then obtain c2 p2 where r: "parseredirs b ?c ?p = POk c2 p2" "?p \<le> p2" "at_tokens b p2 ?rest"
      "strings_of b c2 = fold apply_redir rs (strings_of b ?c)"
    by (elim parsesE) simp
  have "strings_of b ?c = sadd_arg w (strings_of b c)" by (simp add: strings_of_add_arg at_tokens_word [OF 1])
  with r(4) wr have m: "strings_of b c2 = apply_word wr (strings_of b c)" by simp
  have "parse_args b c argc ps = parse_args b c2 (argc + 1) p2"
    using peek_token [OF 1, of "''|)&;''"] word_not_next [OF gw, of "''|)&;''"] g r(1) Cons.prems(2)
    by (simp add: parse_args.simps [of b c argc ps] symbols_def)
  moreover have "parses b (Some (parse_args b c2 (argc + 1) p2)) p2 rest (fold apply_word ws (strings_of b c2))"
    by (rule Cons.IH) (use r(3) Cons.prems in simp_all)
  ultimately show ?case using parses_later [of b _ p2 rest _ ps] r(2) m by simp
qed

section \<open>Round trip\<close>

lemma next_pos_token: "at_tokens b ps (t # ts) \<Longrightarrow> next_pos b ps = ps + length (token_text t) + 1"
  by (simp add: next_pos_def gettoken_token)

lemma next_simple:
  assumes "list_all good_token (simple_tokens s @ rest)" and "rest = [] \<or> next_is rest ''|)&;''" and "\<forall>l rs. s \<noteq> Block l rs"
  shows "\<not> next_is (simple_tokens s @ rest) ''(''"
proof (cases s)
  case (Words rs ws)
  show ?thesis
  proof (cases rs)
    case (Cons r rs')
    then show ?thesis using Words by (cases r) (simp_all add: next_is_def)
  next
    case Nil
    show ?thesis
    proof (cases ws)
      case Nil
      then show ?thesis using Words \<open>rs = []\<close> assms(2) next_is_disjoint [of rest "''|)&;''" "''(''"] by (auto simp: next_is_def)
    next
      case (Cons v vs)
      then obtain w rs2 where v: "v = (w, rs2)" by (cases v)
      then have "good_word w" using assms(1) Words \<open>rs = []\<close> Cons by simp
      then show ?thesis using word_not_next [of w "''(''"] Words \<open>rs = []\<close> Cons v by (simp add: symbols_def)
    qed
  qed
next
  case (Block l rs)
  then show ?thesis using assms(3) by simp
qed


lemma parseline_last:
  assumes pp: "parses b (parsepipe n b ps) ps (replicate k (TSym CHR ''&'') @ rest) m"
    and rest: "\<not> next_is rest ''&''" "\<not> next_is rest '';''"
  shows "parses b (parseline (Suc n) b ps) ps rest ((SBack ^^ k) m)"
proof -
  obtain c p1 where 1: "parsepipe n b ps = Some (POk c p1)" "ps \<le> p1" "at_tokens b p1 (replicate k (TSym CHR ''&'') @ rest)" "strings_of b c = m"
    using pp by (rule parsesE)
  obtain c2 p2 where 2: "back_loop b c p1 = (c2, p2)" "p1 \<le> p2" "at_tokens b p2 rest" "strings_of b c2 = (SBack ^^ k) m"
    using back_loop_parses [OF 1(3) rest(1), of c] 1(4) by blast
  have "parseline (Suc n) b ps = Some (POk c2 p2)" using 1 2 peek_token [OF 2(3), of "'';''"] rest(2) by simp
  then show ?thesis by (rule parsesI) (use 1 2 in simp_all)
qed

lemma parseline_then:
  assumes pp: "parses b (parsepipe n b ps) ps (replicate k (TSym CHR ''&'') @ TSym CHR '';'' # ts) m"
    and l: "\<And>p. ps < p \<Longrightarrow> at_tokens b p ts \<Longrightarrow> parses b (parseline n b p) p rest m2"
  shows "parses b (parseline (Suc n) b ps) ps rest (SSeq ((SBack ^^ k) m) m2)"
proof -
  let ?rest = "TSym CHR '';'' # ts"
  obtain c p1 where 1: "parsepipe n b ps = Some (POk c p1)" "ps \<le> p1" "at_tokens b p1 (replicate k (TSym CHR ''&'') @ ?rest)" "strings_of b c = m"
    using pp by (rule parsesE)
  have "\<not> next_is ?rest ''&''" by (simp add: next_is_def)
  from back_loop_parses [OF 1(3) this, of c] 1(4)
  obtain c2 p2 where 2: "back_loop b c p1 = (c2, p2)" "p1 \<le> p2" "at_tokens b p2 ?rest" "strings_of b c2 = (SBack ^^ k) m" by blast
  have "parses b (parseline n b (p2 + 2)) (p2 + 2) rest m2" by (rule l) (use 1 2 at_tokens_next [OF 2(3)] in simp_all)
  then obtain c3 p3 where 3: "parseline n b (p2 + 2) = Some (POk c3 p3)" "p2 + 2 \<le> p3" "at_tokens b p3 rest" "strings_of b c3 = m2"
    by (rule parsesE)
  have "parseline (Suc n) b ps = Some (POk (Seq c2 c3) p3)"
    using 1 2 3 peek_token [OF 2(3), of "'';''"] next_pos_token [OF 2(3)] by (simp add: next_is_def)
  then show ?thesis by (rule parsesI) (use 1 2 3 in simp_all)
qed

lemma parsepipe_single:
  assumes "parses b (parseexec n b ps) ps rest m" and "\<not> next_is rest ''|''"
  shows "parses b (parsepipe (Suc n) b ps) ps rest m"
proof -
  obtain c p1 where 1: "parseexec n b ps = Some (POk c p1)" "ps \<le> p1" "at_tokens b p1 rest" "strings_of b c = m"
    using assms(1) by (rule parsesE)
  have "parsepipe (Suc n) b ps = Some (POk c p1)" using 1 peek_token [OF 1(3), of "''|''"] assms(2) by simp
  then show ?thesis by (rule parsesI) (use 1 in simp_all)
qed

lemma parsepipe_to:
  assumes e: "parses b (parseexec n b ps) ps (TSym CHR ''|'' # ts) m"
    and p: "\<And>p. ps < p \<Longrightarrow> at_tokens b p ts \<Longrightarrow> parses b (parsepipe n b p) p rest m2"
  shows "parses b (parsepipe (Suc n) b ps) ps rest (SPipe m m2)"
proof -
  obtain c p1 where 1: "parseexec n b ps = Some (POk c p1)" "ps \<le> p1" "at_tokens b p1 (TSym CHR ''|'' # ts)" "strings_of b c = m"
    using e by (rule parsesE)
  have "parses b (parsepipe n b (p1 + 2)) (p1 + 2) rest m2" by (rule p) (use 1 at_tokens_next [OF 1(3)] in simp_all)
  then obtain c3 p3 where 3: "parsepipe n b (p1 + 2) = Some (POk c3 p3)" "p1 + 2 \<le> p3" "at_tokens b p3 rest" "strings_of b c3 = m2"
    by (rule parsesE)
  have "parsepipe (Suc n) b ps = Some (POk (Pipe c c3) p3)"
    using 1 3 peek_token [OF 1(3), of "''|''"] next_pos_token [OF 1(3)] by (simp add: next_is_def)
  then show ?thesis by (rule parsesI) (use 1 3 in simp_all)
qed

lemma parseexec_words:
  assumes at: "at_tokens b ps (simple_tokens (Words rs ws) @ rest)" and good: "good_simple (Words rs ws)"
    and rest: "rest = [] \<or> next_is rest ''|)&;''"
  shows "parses b (parseexec (Suc n) b ps) ps rest (simple_meaning (Words rs ws))"
proof -
  have "\<not> next_is (simple_tokens (Words rs ws) @ rest) ''(''"
    by (rule next_simple) (use at rest in \<open>simp_all add: at_tokens_def\<close>)
  with peek_token [OF at, of "''(''"]
  have e: "parseexec (Suc n) b ps = pbind (Some (parseredirs b (Exec []) ps)) (\<lambda>ret ps. Some (parse_args b ret 0 ps))" by simp
  let ?rest = "concat (map word_tokens ws) @ rest"
  have at': "at_tokens b ps (concat (map redir_tokens rs) @ ?rest)" using at by simp
  have "\<not> next_is ?rest ''<>''"
  proof (cases ws)
    case Nil
    then show ?thesis using rest next_is_disjoint [of rest "''|)&;''" "''<>''"] by (auto simp: next_is_def)
  next
    case (Cons v vs)
    obtain w rs2 where v: "v = (w, rs2)" by (cases v)
    then show ?thesis using word_not_next [of w "''<>''"] good Cons by (simp add: symbols_def)
  qed
  from parseredirs_parses [OF at' this, of "Exec []"]
  obtain c p1 where 1: "parseredirs b (Exec []) ps = POk c p1" "ps \<le> p1" "at_tokens b p1 ?rest" "strings_of b c = fold apply_redir rs (SExec [])"
    by (elim parsesE) simp
  have "parses b (Some (parse_args b c 0 p1)) p1 rest (fold apply_word ws (strings_of b c))"
    by (rule parse_args_parses [OF 1(3) _ rest]) (use good in simp)
  then show ?thesis using e 1 parses_later [of b _ p1 rest _ ps] by simp
qed

lemma parseexec_block:
  assumes at: "at_tokens b ps (TSym CHR ''('' # line_tokens l @ TSym CHR '')'' # concat (map redir_tokens rs) @ rest)"
    and rest: "\<not> next_is rest ''<>''"
    and l: "\<And>p. ps < p \<Longrightarrow> at_tokens b p (line_tokens l @ TSym CHR '')'' # concat (map redir_tokens rs) @ rest) \<Longrightarrow>
              parses b (parseline n b p) p (TSym CHR '')'' # concat (map redir_tokens rs) @ rest) m"
  shows "parses b (parseexec (Suc (Suc n)) b ps) ps rest (fold apply_redir rs m)"
proof -
  note pk = peek_token [OF at, of "''(''"] and np = next_pos_token [OF at] and at1 = at_tokens_next [OF at]
  have "parses b (parseline n b (ps + 2)) (ps + 2) (TSym CHR '')'' # concat (map redir_tokens rs) @ rest) m"
    by (rule l) (use at1 in simp_all)
  then obtain c p1 where 1: "parseline n b (ps + 2) = Some (POk c p1)" "ps + 2 \<le> p1"
      "at_tokens b p1 (TSym CHR '')'' # concat (map redir_tokens rs) @ rest)" "strings_of b c = m"
    by (rule parsesE)
  note pk2 = peek_token [OF 1(3), of "'')''"] and np2 = next_pos_token [OF 1(3)]
  have at2: "at_tokens b (p1 + 2) (concat (map redir_tokens rs) @ rest)" using at_tokens_next [OF 1(3)] by simp
  have "parseexec (Suc (Suc n)) b ps = Some (parseredirs b c (p1 + 2))"
    using pk np 1(1) pk2 np2 by (simp add: next_is_def)
  then show ?thesis using parseredirs_parses [OF at2 rest, of c] parses_later [of b _ "p1 + 2" rest _ ps] 1 by simp
qed


text \<open>The three levels of the grammar at once, with the depth of calls each needs.\<close>

lemma depth_step: "at_tokens b p ts \<Longrightarrow> ps < p \<Longrightarrow> 4 * (length b - p) + 4 \<le> 4 * (length b - ps)"
  by (auto simp: at_tokens_def)

lemma next_is_mono: "next_is ts toks \<Longrightarrow> set toks \<subseteq> set toks' \<Longrightarrow> next_is ts toks'"
  by (cases ts) (auto simp: next_is_def)

lemma line_parses:
  "at_tokens b ps (line_tokens l @ rest) \<Longrightarrow> good_line l \<Longrightarrow> rest = [] \<or> next_is rest '')'' \<Longrightarrow>
     4 * (length b - ps) + 4 \<le> n \<Longrightarrow> parses b (parseline n b ps) ps rest (line_meaning l)"
  and pipe_parses:
  "at_tokens b ps (pipe_tokens p @ rest) \<Longrightarrow> good_pipe p \<Longrightarrow> rest = [] \<or> next_is rest '')&;'' \<Longrightarrow>
     4 * (length b - ps) + 3 \<le> n \<Longrightarrow> parses b (parsepipe n b ps) ps rest (pipe_meaning p)"
  and simple_parses:
  "at_tokens b ps (simple_tokens s @ rest) \<Longrightarrow> good_simple s \<Longrightarrow> rest = [] \<or> next_is rest ''|)&;'' \<Longrightarrow>
     4 * (length b - ps) + 2 \<le> n \<Longrightarrow> parses b (parseexec n b ps) ps rest (simple_meaning s)"
proof (induction l and p and s arbitrary: ps rest n and ps rest n and ps rest n)
  case (Last p k)
  obtain n' where n: "n = Suc n'" using Last.prems(4) by (cases n) auto
  have follow: "replicate k (TSym CHR ''&'') @ rest = [] \<or> next_is (replicate k (TSym CHR ''&'') @ rest) '')&;''"
    using Last.prems(3) next_is_mono [of rest "'')''" "'')&;''"] by (cases k) (auto simp: next_is_def)
  have stop: "\<not> next_is rest ''&''" "\<not> next_is rest '';''"
    using Last.prems(3) next_is_disjoint [of rest "'')''"] by (auto simp: next_is_def)
  have "parses b (parsepipe n' b ps) ps (replicate k (TSym CHR ''&'') @ rest) (pipe_meaning p)"
    by (rule Last.IH) (use Last.prems follow n in simp_all)
  from parseline_last [OF this stop] show ?case by (simp add: n)
next
  case (Then p k l)
  obtain n' where n: "n = Suc n'" using Then.prems(4) by (cases n) auto
  have follow: "next_is (replicate k (TSym CHR ''&'') @ TSym CHR '';'' # ts) '')&;''" for ts
    by (cases k) (auto simp: next_is_def)
  have "parses b (parsepipe n' b ps) ps (replicate k (TSym CHR ''&'') @ TSym CHR '';'' # line_tokens l @ rest) (pipe_meaning p)"
    by (rule Then.IH(1)) (use Then.prems follow n in simp_all)
  moreover have "parses b (parseline n' b q) q rest (line_meaning l)" if "ps < q" "at_tokens b q (line_tokens l @ rest)" for q
    by (rule Then.IH(2) [OF that(2)]) (use Then.prems n depth_step [OF that(2,1)] in simp_all)
  ultimately show ?case unfolding n line_meaning.simps by (rule parseline_then)
next
  case (Single s)
  obtain n' where n: "n = Suc n'" using Single.prems(4) by (cases n) auto
  have "parses b (parseexec n' b ps) ps rest (simple_meaning s)"
    by (rule Single.IH) (use Single.prems next_is_mono [of rest "'')&;''" "''|)&;''"] n in auto)
  moreover have "\<not> next_is rest ''|''"
    using Single.prems(3) next_is_disjoint [of rest "'')&;''" "''|''"] by (auto simp: next_is_def)
  ultimately show ?case unfolding n pipe_meaning.simps by (rule parsepipe_single)
next
  case (PipeTo s p)
  obtain n' where n: "n = Suc n'" using PipeTo.prems(4) by (cases n) auto
  have "parses b (parseexec n' b ps) ps (TSym CHR ''|'' # pipe_tokens p @ rest) (simple_meaning s)"
    by (rule PipeTo.IH(1)) (use PipeTo.prems n in \<open>simp_all add: next_is_def\<close>)
  moreover have "parses b (parsepipe n' b q) q rest (pipe_meaning p)" if "ps < q" "at_tokens b q (pipe_tokens p @ rest)" for q
    by (rule PipeTo.IH(2) [OF that(2)]) (use PipeTo.prems n depth_step [OF that(2,1)] in simp_all)
  ultimately show ?case unfolding n pipe_meaning.simps by (rule parsepipe_to)
next
  case (Words rs ws)
  obtain n' where "n = Suc n'" using Words.prems(4) by (cases n) auto
  then show ?case using parseexec_words [OF Words.prems(1,2,3)] by simp
next
  case (Block l rs)
  obtain n' where n: "n = Suc (Suc n')" using Block.prems(4) by (cases n rule: nat.exhaust [case_product nat.exhaust]) (auto, metis Suc_le_D Suc_le_mono)
  have stop: "\<not> next_is rest ''<>''"
    using Block.prems(3) next_is_disjoint [of rest "''|)&;''" "''<>''"] by (auto simp: next_is_def)
  let ?ts = "TSym CHR '')'' # concat (map redir_tokens rs) @ rest"
  have "parses b (parseline n' b q) q ?ts (line_meaning l)" if "ps < q" "at_tokens b q (line_tokens l @ ?ts)" for q
    by (rule Block.IH [OF that(2)]) (use Block.prems n depth_step [OF that(2,1)] in \<open>simp_all add: next_is_def\<close>)
  then show ?case unfolding n simple_meaning.simps
    by (rule parseexec_block [rotated 2]) (use Block.prems stop in simp_all)
qed

text \<open>The tokens of a good line are good, and its text has no zero byte.\<close>

lemma good_redir_tokens: "list_all good_redir rs \<Longrightarrow> list_all good_token (concat (map redir_tokens rs))"
proof (induction rs)
  case (Cons r rs)
  then show ?case by (cases r) simp_all
qed simp

lemma good_word_tokens:
  "list_all (\<lambda>(w, rs). good_word w \<and> list_all good_redir rs) ws \<Longrightarrow> list_all good_token (concat (map word_tokens ws))"
  by (induction ws) (auto simp: good_redir_tokens)

lemma good_ampersands: "list_all good_token (replicate k (TSym CHR ''&''))"
  by (induction k) simp_all

lemma good_tokens:
  "good_line l \<Longrightarrow> list_all good_token (line_tokens l)"
  "good_pipe p \<Longrightarrow> list_all good_token (pipe_tokens p)"
  "good_simple s \<Longrightarrow> list_all good_token (simple_tokens s)"
  by (induction l and p and s) (auto simp: good_redir_tokens good_word_tokens good_ampersands)

lemma good_token_no_zero: "good_token t \<Longrightarrow> CHR 0x00 \<notin> set (token_text t)"
  by (cases t) (auto simp: good_word_def)

lemma tokens_text_no_zero: "list_all good_token ts \<Longrightarrow> CHR 0x00 \<notin> set (tokens_text ts)"
  by (induction ts) (auto dest: good_token_no_zero)

text \<open>A command with its words read from memory, as \<^verbatim>\<open>runcmd\<close> sees it.\<close>

fun read_cmd :: "string \<Rightarrow> cmd \<Rightarrow> scmd" where
  "read_cmd m (Exec as) = SExec (map (\<lambda>(q, e). cstring_at m q) as)"
| "read_cmd m (Redir c q e mode fd) = SRedir (read_cmd m c) (cstring_at m q) mode fd"
| "read_cmd m (Pipe l r) = SPipe (read_cmd m l) (read_cmd m r)"
| "read_cmd m (Seq l r) = SSeq (read_cmd m l) (read_cmd m r)"
| "read_cmd m (Back c) = SBack (read_cmd m c)"

lemma read_cmd_strings:
  "(\<And>q e. (q, e) \<in> set (cmd_words c) \<Longrightarrow> cstring_at m q = substr b q e) \<Longrightarrow> read_cmd m c = strings_of b c"
  by (induction c) auto

lemma show_line_no_zero: "good_line l \<Longrightarrow> CHR 0x00 \<notin> set (show_line l)"
  unfolding show_line_def by (rule tokens_text_no_zero [OF good_tokens(1)])

lemma show_line_parses:
  assumes "good_line l"
  shows "\<exists>c. parsecmd (show_line l) = Some (Inr c) \<and> strings_of (show_line l) c = line_meaning l"
proof -
  let ?b = "show_line l"
  have "at_tokens ?b 0 (line_tokens l @ [])"
    using good_tokens(1) [OF assms] by (simp add: at_tokens_def show_line_def)
  from line_parses [OF this assms, of "4 * length ?b + 4"]
  obtain c p where c: "parseline (4 * length ?b + 4) ?b 0 = Some (POk c p)" "at_tokens ?b p []" "strings_of ?b c = line_meaning l"
    by (auto elim: parsesE)
  then have "parsecmd ?b = Some (Inr c)"
    using peek_token [OF c(2), of "[]"] by (simp add: parsecmd_def at_tokens_end)
  then show ?thesis using c(3) by blast
qed

lemma read_after_zeros:
  assumes "parsecmd b = Some (Inr c)" and z: "CHR 0x00 \<notin> set b"
  shows "read_cmd (nulterminate c (b @ [CHR 0x00])) c = strings_of b c"
proof -
  have ok: "cmd_ok b c" using parsecmd_parses [of b] assms(1) by auto
  show ?thesis by (rule read_cmd_strings) (use words_after_zeros [OF ok z] in \<open>simp add: substr_def\<close>)
qed

text \<open>
  C35. The shell understands what is written in its grammar: for every command line, built from
  words, redirections, pipes, background marks, sequences and blocks, \<^verbatim>\<open>parsecmd\<close> of its
  text returns a command, and the words of that command, read from the line after the zeros are in
  place, are those of the line.
\<close>

theorem parsecmd_show_line:
  assumes "good_line l"
  shows "\<exists>c. parsecmd (show_line l) = Some (Inr c) \<and>
             read_cmd (nulterminate c (show_line l @ [CHR 0x00])) c = line_meaning l"
  using show_line_parses [OF assms] read_after_zeros [OF _ show_line_no_zero [OF assms]] by metis

theorem parsecmd_show_line_witness:
  "show_line (Then (PipeTo (Words [] [(''ls'', []), (''-l'', [From ''in''])]) (Single (Words [] [(''wc'', [])]))) 0
      (Last (Single (Block (Last (Single (Words [] [(''echo'', [])])) 0) [Onto ''log''])) 1)) =
     ''ls -l < in | wc ; ( echo ) >> log & '' \<and>
   (\<exists>c. parsecmd ''ls -l < in | wc ; ( echo ) >> log & '' = Some (Inr c) \<and>
      read_cmd (nulterminate c (''ls -l < in | wc ; ( echo ) >> log & '' @ [CHR 0x00])) c =
        SSeq (SPipe (SRedir (SExec [''ls'', ''-l'']) ''in'' 0 0) (SExec [''wc'']))
             (SBack (SRedir (SExec [''echo'']) ''log'' 0x201 1)))"
proof -
  let ?l = "Then (PipeTo (Words [] [(''ls'', []), (''-l'', [From ''in''])]) (Single (Words [] [(''wc'', [])]))) 0
      (Last (Single (Block (Last (Single (Words [] [(''echo'', [])])) 0) [Onto ''log''])) 1)"
  have s: "show_line ?l = ''ls -l < in | wc ; ( echo ) >> log & ''" by (simp add: show_line_def tokens_text_def)
  have g: "good_line ?l" by (simp add: good_word_def word_char_def whitespace_def symbols_def MAXARGS_def)
  show ?thesis using parsecmd_show_line [OF g] unfolding s by simp
qed

end
