(* ===== verification/Sh.thy ===== *)
theory Sh
  imports ShPrint
begin

text \<open>
  The shell itself, \<^verbatim>\<open>user/sh.c\<close>: running a parsed command and the loop that reads
  lines. A reply of zero to \<^verbatim>\<open>fork\<close> makes the run that of the child. Memory for
  commands is taken to be there: the parser does not test the result of \<^verbatim>\<open>malloc\<close>.
\<close>

section \<open>Running a command\<close>

definition sh_panic :: "string \<Rightarrow> ustate \<Rightarrow> 'a urun" where
  "sh_panic msg s = ubind (fprintf 2 (''%s'' @ [CHR 0x0A]) [UStr (Some msg)] s) (\<lambda>_ s. uexit 1 s)"

definition fork1 :: "ustate \<Rightarrow> int urun" where
  "fork1 s = ubind (sys Ufork s) (\<lambda>r s. if rval r = - 1 then sh_panic ''fork'' s else Done (rval r) s)"

text \<open>The two descriptors that \<^verbatim>\<open>pipe\<close> stores.\<close>

definition pipe_fds :: "ureply \<Rightarrow> (int \<times> int) option" where
  "pipe_fds r = (case rnums r of [p0, p1] \<Rightarrow> Some (p0, p1) | _ \<Rightarrow> None)"

text \<open>
  \<^verbatim>\<open>runcmd\<close>, on the memory that holds the words. The calls of itself do not return; the
  code after them is what the parent goes on with.
\<close>

fun runcmd :: "string \<Rightarrow> cmd \<Rightarrow> ustate \<Rightarrow> unit urun" where
  "runcmd m (Exec argv) s =
     (case argv of
        [] \<Rightarrow> uexit 1 s
      | _ \<Rightarrow>
          let args = map (\<lambda>(q, e). cstring_at m q) argv in
          ubind (uexec (hd args) args s) (\<lambda>_ s.
          ubind (fprintf 2 (''exec %s failed'' @ [CHR 0x0A]) [UStr (Some (hd args))] s) (\<lambda>_ s.
          uexit 0 s)))"
| "runcmd m (Redir c q e mode fd) s =
     ubind (sys (Uclose fd) s) (\<lambda>_ s.
     ubind (sys (Uopen (cstring_at m q) mode) s) (\<lambda>r s.
       if rval r < 0 then
         ubind (fprintf 2 (''open %s failed'' @ [CHR 0x0A]) [UStr (Some (cstring_at m q))] s) (\<lambda>_ s. uexit 1 s)
       else ubind (runcmd m c s) (\<lambda>_ s. uexit 0 s)))"
| "runcmd m (Seq l r) s =
     ubind (fork1 s) (\<lambda>pid s.
     ubind (if pid = 0 then runcmd m l s else Done () s) (\<lambda>_ s.
     ubind (sys Uwait s) (\<lambda>_ s.
     ubind (runcmd m r s) (\<lambda>_ s. uexit 0 s))))"
| "runcmd m (Pipe l r) s =
     ubind (sys Upipe s) (\<lambda>p s.
       if rval p < 0 then sh_panic ''pipe'' s
       else case pipe_fds p of
           None \<Rightarrow> Fault
         | Some (p0, p1) \<Rightarrow>
             ubind (fork1 s) (\<lambda>pid s.
             ubind (if pid = 0 then
                 ubind (sys (Uclose 1) s) (\<lambda>_ s.
                 ubind (sys (Udup p1) s) (\<lambda>_ s.
                 ubind (sys (Uclose p0) s) (\<lambda>_ s.
                 ubind (sys (Uclose p1) s) (\<lambda>_ s.
                 runcmd m l s))))
               else Done () s) (\<lambda>_ s.
             ubind (fork1 s) (\<lambda>pid s.
             ubind (if pid = 0 then
                 ubind (sys (Uclose 0) s) (\<lambda>_ s.
                 ubind (sys (Udup p0) s) (\<lambda>_ s.
                 ubind (sys (Uclose p0) s) (\<lambda>_ s.
                 ubind (sys (Uclose p1) s) (\<lambda>_ s.
                 runcmd m r s))))
               else Done () s) (\<lambda>_ s.
             ubind (sys (Uclose p0) s) (\<lambda>_ s.
             ubind (sys (Uclose p1) s) (\<lambda>_ s.
             ubind (sys Uwait s) (\<lambda>_ s.
             ubind (sys Uwait s) (\<lambda>_ s.
             uexit 0 s)))))))))"
| "runcmd m (Back c) s =
     ubind (fork1 s) (\<lambda>pid s.
     ubind (if pid = 0 then runcmd m c s else Done () s) (\<lambda>_ s.
     uexit 0 s))"

text \<open>The child that the shell forks for a line: parse, put the zeros in place, run.\<close>

definition parse_and_run :: "string \<Rightarrow> ustate \<Rightarrow> unit urun" where
  "parse_and_run b s =
     (case parsecmd b of
        None \<Rightarrow> Fault
      | Some (Inl (Message e)) \<Rightarrow> sh_panic e s
      | Some (Inl (Leftovers p)) \<Rightarrow>
          ubind (fprintf 2 (''leftovers: %s'' @ [CHR 0x0A]) [UStr (Some (drop p b))] s) (\<lambda>_ s. sh_panic ''syntax'' s)
      | Some (Inr c) \<Rightarrow> runcmd (nulterminate c (b @ [CHR 0x00])) c s)"

section \<open>The loop\<close>

text \<open>\<^verbatim>\<open>getcmd\<close> returns the line, which is empty at the end of the input.\<close>

definition getcmd :: "int \<Rightarrow> ustate \<Rightarrow> string urun" where
  "getcmd nbuf s =
     ubind (sys (Uwrite 2 ''$ '') s) (\<lambda>_ s.
     ubind (gets nbuf s) (\<lambda>buf s.
     Done (takeWhile (\<lambda>c. c \<noteq> CHR 0x00) buf) s))"

text \<open>Three descriptors are open before the first line is read.\<close>

function open_console :: "ustate \<Rightarrow> unit urun" where
  "open_console s =
     ubind (sys (Uopen ''console'' 2) s) (\<lambda>r s.
       if rval r \<ge> 0 then
         (if rval r \<ge> 3 then ubind (sys (Uclose (rval r)) s) (\<lambda>_ s. Done () s) else open_console s)
       else Done () s)"
  by pat_completeness auto
termination
  by (relation "measure (\<lambda>s. length (replies s))") (auto dest: sys_consumes)

declare open_console.simps [simp del]

definition skip_spaces :: "string \<Rightarrow> string" where
  "skip_spaces buf = dropWhile (\<lambda>c. c = CHR '' '' \<or> c = CHR 0x09) buf"

text \<open>One line. A directory is changed by the shell itself.\<close>

definition sh_command :: "string \<Rightarrow> ustate \<Rightarrow> unit urun" where
  "sh_command buf s =
     (let cmd = skip_spaces buf in
      if at cmd 0 = CHR 0x0A then Done () s
      else if at cmd 0 = CHR ''c'' \<and> at cmd 1 = CHR ''d'' \<and> at cmd 2 = CHR '' '' then
        let dir = drop 3 (butlast cmd) in
        ubind (sys (Uchdir dir) s) (\<lambda>r s.
          if rval r < 0 then fprintf 2 (''cannot cd %s'' @ [CHR 0x0A]) [UStr (Some dir)] s else Done () s)
      else
        ubind (fork1 s) (\<lambda>pid s.
        ubind (if pid = 0 then parse_and_run cmd s else Done () s) (\<lambda>_ s.
        ubind (sys Uwait s) (\<lambda>_ s. Done () s))))"

text \<open>Nothing a program does adds replies, so every turn of the loop leaves fewer of them.\<close>

definition no_more_replies :: "ustate \<Rightarrow> 'a urun \<Rightarrow> bool" where
  "no_more_replies s r = (case r of Done x t \<Rightarrow> length (replies t) \<le> length (replies s) | _ \<Rightarrow> True)"

lemma no_more_simps [simp]:
  "no_more_replies s (Done x t) = (length (replies t) \<le> length (replies s))"
  "no_more_replies s (Exited v cs)" "no_more_replies s (Execed p as cs)" "no_more_replies s (Waiting cs)" "no_more_replies s Fault"
  by (simp_all add: no_more_replies_def)

lemma no_more_bind:
  assumes "no_more_replies s m" and "\<And>x t. m = Done x t \<Longrightarrow> no_more_replies t (f x t)"
  shows "no_more_replies s (ubind m f)"
proof (cases m)
  case (Done x t)
  then have "no_more_replies t (f x t)" "length (replies t) \<le> length (replies s)" using assms by simp_all
  then show ?thesis using Done by (cases "f x t") auto
qed simp_all

lemma no_more_sys [simp]: "no_more_replies s (sys c s)"
  by (cases "replies s") (simp_all add: sys_def)

lemma no_more_uread [simp]: "no_more_replies s (uread fd n s)"
  unfolding uread_def by (rule no_more_bind) simp_all

lemma no_more_uputs: "no_more_replies s (uputs fd cs s)"
proof (induction cs arbitrary: s)
  case (Cons c cs)
  show ?case unfolding uputs.simps uputc_def ubind_assoc
    by (rule no_more_bind) (simp_all add: Cons.IH)
qed simp

lemma no_more_uprintint: "no_more_replies s (uprintint fd x base sg s)"
  by (simp add: uprintint_def Let_def no_more_uputs)

lemma no_more_uprintptr: "no_more_replies s (uprintptr fd x s)"
  unfolding uprintptr_def uputc_def ubind_assoc
  by (rule no_more_bind; simp) (rule no_more_bind; simp add: no_more_uputs)

lemma no_more_uputc: "no_more_replies s (uputc fd c s)"
  unfolding uputc_def by (rule no_more_bind) simp_all

lemma no_more_uconv_out: "no_more_replies s (uconv_out fd cv as s)"
  by (induction fd cv as s rule: uconv_out.induct)
     (auto intro!: no_more_bind simp: no_more_uprintint no_more_uprintptr no_more_uputs no_more_uputc)

lemma no_more_vprintf: "no_more_replies s (vprintf fd fmt as s)"
proof (induction fd fmt as s rule: vprintf.induct)
  case (2 fd c r as s)
  then show ?case
    by (auto split: prod.splits intro!: no_more_bind simp: no_more_uputc no_more_uconv_out)
qed simp

lemma no_more_gets_loop: "no_more_replies s (gets_loop mx buf s)"
proof (induction mx buf s rule: gets_loop.induct)
  case (1 mx buf s)
  then show ?case by (subst gets_loop.simps) (auto intro!: no_more_bind simp: Let_def)
qed

lemma no_more_printf: "no_more_replies s (fprintf fd fmt as s)" "no_more_replies s (printf fmt as s)"
  by (simp_all only: fprintf_def printf_def no_more_vprintf)

lemmas no_more_lib = no_more_uputs no_more_printf no_more_gets_loop

text \<open>\<^verbatim>\<open>runcmd\<close> does not return.\<close>

definition never_returns :: "'a urun \<Rightarrow> bool" where
  "never_returns r = (case r of Done x t \<Rightarrow> False | _ \<Rightarrow> True)"

lemma never_simps [simp]:
  "\<not> never_returns (Done x t)" "never_returns (Exited v cs)" "never_returns (Execed p as cs)"
  "never_returns (Waiting cs)" "never_returns Fault" "never_returns (uexit v s)"
  by (simp_all add: never_returns_def uexit_def)

lemma never_bind: "(\<And>x t. m = Done x t \<Longrightarrow> never_returns (f x t)) \<Longrightarrow> never_returns (ubind m f)"
  by (cases m) simp_all

lemma never_panic [simp]: "never_returns (sh_panic msg s)"
  unfolding sh_panic_def by (rule never_bind) simp

lemma runcmd_never_returns: "never_returns (runcmd m c s)"
proof (induction c arbitrary: s)
  case (Exec argv)
  show ?case by (cases argv) (auto simp: Let_def intro!: never_bind)
qed (auto intro!: never_bind split: option.splits)

lemma parse_and_run_never_returns: "never_returns (parse_and_run b s)"
  by (auto simp: parse_and_run_def runcmd_never_returns intro!: never_bind split: option.splits sum.splits parse_error.splits)


lemma no_more_never: "never_returns r \<Longrightarrow> no_more_replies s r"
  by (cases r) simp_all

lemma no_more_fork1: "no_more_replies s (fork1 s)"
  unfolding fork1_def by (rule no_more_bind) (simp_all add: no_more_never)

lemma no_more_sh_command: "no_more_replies s (sh_command buf s)"
  by (auto simp: sh_command_def Let_def no_more_fork1 no_more_lib no_more_never parse_and_run_never_returns intro!: no_more_bind)

lemma getcmd_consumes: "getcmd nbuf s = Done buf t \<Longrightarrow> length (replies t) < length (replies s)"
proof -
  assume "getcmd nbuf s = Done buf t"
  then obtain r u buf' where 1: "sys (Uwrite 2 ''$ '') s = Done r u" "gets nbuf u = Done buf' t"
    by (auto simp: getcmd_def ubind_eq_Done)
  from 1(2) have "length (replies t) \<le> length (replies u)" using no_more_gets_loop [of u nbuf "[]"] by (simp add: gets_def)
  then show ?thesis using sys_consumes [OF 1(1)] by simp
qed

lemma sh_turn:
  "getcmd n s = Done buf t \<Longrightarrow> sh_command buf t = Done x u \<Longrightarrow> length (replies u) < length (replies s)"
  using getcmd_consumes [of n s buf t] no_more_sh_command [of t buf] by simp

definition SH_BUF :: int where "SH_BUF = 100"

function sh_loop :: "ustate \<Rightarrow> unit urun" where
  "sh_loop s =
     ubind (getcmd SH_BUF s) (\<lambda>buf s.
       if buf = [] then uexit 0 s
       else ubind (sh_command buf s) (\<lambda>_ s. sh_loop s))"
  by pat_completeness auto
termination
  by (relation "measure (\<lambda>s. length (replies s))") (auto intro: sh_turn)

declare sh_loop.simps [simp del]

definition sh_main :: "ustate \<Rightarrow> unit urun" where
  "sh_main s = ubind (open_console s) (\<lambda>_ s. sh_loop s)"

end
