(* ===== verification/Uprogs.thy ===== *)
theory Uprogs
  imports Sh
begin

text \<open>
  The small user programs: \<^verbatim>\<open>cat\<close>, \<^verbatim>\<open>wc\<close>, \<^verbatim>\<open>ls\<close>,
  \<^verbatim>\<open>echo\<close>, \<^verbatim>\<open>mkdir\<close>, \<^verbatim>\<open>rm\<close>, \<^verbatim>\<open>ln\<close>,
  \<^verbatim>\<open>kill\<close>, \<^verbatim>\<open>sync\<close>, \<^verbatim>\<open>zombie\<close>, \<^verbatim>\<open>init\<close>, and the two
  programs that try the semaphores. A \<^verbatim>\<open>main\<close> takes
  the arguments after the name of the program.
\<close>

section \<open>Sequences of calls\<close>

fun useq :: "(ustate \<Rightarrow> unit urun) list \<Rightarrow> ustate \<Rightarrow> unit urun" where
  "useq [] s = Done () s"
| "useq (f # fs) s = ubind (f s) (\<lambda>_ s. useq fs s)"

definition udo :: "ucall \<Rightarrow> ustate \<Rightarrow> unit urun" where
  "udo c s = ubind (sys c s) (\<lambda>_ s. Done () s)"

definition uval :: "ucall \<Rightarrow> (int \<Rightarrow> ustate \<Rightarrow> unit urun) \<Rightarrow> ustate \<Rightarrow> unit urun" where
  "uval c f s = ubind (sys c s) (\<lambda>r s. f (rval r) s)"

definition nl :: "string \<Rightarrow> string" where
  "nl t = t @ [CHR 0x0A]"

definition unum :: "int \<Rightarrow> uarg" where
  "unum v = UNum (word_of_int v)"

definition str :: "string \<Rightarrow> uarg" where
  "str t = UStr (Some t)"

lemma no_more_useq: "(\<And>f s. f \<in> set fs \<Longrightarrow> no_more_replies s (f s)) \<Longrightarrow> no_more_replies s (useq fs s)"
  by (induction fs arbitrary: s) (auto intro!: no_more_bind)

lemma no_more_udo: "no_more_replies s (udo c s)"
  unfolding udo_def by (rule no_more_bind) simp_all

lemma no_more_uexit: "no_more_replies s (uexit v s)"
  by (simp add: uexit_def)

section \<open>Files\<close>

subsection \<open>cat\<close>

function cat :: "int \<Rightarrow> ustate \<Rightarrow> unit urun" where
  "cat fd s =
     ubind (uread fd 512 s) (\<lambda>n s.
       if rval n > 0 then
         ubind (sys (Uwrite 1 (rdata n)) s) (\<lambda>w s.
           if rval w \<noteq> rval n then useq [fprintf 2 (nl ''cat: write error'') [], uexit 1] s
           else cat fd s)
       else if rval n < 0 then useq [fprintf 2 (nl ''cat: read error'') [], uexit 1] s
       else Done () s)"
  by pat_completeness auto
termination
  by (relation "measure (\<lambda>(fd, s). length (replies s))") (auto dest!: uread_consumes sys_consumes)

declare cat.simps [simp del]

fun cat_files :: "string list \<Rightarrow> ustate \<Rightarrow> unit urun" where
  "cat_files [] s = uexit 0 s"
| "cat_files (f # fs) s =
     uval (Uopen f 0) (\<lambda>fd s.
       if fd < 0 then useq [fprintf 2 (nl ''cat: cannot open %s'') [str f], uexit 1] s
       else useq [cat fd, udo (Uclose fd), cat_files fs] s) s"

definition cat_main :: "string list \<Rightarrow> ustate \<Rightarrow> unit urun" where
  "cat_main args s = (if args = [] then useq [cat 0, uexit 0] s else cat_files args s)"

subsection \<open>wc\<close>

text \<open>The lines, words and characters so far, and whether the last character is in a word.\<close>

type_synonym wc_counts = "int \<times> int \<times> int \<times> bool"

definition wc_char :: "char \<Rightarrow> wc_counts \<Rightarrow> wc_counts" where
  "wc_char ch k = (case k of (l, w, c, inword) \<Rightarrow>
     let c = c_int (c + 1); l = (if ch = CHR 0x0A then c_int (l + 1) else l) in
     if ch \<in> set ('' '' @ [CHR 0x0D, CHR 0x09, CHR 0x0A, CHR 0x0B]) then (l, w, c, False)
     else if \<not> inword then (l, c_int (w + 1), c, True)
     else (l, w, c, inword))"

function wc_loop :: "int \<Rightarrow> wc_counts \<Rightarrow> ustate \<Rightarrow> (wc_counts \<times> int) urun" where
  "wc_loop fd k s =
     ubind (uread fd 512 s) (\<lambda>n s.
       if rval n > 0 then wc_loop fd (fold wc_char (rdata n) k) s else Done (k, rval n) s)"
  by pat_completeness auto
termination
  by (relation "measure (\<lambda>(fd, k, s). length (replies s))") (auto dest: uread_consumes)

declare wc_loop.simps [simp del]

definition wc :: "int \<Rightarrow> string \<Rightarrow> ustate \<Rightarrow> unit urun" where
  "wc fd name s =
     ubind (wc_loop fd (0, 0, 0, False) s) (\<lambda>(k, n) s. case k of (l, w, c, inword) \<Rightarrow>
       if n < 0 then useq [printf (nl ''wc: read error'') [], uexit 1] s
       else printf (nl ''%d %d %d %s'') [unum l, unum w, unum c, str name] s)"

fun wc_files :: "string list \<Rightarrow> ustate \<Rightarrow> unit urun" where
  "wc_files [] s = uexit 0 s"
| "wc_files (f # fs) s =
     uval (Uopen f 0) (\<lambda>fd s.
       if fd < 0 then useq [printf (nl ''wc: cannot open %s'') [str f], uexit 1] s
       else useq [wc fd f, udo (Uclose fd), wc_files fs] s) s"

definition wc_main :: "string list \<Rightarrow> ustate \<Rightarrow> unit urun" where
  "wc_main args s = (if args = [] then useq [wc 0 [], uexit 0] s else wc_files args s)"

subsection \<open>ls\<close>

text \<open>The part of a path after its last slash, padded with blanks.\<close>

definition fmtname :: "string \<Rightarrow> string" where
  "fmtname path =
     (let p = rev (takeWhile (\<lambda>c. c \<noteq> CHR ''/'') (rev path)) in
      if length p \<ge> 14 then p else p @ replicate (14 - length p) CHR '' '')"

definition print_entry :: "string \<Rightarrow> int list \<Rightarrow> ustate \<Rightarrow> unit urun" where
  "print_entry path st s =
     (case st of [ty, ino, sz] \<Rightarrow> printf (nl ''%s %d %d %d'') [str (fmtname path), unum ty, unum ino, unum sz] s
      | _ \<Rightarrow> Fault)"

text \<open>
  The loop over the entries of a directory: sixteen bytes each, an inode number and a name of
  fourteen characters.
\<close>

lemma no_more_ustat: "no_more_replies s (ustat n s)"
  unfolding ustat_def by (auto intro!: no_more_bind)

lemma no_more_print_entry: "no_more_replies s (print_entry path st s)"
  by (auto simp: print_entry_def no_more_lib split: list.splits)

lemma ls_turn:
  assumes "uread fd 16 s = Done r t" and "ustat buf t = Done st u"
    and "(if rval st < 0 then printf f1 as u else print_entry buf ns u) = Done x v"
  shows "length (replies v) < length (replies s)"
  using uread_consumes [OF assms(1)] no_more_ustat [of t buf] no_more_print_entry [of u buf ns] no_more_printf(2) [of u f1 as] assms(2,3)
  by (auto split: if_splits)

function ls_entries :: "string \<Rightarrow> int \<Rightarrow> ustate \<Rightarrow> unit urun" where
  "ls_entries path fd s =
     ubind (uread fd 16 s) (\<lambda>r s.
       if rval r \<noteq> 16 then Done () s
       else
         let de = rdata r; buf = path @ ''/'' @ takeWhile (\<lambda>c. c \<noteq> CHR 0x00) (drop 2 de) in
         if de ! 0 = CHR 0x00 \<and> de ! 1 = CHR 0x00 then ls_entries path fd s
         else
           ubind (ustat buf s) (\<lambda>st s.
           ubind (if rval st < 0 then printf (nl ''ls: cannot stat %s'') [str buf] s
                  else print_entry buf (rnums st) s) (\<lambda>_ s.
           ls_entries path fd s)))"
  by pat_completeness auto
termination
  by (relation "measure (\<lambda>(path, fd, s). length (replies s))") (auto dest: uread_consumes intro: ls_turn)

declare ls_entries.simps [simp del]

definition ls :: "string \<Rightarrow> ustate \<Rightarrow> unit urun" where
  "ls path s =
     uval (Uopen path 0) (\<lambda>fd s.
       if fd < 0 then fprintf 2 (nl ''ls: cannot open %s'') [str path] s
       else
         ubind (sys (Ufstat fd) s) (\<lambda>st s.
           if rval st < 0 then useq [fprintf 2 (nl ''ls: cannot stat %s'') [str path], udo (Uclose fd)] s
           else
             ubind (case rnums st of
                [ty, ino, sz] \<Rightarrow>
                  if ty = 3 \<or> ty = 2 then print_entry path (rnums st) s
                  else if ty = 1 then
                    (if length path + 1 + 14 + 1 > 512 then printf (nl ''ls: path too long'') [] s
                     else ls_entries path fd s)
                  else Done () s
              | _ \<Rightarrow> Fault) (\<lambda>_ s.
             udo (Uclose fd) s))) s"

definition ls_main :: "string list \<Rightarrow> ustate \<Rightarrow> unit urun" where
  "ls_main args s = (if args = [] then useq [ls ''.'', uexit 0] s else useq (map ls args @ [uexit 0]) s)"

subsection \<open>echo, mkdir, rm, ln\<close>

fun echo_args :: "string list \<Rightarrow> ustate \<Rightarrow> unit urun" where
  "echo_args [] s = uexit 0 s"
| "echo_args (a # as) s =
     useq [udo (Uwrite 1 a), udo (Uwrite 1 (if as \<noteq> [] then '' '' else nl [])), echo_args as] s"

definition echo_main :: "string list \<Rightarrow> ustate \<Rightarrow> unit urun" where
  "echo_main args s = echo_args args s"

fun mkdir_args :: "string list \<Rightarrow> ustate \<Rightarrow> unit urun" where
  "mkdir_args [] s = uexit 0 s"
| "mkdir_args (a # as) s =
     uval (Umkdir a) (\<lambda>r s.
       if r < 0 then useq [fprintf 2 (nl ''mkdir: %s failed to create'') [str a], uexit 0] s
       else mkdir_args as s) s"

definition mkdir_main :: "string list \<Rightarrow> ustate \<Rightarrow> unit urun" where
  "mkdir_main args s =
     (if args = [] then useq [fprintf 2 (nl ''Usage: mkdir files...'') [], uexit 1] s else mkdir_args args s)"

fun rm_args :: "string list \<Rightarrow> ustate \<Rightarrow> unit urun" where
  "rm_args [] s = uexit 0 s"
| "rm_args (a # as) s =
     uval (Uunlink a) (\<lambda>r s.
       if r < 0 then useq [fprintf 2 (nl ''rm: %s failed to delete'') [str a], uexit 0] s
       else rm_args as s) s"

definition rm_main :: "string list \<Rightarrow> ustate \<Rightarrow> unit urun" where
  "rm_main args s =
     (if args = [] then useq [fprintf 2 (nl ''Usage: rm files...'') [], uexit 1] s else rm_args args s)"

definition ln_main :: "string list \<Rightarrow> ustate \<Rightarrow> unit urun" where
  "ln_main args s =
     (case args of
        [old, new] \<Rightarrow>
          uval (Ulink old new) (\<lambda>r s.
            if r < 0 then useq [fprintf 2 (nl ''link %s %s: failed'') [str old, str new], uexit 0] s
            else uexit 0 s) s
      | _ \<Rightarrow> useq [fprintf 2 (nl ''Usage: ln old new'') [], uexit 1] s)"

section \<open>Processes\<close>

text \<open>\<^verbatim>\<open>atoi\<close> on a string, as \<^verbatim>\<open>kill\<close> uses it.\<close>

definition atoi_string :: "string \<Rightarrow> int" where
  "atoi_string cs = fold (\<lambda>c n. c_int (n * 10 + of_char c - 48)) (takeWhile is_digit cs) 0"

definition kill_main :: "string list \<Rightarrow> ustate \<Rightarrow> unit urun" where
  "kill_main args s =
     (if args = [] then useq [fprintf 2 (nl ''usage: kill pid...'') [], uexit 1] s
      else useq (map (\<lambda>a. udo (Ukill (atoi_string a))) args @ [uexit 0]) s)"

definition sync_main :: "ustate \<Rightarrow> unit urun" where
  "sync_main s = useq [udo Usync, uexit 0] s"

definition zombie_main :: "ustate \<Rightarrow> unit urun" where
  "zombie_main s = uval Ufork (\<lambda>pid s. if pid > 0 then useq [udo (Upause 5), uexit 0] s else uexit 0 s) s"

text \<open>
  \<^verbatim>\<open>init\<close>: the console, then a shell that is started again whenever it ends. The inner loop
  waits for it and takes in the processes whose parents have gone.
\<close>

function init_wait :: "int \<Rightarrow> ustate \<Rightarrow> unit urun" where
  "init_wait pid s =
     ubind (sys Uwait s) (\<lambda>r s.
       if rval r = pid then Done () s
       else if rval r < 0 then useq [printf (nl ''init: wait returned an error'') [], uexit 1] s
       else init_wait pid s)"
  by pat_completeness auto
termination
  by (relation "measure (\<lambda>(pid, s). length (replies s))") (auto dest: sys_consumes)

declare init_wait.simps [simp del]

lemma no_more_init_wait: "no_more_replies s (init_wait pid s)"
proof (induction pid s rule: init_wait.induct)
  case (1 pid s)
  then show ?case
    by (subst init_wait.simps) (auto intro!: no_more_bind no_more_useq simp: no_more_lib no_more_uexit)
qed

lemma init_turn:
  assumes "printf f [] s = Done x t" and "sys Ufork t = Done r u" and "init_wait pid u = Done y v"
  shows "length (replies v) < length (replies s)"
  using no_more_printf(2) [of s f "[]"] sys_consumes [OF assms(2)] no_more_init_wait [of u pid] assms(1,3) by simp

function init_loop :: "ustate \<Rightarrow> unit urun" where
  "init_loop s =
     ubind (printf (nl ''init: starting sh'') [] s) (\<lambda>_ s.
     ubind (sys Ufork s) (\<lambda>r s.
       if rval r < 0 then useq [printf (nl ''init: fork failed'') [], uexit 1] s
       else if rval r = 0 then
         ubind (uexec ''sh'' [''sh''] s) (\<lambda>_ s.
         useq [printf (nl ''init: exec sh failed'') [], uexit 1] s)
       else ubind (init_wait (rval r) s) (\<lambda>_ s. init_loop s)))"
  by pat_completeness auto
termination
  by (relation "measure (\<lambda>s. length (replies s))") (auto simp del: vprintf.simps intro: init_turn)

declare init_loop.simps [simp del]

definition init_main :: "ustate \<Rightarrow> unit urun" where
  "init_main s =
     ubind (sys (Uopen ''console'' 2) s) (\<lambda>r s.
     ubind (if rval r < 0 then useq [udo (Umknod ''console'' 1 0), udo (Uopen ''console'' 2)] s else Done () s) (\<lambda>_ s.
     useq [udo (Udup 0), udo (Udup 0), init_loop] s))"

section \<open>The programs that try the semaphores\<close>

definition semtest_block_main :: "ustate \<Rightarrow> unit urun" where
  "semtest_block_main s =
     uval (Usem_open 1 ''mutex'') (\<lambda>sem s.
       if sem < 0 then useq [printf (nl ''sem_open failed'') [], uexit 1] s
       else
         uval Ufork (\<lambda>pid s.
           if pid = 0 then
             useq [udo (Usem_wait sem),
                   printf (nl ''child: critical section start'') [],
                   printf (nl ''child: critical section end'') [],
                   udo (Usem_signal sem), uexit 0] s
           else
             useq [udo (Usem_wait sem),
                   printf (nl ''parent: critical section start'') [],
                   printf (nl ''parent: critical section end'') [],
                   udo (Usem_signal sem), udo Uwait,
                   printf (nl [] @ nl ''=== Gantt Chart ==='') [],
                   udo (Usem_gantt sem), udo (Usem_close sem), uexit 0] s) s) s"

definition atomic_printf :: "int \<Rightarrow> string \<Rightarrow> int \<Rightarrow> ustate \<Rightarrow> unit urun" where
  "atomic_printf sem msg k s = useq [udo (Usem_wait sem), printf msg [unum k], udo (Usem_signal sem)] s"

definition N_PROCS :: nat where "N_PROCS = 20"

fun race_children :: "int \<Rightarrow> int \<Rightarrow> nat list \<Rightarrow> ustate \<Rightarrow> unit urun" where
  "race_children sem lk [] s = Done () s"
| "race_children sem lk (i # is) s =
     uval Ufork (\<lambda>pid s.
       if pid = 0 then
         useq [atomic_printf lk (nl ''Child %d waiting...'') (int i), udo (Usem_wait sem),
               atomic_printf lk (nl ''Child %d processing...'') (int i), udo (Upause 10),
               atomic_printf lk (nl ''Child %d leaving...'') (int i), udo (Usem_signal sem), uexit 0] s
       else race_children sem lk is s) s"

definition semtest_race_main :: "ustate \<Rightarrow> unit urun" where
  "semtest_race_main s =
     uval (Usem_open 5 ''resources'') (\<lambda>sem s.
     uval (Usem_open 1 ''printf_mutex'') (\<lambda>lk s.
       if sem < 0 \<or> lk < 0 then useq [printf (nl ''sem_open failed'') [], uexit 1] s
       else
         useq ([race_children sem lk [1..<Suc N_PROCS]] @ replicate N_PROCS (udo Uwait) @
           [printf (nl [] @ nl (''=== Gantt Chart for '' @ [CHR 0x22] @ ''resources'' @ [CHR 0x22] @ '' ==='')) [], udo (Usem_gantt sem),
            printf (nl [] @ nl (''=== Gantt Chart for '' @ [CHR 0x22] @ ''printf_mutex'' @ [CHR 0x22] @ '' ==='')) [], udo (Usem_gantt lk),
            udo (Usem_close sem), udo (Usem_close lk), uexit 0]) s) s) s"

end
