(* ===== verification/Forkdemo.thy ===== *)
theory Forkdemo
  imports Uprogs
begin

text \<open>
  The demonstration of processes, \<^verbatim>\<open>user/forkdemo.c\<close>, and the test programs
  \<^verbatim>\<open>forktest\<close>, \<^verbatim>\<open>dorphan\<close>, \<^verbatim>\<open>forphan\<close>, \<^verbatim>\<open>stressfs\<close> and
  \<^verbatim>\<open>filetest\<close>. The lock of the demonstration is a pipe with one byte in it; its two
  descriptors are zero until \<^verbatim>\<open>main\<close> has made it.
\<close>

section \<open>forkdemo\<close>

type_synonym lockfd = "int \<times> int"

definition printlock :: "lockfd \<Rightarrow> ustate \<Rightarrow> unit urun" where
  "printlock lk s = ubind (uread (fst lk) 1 s) (\<lambda>_ s. Done () s)"

definition printunlock :: "lockfd \<Rightarrow> ustate \<Rightarrow> unit urun" where
  "printunlock lk s = udo (Uwrite (snd lk) ''x'') s"

text \<open>Lines printed between taking and giving back the lock.\<close>

definition locked :: "lockfd \<Rightarrow> (ustate \<Rightarrow> unit urun) list \<Rightarrow> ustate \<Rightarrow> unit urun" where
  "locked lk body s = useq ([printlock lk] @ body @ [printunlock lk]) s"

text \<open>A line with the process identifier in it, and other numbers after it or before it.\<close>

definition print_pid :: "string \<Rightarrow> int list \<Rightarrow> int list \<Rightarrow> ustate \<Rightarrow> unit urun" where
  "print_pid fmt before after s =
     uval Ugetpid (\<lambda>pid s. printf (nl fmt) (map unum before @ [unum pid] @ map unum after) s) s"

text \<open>\<^verbatim>\<open>wait(&status)\<close> and what is done with its value and the status it stores.\<close>

definition wait_status :: "(int \<Rightarrow> int \<Rightarrow> ustate \<Rightarrow> unit urun) \<Rightarrow> ustate \<Rightarrow> unit urun" where
  "wait_status f s =
     ubind (sys Uwait s) (\<lambda>r s. case rnums r of [st] \<Rightarrow> f (rval r) st s | _ \<Rightarrow> Fault)"

definition demo_fork :: "lockfd \<Rightarrow> ustate \<Rightarrow> unit urun" where
  "demo_fork lk s =
     useq [locked lk [printf (nl [] @ nl ''=== 1. Basic fork() demo ==='') [],
                      print_pid ''Parent PID = %d, about to fork...'' [] []],
       uval Ufork (\<lambda>pid s.
         if pid < 0 then locked lk [printf (nl ''fork failed'') []] s
         else if pid = 0 then
           useq [locked lk [print_pid ''  [Child ] PID=%d, fork() returned=%d'' [] [pid],
                            printf (nl ''  [Child ] doing some work...'') []],
                 uexit 7] s
         else
           useq [locked lk [printf (nl ''  [Parent] fork() returned child PID=%d'') [unum pid],
                            printf (nl ''  [Parent] waiting for child...'') []],
                 wait_status (\<lambda>wpid st.
                   locked lk [printf (nl ''  [Parent] wait() returned PID=%d, exit status=%d'') [unum wpid, unum st]])] s)] s"

definition ticks_demo :: "lockfd \<Rightarrow> string \<Rightarrow> ustate \<Rightarrow> unit urun" where
  "ticks_demo lk who s =
     useq (concat (map (\<lambda>i. [locked lk [printf (nl (who @ '' tick %d'')) [unum i]], udo (Upause 20)]) [0..2])) s"

definition demo_concurrent :: "lockfd \<Rightarrow> ustate \<Rightarrow> unit urun" where
  "demo_concurrent lk s =
     useq [locked lk [printf (nl [] @ nl ''=== 2. Concurrent parent/child demo ==='') []],
       uval Ufork (\<lambda>pid s.
         if pid < 0 then locked lk [printf (nl ''fork failed'') []] s
         else if pid = 0 then useq [ticks_demo lk ''  [Child ]'', uexit 0] s
         else useq [ticks_demo lk ''  [Parent]'', udo Uwait] s)] s"

fun spawn_children :: "lockfd \<Rightarrow> int list \<Rightarrow> ustate \<Rightarrow> unit urun" where
  "spawn_children lk [] s = Done () s"
| "spawn_children lk (i # is) s =
     uval Ufork (\<lambda>pid s.
       if pid < 0 then locked lk [printf (nl ''  fork failed at i=%d'') [unum i]] s
       else if pid = 0 then
         useq [locked lk [print_pid ''  [Child #%d] PID=%d started'' [i] []], udo (Upause (30 * (i + 1))),
               locked lk [print_pid ''  [Child #%d] PID=%d exiting'' [i] []], uexit i] s
       else
         useq [locked lk [printf (nl ''  [Parent  ] spawned child #%d PID=%d'') [unum i, unum pid]],
               spawn_children lk is] s) s"

lemma no_more_printlock: "no_more_replies s (printlock lk s)"
  unfolding printlock_def by (rule no_more_bind) simp_all

lemma no_more_locked: "(\<And>f s. f \<in> set body \<Longrightarrow> no_more_replies s (f s)) \<Longrightarrow> no_more_replies s (locked lk body s)"
  unfolding locked_def by (rule no_more_useq) (auto simp: no_more_printlock printunlock_def no_more_udo)

lemma reap_turn:
  assumes "sys Uwait s = Done r t" and "locked lk [printf f as] t = Done x u"
  shows "length (replies u) < length (replies s)"
proof -
  have "no_more_replies t (locked lk [printf f as] t)" by (rule no_more_locked) (auto simp: no_more_lib)
  then show ?thesis using sys_consumes [OF assms(1)] assms(2) by simp
qed

text \<open>The parent waits until there are no children, and returns the value that says so.\<close>

function reap_children :: "lockfd \<Rightarrow> ustate \<Rightarrow> int urun" where
  "reap_children lk s =
     ubind (sys Uwait s) (\<lambda>r s.
       if rval r > 0 then
         ubind (locked lk [printf (nl ''  [Parent  ] child PID=%d exited with status=%d'')
                             [unum (rval r), unum (case rnums r of [] \<Rightarrow> 0 | st # _ \<Rightarrow> st)]] s) (\<lambda>_ s.
         reap_children lk s)
       else Done (rval r) s)"
  by pat_completeness auto
termination
  by (relation "measure (\<lambda>(lk, s). length (replies s))") (auto intro: reap_turn)

declare reap_children.simps [simp del]

definition demo_multi_children :: "lockfd \<Rightarrow> ustate \<Rightarrow> unit urun" where
  "demo_multi_children lk s =
     useq [locked lk [printf (nl [] @ nl ''=== 3. Multiple children demo ==='') []],
           spawn_children lk [0, 1, 2, 3],
           locked lk [printf (nl ''  [Parent  ] waiting for all children...'') []],
           (\<lambda>s. ubind (reap_children lk s) (\<lambda>pid s.
              locked lk [printf (nl ''  [Parent  ] no more children, wait()=%d'') [unum pid]] s))] s"

definition demo_zombie :: "lockfd \<Rightarrow> ustate \<Rightarrow> unit urun" where
  "demo_zombie lk s =
     useq [locked lk [printf (nl [] @ nl ''=== 4. Zombie process demo ==='') []],
       uval Ufork (\<lambda>pid s.
         if pid < 0 then locked lk [printf (nl ''fork failed'') []] s
         else if pid = 0 then
           useq [locked lk [print_pid ''  [Child ] PID=%d, exiting immediately'' [] []], uexit 0] s
         else
           useq [locked lk [print_pid ''  [Parent] PID=%d, child PID=%d'' [] [pid],
                            printf (nl ''  [Parent] sleeping 100 ticks (child is zombie)...'') []],
                 udo (Upause 100),
                 locked lk [printf (nl ''  [Parent] now calling wait() to reap zombie'') []],
                 udo Uwait,
                 locked lk [printf (nl ''  [Parent] zombie reaped'') []]] s)] s"

definition demo_orphan :: "lockfd \<Rightarrow> ustate \<Rightarrow> unit urun" where
  "demo_orphan lk s =
     useq [locked lk [printf (nl [] @ nl ''=== 5. Orphan process demo ==='') []],
       uval Ufork (\<lambda>pid s.
         if pid < 0 then locked lk [printf (nl ''fork failed'') []] s
         else if pid = 0 then
           uval Ufork (\<lambda>pid2 s.
             if pid2 < 0 then useq [locked lk [printf (nl ''  fork2 failed'') []], uexit 1] s
             else if pid2 = 0 then
               useq [locked lk [print_pid ''  [Grandchild] PID=%d, I am an orphan now'' [] [],
                                printf (nl ''  [Grandchild] sleeping 50 ticks...'') []],
                     udo (Upause 50),
                     locked lk [printf (nl ''  [Grandchild] exiting (should be adopted by init)'') []],
                     uexit 0] s
             else
               useq [locked lk [print_pid ''  [Child] PID=%d exiting, grandchild becomes orphan'' [] []], uexit 0] s) s
         else
           useq [locked lk [print_pid ''  [Parent] PID=%d, child PID=%d'' [] [pid]],
                 wait_status (\<lambda>wpid st.
                   locked lk [printf (nl ''  [Parent] child exited, status=%d'') [unum st],
                              printf (nl ''  [Parent] grandchild was reaped by init'') []])] s)] s"

definition demo_exec :: "lockfd \<Rightarrow> ustate \<Rightarrow> unit urun" where
  "demo_exec lk s =
     useq [locked lk [printf (nl [] @ nl ''=== 6. fork + exec demo ==='') []],
       uval Ufork (\<lambda>pid s.
         if pid < 0 then locked lk [printf (nl ''fork failed'') []] s
         else if pid = 0 then
           useq [locked lk [print_pid (''  [Child ] PID=%d, about to exec('' @ [CHR 0x27] @ ''echo'' @ [CHR 0x27] @ '')'') [] []],
                 (\<lambda>s. ubind (uexec ''echo'' [''echo'', ''Hello from exec!''] s) (\<lambda>_ s. Done () s)),
                 locked lk [printf (nl ''  [Child ] exec failed!'') []],
                 uexit 1] s
         else
           useq [locked lk [print_pid ''  [Parent] PID=%d, child PID=%d'' [] [pid]],
                 udo Uwait,
                 locked lk [printf (nl ''  [Parent] child done'') []]] s)] s"

definition forkdemo_main :: "string list \<Rightarrow> ustate \<Rightarrow> unit urun" where
  "forkdemo_main args s =
     (case args of
        [] \<Rightarrow>
          useq [locked (0, 0)
                  [printf (nl ''Usage: forkdemo <test_number>'') [],
                   printf (nl ''  1: basic fork/wait'') [],
                   printf (nl ''  2: concurrent parent/child'') [],
                   printf (nl ''  3: multiple children'') [],
                   printf (nl ''  4: zombie process'') [],
                   printf (nl ''  5: orphan process'') [],
                   printf (nl ''  6: fork + exec'') [],
                   printf (nl ''  all: run all tests'') []],
                uexit 0] s
      | a # _ \<Rightarrow>
          ubind (sys Upipe s) (\<lambda>r s.
            let lk = (case pipe_fds r of Some fds \<Rightarrow> fds | None \<Rightarrow> (0, 0));
                on = (\<lambda>d. at a 0 = d \<or> at a 0 = CHR ''a'') in
            useq [udo (Uwrite (snd lk) ''x''),
                  if on CHR ''1'' then demo_fork lk else Done (),
                  if on CHR ''2'' then demo_concurrent lk else Done (),
                  if on CHR ''3'' then demo_multi_children lk else Done (),
                  if on CHR ''4'' then demo_zombie lk else Done (),
                  if on CHR ''5'' then demo_orphan lk else Done (),
                  if on CHR ''6'' then demo_exec lk else Done (),
                  uexit 0] s))"

text \<open>
  Without an argument the program takes its lock before it has made the pipe: it reads a byte of its
  standard input first, and writes one to it at the end.
\<close>

lemma forkdemo_usage_reads_stdin:
  "forkdemo_main [] \<lparr>replies = [], calls = []\<rparr> = Waiting [Uread 0 1]"
  by (simp add: forkdemo_main_def locked_def printlock_def uread_def sys_def)

section \<open>Tests\<close>

definition FORKTEST_N :: nat where "FORKTEST_N = 1000"

text \<open>\<^verbatim>\<open>forktest\<close>: fork until it fails, then wait for as many children.\<close>

definition uprint :: "string \<Rightarrow> ustate \<Rightarrow> unit urun" where
  "uprint t s = udo (Uwrite 1 t) s"

fun fork_many :: "nat \<Rightarrow> nat \<Rightarrow> ustate \<Rightarrow> nat urun" where
  "fork_many 0 n s = Done n s"
| "fork_many (Suc k) n s =
     ubind (sys Ufork s) (\<lambda>r s.
       if rval r < 0 then Done n s else if rval r = 0 then uexit 0 s else fork_many k (Suc n) s)"

fun wait_many :: "nat \<Rightarrow> ustate \<Rightarrow> unit urun" where
  "wait_many 0 s = Done () s"
| "wait_many (Suc n) s =
     ubind (sys Uwait s) (\<lambda>r s.
       if rval r < 0 then useq [uprint (nl ''wait stopped early''), uexit 1] s else wait_many n s)"

definition forktest :: "ustate \<Rightarrow> unit urun" where
  "forktest s =
     ubind (uprint (nl ''fork test'') s) (\<lambda>_ s.
     ubind (fork_many FORKTEST_N 0 s) (\<lambda>n s.
       if n = FORKTEST_N then useq [uprint (nl ''fork claimed to work N times!''), uexit 1] s
       else
         useq [wait_many n,
               uval Uwait (\<lambda>r s. if r \<noteq> - 1 then useq [uprint (nl ''wait got too many''), uexit 1] s else Done () s),
               uprint (nl ''fork test OK'')] s))"

definition forktest_main :: "ustate \<Rightarrow> unit urun" where
  "forktest_main s = useq [forktest, uexit 0] s"

text \<open>The loop that sits until the process is killed.\<close>

function pause_forever :: "ustate \<Rightarrow> unit urun" where
  "pause_forever s = ubind (sys (Upause 1000) s) (\<lambda>_ s. pause_forever s)"
  by pat_completeness auto
termination
  by (relation "measure (\<lambda>s. length (replies s))") (auto dest: sys_consumes)

declare pause_forever.simps [simp del]

definition dorphan_main :: "string \<Rightarrow> ustate \<Rightarrow> unit urun" where
  "dorphan_main me s =
     uval (Umkdir ''dd'') (\<lambda>r s.
       if r \<noteq> 0 then useq [printf (nl ''%s: mkdir dd failed'') [str me], uexit 1] s
       else uval (Uchdir ''dd'') (\<lambda>r s.
         if r \<noteq> 0 then useq [printf (nl ''%s: chdir dd failed'') [str me], uexit 1] s
         else uval (Uunlink ''../dd'') (\<lambda>r s.
           if r < 0 then useq [printf (nl ''%s: unlink failed'') [str me], uexit 1] s
           else useq [printf (nl ''wait for kill and reclaim'') [], pause_forever] s) s) s) s"

definition forphan_main :: "string \<Rightarrow> ustate \<Rightarrow> unit urun" where
  "forphan_main me s =
     uval (Uopen ''file0'' 0x201) (\<lambda>fd s.
       if fd < 0 then useq [printf (nl ''%s: open failed'') [str me], uexit 1] s
       else ubind (sys (Ufstat fd) s) (\<lambda>st s.
         if rval st < 0 then useq [fprintf 2 (nl ''%s: cannot stat %s'') [str me, str ''ff''], uexit 1] s
         else uval (Uunlink ''file0'') (\<lambda>r s.
           if r < 0 then useq [printf (nl ''%s: unlink failed'') [str me], uexit 1] s
           else uval (Uopen ''file0'' 0) (\<lambda>r s.
             if r \<noteq> - 1 then useq [printf (nl ''%s: open successed'') [str me], uexit 1] s
             else case rnums st of
                 [ty, ino, sz] \<Rightarrow> useq [printf (nl ''wait for kill and reclaim %d'') [unum ino], pause_forever] s
               | _ \<Rightarrow> Fault) s) s)) s"

text \<open>\<^verbatim>\<open>stressfs\<close>: the process that stops forking as the \<open>i\<close>-th writes and reads its own file.\<close>

fun stress_fork :: "nat \<Rightarrow> nat \<Rightarrow> ustate \<Rightarrow> nat urun" where
  "stress_fork 0 i s = Done i s"
| "stress_fork (Suc k) i s = ubind (sys Ufork s) (\<lambda>r s. if rval r > 0 then Done i s else stress_fork k (Suc i) s)"

definition stressfs_main :: "ustate \<Rightarrow> unit urun" where
  "stressfs_main s =
     ubind (printf (nl ''stressfs starting'') [] s) (\<lambda>_ s.
     ubind (stress_fork 4 0 s) (\<lambda>i s.
     ubind (printf (nl ''write %d'') [unum (int i)] s) (\<lambda>_ s.
       let path = ''stressfs'' @ [char_of (48 + i)] in
       uval (Uopen path 0x202) (\<lambda>fd s.
         useq (replicate 20 (udo (Uwrite fd (replicate 512 CHR ''a''))) @
               [udo (Uclose fd), printf (nl ''read'') [],
                uval (Uopen path 0) (\<lambda>fd s.
                  useq (replicate 20 (\<lambda>s. ubind (uread fd 512 s) (\<lambda>_ s. Done () s)) @ [udo (Uclose fd)]) s),
                udo Uwait, uexit 0]) s) s)))"


text \<open>
  \<^verbatim>\<open>filetest\<close> prints a buffer on its stack as a string. It reads at most a hundred bytes
  into it and stores no zero after them, so the string is what was read only when there is a zero in
  it; otherwise the bytes after it are not initialised.
\<close>

definition print_buffer :: "string \<Rightarrow> string \<Rightarrow> ustate \<Rightarrow> unit urun" where
  "print_buffer fmt d s =
     (if CHR 0x00 \<in> set d then printf (nl fmt) [str (takeWhile (\<lambda>c. c \<noteq> CHR 0x00) d)] s else Fault)"

definition read_and_print :: "int \<Rightarrow> string \<Rightarrow> ustate \<Rightarrow> unit urun" where
  "read_and_print fd fmt s =
     ubind (uread fd 100 s) (\<lambda>r s.
       if rval r < 0 then useq [printf (nl ''read error'') [], uexit 1] s
       else useq [print_buffer fmt (rdata r), udo (Uclose fd)] s)"

definition filetest_main :: "ustate \<Rightarrow> int urun" where
  "filetest_main s =
     ubind (useq [printf (nl ''1. Creating file and writing content....'') [],
       uval (Uopen ''shappy'' 0x202) (\<lambda>fd s.
         if fd < 0 then useq [printf (nl ''create error'') [], uexit 1] s
         else useq [printf (nl ''create shappy success'') [], udo (Uwrite fd (nl ''Hello,Shappy'')), udo (Uclose fd)] s),
       printf (nl ''2. Reading file content...'') [],
       uval (Uopen ''shappy'' 0) (\<lambda>fd s.
         if fd < 0 then useq [printf (nl ''open error'') [], uexit 1] s
         else read_and_print fd ''read file content: %s'' s),
       printf (nl ''3. Creating hard link for shappy file...'') [],
       uval (Ulink ''shappy'' ''shappy_link'') (\<lambda>r s.
         if r < 0 then useq [printf (nl ''link error'') [], uexit 1] s
         else printf (nl ''create hard link success'') [] s),
       uval (Uopen ''shappy_link'' 0) (\<lambda>fd. read_and_print fd ''read hard link content: %s''),
       printf (nl ''4. Deleting file and verifying link content...'') [],
       udo (Uunlink ''shappy''),
       uval (Uopen ''shappy_link'' 0) (\<lambda>fd. read_and_print fd ''read link content after deletion: %s'')] s)
     (\<lambda>_ s. Done 0 s)"

text \<open>What the program itself wrote to the file has no zero in it.\<close>

lemma filetest_prints_uninitialised:
  "read_and_print 3 ''read file content: %s'' \<lparr>replies = RData (nl ''Hello,Shappy'') # rs, calls = cs\<rparr> = Fault"
  by (simp add: read_and_print_def uread_def sys_def print_buffer_def nl_def)

end
