(* ===== verification/Umalloc.thy ===== *)
theory Umalloc
  imports Ulib
begin

text \<open>
  The memory allocator of user programs, \<^verbatim>\<open>user/umalloc.c\<close>: a circular list of free
  blocks in the order of their addresses. Addresses are numbers, a header is sixteen bytes, and the
  two words of a header are two maps. The static header \<^verbatim>\<open>base\<close> lies below the heap. The
  units in a header are a number: every block is shown to lie in the memory the program was given,
  so they fit in a \<^verbatim>\<open>uint\<close> while that memory is below 64 gigabytes. The
  replies of \<^verbatim>\<open>sbrk\<close> come from the state, and its arguments are recorded.
\<close>

section \<open>The allocator\<close>

record uheap =
  hptr :: "nat \<Rightarrow> nat"
  hsize :: "nat \<Rightarrow> nat"
  freep :: nat
  base_addr :: nat
  sbrk_replies :: "int list"
  sbrk_args :: "int list"

definition HEADER :: nat where "HEADER = 16"

text \<open>The loop of \<^verbatim>\<open>free\<close> that looks for the two neighbours of a block.\<close>

partial_function (option) find_slot :: "uheap \<Rightarrow> nat \<Rightarrow> nat \<Rightarrow> nat option" where
  "find_slot h bp p =
     (if bp > p \<and> bp < hptr h p then Some p
      else if p \<ge> hptr h p \<and> (bp > p \<or> bp < hptr h p) then Some p
      else find_slot h bp (hptr h p))"

text \<open>The block is joined to the one above it, then to the one below.\<close>

definition join_upper :: "nat \<Rightarrow> nat \<Rightarrow> uheap \<Rightarrow> uheap" where
  "join_upper bp p h =
     (if bp + HEADER * hsize h bp = hptr h p
      then h\<lparr>hsize := (hsize h)(bp := hsize h bp + hsize h (hptr h p)), hptr := (hptr h)(bp := hptr h (hptr h p))\<rparr>
      else h\<lparr>hptr := (hptr h)(bp := hptr h p)\<rparr>)"

definition join_lower :: "nat \<Rightarrow> nat \<Rightarrow> uheap \<Rightarrow> uheap" where
  "join_lower bp p h =
     (if p + HEADER * hsize h p = bp
      then h\<lparr>hsize := (hsize h)(p := hsize h p + hsize h bp), hptr := (hptr h)(p := hptr h bp)\<rparr>
      else h\<lparr>hptr := (hptr h)(p := bp)\<rparr>)"

definition ufree :: "nat \<Rightarrow> uheap \<Rightarrow> uheap option" where
  "ufree ap h =
     (let bp = ap - HEADER in
      case find_slot h bp (freep h) of
        None \<Rightarrow> None
      | Some p \<Rightarrow> Some ((join_lower bp p (join_upper bp p h))\<lparr>freep := p\<rparr>))"

text \<open>
  \<^verbatim>\<open>morecore\<close> asks for at least 4096 units; the size in bytes is passed as an
  \<^verbatim>\<open>int\<close>. A null pointer says that there is no more memory.
\<close>

datatype 'a mres = MDone 'a uheap | MWait uheap

definition morecore :: "nat \<Rightarrow> uheap \<Rightarrow> nat mres option" where
  "morecore nu h =
     (let nu = (if nu < 4096 then 4096 else nu);
          h = h\<lparr>sbrk_args := sbrk_args h @ [c_int (int (nu * HEADER))]\<rparr> in
      case sbrk_replies h of
        [] \<Rightarrow> Some (MWait h)
      | p # rs \<Rightarrow>
          let h = h\<lparr>sbrk_replies := rs\<rparr> in
          if p = - 1 then Some (MDone 0 h)
          else
            let hp = nat p; h = h\<lparr>hsize := (hsize h)(hp := nu)\<rparr> in
            case ufree (hp + HEADER) h of None \<Rightarrow> None | Some h \<Rightarrow> Some (MDone (freep h) h))"

text \<open>Taking a block that is large enough: all of it, or its tail.\<close>

definition take_block :: "nat \<Rightarrow> nat \<Rightarrow> nat \<Rightarrow> uheap \<Rightarrow> nat \<times> uheap" where
  "take_block nunits prevp p h =
     (if hsize h p = nunits
      then (p + HEADER, h\<lparr>hptr := (hptr h)(prevp := hptr h p), freep := prevp\<rparr>)
      else
        let k = hsize h p - nunits; q = p + HEADER * k in
        (q + HEADER, h\<lparr>hsize := (hsize h)(p := k, q := nunits), freep := prevp\<rparr>))"

partial_function (option) malloc_loop :: "nat \<Rightarrow> nat \<Rightarrow> nat \<Rightarrow> uheap \<Rightarrow> nat mres option" where
  "malloc_loop nunits prevp p h =
     (if hsize h p \<ge> nunits then (case take_block nunits prevp p h of (ap, h) \<Rightarrow> Some (MDone ap h))
      else if p = freep h then
        (case morecore nunits h of
           None \<Rightarrow> None
         | Some (MWait h) \<Rightarrow> Some (MWait h)
         | Some (MDone q h) \<Rightarrow> if q = 0 then Some (MDone 0 h) else malloc_loop nunits q (hptr h q) h)
      else malloc_loop nunits p (hptr h p) h)"

text \<open>
  The units of a request, computed in 64 bits from a \<^verbatim>\<open>uint\<close>: the sum does not wrap, and the
  quotient fits in a \<^verbatim>\<open>uint\<close> again.
\<close>

definition units_of :: "uint32 \<Rightarrow> nat" where
  "units_of nbytes = (unat nbytes + HEADER - 1) div HEADER + 1"

definition malloc :: "uint32 \<Rightarrow> uheap \<Rightarrow> nat mres option" where
  "malloc nbytes h =
     (let h = (if freep h = 0
               then h\<lparr>freep := base_addr h, hptr := (hptr h)(base_addr h := base_addr h), hsize := (hsize h)(base_addr h := 0)\<rparr>
               else h)
      in malloc_loop (units_of nbytes) (freep h) (hptr h (freep h)) h)"

section \<open>The free list\<close>

text \<open>
  From a block the list runs through the given ones, each above the one before with a gap between
  them, and back to \<^verbatim>\<open>base\<close>.
\<close>

fun linked :: "uheap \<Rightarrow> nat \<Rightarrow> nat list \<Rightarrow> bool" where
  "linked h a [] = (hptr h a = base_addr h)"
| "linked h a (b # xs) = (hptr h a = b \<and> a + HEADER * hsize h a < b \<and> linked h b xs)"

fun segment :: "uheap \<Rightarrow> nat \<Rightarrow> nat list \<Rightarrow> nat \<Rightarrow> bool" where
  "segment h a [] p = (hptr h a = p \<and> a + HEADER * hsize h a < p)"
| "segment h a (b # xs) p = (hptr h a = b \<and> a + HEADER * hsize h a < b \<and> segment h b xs p)"

definition arena :: "uheap \<Rightarrow> nat list \<Rightarrow> bool" where
  "arena h xs =
     (0 < base_addr h \<and> hsize h (base_addr h) = 0 \<and> linked h (base_addr h) xs \<and>
      (\<forall>a \<in> set xs. 0 < hsize h a) \<and> freep h \<in> set (base_addr h # xs))"

text \<open>The bytes of a block, and those on the list.\<close>

definition block :: "nat \<Rightarrow> nat \<Rightarrow> nat set" where
  "block a n = {a ..< a + HEADER * n}"

definition free_bytes :: "uheap \<Rightarrow> nat list \<Rightarrow> nat set" where
  "free_bytes h xs = (\<Union>a \<in> set xs. block a (hsize h a))"

lemma free_bytes_all: "hsize h (base_addr h) = 0 \<Longrightarrow> free_bytes h xs = (\<Union>a \<in> set (base_addr h # xs). block a (hsize h a))"
  by (simp add: free_bytes_def block_def)

lemma linked_append: "linked h a (us @ p # vs) \<longleftrightarrow> segment h a us p \<and> linked h p vs"
  by (induction us arbitrary: a) auto

lemma segment_append: "segment h a (us @ p # vs) q \<longleftrightarrow> segment h a us p \<and> segment h p vs q"
  by (induction us arbitrary: a) auto

lemma linked_cong:
  "\<forall>x \<in> set (a # xs). hptr g x = hptr h x \<and> hsize g x = hsize h x \<Longrightarrow> base_addr g = base_addr h \<Longrightarrow> linked g a xs = linked h a xs"
  by (induction xs arbitrary: a) auto

lemma segment_cong:
  "\<forall>x \<in> set (a # us). hptr g x = hptr h x \<and> hsize g x = hsize h x \<Longrightarrow> segment g a us p = segment h a us p"
  by (induction us arbitrary: a) auto

lemma linked_above: "linked h a xs \<Longrightarrow> x \<in> set xs \<Longrightarrow> a + HEADER * hsize h a < x"
  by (induction xs arbitrary: a) fastforce+

lemma linked_sorted: "linked h a xs \<Longrightarrow> sorted_wrt (<) (a # xs)"
proof (induction xs arbitrary: a)
  case (Cons b xs)
  then show ?case using linked_above [of h a "b # xs"] by fastforce
qed simp


lemma arena_links:
  assumes "arena h xs" and "base_addr h # xs = as @ x # bs"
  shows "bs = [] \<Longrightarrow> hptr h x = base_addr h" and "bs = y # cs \<Longrightarrow> hptr h x = y \<and> x < y"
proof -
  have c: "linked h (base_addr h) xs" using assms(1) by (simp add: arena_def)
  have "linked h x bs"
  proof (cases as)
    case Nil
    then show ?thesis using assms(2) c by simp
  next
    case (Cons a as')
    then show ?thesis using assms(2) c by (simp add: linked_append)
  qed
  then show "bs = [] \<Longrightarrow> hptr h x = base_addr h" "bs = y # cs \<Longrightarrow> hptr h x = y \<and> x < y" by auto
qed

lemma arena_distinct: "arena h xs \<Longrightarrow> sorted_wrt (<) (base_addr h # xs)"
  unfolding arena_def using linked_sorted by blast

subsection \<open>Finding the neighbours\<close>

text \<open>The place of a block in the list: what is below it, and what is above.\<close>

definition slot :: "uheap \<Rightarrow> nat list \<Rightarrow> nat \<Rightarrow> nat list \<Rightarrow> nat \<Rightarrow> nat list \<Rightarrow> bool" where
  "slot h xs bp us p vs =
     (base_addr h # xs = us @ p # vs \<and> (\<forall>a \<in> set (us @ [p]). a < bp) \<and> (\<forall>a \<in> set vs. bp < a))"

lemma find_slot_here:
  assumes "arena h xs" and "slot h xs bp us p vs"
  shows "find_slot h bp p = Some p"
proof (cases vs)
  case Nil
  then have "hptr h p = base_addr h" using arena_links(1) [OF assms(1)] assms(2) by (auto simp: slot_def)
  moreover have "base_addr h \<le> p"
    using assms Nil arena_distinct [OF assms(1)] by (cases us) (auto simp: slot_def sorted_wrt_append)
  moreover have "p < bp" using assms(2) by (simp add: slot_def)
  ultimately show ?thesis by (simp add: find_slot.simps [of h bp p])
next
  case (Cons q ws)
  then have "hptr h p = q" using arena_links(2) [OF assms(1)] assms(2) by (auto simp: slot_def)
  moreover have "p < bp" "bp < q" using assms(2) Cons by (simp_all add: slot_def)
  ultimately show ?thesis by (simp add: find_slot.simps [of h bp p])
qed

lemma find_slot_below:
  assumes a: "arena h xs" and s: "slot h xs bp us p vs"
  shows "us = us1 @ c # us2 \<Longrightarrow> find_slot h bp c = Some p"
proof (induction us2 arbitrary: us1 c)
  case Nil
  then have "base_addr h # xs = us1 @ c # p # vs" using s by (simp add: slot_def)
  then have "hptr h c = p" "c < p" using arena_links(2) [OF a, of us1 c "p # vs"] by simp_all
  then show ?case using s find_slot_here [OF a s] by (simp add: find_slot.simps [of h bp c] slot_def)
next
  case (Cons d us2)
  then have "base_addr h # xs = us1 @ c # d # us2 @ p # vs" using s by (simp add: slot_def)
  then have l: "hptr h c = d" "c < d" using arena_links(2) [OF a, of us1 c "d # us2 @ p # vs"] by simp_all
  have "d < bp" using s Cons.prems by (simp add: slot_def)
  moreover have "find_slot h bp d = Some p" using Cons.IH [of "us1 @ [c]" d] Cons.prems by simp
  ultimately show ?case using l by (simp add: find_slot.simps [of h bp c])
qed

lemma find_slot_base:
  assumes a: "arena h xs" and s: "slot h xs bp us p vs"
  shows "find_slot h bp (base_addr h) = Some p"
proof (cases us)
  case Nil
  then have "p = base_addr h" using s by (simp add: slot_def)
  then show ?thesis using find_slot_here [OF a s] by simp
next
  case (Cons u us')
  then have "u = base_addr h" using s by (simp add: slot_def)
  then show ?thesis using find_slot_below [OF a s, of "[]" u us'] Cons by simp
qed

lemma find_slot_above:
  assumes a: "arena h xs" and s: "slot h xs bp us p vs"
  shows "vs = vs1 @ c # vs2 \<Longrightarrow> find_slot h bp c = Some p"
proof (induction vs2 arbitrary: vs1 c)
  case Nil
  then have "base_addr h # xs = (us @ p # vs1) @ [c]" using s by (simp add: slot_def)
  then have l: "hptr h c = base_addr h" by (rule arena_links(1) [OF a]) simp
  have "bp < c" "base_addr h < bp" using s Nil by (cases us; auto simp: slot_def)+
  then show ?case using l find_slot_base [OF a s] by (simp add: find_slot.simps [of h bp c])
next
  case (Cons d vs2)
  then have "base_addr h # xs = (us @ p # vs1) @ c # d # vs2" using s by (simp add: slot_def)
  then have l: "hptr h c = d" "c < d" using arena_links(2) [OF a, of "us @ p # vs1" c "d # vs2"] by simp_all
  have "bp < c" using s Cons.prems by (simp add: slot_def)
  moreover have "find_slot h bp d = Some p" using Cons.IH [of "vs1 @ [c]" d] Cons.prems by simp
  ultimately show ?case using l by (simp add: find_slot.simps [of h bp c])
qed

lemma find_slot_found:
  assumes a: "arena h xs" and s: "slot h xs bp us p vs"
  shows "find_slot h bp (freep h) = Some p"
proof -
  have "freep h \<in> set (us @ p # vs)" using a s unfolding arena_def slot_def by metis
  then consider "freep h \<in> set us" | "freep h = p" | "freep h \<in> set vs" by auto
  then show ?thesis
  proof cases
    case 1
    then show ?thesis using find_slot_below [OF a s] by (metis split_list)
  next
    case 2
    then show ?thesis using find_slot_here [OF a s] by simp
  next
    case 3
    then show ?thesis using find_slot_above [OF a s] by (metis split_list)
  qed
qed

text \<open>Every block above \<^verbatim>\<open>base\<close> that is not on the list has its place.\<close>

lemma slot_exists:
  assumes a: "arena h xs" and b: "base_addr h < bp" and n: "bp \<notin> set xs"
  obtains us p vs where "slot h xs bp us p vs"
proof -
  let ?zs = "base_addr h # xs"
  define lo where "lo = takeWhile (\<lambda>a. a < bp) ?zs"
  define hi where "hi = dropWhile (\<lambda>a. a < bp) ?zs"
  have zs: "?zs = lo @ hi" by (simp only: lo_def hi_def takeWhile_dropWhile_id)
  have "lo \<noteq> []" using b by (simp add: lo_def)
  then obtain us p where lo: "lo = us @ [p]" by (cases lo rule: rev_exhaust) auto
  have low: "x < bp" if "x \<in> set lo" for x using set_takeWhileD [of x "\<lambda>a. a < bp" ?zs] that by (simp only: lo_def)
  have up: "bp < x" if x: "x \<in> set hi" for x
  proof (cases hi)
    case Nil
    then show ?thesis using x by simp
  next
    case (Cons y ys)
    then have "\<not> y < bp" by (metis hi_def dropWhile_eq_Cons_conv)
    moreover have "y \<in> set ?zs" using zs Cons by simp
    ultimately have "bp < y" using n b by (cases "y = bp") auto
    moreover have "sorted_wrt (<) hi" using arena_distinct [OF a] zs by (metis sorted_wrt_append)
    ultimately show ?thesis using x Cons by auto
  qed
  have "slot h xs bp us p hi" unfolding slot_def using zs lo low up by simp
  then show ?thesis by (rule that)
qed


section \<open>Giving a block back\<close>

text \<open>The part of the list before a block: it starts at \<^verbatim>\<open>base\<close>.\<close>

definition leads_to :: "uheap \<Rightarrow> nat list \<Rightarrow> nat \<Rightarrow> bool" where
  "leads_to h us p = (case us of [] \<Rightarrow> p = base_addr h | u # us' \<Rightarrow> u = base_addr h \<and> segment h u us' p)"

lemma linked_split:
  "base_addr h # xs = us @ p # vs \<Longrightarrow> linked h (base_addr h) xs \<longleftrightarrow> leads_to h us p \<and> linked h p vs"
  by (cases us) (auto simp: leads_to_def linked_append)

lemma leads_to_cong:
  "\<forall>x \<in> set us. hptr g x = hptr h x \<and> hsize g x = hsize h x \<Longrightarrow> base_addr g = base_addr h \<Longrightarrow> leads_to g us p = leads_to h us p"
  using segment_cong [of "hd us" "tl us" g h p] by (cases us) (auto simp: leads_to_def)

text \<open>A list may go on from another block that ends at the same address.\<close>

lemma linked_from:
  assumes "hptr g a = hptr h b" and "a + HEADER * hsize g a = b + HEADER * hsize h b"
    and "\<forall>x \<in> set xs. hptr g x = hptr h x \<and> hsize g x = hsize h x" and "base_addr g = base_addr h"
  shows "linked g a xs = linked h b xs"
  using assms linked_cong [of "hd xs" "tl xs" g h] by (cases xs) auto

lemma block_join: "a + HEADER * m = b \<Longrightarrow> block a (m + n) = block a m \<union> block b n"
  by (auto simp: block_def algebra_simps)

text \<open>
  The block to be given back fits between its neighbours when it is not empty and shares no byte
  with the list.
\<close>

definition fits :: "uheap \<Rightarrow> nat list \<Rightarrow> nat \<Rightarrow> bool" where
  "fits h xs bp = (base_addr h < bp \<and> 0 < hsize h bp \<and> block bp (hsize h bp) \<inter> free_bytes h xs = {})"

lemma fits_slot:
  assumes a: "arena h xs" and f: "fits h xs bp"
  obtains us p vs where "slot h xs bp us p vs" "p + HEADER * hsize h p \<le> bp"
    "\<forall>q \<in> set vs. bp + HEADER * hsize h bp \<le> q"
proof -
  have hb: "0 < HEADER * hsize h bp" using f by (simp add: fits_def HEADER_def)
  have on: "0 < HEADER * hsize h x" if "x \<in> set xs" for x using a that by (simp add: arena_def HEADER_def)
  have apart: "block bp (hsize h bp) \<inter> block x (hsize h x) = {}" if "x \<in> set xs" for x
    using f that by (auto simp: fits_def free_bytes_def)
  have n: "bp \<notin> set xs"
  proof
    assume "bp \<in> set xs"
    then have "bp \<in> block bp (hsize h bp) \<inter> block bp (hsize h bp)" using hb by (simp add: block_def)
    then show False using apart [OF \<open>bp \<in> set xs\<close>] by blast
  qed
  obtain us p vs where s: "slot h xs bp us p vs" using slot_exists [OF a _ n] f by (auto simp: fits_def)
  have zs: "set (us @ p # vs) = set (base_addr h # xs)" using s by (metis slot_def)
  have p: "p + HEADER * hsize h p \<le> bp"
  proof (cases "p = base_addr h")
    case True
    then show ?thesis using a f by (simp add: arena_def fits_def)
  next
    case False
    then have "p \<in> set xs" using zs by auto
    have "bp \<in> block bp (hsize h bp)" using hb by (simp add: block_def)
    with apart [OF \<open>p \<in> set xs\<close>] have "bp \<notin> block p (hsize h p)" by blast
    moreover have "p < bp" using s by (simp add: slot_def)
    ultimately show ?thesis by (simp add: block_def)
  qed
  have "bp + HEADER * hsize h bp \<le> q" if q: "q \<in> set vs" for q
  proof -
    have "q \<noteq> base_addr h" using arena_distinct [OF a] s q by (cases us) (auto simp: slot_def sorted_wrt_append)
    then have "q \<in> set xs" using zs q by auto
    have "q \<in> block q (hsize h q)" using on [OF \<open>q \<in> set xs\<close>] by (simp add: block_def)
    with apart [OF \<open>q \<in> set xs\<close>] have "q \<notin> block bp (hsize h bp)" by blast
    moreover have "bp < q" using s q by (simp add: slot_def)
    ultimately show ?thesis by (simp add: block_def)
  qed
  then show ?thesis using that s p by blast
qed

text \<open>After the first step the block leads to what is above it.\<close>

lemma join_upper_linked:
  assumes c: "linked h p vs" and p: "p < bp" "bp \<notin> set vs" and b: "base_addr h < bp"
    and up: "\<forall>q \<in> set vs. bp + HEADER * hsize h bp \<le> q"
  obtains vs' where "linked (join_upper bp p h) bp vs'" "set vs' \<subseteq> set vs"
    "block bp (hsize (join_upper bp p h) bp) \<union> (\<Union>a \<in> set vs'. block a (hsize h a)) =
       block bp (hsize h bp) \<union> (\<Union>a \<in> set vs. block a (hsize h a))"
    "hsize h bp \<le> hsize (join_upper bp p h) bp"
proof (cases "bp + HEADER * hsize h bp = hptr h p")
  case True
  then obtain vs' where vs: "vs = hptr h p # vs'" using c b by (cases vs) auto
  let ?q = "hptr h p" and ?g = "join_upper bp p h"
  have cq: "linked h ?q vs'" using c vs by simp
  have "?q \<notin> set vs'" using linked_above [OF cq] by fastforce
  have "linked ?g bp vs'"
  proof (subst linked_from [of ?g bp h ?q])
    show "hptr ?g bp = hptr h ?q" "base_addr ?g = base_addr h" using True by (simp_all add: join_upper_def)
    show "bp + HEADER * hsize ?g bp = ?q + HEADER * hsize h ?q" using True by (simp add: join_upper_def algebra_simps)
    show "\<forall>x \<in> set vs'. hptr ?g x = hptr h x \<and> hsize ?g x = hsize h x" using p(2) vs by (auto simp: join_upper_def)
    show "linked h ?q vs'" by (rule cq)
  qed
  moreover have "block bp (hsize ?g bp) = block bp (hsize h bp) \<union> block ?q (hsize h ?q)"
    using True block_join [OF True] by (simp add: join_upper_def)
  ultimately show ?thesis using that [of vs'] vs True by (auto simp: join_upper_def)
next
  case False
  let ?g = "join_upper bp p h"
  have g: "hptr ?g = (hptr h)(bp := hptr h p)" "hsize ?g = hsize h" "base_addr ?g = base_addr h"
    using False by (simp_all add: join_upper_def)
  have "linked ?g bp vs"
  proof (cases vs)
    case Nil
    then show ?thesis using c g by simp
  next
    case (Cons q ws)
    then have "linked ?g q ws = linked h q ws" using p(2) by (intro linked_cong) (auto simp: g)
    moreover have "hptr h p = q" "bp + HEADER * hsize h bp \<le> q" using c Cons up by simp_all
    ultimately show ?thesis using c Cons False g by simp
  qed
  then show ?thesis using that [of vs] g by simp
qed


text \<open>After the second step the block below leads to it, or has become one with it.\<close>

lemma join_lower_linked:
  assumes c: "linked g bp vs" and p: "p < bp" "p \<notin> set vs" "bp \<notin> set vs" and lo: "p + HEADER * hsize g p \<le> bp"
  obtains ws where "linked (join_lower bp p g) p ws" "set ws \<subseteq> insert bp (set vs)"
    "block p (hsize (join_lower bp p g) p) \<union> (\<Union>a \<in> set ws. block a (hsize (join_lower bp p g) a)) =
       block p (hsize g p) \<union> block bp (hsize g bp) \<union> (\<Union>a \<in> set vs. block a (hsize g a))"
    "\<exists>a \<in> insert p (set ws). hsize g bp \<le> hsize (join_lower bp p g) a"
    "hsize g p \<le> hsize (join_lower bp p g) p" "\<forall>a. a \<noteq> p \<longrightarrow> hsize (join_lower bp p g) a = hsize g a"
    "p + HEADER * hsize g p < bp \<longrightarrow> hsize (join_lower bp p g) p = hsize g p"
proof (cases "p + HEADER * hsize g p = bp")
  case True
  let ?k = "join_lower bp p g"
  have k: "hptr ?k = (hptr g)(p := hptr g bp)" "hsize ?k = (hsize g)(p := hsize g p + hsize g bp)" "base_addr ?k = base_addr g"
    using True by (simp_all add: join_lower_def)
  have "linked ?k p vs"
  proof (subst linked_from [of ?k p g bp])
    show "p + HEADER * hsize ?k p = bp + HEADER * hsize g bp" using True by (simp add: k algebra_simps)
    show "\<forall>x \<in> set vs. hptr ?k x = hptr g x \<and> hsize ?k x = hsize g x" using p(2) by (auto simp: k)
  qed (use c k in simp_all)
  moreover have "block p (hsize ?k p) = block p (hsize g p) \<union> block bp (hsize g bp)"
    using block_join [OF True] by (simp add: k)
  moreover have "(\<Union>a \<in> set vs. block a (hsize ?k a)) = (\<Union>a \<in> set vs. block a (hsize g a))"
    using p(2) by (intro SUP_cong) (auto simp: k)
  ultimately show ?thesis using that [of vs] True by (auto simp: k)
next
  case False
  let ?k = "join_lower bp p g"
  have k: "hptr ?k = (hptr g)(p := bp)" "hsize ?k = hsize g" "base_addr ?k = base_addr g"
    using False by (simp_all add: join_lower_def)
  have "linked ?k bp vs = linked g bp vs" using p by (intro linked_cong) (auto simp: k)
  then have "linked ?k p (bp # vs)" using c lo False by (simp add: k)
  then show ?thesis using that [of "bp # vs"] by (auto simp: k)
qed

lemma join_fields [simp]:
  "base_addr (join_upper bp p h) = base_addr h" "base_addr (join_lower bp p h) = base_addr h"
  "sbrk_replies (join_upper bp p h) = sbrk_replies h" "sbrk_replies (join_lower bp p h) = sbrk_replies h"
  "sbrk_args (join_upper bp p h) = sbrk_args h" "sbrk_args (join_lower bp p h) = sbrk_args h"
  by (simp_all add: join_upper_def join_lower_def)

lemma join_upper_others: "x \<noteq> bp \<Longrightarrow> hptr (join_upper bp p h) x = hptr h x \<and> hsize (join_upper bp p h) x = hsize h x"
  by (simp add: join_upper_def)

lemma join_lower_others: "x \<noteq> p \<Longrightarrow> hptr (join_lower bp p h) x = hptr h x \<and> hsize (join_lower bp p h) x = hsize h x"
  by (simp add: join_lower_def)

lemma linked_record [simp]:
  "linked (h\<lparr>freep := p\<rparr>) a xs = linked h a xs"
  by (rule linked_cong) simp_all

lemma leads_to_record [simp]: "leads_to (h\<lparr>freep := p\<rparr>) us q = leads_to h us q"
  by (rule leads_to_cong) simp_all

text \<open>
  \<^verbatim>\<open>free\<close> gives the bytes of the block to the list, and leaves the sizes of all the blocks
  that are not on it.
\<close>

definition freed :: "uheap \<Rightarrow> nat list \<Rightarrow> nat \<Rightarrow> uheap \<Rightarrow> nat list \<Rightarrow> bool" where
  "freed h xs bp h' ys =
     (arena h' ys \<and> free_bytes h' ys = free_bytes h xs \<union> block bp (hsize h bp) \<and>
      (\<forall>a. a \<notin> set xs \<and> a \<noteq> bp \<longrightarrow> hsize h' a = hsize h a) \<and> (\<exists>a \<in> set ys. hsize h bp \<le> hsize h' a) \<and>
      base_addr h' = base_addr h \<and> sbrk_replies h' = sbrk_replies h \<and> sbrk_args h' = sbrk_args h)"

text \<open>Both steps together, between the neighbours of the block.\<close>

definition joined :: "uheap \<Rightarrow> nat \<Rightarrow> nat \<Rightarrow> nat list \<Rightarrow> uheap \<Rightarrow> nat list \<Rightarrow> bool" where
  "joined h bp p vs k ws =
     (linked k p ws \<and> set ws \<subseteq> insert bp (set vs) \<and>
      (\<forall>x. x \<noteq> p \<and> x \<noteq> bp \<longrightarrow> hptr k x = hptr h x \<and> hsize k x = hsize h x) \<and>
      hsize h p \<le> hsize k p \<and> hsize h bp \<le> hsize k bp \<and>
      (p + HEADER * hsize h p < bp \<longrightarrow> hsize k p = hsize h p) \<and>
      (\<exists>a \<in> insert p (set ws). hsize h bp \<le> hsize k a) \<and>
      block p (hsize k p) \<union> (\<Union>a \<in> set ws. block a (hsize k a)) =
        block p (hsize h p) \<union> block bp (hsize h bp) \<union> (\<Union>a \<in> set vs. block a (hsize h a)))"

lemma join_both:
  assumes c: "linked h p vs" and p: "p < bp" "p \<notin> set vs" "bp \<notin> set vs" and b: "base_addr h < bp"
    and lo: "p + HEADER * hsize h p \<le> bp" and up: "\<forall>q \<in> set vs. bp + HEADER * hsize h bp \<le> q"
  obtains ws where "joined h bp p vs (join_lower bp p (join_upper bp p h)) ws"
proof -
  let ?g = "join_upper bp p h"
  obtain vs' where 1: "linked ?g bp vs'" "set vs' \<subseteq> set vs"
    "block bp (hsize ?g bp) \<union> (\<Union>a \<in> set vs'. block a (hsize h a)) = block bp (hsize h bp) \<union> (\<Union>a \<in> set vs. block a (hsize h a))"
    "hsize h bp \<le> hsize ?g bp"
    using join_upper_linked [OF c p(1,3) b up] by blast
  have gs: "hptr ?g x = hptr h x \<and> hsize ?g x = hsize h x" if "x \<noteq> bp" for x using join_upper_others [OF that] .
  have notin: "p \<notin> set vs'" "bp \<notin> set vs'" using p(2,3) 1(2) by auto
  have lo': "p + HEADER * hsize ?g p \<le> bp" using lo gs [of p] p(1) by simp
  let ?k = "join_lower bp p ?g"
  obtain ws where 2: "linked ?k p ws" "set ws \<subseteq> insert bp (set vs')"
    "block p (hsize ?k p) \<union> (\<Union>a \<in> set ws. block a (hsize ?k a)) =
       block p (hsize ?g p) \<union> block bp (hsize ?g bp) \<union> (\<Union>a \<in> set vs'. block a (hsize ?g a))"
    "\<exists>a \<in> insert p (set ws). hsize ?g bp \<le> hsize ?k a" "hsize ?g p \<le> hsize ?k p" "\<forall>a. a \<noteq> p \<longrightarrow> hsize ?k a = hsize ?g a"
    "p + HEADER * hsize ?g p < bp \<longrightarrow> hsize ?k p = hsize ?g p"
    by (rule join_lower_linked [OF 1(1) p(1) notin lo'])
  have gp: "hsize ?g p = hsize h p" using gs p(1) by simp
  have "(\<Union>a \<in> set vs'. block a (hsize ?g a)) = (\<Union>a \<in> set vs'. block a (hsize h a))"
  proof (rule SUP_cong [OF refl])
    show "block x (hsize ?g x) = block x (hsize h x)" if "x \<in> set vs'" for x using gs [of x] notin(2) that by (cases "x = bp") auto
  qed
  then have bl: "block p (hsize ?k p) \<union> (\<Union>a \<in> set ws. block a (hsize ?k a)) =
      block p (hsize h p) \<union> block bp (hsize h bp) \<union> (\<Union>a \<in> set vs. block a (hsize h a))"
    using 2(3) 1(3) gp by (simp add: Un_assoc)
  have fr: "\<forall>x. x \<noteq> p \<and> x \<noteq> bp \<longrightarrow> hptr ?k x = hptr h x \<and> hsize ?k x = hsize h x"
    using gs join_lower_others [of _ p bp ?g] by simp
  have "hsize ?k bp = hsize ?g bp" using 2(6) p(1) by simp
  then have "joined h bp p vs ?k ws"
    unfolding joined_def using 1(2,4) 2(1,2,4,5,7) gp fr bl by (auto intro: order_trans)
  then show ?thesis by (rule that)
qed

lemma ufree_frees:
  assumes a: "arena h xs" and f: "fits h xs bp"
  shows "\<exists>h' ys. ufree (bp + HEADER) h = Some h' \<and> freed h xs bp h' ys"
proof -
  obtain us p vs where s: "slot h xs bp us p vs" and lo: "p + HEADER * hsize h p \<le> bp"
    and up: "\<forall>q \<in> set vs. bp + HEADER * hsize h bp \<le> q"
    using fits_slot [OF a f] by blast
  let ?B = "base_addr h" and ?k = "join_lower bp p (join_upper bp p h)"
  have zs: "?B # xs = us @ p # vs" and lt: "p < bp" "\<forall>x \<in> set us. x < bp" "bp \<notin> set vs" using s by (auto simp: slot_def)
  have B: "?B < bp" "0 < hsize h bp" "hsize h ?B = 0" "0 < ?B" using a f by (auto simp: arena_def fits_def)
  have dist: "p \<notin> set us" "p \<notin> set vs" using arena_distinct [OF a] unfolding zs by (auto simp: sorted_wrt_append)
  have ch: "leads_to h us p" "linked h p vs" using a linked_split [OF zs] by (auto simp: arena_def)
  obtain ws where j: "joined h bp p vs ?k ws" using join_both [OF ch(2) lt(1) dist(2) lt(3) B(1) lo up] .
  then have kc: "linked ?k p ws" and ws: "set ws \<subseteq> insert bp (set vs)"
    and same: "\<And>x. x \<noteq> p \<Longrightarrow> x \<noteq> bp \<Longrightarrow> hptr ?k x = hptr h x \<and> hsize ?k x = hsize h x"
    and ge: "hsize h p \<le> hsize ?k p" "hsize h bp \<le> hsize ?k bp" and keep: "p + HEADER * hsize h p < bp \<longrightarrow> hsize ?k p = hsize h p"
    and big: "\<exists>a \<in> insert p (set ws). hsize h bp \<le> hsize ?k a"
    and bl: "block p (hsize ?k p) \<union> (\<Union>a \<in> set ws. block a (hsize ?k a)) =
        block p (hsize h p) \<union> block bp (hsize h bp) \<union> (\<Union>a \<in> set vs. block a (hsize h a))"
    by (simp_all add: joined_def)
  let ?h = "?k\<lparr>freep := p\<rparr>"
  have run: "ufree (bp + HEADER) h = Some ?h" using find_slot_found [OF a s] by (simp add: ufree_def)
  define ys where "ys = tl (us @ p # ws)"
  have hd: "hd (us @ p # ws) = ?B" using zs by (cases us) auto
  have ys: "?B # ys = us @ p # ws" unfolding ys_def hd [symmetric] by simp
  have us_same: "hptr ?k x = hptr h x \<and> hsize ?k x = hsize h x" if "x \<in> set us" for x
    by (rule same) (use that dist(1) lt(2) in auto)
  have kB: "hsize ?k ?B = 0"
  proof (cases "p = ?B")
    case True
    then show ?thesis using keep B by simp
  next
    case False
    then have "?B \<in> set us" using zs by (cases us) auto
    then show ?thesis using us_same B by simp
  qed
  have "leads_to ?k us p" using leads_to_cong [of us ?k h p] us_same ch(1) by simp
  then have chn: "linked ?h (base_addr ?h) ys" using linked_split [of ?h ys us p ws] ys kc by simp
  have inxs: "x \<in> set xs" if "x \<in> set (us @ p # vs)" "x \<noteq> ?B" for x using that zs by (metis set_ConsD)
  have grow: "hsize h x \<le> hsize ?k x" for x using same [of x] ge by (cases "x = p"; cases "x = bp") auto
  have pos: "0 < hsize ?k x" if x: "x \<in> set ys" for x
  proof -
    have "?B < x" using linked_above [OF chn] x kB by simp
    moreover have "x \<in> set (us @ p # ws)" unfolding ys [symmetric] using x by simp
    ultimately have "x = bp \<or> x \<in> set xs" using inxs [of x] ws by auto
    then have "0 < hsize h x" using a B(2) by (auto simp: arena_def)
    then show ?thesis using grow [of x] by simp
  qed
  have "free_bytes ?h ys = (\<Union>a \<in> set (us @ p # ws). block a (hsize ?k a))"
    using free_bytes_all [of ?h ys] kB ys by simp
  also have "\<dots> = (\<Union>a \<in> set us. block a (hsize ?k a)) \<union> (block p (hsize ?k p) \<union> (\<Union>a \<in> set ws. block a (hsize ?k a)))" by auto
  also have "\<dots> = (\<Union>a \<in> set us. block a (hsize h a)) \<union> (block p (hsize h p) \<union> block bp (hsize h bp) \<union> (\<Union>a \<in> set vs. block a (hsize h a)))"
    using us_same bl by simp
  also have "\<dots> = (\<Union>a \<in> set (us @ p # vs). block a (hsize h a)) \<union> block bp (hsize h bp)" by auto
  also have "\<dots> = free_bytes h xs \<union> block bp (hsize h bp)" using free_bytes_all [of h xs] B(3) zs by simp
  finally have bytes: "free_bytes ?h ys = free_bytes h xs \<union> block bp (hsize h bp)" .
  have "arena ?h ys" using chn kB pos B(4) ys by (auto simp: arena_def)
  moreover have "\<exists>a \<in> set ys. hsize h bp \<le> hsize ?h a"
  proof -
    obtain x where x: "x \<in> insert p (set ws)" "hsize h bp \<le> hsize ?k x" using big by blast
    then have "x \<noteq> ?B" using kB B(2) by auto
    moreover have "x \<in> set (?B # ys)" using x(1) unfolding ys by auto
    ultimately show ?thesis using x(2) by (intro bexI [of _ x]) auto
  qed
  moreover have "hsize ?h x = hsize h x" if x: "x \<notin> set xs" "x \<noteq> bp" for x
    using same [OF _ x(2)] kB B(3) inxs [of p] x(1) by (cases "x = p"; cases "p = ?B") auto
  ultimately show ?thesis using run bytes by (auto simp: freed_def)
qed


section \<open>Taking a block\<close>

text \<open>The list as the loop of \<^verbatim>\<open>malloc\<close> walks it: from a block all the way round to it.\<close>

fun path :: "uheap \<Rightarrow> nat \<Rightarrow> nat list \<Rightarrow> bool" where
  "path h a [] = True"
| "path h a (b # bs) = (hptr h a = b \<and> path h b bs)"

lemma path_append: "path h a (xs @ ys) \<longleftrightarrow> path h a xs \<and> path h (last (a # xs)) ys"
  by (induction xs arbitrary: a) auto

lemma linked_path: "linked h a xs \<Longrightarrow> path h a xs \<and> hptr h (last (a # xs)) = base_addr h"
  by (induction xs arbitrary: a) auto

lemma segment_path: "segment h a us p \<Longrightarrow> path h a (us @ [p])"
  by (induction us arbitrary: a) auto

lemma arena_round:
  assumes a: "arena h xs" and f: "f \<in> set (base_addr h # xs)"
  obtains ps where "path h f (ps @ [f])" "set (ps @ [f]) = set (base_addr h # xs)" "f \<notin> set ps"
proof -
  obtain us vs where zs: "base_addr h # xs = us @ f # vs" using f by (metis split_list)
  then have c: "leads_to h us f" "linked h f vs" using a linked_split [OF zs] by (auto simp: arena_def)
  have "path h (last (f # vs)) (us @ [f])"
    using c(1) linked_path [OF c(2)] segment_path by (cases us) (auto simp: leads_to_def)
  then have 1: "path h f ((vs @ us) @ [f])" using linked_path [OF c(2)] path_append [of h f vs "us @ [f]"] by simp
  have 2: "set ((vs @ us) @ [f]) = set (base_addr h # xs)" unfolding zs by auto
  have 3: "f \<notin> set (vs @ us)" using arena_distinct [OF a] unfolding zs by (auto simp: sorted_wrt_append)
  show ?thesis by (rule that [OF 1 2 3])
qed

text \<open>The loop stops at the first block that is large enough, or comes back to its start.\<close>

lemma malloc_loop_found:
  "path h prevp (ps @ [e]) \<Longrightarrow> \<forall>x \<in> set ps. hsize h x < n \<and> x \<noteq> freep h \<Longrightarrow> n \<le> hsize h e \<Longrightarrow>
   malloc_loop n prevp (hd (ps @ [e])) h =
     (case take_block n (last (prevp # ps)) e h of (ap, h) \<Rightarrow> Some (MDone ap h))"
proof (induction ps arbitrary: prevp)
  case Nil
  then show ?case by (simp add: malloc_loop.simps [of n prevp])
next
  case (Cons x ps)
  have "malloc_loop n prevp x h = malloc_loop n x (hptr h x) h" using Cons.prems by (simp add: malloc_loop.simps [of n prevp])
  moreover have "hptr h x = hd (ps @ [e])" using Cons.prems(1) by (cases ps) auto
  ultimately show ?case using Cons.IH [of x] Cons.prems by simp
qed

lemma malloc_loop_round:
  "path h prevp (ps @ [freep h]) \<Longrightarrow> \<forall>x \<in> set ps. hsize h x < n \<and> x \<noteq> freep h \<Longrightarrow> hsize h (freep h) < n \<Longrightarrow>
   malloc_loop n prevp (hd (ps @ [freep h])) h =
     (case morecore n h of
        None \<Rightarrow> None
      | Some (MWait h) \<Rightarrow> Some (MWait h)
      | Some (MDone q h) \<Rightarrow> if q = 0 then Some (MDone 0 h) else malloc_loop n q (hptr h q) h)"
proof (induction ps arbitrary: prevp)
  case Nil
  then show ?case by (simp add: malloc_loop.simps [of n prevp "freep h"])
next
  case (Cons x ps)
  have "malloc_loop n prevp x h = malloc_loop n x (hptr h x) h" using Cons.prems by (simp add: malloc_loop.simps [of n prevp x])
  moreover have "hptr h x = hd (ps @ [freep h])" using Cons.prems(1) by (cases ps) auto
  ultimately show ?case using Cons.IH [of x] Cons.prems by simp
qed

text \<open>What taking a block of \<open>n\<close> units from the list does.\<close>

definition taken :: "uheap \<Rightarrow> nat list \<Rightarrow> nat \<Rightarrow> nat \<Rightarrow> uheap \<Rightarrow> nat list \<Rightarrow> bool" where
  "taken h xs n bp h' ys =
     (arena h' ys \<and> hsize h' bp = n \<and> base_addr h < bp \<and> block bp n \<inter> free_bytes h' ys = {} \<and>
      block bp n \<union> free_bytes h' ys = free_bytes h xs \<and>
      (\<forall>a. a \<notin> free_bytes h xs \<longrightarrow> hsize h' a = hsize h a) \<and>
      base_addr h' = base_addr h \<and> sbrk_replies h' = sbrk_replies h)"

lemma link_split:
  assumes a: "arena h xs" and p: "prevp \<in> set (base_addr h # xs)" and e: "hptr h prevp = e" "e \<noteq> base_addr h"
  obtains us vs where "base_addr h # xs = us @ prevp # e # vs"
proof -
  obtain us bs where zs: "base_addr h # xs = us @ prevp # bs" using p by (metis split_list)
  show ?thesis
  proof (cases bs)
    case Nil
    then show ?thesis using arena_links(1) [OF a zs] e by simp
  next
    case (Cons y vs)
    then have "y = e" using arena_links(2) [OF a zs] e(1) by simp
    then show ?thesis using that zs Cons by simp
  qed
qed


lemma arena_gap:
  assumes a: "arena h xs" and x: "x \<in> set (base_addr h # xs)" and y: "y \<in> set (base_addr h # xs)" and lt: "x < y"
  shows "x + HEADER * hsize h x < y"
proof -
  obtain us vs where zs: "base_addr h # xs = us @ x # vs" using x by (metis split_list)
  have "\<forall>z \<in> set us. z < x" using arena_distinct [OF a] unfolding zs by (simp add: sorted_wrt_append)
  then have "y \<in> set vs" using y lt unfolding zs by auto
  moreover have "linked h x vs" using a linked_split [OF zs] by (simp add: arena_def)
  ultimately show ?thesis by (rule linked_above [rotated])
qed

lemma arena_blocks_apart:
  assumes "arena h xs" and "x \<in> set xs" and "y \<in> set xs" and "x \<noteq> y"
  shows "block x (hsize h x) \<inter> block y (hsize h y) = {}"
  using arena_gap [OF assms(1), of x y] arena_gap [OF assms(1), of y x] assms(2-4)
  by (cases "x < y") (auto simp: block_def)

lemma linked_shrink:
  "linked h a xs \<Longrightarrow> \<forall>x \<in> set (a # xs). hptr g x = hptr h x \<and> hsize g x \<le> hsize h x \<Longrightarrow> base_addr g = base_addr h \<Longrightarrow> linked g a xs"
proof (induction xs arbitrary: a)
  case (Cons b xs)
  have "a + HEADER * hsize g a \<le> a + HEADER * hsize h a" using Cons.prems by simp
  also have "\<dots> < b" using Cons.prems(1) by simp
  finally have "a + HEADER * hsize g a < b" .
  then show ?case using Cons by simp
qed simp

lemma UN_take: "e \<in> A \<Longrightarrow> (\<Union>x \<in> A. f x) = f e \<union> (\<Union>x \<in> A - {e}. f x)"
  by auto

lemma block_first: "0 < n \<Longrightarrow> a \<in> block a n"
  by (simp add: block_def HEADER_def)

text \<open>A block of exactly the right size leaves the list.\<close>

lemma take_whole:
  assumes a: "arena h xs" and zs: "base_addr h # xs = us @ prevp # e # vs" and n: "hsize h e = n"
  shows "\<exists>ys. taken h xs n e (h\<lparr>hptr := (hptr h)(prevp := hptr h e), freep := prevp\<rparr>) ys"
proof -
  let ?g = "h\<lparr>hptr := (hptr h)(prevp := hptr h e), freep := prevp\<rparr>"
  define ys where "ys = tl (us @ prevp # vs)"
  have "hd (us @ prevp # vs) = base_addr h" using zs by (cases us) auto
  then have ys: "base_addr h # ys = us @ prevp # vs" unfolding ys_def by (metis list.collapse append_is_Nil_conv list.distinct(1))
  have srt: "sorted_wrt (<) (us @ prevp # e # vs)" using arena_distinct [OF a] unfolding zs .
  then have di: "prevp \<notin> set us" "prevp \<notin> set vs" "prevp < e" "e \<notin> set us" "e \<notin> set vs" by (auto simp: sorted_wrt_append)
  have "leads_to h us prevp \<and> linked h prevp (e # vs)" using linked_split [OF zs] a by (simp add: arena_def)
  then have c: "leads_to h us prevp" "prevp + HEADER * hsize h prevp < e" "linked h e vs" by simp_all
  have "linked ?g prevp vs"
  proof (cases vs)
    case Nil
    then show ?thesis using c(3) by simp
  next
    case (Cons v ws)
    have "linked ?g v ws = linked h v ws" using di(2) Cons by (intro linked_cong) auto
    then show ?thesis using c Cons by simp
  qed
  moreover have "leads_to ?g us prevp" using leads_to_cong [of us ?g h prevp] c(1) di(1) by auto
  ultimately have "linked ?g (base_addr ?g) ys" using linked_split [of ?g ys us prevp vs] ys by simp
  moreover have xe: "e \<in> set xs" "base_addr h < e" using zs srt by (cases us; auto)+
  moreover have sx: "set xs = insert e (set ys)"
  proof -
    have "set (base_addr h # xs) = insert e (set (base_addr h # ys))" unfolding zs ys by auto
    moreover have "base_addr h \<notin> set xs" "base_addr h \<notin> set ys" using arena_distinct [OF a] srt ys zs by (auto simp: sorted_wrt_append Cons_eq_append_conv)
    ultimately show ?thesis using xe(2) insert_ident [of "base_addr h" "set xs" "insert e (set ys)"] by (simp add: insert_commute)
  qed
  ultimately have ar: "arena ?g ys" using a ys by (auto simp: arena_def)
  have "e \<notin> set (us @ prevp # vs)" using di by auto
  then have "e \<notin> set ys" unfolding ys [symmetric] by simp
  then have "block e n \<inter> free_bytes ?g ys = {}"
    using arena_blocks_apart [OF a xe(1)] sx n by (auto simp: free_bytes_def)
  moreover have "block e n \<union> free_bytes ?g ys = free_bytes h xs" using n by (auto simp: free_bytes_def sx)
  ultimately show ?thesis using ar n xe(2) by (auto simp: taken_def)
qed

text \<open>A larger one keeps its first part.\<close>

lemma take_tail:
  assumes a: "arena h xs" and p: "prevp \<in> set (base_addr h # xs)" and e: "e \<in> set xs" and n: "0 < n" "n < hsize h e"
  shows "\<exists>ys. taken h xs n (e + HEADER * (hsize h e - n))
    (h\<lparr>hsize := (hsize h)(e := hsize h e - n, e + HEADER * (hsize h e - n) := n), freep := prevp\<rparr>) ys"
proof -
  let ?k = "hsize h e - n"
  let ?q = "e + HEADER * ?k"
  let ?g = "h\<lparr>hsize := (hsize h)(e := ?k, ?q := n), freep := prevp\<rparr>"
  have be: "base_addr h < e" using arena_distinct [OF a] e by simp
  have q: "e < ?q" "?q < e + HEADER * hsize h e" using n by (auto simp: HEADER_def)
  have out: "?q \<notin> set (base_addr h # xs)"
  proof
    assume "?q \<in> set (base_addr h # xs)"
    from arena_gap [OF a _ this q(1)] e q(2) show False by simp
  qed
  have gs: "hsize ?g x = (if x = e then ?k else hsize h x)" if "x \<in> set (base_addr h # xs)" for x
    using that out by auto
  have "linked ?g (base_addr h) xs"
    by (rule linked_shrink [of h]) (use a gs in \<open>auto simp: arena_def\<close>)
  then have ar: "arena ?g xs" using a p gs be n by (auto simp: arena_def)
  have whole: "block e (hsize h e) = block e ?k \<union> block ?q n" using block_join [of e ?k ?q n] n by simp
  have rest: "(\<Union>x \<in> set xs - {e}. block x (hsize ?g x)) = (\<Union>x \<in> set xs - {e}. block x (hsize h x))"
    by (rule SUP_cong [OF refl]) (use gs in auto)
  have fg: "free_bytes ?g xs = block e ?k \<union> (\<Union>x \<in> set xs - {e}. block x (hsize h x))"
    unfolding free_bytes_def UN_take [OF e] rest using gs [of e] e by simp
  have fh: "free_bytes h xs = block e (hsize h e) \<union> (\<Union>x \<in> set xs - {e}. block x (hsize h x))"
    unfolding free_bytes_def by (rule UN_take [OF e])
  have ap: "block ?q n \<inter> (\<Union>x \<in> set xs - {e}. block x (hsize h x)) = {}"
    using arena_blocks_apart [OF a e] whole by blast
  have "block ?q n \<inter> block e ?k = {}" by (auto simp: block_def)
  then have "block ?q n \<inter> free_bytes ?g xs = {}" using ap fg by auto
  moreover have "block ?q n \<union> free_bytes ?g xs = free_bytes h xs" using fg fh whole by auto
  moreover have "e \<in> free_bytes h xs" "?q \<in> free_bytes h xs" using fh block_first [of "hsize h e" e] block_first [OF n(1), of ?q] whole n by auto
  ultimately show ?thesis using ar be q(1) by (intro exI [of _ xs]) (auto simp: taken_def)
qed

lemma take_block_takes:
  assumes a: "arena h xs" and p: "prevp \<in> set (base_addr h # xs)" "hptr h prevp = e" and n: "0 < n" "n \<le> hsize h e"
  shows "\<exists>bp h' ys. take_block n prevp e h = (bp + HEADER, h') \<and> taken h xs n bp h' ys"
proof -
  have "e \<noteq> base_addr h" using n a by (auto simp: arena_def)
  then obtain us vs where zs: "base_addr h # xs = us @ prevp # e # vs" using link_split [OF a p] by blast
  have "e \<in> set (base_addr h # xs)" unfolding zs by simp
  then have e: "e \<in> set xs" using \<open>e \<noteq> base_addr h\<close> by simp
  show ?thesis
  proof (cases "hsize h e = n")
    case True
    then show ?thesis using take_whole [OF a zs True] by (auto simp: take_block_def)
  next
    case False
    then show ?thesis using take_tail [OF a p(1) e n(1)] n(2) by (auto simp: take_block_def Let_def)
  qed
qed


lemma arena_same:
  assumes "\<forall>x \<in> set (base_addr h # xs). hptr g x = hptr h x \<and> hsize g x = hsize h x" and "base_addr g = base_addr h" and "freep g = freep h"
  shows "arena g xs = arena h xs" and "free_bytes g xs = free_bytes h xs"
  using assms linked_cong [of "base_addr h" xs g h] by (auto simp: arena_def free_bytes_def)

lemma first_fit:
  assumes a: "arena h xs" and fit: "\<exists>e \<in> set xs. n \<le> hsize h e" and n: "0 < n"
  shows "\<exists>bp h' ys. malloc_loop n (freep h) (hptr h (freep h)) h = Some (MDone (bp + HEADER) h') \<and> taken h xs n bp h' ys"
proof -
  have f: "freep h \<in> set (base_addr h # xs)" using a by (simp add: arena_def)
  obtain ps where ps: "path h (freep h) (ps @ [freep h])" "set (ps @ [freep h]) = set (base_addr h # xs)" "freep h \<notin> set ps"
    using arena_round [OF a f] .
  have "\<exists>e \<in> set (ps @ [freep h]). n \<le> hsize h e" using fit unfolding ps(2) by auto
  from split_list_first_prop [OF this]
  obtain as e bs where os: "ps @ [freep h] = as @ e # bs" and e: "n \<le> hsize h e" and small: "\<forall>x \<in> set as. \<not> n \<le> hsize h x"
    by blast
  have "set as \<subseteq> set ps" using os by (cases bs rule: rev_exhaust) auto
  then have pre: "\<forall>x \<in> set as. hsize h x < n \<and> x \<noteq> freep h" using small ps(3) by auto
  have pa: "path h (freep h) (as @ [e])" using ps(1) unfolding os by (simp add: path_append)
  then have lk: "hptr h (last (freep h # as)) = e" by (simp add: path_append)
  have "set as \<subseteq> set (base_addr h # xs)" unfolding ps(2) [symmetric] os by auto
  then have "last (freep h # as) \<in> set (base_addr h # xs)" using f last_in_set [of "freep h # as"] by auto
  from take_block_takes [OF a this lk n e]
  obtain bp h' ys where t: "take_block n (last (freep h # as)) e h = (bp + HEADER, h')" "taken h xs n bp h' ys" by blast
  have "hptr h (freep h) = hd (as @ [e])" using pa by (cases as) auto
  then show ?thesis using malloc_loop_found [OF pa pre e] t by auto
qed

lemma no_fit:
  assumes a: "arena h xs" and none: "\<forall>e \<in> set xs. hsize h e < n" and n: "0 < n"
  shows "malloc_loop n (freep h) (hptr h (freep h)) h =
     (case morecore n h of
        None \<Rightarrow> None
      | Some (MWait h) \<Rightarrow> Some (MWait h)
      | Some (MDone q h) \<Rightarrow> if q = 0 then Some (MDone 0 h) else malloc_loop n q (hptr h q) h)"
proof -
  have f: "freep h \<in> set (base_addr h # xs)" using a by (simp add: arena_def)
  obtain ps where ps: "path h (freep h) (ps @ [freep h])" "set (ps @ [freep h]) = set (base_addr h # xs)" "freep h \<notin> set ps"
    using arena_round [OF a f] .
  have small: "hsize h x < n" if "x \<in> set (base_addr h # xs)" for x using that none n a by (auto simp: arena_def)
  have "\<forall>x \<in> set ps. hsize h x < n \<and> x \<noteq> freep h" using ps(2,3) small by (metis Un_iff set_append)
  moreover have "hptr h (freep h) = hd (ps @ [freep h])" using ps(1) by (cases ps) auto
  ultimately show ?thesis using malloc_loop_round [OF ps(1)] small [OF f] by simp
qed

text \<open>The units that \<^verbatim>\<open>morecore\<close> asks for, and a region the kernel has not given before.\<close>

definition core_units :: "nat \<Rightarrow> nat" where
  "core_units n = (if n < 4096 then 4096 else n)"

lemma core_units_pos: "0 < core_units n"
  by (simp add: core_units_def)

definition fresh_region :: "uheap \<Rightarrow> nat list \<Rightarrow> nat \<Rightarrow> int \<Rightarrow> bool" where
  "fresh_region h xs n r = (0 \<le> r \<and> base_addr h < nat r \<and> block (nat r) (core_units n) \<inter> free_bytes h xs = {})"

lemma morecore_adds:
  assumes a: "arena h xs" and fr: "fresh_region h xs n r" and rep: "sbrk_replies h = [r]"
  shows "\<exists>h' ys. morecore n h = Some (MDone (freep h') h') \<and> arena h' ys \<and> base_addr h' = base_addr h \<and> sbrk_replies h' = [] \<and>
     free_bytes h' ys = free_bytes h xs \<union> block (nat r) (core_units n) \<and> (\<exists>e \<in> set ys. n \<le> hsize h' e) \<and>
     (\<forall>x. x \<notin> set xs \<and> x \<noteq> nat r \<longrightarrow> hsize h' x = hsize h x)"
proof -
  let ?nu = "core_units n" and ?hp = "nat r"
  let ?g = "h\<lparr>sbrk_args := sbrk_args h @ [c_int (int (?nu * HEADER))], sbrk_replies := [], hsize := (hsize h)(?hp := ?nu)\<rparr>"
  have nu: "0 < ?nu" "n \<le> ?nu" by (auto simp: core_units_def)
  have "?hp \<notin> set xs"
  proof
    assume x: "?hp \<in> set xs"
    then have "?hp \<in> free_bytes h xs" using a block_first by (auto simp: free_bytes_def arena_def)
    then show False using fr block_first [OF nu(1), of ?hp] by (auto simp: fresh_region_def)
  qed
  then have "?hp \<notin> set (base_addr h # xs)" using fr by (auto simp: fresh_region_def)
  then have same: "\<forall>x \<in> set (base_addr h # xs). hptr ?g x = hptr h x \<and> hsize ?g x = hsize h x" by auto
  have ag: "arena ?g xs" "free_bytes ?g xs = free_bytes h xs" using arena_same [OF same] a by simp_all
  have "fits ?g xs ?hp" using fr nu(1) ag(2) by (simp add: fits_def fresh_region_def)
  from ufree_frees [OF ag(1) this] obtain h' ys where u: "ufree (?hp + HEADER) ?g = Some h'" "freed ?g xs ?hp h' ys" by blast
  have "r \<noteq> - 1" using fr by (auto simp: fresh_region_def)
  then have "morecore n h = Some (MDone (freep h') h')"
    using u(1) rep by (simp add: morecore_def Let_def core_units_def)
  moreover have "\<exists>e \<in> set ys. n \<le> hsize h' e"
  proof -
    have "\<exists>e \<in> set ys. ?nu \<le> hsize h' e" using u(2) by (simp add: freed_def)
    then show ?thesis using nu(2) le_trans by blast
  qed
  ultimately show ?thesis using u(2) ag(2) by (intro exI [of _ h'] exI [of _ ys]) (simp add: freed_def)
qed

text \<open>
  What \<^verbatim>\<open>malloc\<close> of \<open>n\<close> units does when the next reply of \<^verbatim>\<open>sbrk\<close> is \<open>r\<close>. Either
  nothing fits and there is no memory; or a block comes off the list, or off the list with the new
  region added.
\<close>

definition malloc_effect :: "uheap \<Rightarrow> nat list \<Rightarrow> nat \<Rightarrow> int \<Rightarrow> nat \<Rightarrow> uheap \<Rightarrow> nat list \<Rightarrow> nat set \<Rightarrow> bool" where
  "malloc_effect h xs n r bp h' ys new =
     (arena h' ys \<and> base_addr h' = base_addr h \<and> hsize h' bp = n \<and> base_addr h < bp \<and>
      block bp n \<inter> free_bytes h' ys = {} \<and> block bp n \<union> free_bytes h' ys = free_bytes h xs \<union> new \<and>
      (\<forall>a. a \<notin> free_bytes h xs \<union> new \<longrightarrow> hsize h' a = hsize h a) \<and>
      new = (if sbrk_replies h' = [] then block (nat r) (core_units n) else {}) \<and> (sbrk_replies h' = [] \<longrightarrow> r \<noteq> - 1))"

lemma malloc_loop_effect:
  assumes a: "arena h xs" and n: "0 < n" and rep: "sbrk_replies h = [r]" and r: "r = - 1 \<or> fresh_region h xs n r"
  shows "(\<exists>bp h' ys new. malloc_loop n (freep h) (hptr h (freep h)) h = Some (MDone (bp + HEADER) h') \<and> malloc_effect h xs n r bp h' ys new) \<or>
    (\<exists>h'. malloc_loop n (freep h) (hptr h (freep h)) h = Some (MDone 0 h') \<and> r = - 1 \<and> arena h' xs \<and>
       base_addr h' = base_addr h \<and> hsize h' = hsize h)"
proof (cases "\<exists>e \<in> set xs. n \<le> hsize h e")
  case True
  from first_fit [OF a True n] obtain bp h' ys where
    m: "malloc_loop n (freep h) (hptr h (freep h)) h = Some (MDone (bp + HEADER) h')" "taken h xs n bp h' ys" by blast
  then have "malloc_effect h xs n r bp h' ys {}" using rep by (simp add: taken_def malloc_effect_def)
  then show ?thesis using m(1) by blast
next
  case False
  then have none: "\<forall>e \<in> set xs. hsize h e < n" by auto
  note nf = no_fit [OF a none n]
  show ?thesis
  proof (cases "r = - 1")
    case True
    let ?h = "h\<lparr>sbrk_args := sbrk_args h @ [c_int (int (core_units n * HEADER))], sbrk_replies := []\<rparr>"
    have "morecore n h = Some (MDone 0 ?h)" using True rep by (simp add: morecore_def Let_def core_units_def)
    moreover have "arena ?h xs" using arena_same(1) [of h xs ?h] a by simp
    ultimately show ?thesis using nf True by auto
  next
    case fr: False
    then obtain h1 ys1 where m: "morecore n h = Some (MDone (freep h1) h1)" "arena h1 ys1" "base_addr h1 = base_addr h"
        "sbrk_replies h1 = []" "free_bytes h1 ys1 = free_bytes h xs \<union> block (nat r) (core_units n)"
        "\<exists>e \<in> set ys1. n \<le> hsize h1 e" "\<forall>x. x \<notin> set xs \<and> x \<noteq> nat r \<longrightarrow> hsize h1 x = hsize h x"
      using morecore_adds [OF a _ rep, of n] r by blast
    from first_fit [OF m(2,6) n] obtain bp h' ys where
      t: "malloc_loop n (freep h1) (hptr h1 (freep h1)) h1 = Some (MDone (bp + HEADER) h')" "taken h1 ys1 n bp h' ys" by blast
    have "freep h1 \<noteq> 0" using m(2) arena_distinct [OF m(2)] by (auto simp: arena_def)
    then have run: "malloc_loop n (freep h) (hptr h (freep h)) h = Some (MDone (bp + HEADER) h')" using nf m(1) t(1) by simp
    have "hsize h1 x = hsize h x" if x: "x \<notin> free_bytes h xs \<union> block (nat r) (core_units n)" for x
    proof -
      have "x \<notin> set xs" using x a block_first by (auto simp: free_bytes_def arena_def)
      moreover have "x \<noteq> nat r" using x block_first [OF core_units_pos, of "nat r" n] by auto
      ultimately show ?thesis using m(7) by simp
    qed
    then have "malloc_effect h xs n r bp h' ys (block (nat r) (core_units n))"
      using t(2) m(3,4,5) fr by (simp add: taken_def malloc_effect_def)
    then show ?thesis using run by blast
  qed
qed


section \<open>Every run of a program\<close>

text \<open>
  The blocks a program holds, as pairs of the address of the header and the units, lie below the
  memory it has been given, away from each other and from the list.
\<close>

definition held_ok :: "uheap \<Rightarrow> nat list \<Rightarrow> (nat \<times> nat) set \<Rightarrow> nat \<Rightarrow> bool" where
  "held_ok h xs L tp =
     (free_bytes h xs \<subseteq> {..<tp} \<and>
      (\<forall>(a, n) \<in> L. hsize h a = n \<and> 0 < n \<and> base_addr h < a \<and> block a n \<subseteq> {..<tp} \<and> block a n \<inter> free_bytes h xs = {}) \<and>
      (\<forall>v \<in> L. \<forall>w \<in> L. v \<noteq> w \<longrightarrow> block (fst v) (snd v) \<inter> block (fst w) (snd w) = {}))"

definition heap_inv :: "uheap \<Rightarrow> (nat \<times> nat) set \<Rightarrow> nat \<Rightarrow> bool" where
  "heap_inv h L tp =
     (0 < base_addr h \<and> base_addr h < tp \<and> (freep h = 0 \<and> L = {} \<or> (\<exists>xs. arena h xs \<and> held_ok h xs L tp)))"

definition top_after :: "nat \<Rightarrow> int \<Rightarrow> uheap \<Rightarrow> nat \<Rightarrow> nat" where
  "top_after n r h' tp = (if sbrk_replies h' = [] then nat r + HEADER * core_units n else tp)"

text \<open>
  A program calls \<^verbatim>\<open>malloc\<close> and \<^verbatim>\<open>free\<close> in any order, and frees only what it
  holds. \<^verbatim>\<open>sbrk\<close> fails, or returns an address at or above the end of the memory it gave
  before. It gives the memory only when its argument, an \<^verbatim>\<open>int\<close>, is the size in bytes that
  \<^verbatim>\<open>morecore\<close> means, and so the requests of a run are those whose size fits.
\<close>

definition small_request :: "uint32 \<Rightarrow> bool" where
  "small_request nbytes = (core_units (units_of nbytes) * HEADER < 2 ^ 31)"

inductive heap_run :: "uheap \<Rightarrow> (nat \<times> nat) set \<Rightarrow> nat \<Rightarrow> bool" where
  start: "freep h = 0 \<Longrightarrow> 0 < base_addr h \<Longrightarrow> base_addr h < tp \<Longrightarrow> heap_run h {} tp"
| alloc: "heap_run h L tp \<Longrightarrow> small_request nbytes \<Longrightarrow> r = - 1 \<or> int tp \<le> r \<Longrightarrow>
    malloc nbytes (h\<lparr>sbrk_replies := [r]\<rparr>) = Some (MDone ap h') \<Longrightarrow> ap \<noteq> 0 \<Longrightarrow>
    heap_run h' (insert (ap - HEADER, units_of nbytes) L) (top_after (units_of nbytes) r h' tp)"
| no_memory: "heap_run h L tp \<Longrightarrow> small_request nbytes \<Longrightarrow> r = - 1 \<or> int tp \<le> r \<Longrightarrow>
    malloc nbytes (h\<lparr>sbrk_replies := [r]\<rparr>) = Some (MDone 0 h') \<Longrightarrow> heap_run h' L tp"
| release: "heap_run h L tp \<Longrightarrow> (a, n) \<in> L \<Longrightarrow> ufree (a + HEADER) h = Some h' \<Longrightarrow> heap_run h' (L - {(a, n)}) tp"

lemma block_below: "block a n \<subseteq> {..<t} \<Longrightarrow> t \<le> u \<Longrightarrow> block a n \<subseteq> {..<u}"
  by auto

lemma effect_held:
  assumes e: "malloc_effect h xs n r bp h' ys new" and n: "0 < n" and L: "held_ok h xs L tp" and r: "r = - 1 \<or> int tp \<le> r"
  shows "held_ok h' ys (insert (bp, n) L) (top_after n r h' tp) \<and> (\<forall>v \<in> L. block (fst v) (snd v) \<inter> block bp n = {})"
proof -
  let ?t = "top_after n r h' tp"
  have new: "new = (if sbrk_replies h' = [] then block (nat r) (core_units n) else {})" "sbrk_replies h' = [] \<longrightarrow> r \<noteq> - 1"
    and all: "block bp n \<union> free_bytes h' ys = free_bytes h xs \<union> new" and ap: "block bp n \<inter> free_bytes h' ys = {}"
    and sz: "hsize h' bp = n" "\<And>a. a \<notin> free_bytes h xs \<union> new \<Longrightarrow> hsize h' a = hsize h a" and b: "base_addr h < bp" "base_addr h' = base_addr h"
    using e by (simp_all add: malloc_effect_def)
  have tpt: "tp \<le> ?t" using new(2) r by (auto simp: top_after_def)
  have nt: "new \<subseteq> {..<?t}" "new \<inter> {..<tp} = {}" using new r by (auto simp: top_after_def block_def)
  have fb: "free_bytes h xs \<subseteq> {..<tp}" using L by (simp add: held_ok_def)
  have old: "hsize h' a = m \<and> 0 < m \<and> base_addr h' < a \<and> block a m \<inter> free_bytes h' ys = {} \<and> block a m \<subseteq> {..<?t}"
      "block a m \<inter> block bp n = {}" if am: "(a, m) \<in> L" for a m
  proof -
    have m: "hsize h a = m" "0 < m" "base_addr h < a" "block a m \<subseteq> {..<tp}" "block a m \<inter> free_bytes h xs = {}"
      using L am by (auto simp: held_ok_def)
    then have d: "block a m \<inter> (block bp n \<union> free_bytes h' ys) = {}" unfolding all using nt(2) by blast
    have "a \<notin> free_bytes h xs \<union> new" using d [unfolded all] block_first [OF m(2), of a] by blast
    then have "hsize h' a = m" using sz(2) m(1) by simp
    then show "hsize h' a = m \<and> 0 < m \<and> base_addr h' < a \<and> block a m \<inter> free_bytes h' ys = {} \<and> block a m \<subseteq> {..<?t}"
      "block a m \<inter> block bp n = {}" using d m b block_below [OF m(4) tpt] by auto
  qed
  have below: "block bp n \<union> free_bytes h' ys \<subseteq> {..<?t}" unfolding all using fb nt(1) tpt by auto
  have 1: "\<forall>(a, m) \<in> insert (bp, n) L. hsize h' a = m \<and> 0 < m \<and> base_addr h' < a \<and> block a m \<subseteq> {..<?t} \<and> block a m \<inter> free_bytes h' ys = {}"
    using old(1) sz(1) n b ap below by auto
  have 2: "\<forall>v \<in> L. block (fst v) (snd v) \<inter> block bp n = {}" using old(2) by auto
  have "\<forall>v \<in> L. \<forall>w \<in> L. v \<noteq> w \<longrightarrow> block (fst v) (snd v) \<inter> block (fst w) (snd w) = {}" using L by (simp add: held_ok_def)
  then have "\<forall>v \<in> insert (bp, n) L. \<forall>w \<in> insert (bp, n) L. v \<noteq> w \<longrightarrow> block (fst v) (snd v) \<inter> block (fst w) (snd w) = {}"
    using 2 by (simp add: Int_commute)
  then show ?thesis unfolding held_ok_def using 1 2 below by simp
qed

lemma malloc_step:
  assumes inv: "heap_inv h L tp" and r: "r = - 1 \<or> int tp \<le> r"
  shows "(\<exists>bp h'. malloc nbytes (h\<lparr>sbrk_replies := [r]\<rparr>) = Some (MDone (bp + HEADER) h') \<and>
            heap_inv h' (insert (bp, units_of nbytes) L) (top_after (units_of nbytes) r h' tp) \<and>
            hsize h' bp = units_of nbytes \<and> (\<forall>v \<in> L. block (fst v) (snd v) \<inter> block bp (units_of nbytes) = {})) \<or>
         (\<exists>h'. malloc nbytes (h\<lparr>sbrk_replies := [r]\<rparr>) = Some (MDone 0 h') \<and> r = - 1 \<and> heap_inv h' L tp)"
proof -
  let ?n = "units_of nbytes"
  define g where "g = (if freep h = 0 then h\<lparr>sbrk_replies := [r], freep := base_addr h, hptr := (hptr h)(base_addr h := base_addr h), hsize := (hsize h)(base_addr h := 0)\<rparr>
                       else h\<lparr>sbrk_replies := [r]\<rparr>)"
  have n: "0 < ?n" by (simp add: units_of_def)
  have run: "malloc nbytes (h\<lparr>sbrk_replies := [r]\<rparr>) = malloc_loop ?n (freep g) (hptr g (freep g)) g"
    by (simp add: malloc_def g_def Let_def)
  have b: "0 < base_addr h" "base_addr h < tp" "base_addr g = base_addr h" "sbrk_replies g = [r]" using inv by (auto simp: heap_inv_def g_def)
  obtain xs where xs: "arena g xs" "held_ok g xs L tp"
  proof (cases "freep h = 0")
    case True
    then have "arena g []" "held_ok g [] L tp"
      using inv by (auto simp: g_def arena_def heap_inv_def held_ok_def free_bytes_def)
    then show ?thesis by (rule that)
  next
    case False
    then obtain xs where "arena h xs" "held_ok h xs L tp" using inv by (auto simp: heap_inv_def)
    moreover from this have "arena g xs" "free_bytes g xs = free_bytes h xs" using arena_same [of h xs g] False by (auto simp: g_def)
    ultimately show ?thesis using that False by (simp add: held_ok_def g_def)
  qed
  have "r = - 1 \<or> fresh_region g xs ?n r"
  proof (cases "r = - 1")
    case False
    then have ge: "tp \<le> nat r" "0 \<le> r" using r by auto
    have "free_bytes g xs \<subseteq> {..<tp}" using xs(2) by (simp add: held_ok_def)
    moreover have "block (nat r) (core_units ?n) \<inter> {..<tp} = {}" using ge(1) by (auto simp: block_def)
    ultimately have "block (nat r) (core_units ?n) \<inter> free_bytes g xs = {}" by blast
    then show ?thesis using ge b by (simp add: fresh_region_def)
  qed simp
  from malloc_loop_effect [OF xs(1) n b(4) this] show ?thesis
  proof
    assume "\<exists>bp h' ys new. malloc_loop ?n (freep g) (hptr g (freep g)) g = Some (MDone (bp + HEADER) h') \<and> malloc_effect g xs ?n r bp h' ys new"
    then obtain bp h' ys new where m: "malloc_loop ?n (freep g) (hptr g (freep g)) g = Some (MDone (bp + HEADER) h')" "malloc_effect g xs ?n r bp h' ys new" by blast
    have "tp \<le> top_after ?n r h' tp" using m(2) r by (auto simp: top_after_def malloc_effect_def)
    then have "heap_inv h' (insert (bp, ?n) L) (top_after ?n r h' tp)"
      using effect_held [OF m(2) n xs(2) r] m(2) b by (auto simp: heap_inv_def malloc_effect_def)
    then show ?thesis using m run effect_held [OF m(2) n xs(2) r] by (auto simp: malloc_effect_def)
  next
    assume "\<exists>h'. malloc_loop ?n (freep g) (hptr g (freep g)) g = Some (MDone 0 h') \<and> r = - 1 \<and> arena h' xs \<and> base_addr h' = base_addr g \<and> hsize h' = hsize g"
    then obtain h' where m: "malloc_loop ?n (freep g) (hptr g (freep g)) g = Some (MDone 0 h')" "r = - 1" "arena h' xs" "base_addr h' = base_addr g" "hsize h' = hsize g" by blast
    then have "heap_inv h' L tp" using xs(2) b by (auto simp: heap_inv_def held_ok_def free_bytes_def)
    then show ?thesis using m run by auto
  qed
qed

lemma free_step:
  assumes inv: "heap_inv h L tp" and an: "(a, n) \<in> L"
  shows "\<exists>h'. ufree (a + HEADER) h = Some h' \<and> heap_inv h' (L - {(a, n)}) tp"
proof -
  obtain xs where xs: "arena h xs" "held_ok h xs L tp" using inv an by (auto simp: heap_inv_def)
  have m: "hsize h a = n" "0 < n" "base_addr h < a" "block a n \<subseteq> {..<tp}" "block a n \<inter> free_bytes h xs = {}"
    using xs(2) an by (auto simp: held_ok_def)
  then have "fits h xs a" by (simp add: fits_def)
  from ufree_frees [OF xs(1) this] obtain h' ys where u: "ufree (a + HEADER) h = Some h'" "freed h xs a h' ys" by blast
  have fb: "free_bytes h' ys = free_bytes h xs \<union> block a n" "base_addr h' = base_addr h" using u(2) m(1) by (simp_all add: freed_def)
  have "hsize h' b = k \<and> block b k \<inter> free_bytes h' ys = {}" if bk: "(b, k) \<in> L - {(a, n)}" for b k
  proof -
    have k: "hsize h b = k" "0 < k" "block b k \<inter> free_bytes h xs = {}" using xs(2) bk by (auto simp: held_ok_def)
    have d: "block b k \<inter> block a n = {}" using xs(2) bk an by (fastforce simp: held_ok_def)
    have "b \<in> block b k" by (rule block_first [OF k(2)])
    then have "b \<noteq> a" "b \<notin> free_bytes h xs" using d k(3) block_first [OF m(2), of a] by auto
    moreover have "b \<notin> set xs" using calculation(2) xs(1) block_first by (auto simp: free_bytes_def arena_def)
    ultimately have "hsize h' b = hsize h b" using u(2) by (simp add: freed_def)
    then show ?thesis using k d fb by auto
  qed
  then have "held_ok h' ys (L - {(a, n)}) tp" using xs(2) fb m(4) by (auto simp: held_ok_def)
  then show ?thesis using u inv fb(2) by (auto simp: heap_inv_def freed_def)
qed

lemma heap_run_inv: "heap_run h L tp \<Longrightarrow> heap_inv h L tp"
proof (induction rule: heap_run.induct)
  case (start h tp)
  then show ?case by (simp add: heap_inv_def)
next
  case (alloc h L tp nbytes r ap h')
  from malloc_step [OF alloc.IH alloc.hyps(3), of nbytes] alloc.hyps(4,5) show ?case by auto
next
  case (no_memory h L tp nbytes r h')
  from malloc_step [OF no_memory.IH no_memory.hyps(3), of nbytes] no_memory.hyps(4) show ?case by (auto simp: HEADER_def)
next
  case (release h L tp a n h')
  from free_step [OF release.IH release.hyps(2)] release.hyps(3) show ?case by auto
qed

text \<open>
  The free list of a run that has started, with all that holds of the blocks off it.
\<close>

lemma heap_run_list:
  assumes "heap_run h L tp" "freep h \<noteq> 0"
  shows "\<exists>xs. arena h xs \<and> (\<forall>a \<in> set xs. a + HEADER * hsize h a \<le> tp) \<and>
    (\<forall>v \<in> L. block (fst v) (snd v) \<inter> free_bytes h xs = {} \<and> fst v + HEADER * snd v \<le> tp)"
proof -
  obtain xs where xs: "arena h xs" "held_ok h xs L tp"
    using heap_run_inv [OF assms(1)] assms(2) by (auto simp: heap_inv_def)
  have top: "a + HEADER * n \<le> tp" if "block a n \<subseteq> {..<tp}" "0 < n" for a n
  proof -
    have "a + HEADER * n - 1 \<in> block a n" using that(2) by (auto simp: block_def HEADER_def)
    then show ?thesis using that(1) by (auto simp: HEADER_def)
  qed
  have "a + HEADER * hsize h a \<le> tp" if "a \<in> set xs" for a
    using that xs by (intro top) (auto simp: held_ok_def arena_def free_bytes_def)
  moreover have "block (fst v) (snd v) \<inter> free_bytes h xs = {} \<and> fst v + HEADER * snd v \<le> tp" if "v \<in> L" for v
  proof -
    obtain a n where v: "v = (a, n)" by (cases v)
    then have "block a n \<subseteq> {..<tp}" "0 < n" "block a n \<inter> free_bytes h xs = {}" using that xs(2) by (auto simp: held_ok_def)
    then show ?thesis using top [of a n] v by simp
  qed
  ultimately show ?thesis using xs(1) by blast
qed

text \<open>
  C38. In every run of \<^verbatim>\<open>malloc\<close> and \<^verbatim>\<open>free\<close> the blocks a program holds share no
  byte and keep the size in their headers, and once the first call has been made the free list is in
  order, no block held shares a byte with a block on it, and all of them lie in the memory the
  program was given. \<^verbatim>\<open>free\<close> of any block held returns, and \<^verbatim>\<open>malloc\<close> of a request
  for which the bytes \<^verbatim>\<open>morecore\<close> asks for fit in an \<^verbatim>\<open>int\<close> returns: a block of the units asked for, away from all
  the blocks held, or a null pointer when \<^verbatim>\<open>sbrk\<close> has no more memory. Neither loop runs for
  ever.
\<close>

theorem malloc_blocks_disjoint:
  assumes run: "heap_run h L tp"
  shows "(\<forall>v \<in> L. hsize h (fst v) = snd v) \<and>
    (\<forall>v \<in> L. \<forall>w \<in> L. v \<noteq> w \<longrightarrow> block (fst v) (snd v) \<inter> block (fst w) (snd w) = {}) \<and>
    (freep h \<noteq> 0 \<longrightarrow> (\<exists>xs. arena h xs \<and> (\<forall>a \<in> set xs. a + HEADER * hsize h a \<le> tp) \<and>
       (\<forall>v \<in> L. block (fst v) (snd v) \<inter> free_bytes h xs = {} \<and> fst v + HEADER * snd v \<le> tp))) \<and>
    (\<forall>(a, n) \<in> L. \<exists>h'. ufree (a + HEADER) h = Some h') \<and>
    (\<forall>nbytes r. small_request nbytes \<and> (r = - 1 \<or> int tp \<le> r) \<longrightarrow>
       (\<exists>bp h'. malloc nbytes (h\<lparr>sbrk_replies := [r]\<rparr>) = Some (MDone (bp + HEADER) h') \<and> hsize h' bp = units_of nbytes \<and>
          (\<forall>v \<in> L. block (fst v) (snd v) \<inter> block bp (units_of nbytes) = {})) \<or>
       (\<exists>h'. malloc nbytes (h\<lparr>sbrk_replies := [r]\<rparr>) = Some (MDone 0 h') \<and> r = - 1))"
proof -
  have inv: "heap_inv h L tp" by (rule heap_run_inv [OF run])
  then have held: "L = {} \<or> (\<exists>xs. held_ok h xs L tp)" by (auto simp: heap_inv_def)
  then have "\<forall>v \<in> L. hsize h (fst v) = snd v" by (auto simp: held_ok_def)
  moreover have "\<forall>v \<in> L. \<forall>w \<in> L. v \<noteq> w \<longrightarrow> block (fst v) (snd v) \<inter> block (fst w) (snd w) = {}"
    using held unfolding held_ok_def by blast
  moreover have "\<forall>(a, n) \<in> L. \<exists>h'. ufree (a + HEADER) h = Some h'" using free_step [OF inv] by blast
  moreover note heap_run_list [OF run]
  moreover have "(\<exists>bp h'. malloc nbytes (h\<lparr>sbrk_replies := [r]\<rparr>) = Some (MDone (bp + HEADER) h') \<and> hsize h' bp = units_of nbytes \<and>
        (\<forall>v \<in> L. block (fst v) (snd v) \<inter> block bp (units_of nbytes) = {})) \<or>
      (\<exists>h'. malloc nbytes (h\<lparr>sbrk_replies := [r]\<rparr>) = Some (MDone 0 h') \<and> r = - 1)"
    if "small_request nbytes \<and> (r = - 1 \<or> int tp \<le> r)" for nbytes r
    using malloc_step [OF inv, of r nbytes] that by blast
  ultimately show ?thesis by (intro conjI allI impI)
qed

text \<open>A program that holds one block of a first \<^verbatim>\<open>malloc\<close> of a hundred bytes.\<close>

definition heap_start :: uheap where
  "heap_start = \<lparr>hptr = (\<lambda>_. 0), hsize = (\<lambda>_. 0), freep = 0, base_addr = 4096, sbrk_replies = [], sbrk_args = []\<rparr>"

lemma heap_start_run: "heap_run heap_start {} 8192"
  by (rule heap_run.start) (simp_all add: heap_start_def)

lemma units_of_100: "units_of 100 = 8" "small_request 100"
proof -
  show u: "units_of 100 = 8" by (simp add: units_of_def HEADER_def)
  show "small_request 100" by (simp add: small_request_def u core_units_def HEADER_def)
qed

theorem malloc_blocks_disjoint_witness:
  "\<exists>bp h'. malloc 100 (heap_start\<lparr>sbrk_replies := [8192]\<rparr>) = Some (MDone (bp + HEADER) h') \<and> hsize h' bp = 8 \<and>
     (\<exists>xs. arena h' xs \<and> block bp 8 \<inter> free_bytes h' xs = {}) \<and> (\<exists>h''. ufree (bp + HEADER) h' = Some h'')"
proof -
  obtain bp h' where m: "malloc 100 (heap_start\<lparr>sbrk_replies := [8192]\<rparr>) = Some (MDone (bp + HEADER) h')" "hsize h' bp = 8"
    using malloc_blocks_disjoint [OF heap_start_run, THEN conjunct2, THEN conjunct2, THEN conjunct2, THEN conjunct2] units_of_100
    by (elim allE [of _ "100 :: uint32"] allE [of _ "8192::int"]) auto
  have run: "heap_run h' {(bp, 8)} (top_after 8 8192 h' 8192)"
    using heap_run.alloc [OF heap_start_run units_of_100(2) _ m(1)] by (simp add: units_of_100 HEADER_def)
  obtain xs where "arena h' xs" using heap_run_inv [OF run] by (auto simp: heap_inv_def)
  then have "freep h' \<noteq> 0" using arena_distinct [of h' xs] by (auto simp: arena_def)
  then show ?thesis using malloc_blocks_disjoint [OF run] m by auto
qed

text \<open>
  A request of two gigabytes is passed to \<^verbatim>\<open>sbrk\<close> as a negative number, which shrinks
  the process: this is why the runs above bound the size.
\<close>

lemma morecore_negative:
  "sbrk_replies h = [r] \<Longrightarrow> r = - 1 \<Longrightarrow>
   morecore (2 ^ 27) h = Some (MDone 0 (h\<lparr>sbrk_args := sbrk_args h @ [- (2 ^ 31)], sbrk_replies := []\<rparr>))"
  by (simp add: morecore_def Let_def HEADER_def c_int_def signed_take_bit_def take_bit_eq_mod minus_exp_eq_not_mask [symmetric])

end
