(* ===== verification/Spec2Isabelle.thy ===== *)
theory Spec2Isabelle
  imports SemProtocol SpinSteps LogTheorems LogSpace Trap PipeTheorems MemTheorems PathTheorems FsTheorems
    Grep Forkdemo Umalloc
begin

text \<open>
  A verification library for an xv6 kernel for RISC-V with counting semaphores, and for the user
  programs that come with it. The sources are those of \<^verbatim>\<open>src/xv6-riscv\<close>; file names
  below are relative to that directory.

  \<^bold>\<open>The program.\<close> The kernel runs on several harts. Spinlocks protect its tables; a process
  that must wait gives up its hart through \<^verbatim>\<open>sleep\<close> and is made runnable by
  \<^verbatim>\<open>wakeup\<close>. On these rest the counting semaphores, the sleep locks and the pipes. The
  page allocator feeds the page tables, which give every process its memory. The file system is a
  stack: disk driver, buffer cache, log, blocks and inodes, directories and paths, open files. System
  calls and interrupts enter through the trap code. User programs see system calls only.

  \<^bold>\<open>Kernel operations.\<close> A C function of the kernel is a HOL function from the state to an
  \<open>outcome\<close> (\<open>Prelude\<close>): it returns, panics with the message of the source, spins for
  ever on a lock, gives up the processor (\<open>Swtch\<close>), or does what C leaves undefined
  (\<open>Undef\<close>). \<open>kbind\<close> puts one after another. The state is one record, extended by each
  component: harts and locks, memory, processes, semaphores, sleep locks, buffers, log, file system,
  console, files, disk driver, control registers. A component is written against its own part, so
  that its lemmas hold for every extension. What a function does after it gives up the processor is
  a definition with the suffix \<open>_resume\<close>; a loop that sleeps is entered again from there.
  Machine integers are words of their width; a C \<^verbatim>\<open>int\<close> is an \<^typ>\<open>int\<close> wrapped by
  \<open>c_int\<close> where the code can leave its range.

  \<^bold>\<open>Theories of the kernel.\<close>
  \<^item> \<open>Spinlock\<close>, \<open>SpinSteps\<close>: \<^verbatim>\<open>kernel/spinlock.c\<close>. The second theory takes the
    routines apart into their single reads and writes, each a step of one hart, with a panic as a state
    of its own, and shows for every interleaving mutual exclusion, that no hart panics, and that a
    hart that spins can get in.
  \<^item> \<open>Cstring\<close>, \<open>Riscv\<close>: \<^verbatim>\<open>kernel/string.c\<close>; the macros of
    \<^verbatim>\<open>riscv.h\<close>, \<^verbatim>\<open>memlayout.h\<close>, \<^verbatim>\<open>param.h\<close>.
  \<^item> \<open>Kalloc\<close>, \<open>MemTheorems\<close>: \<^verbatim>\<open>kernel/kalloc.c\<close>, with the free list in the
    free pages. The locale \<open>page_allocator\<close> states the contract on sets of pages.
  \<^item> \<open>Vm\<close>, \<open>VmTree\<close>, \<open>UserMem\<close>, \<open>CopyTheorems\<close>:
    \<^verbatim>\<open>kernel/vm.c\<close>, with page tables in physical memory: what \<^verbatim>\<open>mappages\<close> does to
    the tree of tables, and what the copies between user and kernel do to user memory.
  \<^item> \<open>Proc\<close>, \<open>ProcMem\<close>, \<open>ProcLife\<close>: \<^verbatim>\<open>kernel/proc.c\<close>.
  \<^item> \<open>Semaphore\<close>, \<open>SemProtocol\<close>, \<open>Gantt\<close>: \<^verbatim>\<open>kernel/semaphore.c\<close> and
    the table in \<^verbatim>\<open>kernel/proc.c\<close>. The protocol is a step relation over all harts in
    which any process may wait and any may signal, a holder or not. It is shown to refine an abstract
    counting semaphore; mutual exclusion, no lost wake-up and progress follow. Each process has a
    balance, its returns from \<^verbatim>\<open>sem_wait\<close> less its calls of \<^verbatim>\<open>sem_signal\<close>. In
    these runs no process is killed, the semaphore is not closed, and no signal is made at the largest
    count. Two theorems show what \<^verbatim>\<open>kill\<close> does to a process that waits.
  \<^item> \<open>Sleeplock\<close>: \<^verbatim>\<open>kernel/sleeplock.c\<close>.
  \<^item> \<open>Bio\<close>, \<open>BioOps\<close>, \<open>Blocks\<close>: \<^verbatim>\<open>kernel/bio.c\<close>. The locale
    \<open>block_cache\<close> presents the cache as a map from block numbers to contents.
  \<^item> \<open>Log\<close>, \<open>LogCrash\<close>, \<open>LogExample\<close>, \<open>LogTheorems\<close>, \<open>LogSpace\<close>:
    \<^verbatim>\<open>kernel/log.c\<close>. The disk writes of a commit are known in their order, and recovery after
    a crash between any two of them gives the old contents or the new ones. Over every run of
    operations within their limit of blocks the log has room for all they may still write.
  \<^item> \<open>Fs\<close>, \<open>FsDir\<close>, \<open>Trans\<close>, \<open>Inodes\<close>, \<open>PathTheorems\<close>,
    \<open>FsTheorems\<close>: \<^verbatim>\<open>kernel/fs.c\<close>. Inside a transaction the pattern read, change, log,
    release is an update of the block map; the properties of blocks, inodes, contents and directories
    rest on it. \<^verbatim>\<open>namex\<close> is shown to follow the elements of its path.
  \<^item> \<open>Printk\<close>, \<open>Console\<close>, \<open>Ring\<close>, \<open>File\<close>, \<open>PipeTheorems\<close>:
    \<^verbatim>\<open>kernel/printk.c\<close>, \<^verbatim>\<open>uart.c\<close>, \<^verbatim>\<open>console.c\<close>, \<^verbatim>\<open>file.c\<close>,
    \<^verbatim>\<open>pipe.c\<close>. The locale \<open>fifo\<close> states what a ring with free-running counters
    promises.
  \<^item> \<open>Virtio\<close>, \<open>Csr\<close>, \<open>Exec\<close>, \<open>Syscall\<close>, \<open>Sysfile\<close>,
    \<open>Trap\<close>: the disk driver, the control registers and \<^verbatim>\<open>start.c\<close>, program loading,
    the system calls, traps, interrupts and \<^verbatim>\<open>main.c\<close>.
  \<^item> \<open>Example\<close>: a concrete machine on which theorems are applied.

  \<^bold>\<open>User programs\<close> are functions of the replies the kernel gives to their system calls, in
  the order they make them (\<open>User\<close>). A run leaves the list of its calls and returns, exits,
  replaces itself by \<^verbatim>\<open>exec\<close>, waits for a reply, or does what C leaves undefined. A reply of
  zero to \<^verbatim>\<open>fork\<close> makes the run that of the child. A loop ends because each turn
  consumes a reply.
  \<^item> \<open>Ulib\<close>, \<open>Uprintf\<close>, \<open>Umalloc\<close>: \<^verbatim>\<open>user/ulib.c\<close>,
    \<^verbatim>\<open>printf.c\<close>, \<^verbatim>\<open>umalloc.c\<close>. Numbers printed are read back; the blocks that
    \<^verbatim>\<open>malloc\<close> hands out are disjoint in every run.
  \<^item> \<open>Grep\<close>: the matcher against the languages of patterns, and the loop over lines.
  \<^item> \<open>ShParse\<close>, \<open>ShPrint\<close>, \<open>Sh\<close>: the parser of the shell, its grammar with a
    printer and the round trip, and the running of commands.
  \<^item> \<open>Uprogs\<close>, \<open>Forkdemo\<close>: the other programs.

  \<^bold>\<open>Bounds.\<close> The parser of the shell carries a bound on the depth of its calls,
  \<open>4 * length b + 4\<close> for a line \<open>b\<close>; it is proved to be enough for every line. The
  functions declared with \<^verbatim>\<open>partial_function\<close> (loops over memory, over the free list, over
  a path) have the value \<open>None\<close> when they do not end, and the properties state that they do. All
  other recursion is proved to terminate.

  \<^bold>\<open>Idealisations.\<close> In \<open>SemProtocol\<close> a step runs a hart from a point where it holds
  no lock to the next such point; \<open>SpinSteps\<close> justifies this for one lock. Memory is
  sequentially consistent. In the buffer cache a disk transfer is complete when
  \<^verbatim>\<open>virtio_disk_rw\<close> returns, and the ghost field \<open>dtrace\<close> lists the completed writes; the
  driver with its descriptors and interrupt is modelled apart, in \<open>Virtio\<close>. What a device answers
  is a field or a parameter. The contents of an array of the kernel stack that the code has not
  written are the field \<open>stack_junk\<close>. The lines that \<open>Log\<close> and \<open>Fs\<close> print to the
  console are left out. In \<open>Umalloc\<close> a request is a \<^verbatim>\<open>uint\<close>, the
  sizes in headers and the addresses are numbers, and the argument of \<^verbatim>\<open>sbrk\<close> is wrapped to
  an \<^verbatim>\<open>int\<close>; the runs considered make requests for which that argument is not
  changed by the wrapping. The shell does not test the result of
  \<^verbatim>\<open>malloc\<close>, and its model takes the memory to be there.

  \<^bold>\<open>Not modelled\<close> are the assembly files and linker scripts, the script that prints the
  system call stubs, the builder of the disk image (\<^verbatim>\<open>mkfs/mkfs.c\<close>, a program of the
  host), and the stress tests \<^verbatim>\<open>usertests.c\<close>, \<^verbatim>\<open>grind.c\<close> and
  \<^verbatim>\<open>logstress.c\<close>.
\<close>

section \<open>Properties that span components\<close>

subsection \<open>From a line of text to a program\<close>

text \<open>The calls a redirection makes before the program is run.\<close>

fun redir_calls :: "redir \<Rightarrow> ucall list" where
  "redir_calls (From f) = [Uclose 0, Uopen f 0]"
| "redir_calls (To f) = [Uclose 1, Uopen f 0x601]"
| "redir_calls (Onto f) = [Uclose 1, Uopen f 0x201]"

lemma apply_words_redirs:
  "fold apply_word (map (\<lambda>w. (w, [])) ws) (fold apply_redir rs (SExec as)) = fold apply_redir rs (SExec (as @ ws))"
proof (induction ws arbitrary: as)
  case (Cons w ws)
  have "sadd_arg w (fold apply_redir rs c) = fold apply_redir rs (sadd_arg w c)" for c
  proof (induction rs arbitrary: c)
    case (Cons r rs)
    have "sadd_arg w (apply_redir r c) = apply_redir r (sadd_arg w c)" by (cases r) simp_all
    then show ?case using Cons by simp
  qed simp
  then show ?case using Cons by simp
qed simp

lemma read_cmd_redirE:
  assumes "read_cmd m c = apply_redir r d"
  obtains c' q e mode fd where "c = Redir c' q e mode fd" "read_cmd m c' = d"
    "redir_calls r = [Uclose fd, Uopen (cstring_at m q) mode]"
  using assms by (cases r; cases c) auto

text \<open>
  Redirections run from the last to the first: the parser wraps each one around those before it.
\<close>

lemma runcmd_redirs:
  assumes "read_cmd m c = fold apply_redir rs (SExec ws)" and "ws \<noteq> []"
    and "replies s = concat (map (\<lambda>(a, fd). [a, RVal fd]) rps) @ [e]" and "length rps = length rs"
    and "\<forall>(a, fd) \<in> set rps. 0 \<le> fd" and "0 \<le> rval e"
  shows "runcmd m c s = Execed (hd ws) ws (calls s @ concat (map redir_calls (rev rs)) @ [Uexec (hd ws) ws])"
  using assms
proof (induction rs arbitrary: c s rps rule: rev_induct)
  case Nil
  then obtain as where as: "c = Exec as" "ws = map (\<lambda>(q, e). cstring_at m q) as" by (cases c) auto
  then show ?case using Nil by (cases as) (auto simp: uexec_def sys_def Let_def)
next
  case (snoc r rs)
  from snoc.prems(1) have "read_cmd m c = apply_redir r (fold apply_redir rs (SExec ws))" by simp
  then obtain c' q x mode fd where c: "c = Redir c' q x mode fd" "read_cmd m c' = fold apply_redir rs (SExec ws)"
    "redir_calls r = [Uclose fd, Uopen (cstring_at m q) mode]" by (rule read_cmd_redirE)
  obtain a f rps' where rp: "rps = (a, f) # rps'" using snoc.prems(4) by (cases rps) auto
  let ?t = "s\<lparr>replies := concat (map (\<lambda>(a, fd). [a, RVal fd]) rps') @ [e],
              calls := calls s @ redir_calls r\<rparr>"
  have "runcmd m c' ?t = Execed (hd ws) ws (calls ?t @ concat (map redir_calls (rev rs)) @ [Uexec (hd ws) ws])"
    by (rule snoc.IH [OF c(2) assms(2), of ?t rps']) (use snoc.prems rp in auto)
  then show ?case using snoc.prems(3,5) rp by (simp add: c(1,3) sys_def)
qed

text \<open>
  C39. The shell runs what is typed: for a line of redirections and words, when the files open and
  \<^verbatim>\<open>exec\<close> finds the program, the child of the shell closes the descriptors and opens the
  files of the redirections, the last one first, and becomes the program named by the first word with
  the words of the line as its arguments.
\<close>

theorem sh_execs_line:
  assumes "ws \<noteq> []" "length ws < MAXARGS" "list_all good_word ws" "list_all good_redir rs"
    and "replies s = concat (map (\<lambda>(a, fd). [a, RVal fd]) rps) @ [e]" "length rps = length rs"
    and "\<forall>(a, fd) \<in> set rps. 0 \<le> fd" "0 \<le> rval e"
  shows "parse_and_run (show_line (Last (Single (Words rs (map (\<lambda>w. (w, [])) ws))) 0)) s =
    Execed (hd ws) ws (calls s @ concat (map redir_calls (rev rs)) @ [Uexec (hd ws) ws])"
proof -
  let ?l = "Last (Single (Words rs (map (\<lambda>w. (w, [])) ws))) 0"
  have good: "good_line ?l" using assms(2-4) by (simp add: list_all_iff)
  obtain c where c: "parsecmd (show_line ?l) = Some (Inr c)" "strings_of (show_line ?l) c = line_meaning ?l"
    using show_line_parses [OF good] by blast
  have "line_meaning ?l = fold apply_redir rs (SExec ws)" using apply_words_redirs [of ws rs "[]"] by simp
  then have "read_cmd (nulterminate c (show_line ?l @ [CHR 0x00])) c = fold apply_redir rs (SExec ws)"
    using read_after_zeros [OF c(1) show_line_no_zero [OF good]] c(2) by simp
  then show ?thesis using c(1) by (simp add: parse_and_run_def runcmd_redirs [OF _ assms(1,5-8)])
qed

theorem sh_execs_line_witness:
  "parse_and_run ''< in >> out wc -l '' \<lparr>replies = [RVal 0, RVal 1, RVal 0, RVal 0, RVal 0], calls = []\<rparr> =
     Execed ''wc'' [''wc'', ''-l'']
       [Uclose 1, Uopen ''out'' 0x201, Uclose 0, Uopen ''in'' 0, Uexec ''wc'' [''wc'', ''-l'']]"
proof -
  let ?s = "\<lparr>replies = [RVal 0, RVal 1, RVal 0, RVal 0, RVal 0], calls = []\<rparr>"
  have "parse_and_run (show_line (Last (Single (Words [From ''in'', Onto ''out'']
      (map (\<lambda>w. (w, [])) [''wc'', ''-l'']))) 0)) ?s =
    Execed (hd [''wc'', ''-l'']) [''wc'', ''-l''] (calls ?s @
      concat (map redir_calls (rev [From ''in'', Onto ''out''])) @ [Uexec (hd [''wc'', ''-l'']) [''wc'', ''-l'']])"
    by (rule sh_execs_line [where rps = "[(RVal 0, 1), (RVal 0, 0)]" and e = "RVal 0"])
      (simp_all add: good_word_def word_char_def whitespace_def symbols_def MAXARGS_def)
  moreover have "show_line (Last (Single (Words [From ''in'', Onto ''out''] (map (\<lambda>w. (w, [])) [''wc'', ''-l'']))) 0) =
      ''< in >> out wc -l ''" by (simp add: show_line_def)
  ultimately show ?thesis by simp
qed

subsection \<open>Semaphore calls from user space\<close>

lemmas sys_numbers = SYS_fork_def SYS_exit_def SYS_wait_def SYS_pipe_def SYS_read_def SYS_kill_def SYS_exec_def
  SYS_fstat_def SYS_chdir_def SYS_dup_def SYS_getpid_def SYS_sbrk_def SYS_pause_def SYS_uptime_def SYS_open_def
  SYS_write_def SYS_mknod_def SYS_unlink_def SYS_link_def SYS_mkdir_def SYS_close_def SYS_sync_def
  SYS_sem_open_def SYS_sem_wait_def SYS_sem_signal_def SYS_sem_close_def SYS_sem_gantt_def

lemma sem_entries:
  "syscalls SYS_sem_wait = Some (sem_call sys_sem_wait)"
  "syscalls SYS_sem_signal = Some (sem_call sys_sem_signal)"
  "syscalls SYS_sem_close = Some (sem_call sys_sem_close)"
  by (simp_all add: syscalls_def sys_numbers)

text \<open>
  C40. A user program cannot reach a semaphore that is not open: when the number in
  \<^verbatim>\<open>a7\<close> is that of \<^verbatim>\<open>sem_wait\<close>, \<^verbatim>\<open>sem_signal\<close> or
  \<^verbatim>\<open>sem_close\<close> and the argument is negative, beyond the table, or names a semaphore that is
  not active, the call stores -1 in \<^verbatim>\<open>a0\<close> of the process and changes nothing else.
\<close>

theorem sem_syscalls_reject:
  assumes "intr_ok s" "cproc (mycpu s) = Some p"
    and "sint (ucast (get_tf p tf_a7 s) :: uint32) \<in> {SYS_sem_wait, SYS_sem_signal, SYS_sem_close}"
    and "n = sint (ucast (get_tf p tf_a0 s) :: uint32)"
    and "n < 0 \<or> int NSEM \<le> n \<or> sem_active (sem_table s (nat n)) = 0"
  shows "syscall s = Ret () (set_tf p tf_a0 (- 1) s)"
proof -
  have arg: "argint 0 s = Ret n s" using assms(1,2,4) by (simp add: argint_def argraw_def curproc_ok)
  have bad: "sem_id_bad n s" using assms(5) by (simp add: sem_id_bad_def)
  have rej: "sem_call sys_sem_wait s = Ret (- 1) s" "sem_call sys_sem_signal s = Ret (- 1) s"
    "sem_call sys_sem_close s = Ret (- 1) s"
    by (simp_all add: sem_call_def arg ireg_def sys_sem_wait_def sys_sem_signal_def sys_sem_close_def bad)
  define k where "k = sint (ucast (get_tf p tf_a7 s) :: uint32)"
  have "\<exists>f. syscalls k = Some f \<and> f s = Ret (- 1) s"
    using assms(3) rej unfolding k_def [symmetric] by (auto simp: sem_entries)
  then obtain f where "syscalls k = Some f" "f s = Ret (- 1) s" by blast
  then show ?thesis by (simp only: syscall_def curproc_ok [OF assms(1,2)] kbind_simps Let_def k_def option.case)
qed

definition ex_sem_call :: trapst where
  "ex_sem_call = set_tf 0 tf_a0 3 (set_tf 0 tf_a7 25 ex)"

theorem sem_syscalls_reject_witness:
  "sem_active (sem_table ex_sem_call 3) = 0 \<and> syscall ex_sem_call = Ret () (set_tf 0 tf_a0 (- 1) ex_sem_call)"
proof -
  have a0: "get_tf 0 tf_a0 ex_sem_call = 3"
    by (simp add: ex_sem_call_def get_tf_def set_tf_def)
  have a7: "get_tf 0 tf_a7 ex_sem_call = 25"
    using load_store_entry [of "0x87004000" "0x87004000" 14 21 "store64 ex_phys (0x87004000 + 168) 25" 3]
    by (simp add: ex_sem_call_def get_tf_def set_tf_def tf_a0_def tf_a7_def entry_def aligned_def ex_def ex_proc_def)
  have act: "sem_active (sem_table ex_sem_call 3) = 0"
    by (simp add: ex_sem_call_def set_tf_def ex_def)
  have calm: "intr_ok ex_sem_call" "cproc (mycpu ex_sem_call) = Some 0"
    by (simp_all add: ex_sem_call_def set_tf_def ex_def intr_ok_def mach_defs)
  show ?thesis using act sem_syscalls_reject [OF calm _ refl] by (simp add: a0 a7 sys_numbers)
qed

end
